(* ===== verification/Prelude.thy ===== *)
theory Prelude
  imports Main "HOL-Library.Word" "HOL-Library.Sublist"
begin

text \<open>
  Shared vocabulary of the development.

  \<^item> Machine types: \<open>u8\<close>, \<open>u32\<close>, \<open>u64\<close> and \<open>i64\<close> are words of that width, so a field keeps the
    width the Rust struct gives it. A \<open>usize\<close> offset into a buffer is a \<open>nat\<close>; where the code lets
    a \<open>usize\<close> sum wrap (release arithmetic on a 64-bit target) the wrap is written out.
  \<^item> Results: a Rust \<open>Result<T, E>\<close> is \<open>E + T\<close>, with \<open>Inl\<close> for \<open>Err\<close>; \<open>and_then\<close> is the \<open>?\<close> operator.
  \<^item> Errors of \<open>src/format/mod.rs\<close> and its bounds-checked fixed-width readers.
  \<^item> Little-endian encodings (\<open>to_le_bytes\<close>, \<open>from_le_bytes\<close>) and their two round-trip laws.
  \<^item> UTF-8 validity, as \<open>std::str::from_utf8\<close> checks it.
\<close>

unbundle bit_operations_syntax

section \<open>Machine types and results\<close>

type_synonym u8 = "8 word"
type_synonym u32 = "32 word"
type_synonym u64 = "64 word"
type_synonym i64 = "64 word"
type_synonym bytes = "u8 list"

named_theorems rip_simps \<open>simplification rules of the result and byte layers\<close>

definition and_then :: "'e + 'a \<Rightarrow> ('a \<Rightarrow> 'e + 'b) \<Rightarrow> 'e + 'b" where
  "and_then r f = (case r of Inl e \<Rightarrow> Inl e | Inr x \<Rightarrow> f x)"

lemma and_then_simps [simp, code]:
  "and_then (Inl e) f = Inl e"
  "and_then (Inr x) f = f x"
  by (simp_all add: and_then_def)

lemma and_then_cong [fundef_cong]:
  "r = r' \<Longrightarrow> (\<And>x. r' = Inr x \<Longrightarrow> f x = g x) \<Longrightarrow> and_then r f = and_then r' g"
  by (cases r') simp_all

lemma and_then_Inr_iff: "and_then r f = Inr y \<longleftrightarrow> (\<exists>x. r = Inr x \<and> f x = Inr y)"
  by (cases r) auto

lemma and_then_InrE [elim!]:
  assumes "and_then r f = Inr y"
  obtains x where "r = Inr x" and "f x = Inr y"
  using assms by (cases r) auto

text \<open>\<open>if c { return Err(e) }\<close>: the check fails with \<open>e\<close> when the condition holds.\<close>

definition fail_if :: "bool \<Rightarrow> 'e \<Rightarrow> 'e + unit" where
  "fail_if c e = (if c then Inl e else Inr ())"

lemma fail_if_simps [simp]:
  "fail_if True e = Inl e"
  "fail_if False e = Inr ()"
  "fail_if c e = Inr u \<longleftrightarrow> \<not> c"
  by (simp_all add: fail_if_def)

text \<open>\<open>.ok_or(e)\<close> on an option.\<close>

definition ok_or :: "'a option \<Rightarrow> 'e \<Rightarrow> 'e + 'a" where
  "ok_or x e = (case x of None \<Rightarrow> Inl e | Some y \<Rightarrow> Inr y)"

lemma ok_or_simps [simp]:
  "ok_or None e = Inl e"
  "ok_or (Some y) e = Inr y"
  "ok_or x e = Inr z \<longleftrightarrow> x = Some z"
  by (simp_all add: ok_or_def split: option.splits)

text \<open>\<open>.ok()\<close> on a result.\<close>

definition ok :: "'e + 'a \<Rightarrow> 'a option" where
  "ok r = (case r of Inl _ \<Rightarrow> None | Inr x \<Rightarrow> Some x)"

lemma ok_simps [simp]:
  "ok (Inl e) = None"
  "ok (Inr x) = Some x"
  "ok r = Some z \<longleftrightarrow> r = Inr z"
  by (simp_all add: ok_def split: sum.splits)

section \<open>Decimal and error messages\<close>

fun show_nat :: "nat \<Rightarrow> string" where
  "show_nat n = (if n < 10 then [char_of (48 + n)] else show_nat (n div 10) @ [char_of (48 + n mod 10)])"

declare show_nat.simps [simp del]

text \<open>\<open>FormatError\<close>. The sizes and offsets of \<open>Truncated\<close> are \<open>usize\<close> values.\<close>

datatype format_error =
    Truncated nat nat          \<comment> \<open>at, needed\<close>
  | BadMagic
  | Version u32
  | Corrupt string
  | Checksum u32 u32           \<comment> \<open>stored, computed\<close>
  | Invariant string

type_synonym 'a fresult = "format_error + 'a"

section \<open>Little-endian integers\<close>

definition le_bytes :: "nat \<Rightarrow> 'a::len word \<Rightarrow> bytes" where
  "le_bytes n w = map (\<lambda>i. ucast (drop_bit (8 * i) w)) [0..<n]"

fun le_word :: "bytes \<Rightarrow> 'a::len word" where
  "le_word [] = 0"
| "le_word (b # bs) = ucast b OR push_bit 8 (le_word bs)"

lemma length_le_bytes [simp]: "length (le_bytes n w) = n"
  by (simp add: le_bytes_def)

lemma bit_le_word:
  "bit (le_word bs :: 'a::len word) n \<longleftrightarrow>
     n < LENGTH('a) \<and> n div 8 < length bs \<and> bit (bs ! (n div 8)) (n mod 8)"
proof (induction bs arbitrary: n)
  case Nil
  then show ?case by simp
next
  case (Cons b bs)
  show ?case
  proof (cases "n < 8")
    case True
    then show ?thesis by (simp add: bit_simps)
  next
    case False
    then obtain m where m: "n = m + 8" by (metis add.commute le_Suc_ex not_le)
    have "\<not> bit b n" using False by (auto dest: bit_imp_le_length)
    moreover have "(m + 8) div 8 = Suc (m div 8)" by simp
    ultimately show ?thesis using Cons[of m] m by (auto simp: bit_simps simp del: div_add_self2)
  qed
qed

lemma le_word_le_bytes: "LENGTH('a) = 8 * n \<Longrightarrow> le_word (le_bytes n w) = (w :: 'a::len word)"
  by (rule bit_word_eqI) (auto simp: bit_le_word le_bytes_def bit_simps)

lemma le_bytes_le_word:
  assumes "length bs = n" and "LENGTH('a) = 8 * n"
  shows "le_bytes n (le_word bs :: 'a::len word) = bs"
proof (rule nth_equalityI)
  show "length (le_bytes n (le_word bs :: 'a word)) = length bs" using assms by simp
next
  fix i assume "i < length (le_bytes n (le_word bs :: 'a word))"
  then have i: "i < n" by simp
  show "le_bytes n (le_word bs :: 'a word) ! i = bs ! i"
  proof (rule bit_word_eqI)
    fix k assume k: "k < LENGTH(8)"
    have "8 * i + k < 8 * n" using i k by simp
    then show "bit (le_bytes n (le_word bs :: 'a word) ! i) k = bit (bs ! i) k"
      using i k assms by (simp add: le_bytes_def bit_simps bit_le_word)
  qed
qed

lemma le_word_u32 [simp]: "le_word (le_bytes 4 w) = (w :: u32)"
  by (rule le_word_le_bytes) simp

lemma le_word_u64 [simp]: "le_word (le_bytes 8 w) = (w :: u64)"
  by (rule le_word_le_bytes) simp

lemma le_bytes_u32: "length bs = 4 \<Longrightarrow> le_bytes 4 (le_word bs :: u32) = bs"
  by (rule le_bytes_le_word) simp_all

lemma le_bytes_u64: "length bs = 8 \<Longrightarrow> le_bytes 8 (le_word bs :: u64) = bs"
  by (rule le_bytes_le_word) simp_all

lemma ex_bit: "w \<noteq> 0 \<Longrightarrow> \<exists>k. bit (w :: 'a::len word) k"
  by (rule ccontr) (auto intro: bit_word_eqI)

lemma unat_bounds:
  "unat (a :: u8) < 256"
  "unat (b :: u32) < 4294967296"
  "unat (c :: u64) < 18446744073709551616"
proof -
  have "unat a < 2 ^ LENGTH(8)" by (rule unsigned_less)
  then show "unat a < 256" by simp
  have "unat b < 2 ^ LENGTH(32)" by (rule unsigned_less)
  then show "unat b < 4294967296" by simp
  have "unat c < 2 ^ LENGTH(64)" by (rule unsigned_less)
  then show "unat c < 18446744073709551616" by simp
qed

section \<open>Bounds-checked reads (format/mod.rs)\<close>

text \<open>
  \<open>slice(buf, at, len)\<close>. A range past the end and an overflow of \<open>at + len\<close> give the same error; a Rust
  slice never reaches \<open>2^63\<close> bytes, so on offsets kept as \<open>nat\<close> the overflow is one of the ranges past
  the end.
\<close>

definition slice :: "'a list \<Rightarrow> nat \<Rightarrow> nat \<Rightarrow> 'a list fresult" where
  "slice buf at len =
     (if at + len \<le> length buf then Inr (take len (drop at buf)) else Inl (Truncated at len))"

definition read_u32_le :: "bytes \<Rightarrow> nat \<Rightarrow> u32 fresult" where
  "read_u32_le buf at = and_then (slice buf at 4) (\<lambda>s. Inr (le_word s))"

definition read_u64_le :: "bytes \<Rightarrow> nat \<Rightarrow> u64 fresult" where
  "read_u64_le buf at = and_then (slice buf at 8) (\<lambda>s. Inr (le_word s))"

definition read_i64_le :: "bytes \<Rightarrow> nat \<Rightarrow> i64 fresult" where
  "read_i64_le buf at = and_then (slice buf at 8) (\<lambda>s. Inr (le_word s))"

text \<open>\<open>usize::try_from\<close> cannot fail where \<open>usize\<close> has 64 bits.\<close>

definition to_usize :: "u64 \<Rightarrow> nat fresult" where
  "to_usize v = (if unat v < 2 ^ 64 then Inr (unat v) else Inl (Corrupt ''offset exceeds address space''))"

lemma to_usize_Inr [simp]: "to_usize v = Inr (unat v)"
  using unsigned_less [of v] by (simp add: to_usize_def)

text \<open>\<open>[T]::get(a..b)\<close> with \<open>a \<le> b\<close>.\<close>

definition get_range :: "'a list \<Rightarrow> nat \<Rightarrow> nat \<Rightarrow> 'a list option" where
  "get_range xs a b = (if a \<le> b \<and> b \<le> length xs then Some (take (b - a) (drop a xs)) else None)"

text \<open>\<open>usize\<close> addition as the release build performs it: modulo \<open>2^64\<close>.\<close>

definition usize_add :: "nat \<Rightarrow> nat \<Rightarrow> nat" where
  "usize_add a b = (a + b) mod 2 ^ 64"

lemma usize_add_small: "a + b < 2 ^ 64 \<Longrightarrow> usize_add a b = a + b"
  by (simp add: usize_add_def)

definition peek32 :: "bytes \<Rightarrow> nat \<Rightarrow> u32" where
  "peek32 buf at = le_word (take 4 (drop at buf))"

definition peek64 :: "bytes \<Rightarrow> nat \<Rightarrow> u64" where
  "peek64 buf at = le_word (take 8 (drop at buf))"

lemma slice_Inr_iff: "slice buf at len = Inr s \<longleftrightarrow> at + len \<le> length buf \<and> s = take len (drop at buf)"
  by (auto simp: slice_def)

lemma slice_ok [simp]: "at + len \<le> length buf \<Longrightarrow> slice buf at len = Inr (take len (drop at buf))"
  by (simp add: slice_def)

lemma slice_truncated: "length buf < at + len \<Longrightarrow> slice buf at len = Inl (Truncated at len)"
  by (simp add: slice_def)

lemma read_le_ok [simp]:
  "at + 4 \<le> length buf \<Longrightarrow> read_u32_le buf at = Inr (peek32 buf at)"
  "at + 8 \<le> length buf \<Longrightarrow> read_u64_le buf at = Inr (peek64 buf at)"
  "at + 8 \<le> length buf \<Longrightarrow> read_i64_le buf at = Inr (peek64 buf at)"
  by (simp_all add: read_u32_le_def read_u64_le_def read_i64_le_def peek32_def peek64_def)

lemma read_le_Inr_iff:
  "read_u32_le buf at = Inr v \<longleftrightarrow> at + 4 \<le> length buf \<and> v = peek32 buf at"
  "read_u64_le buf at = Inr w \<longleftrightarrow> at + 8 \<le> length buf \<and> w = peek64 buf at"
  "read_i64_le buf at = Inr w \<longleftrightarrow> at + 8 \<le> length buf \<and> w = peek64 buf at"
  by (auto simp: read_u32_le_def read_u64_le_def read_i64_le_def slice_def peek32_def peek64_def)

text \<open>Reading a concatenation: move past what lies before the offset.\<close>

lemma peek_skip [simp]:
  "length xs \<le> at \<Longrightarrow> peek32 (xs @ ys) at = peek32 ys (at - length xs)"
  "length xs \<le> at \<Longrightarrow> peek64 (xs @ ys) at = peek64 ys (at - length xs)"
  by (simp_all add: peek32_def peek64_def)

lemma peek_here [simp]:
  "peek32 (le_bytes 4 w @ ys) 0 = w"
  "peek64 (le_bytes 8 v @ ys) 0 = v"
  "peek32 (le_bytes 4 w) 0 = w"
  "peek64 (le_bytes 8 v) 0 = v"
  by (simp_all add: peek32_def peek64_def)

lemma peek_within:
  "at + 4 \<le> length xs \<Longrightarrow> peek32 (xs @ ys) at = peek32 xs at"
  "at + 8 \<le> length xs \<Longrightarrow> peek64 (xs @ ys) at = peek64 xs at"
  by (simp_all add: peek32_def peek64_def)

lemma peek_drop:
  "peek32 (drop k xs) at = peek32 xs (k + at)"
  "peek64 (drop k xs) at = peek64 xs (k + at)"
  by (simp_all add: peek32_def peek64_def add.commute)

lemma peek_take:
  "at + 4 \<le> k \<Longrightarrow> peek32 (take k xs) at = peek32 xs at"
  "at + 8 \<le> k \<Longrightarrow> peek64 (take k xs) at = peek64 xs at"
  by (simp_all add: peek32_def peek64_def drop_take min_def)

lemma take_drop_le_bytes:
  "at + 4 \<le> length xs \<Longrightarrow> take 4 (drop at xs) = le_bytes 4 (peek32 xs at)"
  "at + 8 \<le> length xs \<Longrightarrow> take 8 (drop at xs) = le_bytes 8 (peek64 xs at)"
  by (simp_all add: peek32_def peek64_def le_bytes_u32 le_bytes_u64)

text \<open>Cutting one field off the rest of a buffer, for the converse of a round trip.\<close>

lemma drop_split:
  "k + 4 \<le> length xs \<Longrightarrow> drop k xs = le_bytes 4 (peek32 xs k) @ drop (k + 4) xs"
  "k + 8 \<le> length xs \<Longrightarrow> drop k xs = le_bytes 8 (peek64 xs k) @ drop (k + 8) xs"
  using append_take_drop_id [of 4 "drop k xs"] append_take_drop_id [of 8 "drop k xs"]
  by (simp_all add: take_drop_le_bytes add.commute)

text \<open>\<open>dst[at..at + src.len()].copy_from_slice(src)\<close>.\<close>

definition copy_at :: "'a list \<Rightarrow> nat \<Rightarrow> 'a list \<Rightarrow> 'a list" where
  "copy_at dst at src = take at dst @ src @ drop (at + length src) dst"

lemma copy_at_append:
  "length xs = at \<Longrightarrow> length src = length old \<Longrightarrow> copy_at (xs @ old @ ys) at src = xs @ src @ ys"
  by (simp add: copy_at_def)

lemma length_copy_at [simp]:
  "at + length src \<le> length dst \<Longrightarrow> length (copy_at dst at src) = length dst"
  by (simp add: copy_at_def)

lemma copy_at_copy_at:
  assumes "k = at + length a" and "k + length b \<le> length dst"
  shows "copy_at (copy_at dst at a) k b = copy_at dst at (a @ b)"
proof -
  have "at \<le> length dst" "k \<le> length dst" using assms by simp_all
  then show ?thesis using assms(1)
    by (cases a) (auto simp: copy_at_def min_def drop_drop add.assoc add.left_commute add.commute)
qed

lemma copy_at_next:
  "length pre = at \<Longrightarrow> length src \<le> length old \<Longrightarrow>
     copy_at (pre @ old) at src = (pre @ src) @ drop (length src) old"
  by (simp add: copy_at_def)

section \<open>Fixed-width records and string heaps\<close>

text \<open>
  The tables of the \<open>.doc\<close> and \<open>.ovl\<close> files: fixed-width records in order, and a heap that concatenates
  the strings they point into.
\<close>

lemma nth_record:
  assumes "\<forall>r \<in> set rs. length r = w" and "i < length rs"
  shows "take w (drop (i * w) (concat rs @ rest)) = rs ! i \<and> i * w + w \<le> length (concat rs)"
  using assms
proof (induction rs arbitrary: i)
  case Nil
  then show ?case by simp
next
  case (Cons r rs)
  then show ?case by (cases i) (auto simp: add.commute)
qed

lemma length_records: "\<forall>r \<in> set rs. length r = w \<Longrightarrow> length (concat rs) = length rs * w"
  by (induction rs) simp_all

lemma peek_record:
  assumes "\<forall>r \<in> set rs. length r = w" and "i < length rs" and "length hdr = h"
  shows "k + 4 \<le> w \<Longrightarrow> peek32 (hdr @ concat rs @ rest) (h + i * w + k) = peek32 (rs ! i) k"
    and "k + 8 \<le> w \<Longrightarrow> peek64 (hdr @ concat rs @ rest) (h + i * w + k) = peek64 (rs ! i) k"
    and "k < w \<Longrightarrow> (hdr @ concat rs @ rest) ! (h + i * w + k) = (rs ! i) ! k"
    and "h + i * w + w \<le> length (hdr @ concat rs)"
proof -
  define ys where "ys = drop (i * w) (concat rs @ rest)"
  note n = nth_record [OF assms(1,2), of rest]
  have t: "take w ys = rs ! i" using n by (simp only: ys_def)
  have l: "h + i * w + w \<le> length (hdr @ concat rs)" using n assms(3) by simp
  have d: "drop (h + i * w) (hdr @ concat rs @ rest) = ys"
    using assms(3) by (simp add: ys_def)
  show "k + 4 \<le> w \<Longrightarrow> peek32 (hdr @ concat rs @ rest) (h + i * w + k) = peek32 (rs ! i) k"
    using peek_take(1) [of k w ys] by (simp only: peek_drop(1) [symmetric] d t)
  show "k + 8 \<le> w \<Longrightarrow> peek64 (hdr @ concat rs @ rest) (h + i * w + k) = peek64 (rs ! i) k"
    using peek_take(2) [of k w ys] by (simp only: peek_drop(2) [symmetric] d t)
  show "k < w \<Longrightarrow> (hdr @ concat rs @ rest) ! (h + i * w + k) = (rs ! i) ! k"
  proof -
    assume k: "k < w"
    have "h + i * w \<le> length (hdr @ concat rs @ rest)" using l by simp
    then have "(hdr @ concat rs @ rest) ! (h + i * w + k) = ys ! k"
      unfolding d [symmetric] by (rule nth_drop [symmetric])
    also have "\<dots> = take w ys ! k" using k by (rule nth_take [symmetric])
    finally show ?thesis by (simp only: t)
  qed
  show "h + i * w + w \<le> length (hdr @ concat rs)" by (rule l)
qed

definition heap_off :: "'a list list \<Rightarrow> nat \<Rightarrow> nat" where
  "heap_off xs i = length (concat (take i xs))"

lemma heap_get:
  assumes "i < length xs"
  shows "get_range (concat xs) (heap_off xs i) (heap_off xs i + length (xs ! i)) = Some (xs ! i)"
proof -
  have "concat xs = concat (take i xs) @ xs ! i @ concat (drop (Suc i) xs)"
    using id_take_nth_drop [OF assms] by (metis concat.simps(2) concat_append)
  then show ?thesis by (simp add: get_range_def heap_off_def)
qed

lemma heap_off_Suc: "i < length xs \<Longrightarrow> heap_off xs (Suc i) = heap_off xs i + length (xs ! i)"
  by (simp add: heap_off_def take_Suc_conv_app_nth)

lemma heap_off_le: "i < length xs \<Longrightarrow> heap_off xs i + length (xs ! i) \<le> length (concat xs)"
proof -
  assume "i < length xs"
  then have "concat xs = concat (take (Suc i) xs) @ concat (drop (Suc i) xs)"
    by (metis append_take_drop_id concat_append)
  then have "heap_off xs (Suc i) \<le> length (concat xs)" by (metis heap_off_def le_add1 length_append)
  then show ?thesis using \<open>i < length xs\<close> by (simp add: heap_off_Suc)
qed

section \<open>UTF-8\<close>

definition cont_byte :: "u8 \<Rightarrow> bool" where
  "cont_byte b \<longleftrightarrow> 0x80 \<le> b \<and> b \<le> 0xBF"

text \<open>\<open>std::str::from_utf8(..).is_ok()\<close>: the well-formed byte sequences of the Unicode standard.\<close>

fun utf8_valid :: "bytes \<Rightarrow> bool" where
  "utf8_valid [] = True"
| "utf8_valid (a # r) =
    (if a < 0x80 then utf8_valid r
     else if 0xC2 \<le> a \<and> a \<le> 0xDF then
       (case r of b # r1 \<Rightarrow> cont_byte b \<and> utf8_valid r1 | _ \<Rightarrow> False)
     else if 0xE0 \<le> a \<and> a \<le> 0xEF then
       (case r of b # c # r2 \<Rightarrow>
          (if a = 0xE0 then 0xA0 \<le> b \<and> b \<le> 0xBF
           else if a = 0xED then 0x80 \<le> b \<and> b \<le> 0x9F else cont_byte b)
          \<and> cont_byte c \<and> utf8_valid r2
        | _ \<Rightarrow> False)
     else if 0xF0 \<le> a \<and> a \<le> 0xF4 then
       (case r of b # c # d # r3 \<Rightarrow>
          (if a = 0xF0 then 0x90 \<le> b \<and> b \<le> 0xBF
           else if a = 0xF4 then 0x80 \<le> b \<and> b \<le> 0x8F else cont_byte b)
          \<and> cont_byte c \<and> cont_byte d \<and> utf8_valid r3
        | _ \<Rightarrow> False)
     else False)"

declare utf8_valid.simps(2) [simp del]

text \<open>\<open>str::from_utf8(s).ok()\<close>; a \<open>&str\<close> is kept as its bytes.\<close>

definition from_utf8 :: "bytes \<Rightarrow> bytes option" where
  "from_utf8 s = (if utf8_valid s then Some s else None)"

lemma from_utf8_Some [simp]: "from_utf8 s = Some t \<longleftrightarrow> utf8_valid s \<and> t = s"
  by (auto simp: from_utf8_def)

section \<open>Lists\<close>

lemma sorted_wrt_less_distinct: "sorted_wrt (<) (xs :: 'a::linorder list) \<Longrightarrow> distinct xs"
  using strict_sorted_iff by blast

lemma partition_point_takeWhile:
  "sorted_wrt (<) (xs :: 'a::linorder list) \<Longrightarrow>
     length (takeWhile (\<lambda>x. x < t) xs) = length (filter (\<lambda>x. x < t) xs)"
proof (induction xs)
  case Nil
  then show ?case by simp
next
  case (Cons x xs)
  then show ?case by (cases "x < t") (auto simp: filter_empty_conv)
qed

end
