(* ===== verification/Envelope.thy ===== *)
theory Envelope
  imports Prelude
begin

text \<open>
  The 16-byte header and 16-byte footer shared by every file (\<open>src/format/envelope.rs\<close>). The checksum
  \<open>crc32fast::hash\<close> is third-party code: every definition that uses it takes it as the argument \<open>crc\<close>.
  A \<open>Range<usize>\<close> is the pair of its ends.

  Main facts: \<open>envelope_parse_seal\<close> (what \<open>seal\<close> writes, \<open>envelope_parse_verified\<close> accepts, with the body's
  range) and its converse \<open>envelope_parse_sound\<close> (whatever \<open>envelope_parse_verified\<close> accepts is exactly a sealed
  body), and the streaming writer agreeing with \<open>seal\<close>.
\<close>

definition HEADER_LEN :: nat where "HEADER_LEN = 16"
definition FOOTER_LEN :: nat where "FOOTER_LEN = 16"
definition FORMAT_VERSION :: u32 where "FORMAT_VERSION = 2"

text \<open>Byte-string literals: ASCII code points.\<close>

definition ascii :: "string \<Rightarrow> bytes" where
  "ascii s = map (\<lambda>c. of_nat (of_char c)) s"

definition FOOTER_MAGIC :: bytes where "FOOTER_MAGIC = ascii ''FSRF''"

datatype kind = KManifest | KIdx | KDoc | KDel | KOverlay

fun magic :: "kind \<Rightarrow> bytes" where
  "magic KManifest = ascii ''FSRCHMAN''"
| "magic KIdx = ascii ''FSRCHIDX''"
| "magic KDoc = ascii ''FSRCHDOC''"
| "magic KDel = ascii ''FSRCHDEL''"
| "magic KOverlay = ascii ''FSRCHOVL''"

definition header :: "kind \<Rightarrow> bytes" where
  "header k =
     (let h = replicate HEADER_LEN 0;
          h = copy_at h 0 (magic k)
      in copy_at h 8 (le_bytes 4 FORMAT_VERSION))"

definition footer :: "u64 \<Rightarrow> u32 \<Rightarrow> bytes" where
  "footer body_len crc =
     (let f = replicate FOOTER_LEN 0;
          f = copy_at f 0 (le_bytes 8 body_len);
          f = copy_at f 8 (le_bytes 4 crc)
      in copy_at f 12 FOOTER_MAGIC)"

definition seal :: "(bytes \<Rightarrow> u32) \<Rightarrow> kind \<Rightarrow> bytes \<Rightarrow> bytes" where
  "seal crc k body = header k @ body @ footer (of_nat (length body)) (crc body)"

record envelope =
  env_body :: "nat \<times> nat"
  env_crc :: u32

definition body_of :: "bytes \<Rightarrow> envelope \<Rightarrow> bytes" where
  "body_of bs env = (case env_body env of (a, b) \<Rightarrow> take (b - a) (drop a bs))"

definition envelope_parse :: "kind \<Rightarrow> bytes \<Rightarrow> envelope fresult" where
  "envelope_parse k bs =
     and_then (fail_if (length bs < HEADER_LEN + FOOTER_LEN) (Truncated 0 (HEADER_LEN + FOOTER_LEN))) (\<lambda>_.
     and_then (fail_if (take 8 bs \<noteq> magic k) BadMagic) (\<lambda>_.
     and_then (read_u32_le bs 8) (\<lambda>version.
     and_then (fail_if (version \<noteq> FORMAT_VERSION) (Version version)) (\<lambda>_.
     and_then (read_u32_le bs 12) (\<lambda>flags.
     and_then (fail_if (flags \<noteq> 0) (Corrupt ''non-zero header flags'')) (\<lambda>_.
     let footer_at = length bs - FOOTER_LEN in
     and_then (fail_if (drop (footer_at + 12) bs \<noteq> FOOTER_MAGIC) (Corrupt ''bad footer magic'')) (\<lambda>_.
     and_then (read_u64_le bs footer_at) (\<lambda>body_len.
     and_then (fail_if (body_len \<noteq> of_nat (length bs - HEADER_LEN - FOOTER_LEN))
       (Corrupt (''body_len '' @ show_nat (unat body_len) @ '' does not match file length '' @ show_nat (length bs)))) (\<lambda>_.
     and_then (read_u32_le bs (footer_at + 8)) (\<lambda>c.
     Inr \<lparr>env_body = (HEADER_LEN, footer_at), env_crc = c\<rparr>))))))))))"

definition verify_crc :: "(bytes \<Rightarrow> u32) \<Rightarrow> bytes \<Rightarrow> envelope \<Rightarrow> unit fresult" where
  "verify_crc crc bs env =
     (let computed = crc (body_of bs env)
      in if computed \<noteq> env_crc env then Inl (Checksum (env_crc env) computed) else Inr ())"

definition envelope_parse_verified :: "(bytes \<Rightarrow> u32) \<Rightarrow> kind \<Rightarrow> bytes \<Rightarrow> envelope fresult" where
  "envelope_parse_verified crc k bs =
     and_then (envelope_parse k bs) (\<lambda>env.
     and_then (verify_crc crc bs env) (\<lambda>_. Inr env))"

section \<open>Header and footer as byte lists\<close>

lemma length_ascii [simp]: "length (ascii s) = length s"
  by (simp add: ascii_def)

lemma length_magic [simp]: "length (magic k) = 8"
  by (cases k) simp_all

lemma length_FOOTER_MAGIC [simp]: "length FOOTER_MAGIC = 4"
  by (simp add: FOOTER_MAGIC_def)

lemma header_eq: "header k = magic k @ le_bytes 4 FORMAT_VERSION @ le_bytes 4 (0 :: u32)"
  by (simp add: header_def copy_at_def HEADER_LEN_def le_bytes_def eval_nat_numeral)

lemma footer_eq: "footer n c = le_bytes 8 n @ le_bytes 4 c @ FOOTER_MAGIC"
  by (simp add: footer_def copy_at_def FOOTER_LEN_def)

lemma length_header [simp]: "length (header k) = 16"
  by (simp add: header_eq)

lemma length_footer [simp]: "length (footer n c) = 16"
  by (simp add: footer_eq)

lemma length_seal [simp]: "length (seal crc k body) = length body + 32"
  by (simp add: seal_def)

section \<open>Parsing what was sealed\<close>

lemma body_of_sealed [simp]:
  "body_of (header k @ body @ f) \<lparr>env_body = (16, 16 + length body), env_crc = c\<rparr> = body"
  by (simp add: body_of_def)

lemma envelope_parse_framed:
  "envelope_parse k (header k @ body @ footer (of_nat (length body)) c) =
     Inr \<lparr>env_body = (16, 16 + length body), env_crc = c\<rparr>"
proof -
  let ?bs = "header k @ body @ footer (of_nat (length body)) c"
  have "take 8 ?bs = magic k" by (simp add: header_eq)
  moreover have "peek32 ?bs 8 = FORMAT_VERSION" "peek32 ?bs 12 = 0" by (simp_all add: header_eq)
  moreover have "drop (16 + length body + 12) ?bs = FOOTER_MAGIC" by (simp add: footer_eq)
  moreover have "peek64 ?bs (16 + length body) = of_nat (length body)" by (simp add: footer_eq)
  moreover have "peek32 ?bs (16 + length body + 8) = c" by (simp add: footer_eq)
  ultimately show ?thesis
    by (simp add: envelope_parse_def Let_def HEADER_LEN_def FOOTER_LEN_def)
qed

text \<open>The converse: a file the structural checks accept has exactly this shape.\<close>

lemma envelope_parse_facts:
  assumes "envelope_parse k bs = Inr env"
  shows "32 \<le> length bs" and "take 8 bs = magic k" and "peek32 bs 8 = FORMAT_VERSION"
    and "peek32 bs 12 = 0" and "drop (length bs - 4) bs = FOOTER_MAGIC"
    and "peek64 bs (length bs - 16) = of_nat (length bs - 32)"
    and "env = \<lparr>env_body = (16, length bs - 16), env_crc = peek32 bs (length bs - 8)\<rparr>"
proof -
  have len: "32 \<le> length bs"
    using assms by (auto simp: envelope_parse_def HEADER_LEN_def FOOTER_LEN_def)
  then have off: "length bs - 16 + 12 = length bs - 4" "length bs - 16 + 8 = length bs - 8" by simp_all
  show "32 \<le> length bs" "take 8 bs = magic k" "peek32 bs 8 = FORMAT_VERSION"
    "peek32 bs 12 = 0" "drop (length bs - 4) bs = FOOTER_MAGIC"
    "peek64 bs (length bs - 16) = of_nat (length bs - 32)"
    "env = \<lparr>env_body = (16, length bs - 16), env_crc = peek32 bs (length bs - 8)\<rparr>"
    using assms len
    by (auto simp: envelope_parse_def Let_def HEADER_LEN_def FOOTER_LEN_def off)
qed

lemma envelope_parse_shape:
  assumes "envelope_parse k bs = Inr env"
  obtains body where
    "bs = header k @ body @ footer (of_nat (length body)) (env_crc env)"
    "env_body env = (16, 16 + length body)"
    "body_of bs env = body"
proof
  note f = envelope_parse_facts [OF assms]
  let ?body = "take (length bs - 32) (drop 16 bs)"
  have off: "length bs - 16 + 12 = length bs - 4" "length bs - 16 + 8 = length bs - 8" using f(1) by simp_all
  have "take (8 + 4 + 4) bs = (take 8 bs @ take 4 (drop 8 bs)) @ take 4 (drop (8 + 4) bs)"
    by (simp only: take_add)
  then have head: "take 16 bs = header k"
    using f(1,2,3,4) by (simp add: header_eq take_drop_le_bytes)
  have "drop (length bs - 16) bs = take 8 (drop (length bs - 16) bs) @ drop 8 (drop (length bs - 16) bs)"
    by (rule append_take_drop_id [symmetric])
  also have "drop 8 (drop (length bs - 16) bs) = drop (length bs - 8) bs" using off by (simp add: add.commute)
  also have "\<dots> = take 4 (drop (length bs - 8) bs) @ drop 4 (drop (length bs - 8) bs)"
    by (rule append_take_drop_id [symmetric])
  also have "drop 4 (drop (length bs - 8) bs) = drop (length bs - 4) bs" using f(1) by (simp add: add.commute)
  finally have tail: "drop (length bs - 16) bs = footer (of_nat (length ?body)) (env_crc env)"
    using f(1,5,6,7) by (simp add: footer_eq take_drop_le_bytes)
  have "bs = take 16 bs @ take (length bs - 32) (drop 16 bs) @ drop (length bs - 32) (drop 16 bs)"
    by (simp only: append_take_drop_id)
  then show "bs = header k @ ?body @ footer (of_nat (length ?body)) (env_crc env)"
    using head tail f(1) by simp
  show "env_body env = (16, 16 + length ?body)" "body_of bs env = ?body"
    using f(1,7) by (simp_all add: body_of_def)
qed

text \<open>The envelope of a sealed body, kept folded so that the simplifier moves from file to body.\<close>

definition sealed_env :: "(bytes \<Rightarrow> u32) \<Rightarrow> bytes \<Rightarrow> envelope" where
  "sealed_env crc body = \<lparr>env_body = (HEADER_LEN, HEADER_LEN + length body), env_crc = crc body\<rparr>"

lemma sealed_env_simps [simp]:
  "env_body (sealed_env crc body) = (16, 16 + length body)"
  "env_crc (sealed_env crc body) = crc body"
  "body_of (seal crc k body) (sealed_env crc body) = body"
  by (simp_all add: sealed_env_def HEADER_LEN_def seal_def)

lemma envelope_parse_of_seal [simp]:
  "envelope_parse k (seal crc k body) = Inr (sealed_env crc body)"
  by (simp add: seal_def envelope_parse_framed sealed_env_def HEADER_LEN_def)

text \<open>An offset in the file is one in the body, sixteen bytes on.\<close>

lemma peek_seal:
  "x + 4 \<le> length body \<Longrightarrow> peek32 (seal crc k body) (16 + x) = peek32 body x"
  "x + 8 \<le> length body \<Longrightarrow> peek64 (seal crc k body) (16 + x) = peek64 body x"
  by (simp_all add: seal_def peek_within)

lemma nth_seal: "x < length body \<Longrightarrow> seal crc k body ! (16 + x) = body ! x"
  by (simp add: seal_def nth_append)

lemma take_drop_seal:
  "a + n \<le> length body \<Longrightarrow> take n (drop (16 + a) (seal crc k body)) = take n (drop a body)"
  by (simp add: seal_def)

lemma verify_crc_sealed [simp]: "verify_crc crc (seal crc k body) (sealed_env crc body) = Inr ()"
  by (simp add: verify_crc_def)

theorem envelope_parse_seal:
  "envelope_parse_verified crc k (seal crc k body) = Inr (sealed_env crc body)"
  by (simp add: envelope_parse_verified_def)

lemma envelope_parse_verifiedE:
  assumes "envelope_parse_verified crc k bs = Inr env"
  obtains "bs = seal crc k (body_of bs env)" "env_body env = (16, 16 + length (body_of bs env))"
    "env_crc env = crc (body_of bs env)"
proof -
  from assms have p: "envelope_parse k bs = Inr env" and c: "env_crc env = crc (body_of bs env)"
    by (auto simp: envelope_parse_verified_def verify_crc_def Let_def split: if_splits)
  from p obtain body where "bs = header k @ body @ footer (of_nat (length body)) (env_crc env)"
    "env_body env = (16, 16 + length body)" "body_of bs env = body"
    by (rule envelope_parse_shape)
  with c show thesis by (intro that) (simp_all add: seal_def)
qed

theorem envelope_parse_sound:
  assumes "envelope_parse_verified crc k bs = Inr env"
  shows "bs = seal crc k (body_of bs env) \<and> env_crc env = crc (body_of bs env)"
  using assms by (rule envelope_parse_verifiedE) blast

lemma magic_inject [simp]: "magic k = magic k' \<longleftrightarrow> k = k'"
  by (cases k; cases k') (simp_all add: ascii_def)

text \<open>A file of one kind is never taken for another.\<close>

lemma envelope_parse_wrong_kind:
  "k \<noteq> k' \<Longrightarrow> envelope_parse_verified crc k' (seal crc k body) = Inl BadMagic"
  by (simp add: envelope_parse_verified_def envelope_parse_def seal_def header_eq HEADER_LEN_def FOOTER_LEN_def)

section \<open>The streaming writer\<close>

text \<open>
  \<open>BodyWriter\<close> over a writer that never fails (a \<open>Vec<u8>\<close>). The hasher is third-party state: it is kept
  as the bytes it has absorbed, since \<open>finalize\<close> is documented to give the checksum of their
  concatenation.
\<close>

record body_writer =
  bw_inner :: bytes
  bw_hasher :: bytes
  bw_len :: u64

definition bw_new :: "bytes \<Rightarrow> body_writer" where
  "bw_new inner = \<lparr>bw_inner = inner, bw_hasher = [], bw_len = 0\<rparr>"

definition bw_write_all :: "body_writer \<Rightarrow> bytes \<Rightarrow> body_writer" where
  "bw_write_all w buf = w\<lparr>bw_inner := bw_inner w @ buf, bw_hasher := bw_hasher w @ buf,
                         bw_len := bw_len w + of_nat (length buf)\<rparr>"

definition bw_finish :: "(bytes \<Rightarrow> u32) \<Rightarrow> body_writer \<Rightarrow> bytes \<times> u64 \<times> u32" where
  "bw_finish crc w = (bw_inner w, bw_len w, crc (bw_hasher w))"

lemma bw_write_all_new:
  "foldl bw_write_all (bw_new inner) bufs =
     \<lparr>bw_inner = inner @ concat bufs, bw_hasher = concat bufs, bw_len = of_nat (length (concat bufs))\<rparr>"
  by (induction bufs rule: rev_induct) (simp_all add: bw_new_def bw_write_all_def)

theorem streaming_matches_seal:
  "bw_finish crc (foldl bw_write_all (bw_new (header k)) bufs) = (w, n, c) \<Longrightarrow>
     w @ footer n c = seal crc k (concat bufs)"
  by (auto simp: bw_write_all_new bw_finish_def seal_def)

end
