(* ===== verification/Manifest.thy ===== *)
theory Manifest
  imports Envelope
begin

text \<open>
  The commit point (\<open>src/format/manifest.rs\<close>): the list of live segments with the lengths, checksums
  and counters of their files. \<open>manifest_ok\<close> is what \<open>Manifest::decode\<close> checks about a manifest beyond
  its bytes.

  Main facts: a well-formed manifest decodes to itself (\<open>manifest_roundtrip\<close>); a file that decodes is
  the encoding of a well-formed manifest (\<open>manifest_decode_sound\<close>), so decoding is the exact inverse;
  its segments own disjoint, ascending id ranges inside the \<open>u32\<close> id space.
\<close>

definition MAN_BODY_HEADER_LEN :: nat where "MAN_BODY_HEADER_LEN = 48"
definition ENTRY_LEN :: nat where "ENTRY_LEN = 80"

record segment_entry =
  segment_id :: u32
  del_gen :: u32
  base_doc :: u32
  num_docs :: u32
  num_deleted :: u32
  idx_crc :: u32
  doc_crc :: u32
  del_crc :: u32
  idx_len :: u64
  doc_len :: u64
  del_len :: u64
  num_tokens :: u64
  num_postings :: u64
  num_terms :: u64

record manifest =
  generation :: u64
  next_segment_id :: u32
  committed_unix_nanos :: i64
  state_gen :: u32
  state_crc :: u32
  state_len :: u64
  segments :: "segment_entry list"

definition entry_encode :: "segment_entry \<Rightarrow> bytes" where
  "entry_encode e =
     le_bytes 4 (segment_id e) @ le_bytes 4 (del_gen e) @ le_bytes 4 (base_doc e) @
     le_bytes 4 (num_docs e) @ le_bytes 4 (num_deleted e) @ le_bytes 4 (idx_crc e) @
     le_bytes 4 (doc_crc e) @ le_bytes 4 (del_crc e) @ le_bytes 8 (idx_len e) @
     le_bytes 8 (doc_len e) @ le_bytes 8 (del_len e) @ le_bytes 8 (num_tokens e) @
     le_bytes 8 (num_postings e) @ le_bytes 8 (num_terms e)"

definition entry_decode :: "bytes \<Rightarrow> nat \<Rightarrow> segment_entry fresult" where
  "entry_decode b at =
     and_then (read_u32_le b at) (\<lambda>sid.
     and_then (read_u32_le b (at + 4)) (\<lambda>dg.
     and_then (read_u32_le b (at + 8)) (\<lambda>bd.
     and_then (read_u32_le b (at + 12)) (\<lambda>nd.
     and_then (read_u32_le b (at + 16)) (\<lambda>ndel.
     and_then (read_u32_le b (at + 20)) (\<lambda>ic.
     and_then (read_u32_le b (at + 24)) (\<lambda>dc.
     and_then (read_u32_le b (at + 28)) (\<lambda>delc.
     and_then (read_u64_le b (at + 32)) (\<lambda>il.
     and_then (read_u64_le b (at + 40)) (\<lambda>dl.
     and_then (read_u64_le b (at + 48)) (\<lambda>dell.
     and_then (read_u64_le b (at + 56)) (\<lambda>ntok.
     and_then (read_u64_le b (at + 64)) (\<lambda>npost.
     and_then (read_u64_le b (at + 72)) (\<lambda>nterm.
     Inr \<lparr>segment_id = sid, del_gen = dg, base_doc = bd, num_docs = nd, num_deleted = ndel,
          idx_crc = ic, doc_crc = dc, del_crc = delc, idx_len = il, doc_len = dl, del_len = dell,
          num_tokens = ntok, num_postings = npost, num_terms = nterm\<rparr>))))))))))))))"

text \<open>One past the last global id: a \<open>u64\<close> sum of two \<open>u32\<close>s, which cannot overflow.\<close>

definition end_doc :: "segment_entry \<Rightarrow> nat" where
  "end_doc e = unat (base_doc e) + unat (num_docs e)"

definition live_docs :: "segment_entry \<Rightarrow> u32" where
  "live_docs e = num_docs e - num_deleted e"

definition total_bytes :: "segment_entry \<Rightarrow> u64" where
  "total_bytes e = idx_len e + doc_len e + del_len e"

definition manifest_encode :: "(bytes \<Rightarrow> u32) \<Rightarrow> manifest \<Rightarrow> bytes" where
  "manifest_encode crc m =
     (let body = le_bytes 8 (generation m) @ le_bytes 4 (next_segment_id m) @
            le_bytes 4 (of_nat (length (segments m)) :: u32) @ le_bytes 8 (committed_unix_nanos m) @
            le_bytes 4 (state_gen m) @ le_bytes 4 (state_crc m) @ le_bytes 8 (state_len m) @
            le_bytes 8 (0 :: u64);
          body = foldl (\<lambda>out s. out @ entry_encode s) body (segments m)
      in seal crc KManifest body)"

text \<open>The per-entry checks of the decoding loop, against the entries read so far.\<close>

definition check_entry :: "u32 \<Rightarrow> segment_entry list \<Rightarrow> segment_entry \<Rightarrow> unit fresult" where
  "check_entry next_id segs e =
     and_then (fail_if (next_id \<le> segment_id e) (Corrupt ''segment id not below next_segment_id'')) (\<lambda>_.
     and_then (if segs = [] then Inr ()
               else let prev = last segs in
                 and_then (fail_if (unat (base_doc e) < end_doc prev)
                   (Corrupt ''segment doc ranges overlap or are unordered'')) (\<lambda>_.
                 fail_if (segment_id e = segment_id prev) (Corrupt ''duplicate segment id''))) (\<lambda>_.
     and_then (fail_if (0xffffffff + 1 < end_doc e) (Corrupt ''segment exceeds the u32 doc id space'')) (\<lambda>_.
     and_then (fail_if ((del_gen e = 0) \<noteq> (del_len e = 0)) (Corrupt ''del_gen and del_len disagree'')) (\<lambda>_.
     fail_if (num_docs e < num_deleted e) (Corrupt ''num_deleted exceeds num_docs'')))))"

text \<open>\<open>decode_entries b next_id i n segs\<close>: the loop with \<open>n\<close> iterations left, at index \<open>i\<close>.\<close>

fun decode_entries :: "bytes \<Rightarrow> u32 \<Rightarrow> nat \<Rightarrow> nat \<Rightarrow> segment_entry list \<Rightarrow> segment_entry list fresult" where
  "decode_entries b next_id i 0 segs = Inr segs"
| "decode_entries b next_id i (Suc n) segs =
     and_then (entry_decode b (MAN_BODY_HEADER_LEN + i * ENTRY_LEN)) (\<lambda>e.
     and_then (check_entry next_id segs e) (\<lambda>_.
     decode_entries b next_id (i + 1) n (segs @ [e])))"

definition manifest_decode :: "(bytes \<Rightarrow> u32) \<Rightarrow> bytes \<Rightarrow> manifest fresult" where
  "manifest_decode crc bs =
     and_then (envelope_parse_verified crc KManifest bs) (\<lambda>env.
     let b = body_of bs env in
     and_then (fail_if (length b < MAN_BODY_HEADER_LEN) (Truncated (length b) MAN_BODY_HEADER_LEN)) (\<lambda>_.
     and_then (read_u64_le b 0) (\<lambda>gen.
     and_then (read_u32_le b 8) (\<lambda>next_id.
     and_then (read_u32_le b 12) (\<lambda>num_segments.
     and_then (read_i64_le b 16) (\<lambda>committed.
     and_then (read_u32_le b 24) (\<lambda>sgen.
     and_then (read_u32_le b 28) (\<lambda>scrc.
     and_then (read_u64_le b 32) (\<lambda>slen.
     and_then (read_u64_le b 40) (\<lambda>reserved.
     and_then (fail_if (reserved \<noteq> 0) (Corrupt ''manifest reserved field is non-zero'')) (\<lambda>_.
     and_then (fail_if ((sgen = 0) \<noteq> (slen = 0)) (Corrupt ''state_gen and state_len disagree'')) (\<lambda>_.
     and_then (fail_if (length b \<noteq> MAN_BODY_HEADER_LEN + ENTRY_LEN * unat num_segments)
       (Corrupt (''manifest body is '' @ show_nat (length b) @ '' bytes, expected '' @
          show_nat (MAN_BODY_HEADER_LEN + ENTRY_LEN * unat num_segments) @ '' for '' @
          show_nat (unat num_segments) @ '' segments''))) (\<lambda>_.
     and_then (decode_entries b next_id 0 (unat num_segments) []) (\<lambda>segs.
     Inr \<lparr>generation = gen, next_segment_id = next_id, committed_unix_nanos = committed,
          state_gen = sgen, state_crc = scrc, state_len = slen, segments = segs\<rparr>))))))))))))))"

section \<open>What a manifest must satisfy\<close>

definition entry_ok :: "u32 \<Rightarrow> segment_entry \<Rightarrow> bool" where
  "entry_ok next_id e \<longleftrightarrow> segment_id e < next_id \<and> end_doc e \<le> 2 ^ 32 \<and>
     (del_gen e = 0 \<longleftrightarrow> del_len e = 0) \<and> num_deleted e \<le> num_docs e"

fun chain_ok :: "segment_entry list \<Rightarrow> bool" where
  "chain_ok (a # b # es) \<longleftrightarrow> end_doc a \<le> unat (base_doc b) \<and> segment_id b \<noteq> segment_id a \<and> chain_ok (b # es)"
| "chain_ok _ = True"

definition manifest_ok :: "manifest \<Rightarrow> bool" where
  "manifest_ok m \<longleftrightarrow> length (segments m) < 2 ^ 32 \<and> (state_gen m = 0 \<longleftrightarrow> state_len m = 0) \<and>
     (\<forall>e \<in> set (segments m). entry_ok (next_segment_id m) e) \<and> chain_ok (segments m)"

lemma check_entry_iff:
  "check_entry n segs e = Inr () \<longleftrightarrow>
     entry_ok n e \<and> (segs \<noteq> [] \<longrightarrow> end_doc (last segs) \<le> unat (base_doc e) \<and> segment_id e \<noteq> segment_id (last segs))"
  by (auto simp: check_entry_def entry_ok_def Let_def and_then_Inr_iff not_less not_le)

lemma chain_ok_snoc:
  "chain_ok (segs @ [e]) \<longleftrightarrow> chain_ok segs \<and>
     (segs \<noteq> [] \<longrightarrow> end_doc (last segs) \<le> unat (base_doc e) \<and> segment_id e \<noteq> segment_id (last segs))"
  by (induction segs rule: chain_ok.induct) auto

section \<open>Round trip\<close>

lemma length_entry_encode [simp]: "length (entry_encode e) = 80"
  by (simp add: entry_encode_def)

lemma entry_decode_at [simp]:
  "length pre = at \<Longrightarrow> entry_decode (pre @ entry_encode e @ post) at = Inr e"
  by (simp add: entry_decode_def entry_encode_def)

lemma entry_fields:
  assumes "80 \<le> length xs"
  shows "xs = le_bytes 4 (peek32 xs 0) @ le_bytes 4 (peek32 xs 4) @ le_bytes 4 (peek32 xs 8) @
    le_bytes 4 (peek32 xs 12) @ le_bytes 4 (peek32 xs 16) @ le_bytes 4 (peek32 xs 20) @
    le_bytes 4 (peek32 xs 24) @ le_bytes 4 (peek32 xs 28) @ le_bytes 8 (peek64 xs 32) @
    le_bytes 8 (peek64 xs 40) @ le_bytes 8 (peek64 xs 48) @ le_bytes 8 (peek64 xs 56) @
    le_bytes 8 (peek64 xs 64) @ le_bytes 8 (peek64 xs 72) @ drop 80 xs"
proof -
  note d = drop_split(1) [of 0 xs] drop_split(1) [of 4 xs] drop_split(1) [of 8 xs] drop_split(1) [of 12 xs]
    drop_split(1) [of 16 xs] drop_split(1) [of 20 xs] drop_split(1) [of 24 xs] drop_split(1) [of 28 xs]
    drop_split(2) [of 32 xs] drop_split(2) [of 40 xs] drop_split(2) [of 48 xs] drop_split(2) [of 56 xs]
    drop_split(2) [of 64 xs] drop_split(2) [of 72 xs]
  have "drop 0 xs = le_bytes 4 (peek32 xs 0) @ le_bytes 4 (peek32 xs 4) @ le_bytes 4 (peek32 xs 8) @
    le_bytes 4 (peek32 xs 12) @ le_bytes 4 (peek32 xs 16) @ le_bytes 4 (peek32 xs 20) @
    le_bytes 4 (peek32 xs 24) @ le_bytes 4 (peek32 xs 28) @ le_bytes 8 (peek64 xs 32) @
    le_bytes 8 (peek64 xs 40) @ le_bytes 8 (peek64 xs 48) @ le_bytes 8 (peek64 xs 56) @
    le_bytes 8 (peek64 xs 64) @ le_bytes 8 (peek64 xs 72) @ drop 80 xs"
    using d assms by (simp del: drop_0 drop_all)
  then show ?thesis by simp
qed

lemma entry_decode_sound:
  assumes "entry_decode b at = Inr e"
  shows "at + 80 \<le> length b \<and> take 80 (drop at b) = entry_encode e"
proof -
  let ?xs = "take 80 (drop at b)"
  have len: "at + 80 \<le> length b"
    using assms by (auto simp: entry_decode_def read_le_Inr_iff)
  have e: "e = \<lparr>segment_id = peek32 b at, del_gen = peek32 b (at + 4), base_doc = peek32 b (at + 8),
      num_docs = peek32 b (at + 12), num_deleted = peek32 b (at + 16), idx_crc = peek32 b (at + 20),
      doc_crc = peek32 b (at + 24), del_crc = peek32 b (at + 28), idx_len = peek64 b (at + 32),
      doc_len = peek64 b (at + 40), del_len = peek64 b (at + 48), num_tokens = peek64 b (at + 56),
      num_postings = peek64 b (at + 64), num_terms = peek64 b (at + 72)\<rparr>"
    using assms by (auto simp: entry_decode_def read_le_Inr_iff)
  have "?xs = entry_encode e"
    using len entry_fields [of ?xs] by (simp add: e entry_encode_def peek_take peek_drop)
  with len show ?thesis ..
qed

lemma decode_entries_encoded:
  assumes "\<forall>e \<in> set es. entry_ok n e" and "chain_ok (segs @ es)" and "length hdr = 48"
  shows "decode_entries (hdr @ concat (map entry_encode (segs @ es))) n (length segs) (length es) segs = Inr (segs @ es)"
  using assms(1,2)
proof (induction es arbitrary: segs)
  case Nil
  then show ?case by simp
next
  case (Cons e es)
  have len: "length (concat (map entry_encode segs)) = 80 * length segs" by (induction segs) simp_all
  have "entry_decode (hdr @ concat (map entry_encode (segs @ e # es))) (48 + length segs * 80) = Inr e"
    using entry_decode_at [of "hdr @ concat (map entry_encode segs)" "48 + length segs * 80"
        e "concat (map entry_encode es)"] assms(3) len
    by simp
  moreover have "chain_ok (segs @ [e])"
    using Cons.prems(2) by (induction segs rule: chain_ok.induct) (auto elim: chain_ok.elims)
  then have "check_entry n segs e = Inr ()"
    using Cons.prems(1) by (simp add: check_entry_iff chain_ok_snoc)
  moreover have "decode_entries (hdr @ concat (map entry_encode ((segs @ [e]) @ es))) n
      (length (segs @ [e])) (length es) (segs @ [e]) = Inr ((segs @ [e]) @ es)"
    using Cons.prems by (intro Cons.IH) simp_all
  ultimately show ?case by (simp add: MAN_BODY_HEADER_LEN_def ENTRY_LEN_def)
qed

lemma decode_entries_sound:
  assumes "decode_entries b n (length segs) k segs = Inr r"
    and "\<forall>e \<in> set segs. entry_ok n e" and "chain_ok segs"
  shows "\<exists>es. r = segs @ es \<and> length es = k \<and> (\<forall>e \<in> set r. entry_ok n e) \<and> chain_ok r \<and>
    take (80 * k) (drop (48 + length segs * 80) b) = concat (map entry_encode es)"
  using assms
proof (induction k arbitrary: segs)
  case 0
  then show ?case by simp
next
  case (Suc k)
  let ?at = "48 + length segs * 80"
  from Suc.prems(1) obtain e where e: "entry_decode b ?at = Inr e" and c: "check_entry n segs e = Inr ()"
    and rest: "decode_entries b n (length (segs @ [e])) k (segs @ [e]) = Inr r"
    by (auto simp: MAN_BODY_HEADER_LEN_def ENTRY_LEN_def)
  have "\<forall>e \<in> set (segs @ [e]). entry_ok n e" "chain_ok (segs @ [e])"
    using c Suc.prems by (auto simp: check_entry_iff chain_ok_snoc)
  from Suc.IH [OF rest this] obtain es where es: "r = (segs @ [e]) @ es" "length es = k"
    "\<forall>e \<in> set r. entry_ok n e" "chain_ok r"
    "take (80 * k) (drop (48 + length (segs @ [e]) * 80) b) = concat (map entry_encode es)" by blast
  have "take (80 + 80 * k) (drop ?at b) = entry_encode e @ concat (map entry_encode es)"
    unfolding take_add using entry_decode_sound [OF e] es(5) by (simp add: add.commute)
  then show ?case using es by (intro exI [of _ "e # es"]) (auto simp: algebra_simps)
qed

lemma foldl_append_concat: "foldl (\<lambda>out s. out @ f s) acc xs = acc @ concat (map f xs)"
  by (induction xs arbitrary: acc) simp_all

theorem manifest_roundtrip:
  assumes "manifest_ok m"
  shows "manifest_decode crc (manifest_encode crc m) = Inr m"
proof -
  have n: "unat (of_nat (length (segments m)) :: u32) = length (segments m)"
    using assms by (simp add: manifest_ok_def unsigned_of_nat take_bit_nat_eq_self)
  have len: "length (concat (map entry_encode (segments m))) = 80 * length (segments m)"
    by (induction "segments m") (simp_all add: o_def sum_list_triv length_concat)
  let ?hdr = "le_bytes 8 (generation m) @ le_bytes 4 (next_segment_id m) @
     le_bytes 4 (of_nat (length (segments m)) :: u32) @ le_bytes 8 (committed_unix_nanos m) @
     le_bytes 4 (state_gen m) @ le_bytes 4 (state_crc m) @ le_bytes 8 (state_len m) @ le_bytes 8 (0 :: u64)"
  have "decode_entries (?hdr @ concat (map entry_encode (segments m))) (next_segment_id m) 0
      (length (segments m)) [] = Inr (segments m)"
    using decode_entries_encoded [of "segments m" "next_segment_id m" "[]" ?hdr] assms
    by (simp add: manifest_ok_def)
  then show ?thesis
    using assms len
    by (simp add: manifest_decode_def manifest_encode_def Let_def envelope_parse_seal foldl_append_concat
        MAN_BODY_HEADER_LEN_def ENTRY_LEN_def n manifest_ok_def)
qed

lemma manifest_header_fields:
  assumes "48 \<le> length xs"
  shows "xs = le_bytes 8 (peek64 xs 0) @ le_bytes 4 (peek32 xs 8) @ le_bytes 4 (peek32 xs 12) @
    le_bytes 8 (peek64 xs 16) @ le_bytes 4 (peek32 xs 24) @ le_bytes 4 (peek32 xs 28) @
    le_bytes 8 (peek64 xs 32) @ le_bytes 8 (peek64 xs 40) @ drop 48 xs"
proof -
  note d = drop_split(2) [of 0 xs] drop_split(1) [of 8 xs] drop_split(1) [of 12 xs]
    drop_split(2) [of 16 xs] drop_split(1) [of 24 xs] drop_split(1) [of 28 xs]
    drop_split(2) [of 32 xs] drop_split(2) [of 40 xs]
  have "drop 0 xs = le_bytes 8 (peek64 xs 0) @ le_bytes 4 (peek32 xs 8) @ le_bytes 4 (peek32 xs 12) @
    le_bytes 8 (peek64 xs 16) @ le_bytes 4 (peek32 xs 24) @ le_bytes 4 (peek32 xs 28) @
    le_bytes 8 (peek64 xs 32) @ le_bytes 8 (peek64 xs 40) @ drop 48 xs"
    using d assms by (simp del: drop_0 drop_all)
  then show ?thesis by simp
qed

theorem manifest_decode_sound:
  assumes "manifest_decode crc bs = Inr m"
  shows "manifest_ok m \<and> bs = manifest_encode crc m"
proof -
  from assms obtain env where env: "envelope_parse_verified crc KManifest bs = Inr env"
    by (auto simp: manifest_decode_def)
  define b where "b = body_of bs env"
  from env have sealed: "bs = seal crc KManifest b" unfolding b_def by (rule envelope_parse_verifiedE)
  have f: "48 \<le> length b" "generation m = peek64 b 0" "next_segment_id m = peek32 b 8"
    "committed_unix_nanos m = peek64 b 16" "state_gen m = peek32 b 24" "state_crc m = peek32 b 28"
    "state_len m = peek64 b 32" "peek64 b 40 = 0" "state_gen m = 0 \<longleftrightarrow> state_len m = 0"
    "length b = 48 + 80 * unat (peek32 b 12)"
    and dec: "decode_entries b (next_segment_id m) 0 (unat (peek32 b 12)) [] = Inr (segments m)"
    using assms env unfolding b_def [symmetric]
    by (auto simp: manifest_decode_def b_def [symmetric] Let_def MAN_BODY_HEADER_LEN_def ENTRY_LEN_def read_le_Inr_iff)
  from decode_entries_sound [of b "next_segment_id m" "[]" "unat (peek32 b 12)" "segments m"] dec
  have d: "length (segments m) = unat (peek32 b 12)" "\<forall>e \<in> set (segments m). entry_ok (next_segment_id m) e"
    "chain_ok (segments m)" "drop 48 b = concat (map entry_encode (segments m))"
    using f(10) by auto
  have "manifest_ok m" using d f(9) unat_bounds(2) [of "peek32 b 12"] by (simp add: manifest_ok_def)
  moreover have "b = le_bytes 8 (generation m) @ le_bytes 4 (next_segment_id m) @
     le_bytes 4 (of_nat (length (segments m)) :: u32) @ le_bytes 8 (committed_unix_nanos m) @
     le_bytes 4 (state_gen m) @ le_bytes 4 (state_crc m) @ le_bytes 8 (state_len m) @ le_bytes 8 (0 :: u64) @
     concat (map entry_encode (segments m))"
    using manifest_header_fields [OF f(1)] f d by simp
  ultimately show ?thesis using sealed
    by (simp add: manifest_encode_def Let_def foldl_append_concat)
qed

text \<open>The segments of a well-formed manifest own disjoint id ranges, in ascending order.\<close>

lemma chain_ok_sorted:
  "chain_ok segs \<Longrightarrow> sorted_wrt (\<lambda>a b. end_doc a \<le> unat (base_doc b)) segs"
proof (induction segs rule: chain_ok.induct)
  case (1 a b es)
  have "end_doc a \<le> end_doc b" using "1.prems" by (simp add: end_doc_def)
  then show ?case using 1 by (auto intro: order_trans)
qed simp_all

theorem manifest_ranges_disjoint:
  assumes "manifest_decode crc bs = Inr m" and "i < j" and "j < length (segments m)"
  shows "end_doc (segments m ! i) \<le> unat (base_doc (segments m ! j)) \<and> end_doc (segments m ! j) \<le> 2 ^ 32"
proof -
  have "manifest_ok m" using manifest_decode_sound [OF assms(1)] ..
  then have "sorted_wrt (\<lambda>a b. end_doc a \<le> unat (base_doc b)) (segments m)"
    and "entry_ok (next_segment_id m) (segments m ! j)"
    using assms(3) chain_ok_sorted by (auto simp: manifest_ok_def)
  then show ?thesis using assms(2,3) by (auto simp: sorted_wrt_iff_nth_less entry_ok_def)
qed

end
