(* ===== verification/Deletions.thy ===== *)
theory Deletions
  imports Envelope
begin

text \<open>
  The deletion bitmap over local doc ids (\<open>src/format/del.rs\<close>): the mutable \<open>Bitmap\<close> the writer builds
  and the read-only \<open>DelView\<close> over a \<open>.del\<close> file. \<open>bits[k]\<close> would panic out of range; \<open>bitmap_ok\<close> is the
  invariant that keeps \<open>k\<close> in range, and every operation keeps it.

  Main facts: \<open>get\<close> after \<open>set\<close>, \<open>count\<close> is the number of deleted ids (no \<open>u32\<close> overflow), the encoded
  file is accepted and gives the bitmap back, and an accepted file is the encoding of a well-formed
  bitmap.
\<close>

definition DEL_BODY_HEADER_LEN :: nat where "DEL_BODY_HEADER_LEN = 8"

record bitmap =
  bm_num_docs :: u32
  bm_bits :: bytes

definition div_ceil8 :: "u32 \<Rightarrow> nat" where
  "div_ceil8 n = (unat n + 7) div 8"

definition bitmap_new :: "u32 \<Rightarrow> bitmap" where
  "bitmap_new num_docs = \<lparr>bm_num_docs = num_docs, bm_bits = replicate (div_ceil8 num_docs) 0\<rparr>"

definition bitmap_set :: "bitmap \<Rightarrow> u32 \<Rightarrow> bitmap \<times> bool" where
  "bitmap_set bm i =
     (if bm_num_docs bm \<le> i then (bm, False)
      else let k = unat (drop_bit 3 i); byte = bm_bits bm ! k;
               mask = push_bit (unat (i AND 7)) 1; was = byte AND mask \<noteq> 0
           in (bm\<lparr>bm_bits := (bm_bits bm)[k := byte OR mask]\<rparr>, \<not> was))"

definition bitmap_get :: "bitmap \<Rightarrow> u32 \<Rightarrow> bool" where
  "bitmap_get bm i \<longleftrightarrow>
     i < bm_num_docs bm \<and> bm_bits bm ! unat (drop_bit 3 i) AND push_bit (unat (i AND 7)) 1 \<noteq> 0"

definition count_ones :: "u8 \<Rightarrow> nat" where
  "count_ones b = length (filter (bit b) [0..<8])"

definition sum_ones :: "bytes \<Rightarrow> u32" where
  "sum_ones bs = sum_list (map (\<lambda>b. of_nat (count_ones b)) bs)"

definition bitmap_count :: "bitmap \<Rightarrow> u32" where
  "bitmap_count bm = sum_ones (bm_bits bm)"

definition bitmap_encode :: "(bytes \<Rightarrow> u32) \<Rightarrow> bitmap \<Rightarrow> bytes" where
  "bitmap_encode crc bm =
     (let body = le_bytes 4 (bm_num_docs bm) @ le_bytes 4 (bitmap_count bm) @ bm_bits bm
      in seal crc KDel body)"

record del_view =
  dv_num_docs :: u32
  dv_num_deleted :: u32
  dv_bits :: bytes
  dv_crc :: u32

definition del_parse_verified :: "(bytes \<Rightarrow> u32) \<Rightarrow> bytes \<Rightarrow> del_view fresult" where
  "del_parse_verified crc bs =
     and_then (envelope_parse_verified crc KDel bs) (\<lambda>env.
     let body = body_of bs env in
     and_then (fail_if (length body < DEL_BODY_HEADER_LEN) (Truncated (length body) DEL_BODY_HEADER_LEN)) (\<lambda>_.
     and_then (read_u32_le body 0) (\<lambda>num_docs.
     and_then (read_u32_le body 4) (\<lambda>num_deleted.
     let bits = drop DEL_BODY_HEADER_LEN body in
     and_then (fail_if (length bits \<noteq> div_ceil8 num_docs)
       (Corrupt ''deletion bitmap length does not match num_docs'')) (\<lambda>_.
     let popcount = sum_ones bits in
     and_then (fail_if (popcount \<noteq> num_deleted)
       (Corrupt ''num_deleted does not match bitmap popcount'')) (\<lambda>_.
     and_then (fail_if (num_docs mod 8 \<noteq> 0 \<and> bits \<noteq> [] \<and> drop_bit (unat (num_docs mod 8)) (last bits) \<noteq> 0)
       (Corrupt ''deletion bitmap has bits past num_docs'')) (\<lambda>_.
     Inr \<lparr>dv_num_docs = num_docs, dv_num_deleted = num_deleted, dv_bits = bits, dv_crc = env_crc env\<rparr>)))))))"

definition del_is_deleted :: "del_view \<Rightarrow> u32 \<Rightarrow> bool" where
  "del_is_deleted v i \<longleftrightarrow>
     i < dv_num_docs v \<and> dv_bits v ! unat (drop_bit 3 i) AND push_bit (unat (i AND 7)) 1 \<noteq> 0"

definition del_to_bitmap :: "del_view \<Rightarrow> bitmap" where
  "del_to_bitmap v = \<lparr>bm_num_docs = dv_num_docs v, bm_bits = dv_bits v\<rparr>"

section \<open>Bits and invariant\<close>

text \<open>Bit \<open>n\<close> of the bitmap, counted across its bytes.\<close>

definition bits_at :: "bytes \<Rightarrow> nat \<Rightarrow> bool" where
  "bits_at bs n \<longleftrightarrow> n < 8 * length bs \<and> bit (bs ! (n div 8)) (n mod 8)"

definition bitmap_ok :: "bitmap \<Rightarrow> bool" where
  "bitmap_ok bm \<longleftrightarrow>
     length (bm_bits bm) = div_ceil8 (bm_num_docs bm) \<and>
     (\<forall>n. bits_at (bm_bits bm) n \<longrightarrow> n < unat (bm_num_docs bm))"

lemma unat_drop3 [simp]: "unat (drop_bit 3 (i :: u32)) = unat i div 8"
  unfolding unsigned_drop_bit_eq by (simp add: drop_bit_eq_div take_bit_nat_eq_self unat_bounds)

lemma unat_and7 [simp]: "unat ((i :: u32) AND 7) = unat i mod 8"
proof -
  have "i AND 7 = take_bit 3 i" by (simp add: take_bit_eq_mask mask_eq_exp_minus_1)
  then show ?thesis by (simp only: unsigned_take_bit_eq) (simp add: take_bit_eq_mod)
qed

lemma and_one_bit: "(b :: u8) AND push_bit k 1 \<noteq> 0 \<longleftrightarrow> bit b k"
  by (simp add: and_exp_eq_0_iff_not_bit)

lemma index_in_range:
  "i < n \<Longrightarrow> unat (i :: u32) div 8 < div_ceil8 n"
  unfolding div_ceil8_def word_less_nat_alt by linarith

lemma bitmap_get_iff:
  assumes "bitmap_ok bm"
  shows "bitmap_get bm i \<longleftrightarrow> bits_at (bm_bits bm) (unat i)"
proof (cases "i < bm_num_docs bm")
  case True
  then have "unat i div 8 < length (bm_bits bm)"
    using assms index_in_range by (simp add: bitmap_ok_def)
  then show ?thesis using True by (auto simp: bitmap_get_def and_exp_eq_0_iff_not_bit bits_at_def)
next
  case False
  then show ?thesis using assms by (auto simp: bitmap_get_def bitmap_ok_def word_less_nat_alt)
qed

lemma bitmap_new_ok [simp]: "bitmap_ok (bitmap_new n)"
  by (auto simp: bitmap_ok_def bitmap_new_def bits_at_def)

lemma bitmap_new_get [simp]: "\<not> bitmap_get (bitmap_new n) i"
  by (simp add: bitmap_get_iff) (auto simp: bits_at_def bitmap_new_def)

lemma bitmap_set_num_docs [simp]: "bm_num_docs (fst (bitmap_set bm i)) = bm_num_docs bm"
  by (simp add: bitmap_set_def Let_def)

lemma bits_at_set:
  assumes "n < 8 * length bs"
  shows "bits_at (bs[n div 8 := bs ! (n div 8) OR push_bit (n mod 8) 1]) m \<longleftrightarrow> m = n \<or> bits_at bs m"
proof -
  have n: "n div 8 < length bs" using assms by simp
  have one: "bit (push_bit (n mod 8) (1 :: u8)) (m mod 8) \<longleftrightarrow> m mod 8 = n mod 8"
    by (auto simp: bit_exp_iff)
  show ?thesis
  proof (cases "m div 8 = n div 8")
    case True
    then have "m mod 8 = n mod 8 \<longleftrightarrow> m = n" by (metis div_mult_mod_eq)
    then show ?thesis using True n one assms by (auto simp: bits_at_def bit_or_iff)
  next
    case False
    then show ?thesis using n by (auto simp: bits_at_def)
  qed
qed

lemma bitmap_set_bits:
  assumes "bitmap_ok bm" and "i < bm_num_docs bm"
  shows "bits_at (bm_bits (fst (bitmap_set bm i))) m \<longleftrightarrow> m = unat i \<or> bits_at (bm_bits bm) m"
proof -
  have "unat i div 8 < length (bm_bits bm)" using assms index_in_range by (simp add: bitmap_ok_def)
  then have "unat i < 8 * length (bm_bits bm)" by simp
  then show ?thesis using assms(2) [unfolded not_le [symmetric]] bits_at_set [of "unat i" "bm_bits bm" m]
    by (simp add: bitmap_set_def Let_def)
qed

lemma bitmap_set_ok [simp]: "bitmap_ok bm \<Longrightarrow> bitmap_ok (fst (bitmap_set bm i))"
proof (cases "i < bm_num_docs bm")
  case True
  assume ok: "bitmap_ok bm"
  have "length (bm_bits (fst (bitmap_set bm i))) = length (bm_bits bm)"
    by (simp add: bitmap_set_def Let_def)
  with ok True show ?thesis
    by (auto simp: bitmap_ok_def bitmap_set_bits [OF ok True] word_less_nat_alt)
next
  case False
  then show "bitmap_ok bm \<Longrightarrow> ?thesis" by (simp add: bitmap_set_def not_less)
qed

theorem bitmap_set_correct:
  assumes "bitmap_ok bm"
  shows "bitmap_ok (fst (bitmap_set bm i)) \<and>
    (bitmap_get (fst (bitmap_set bm i)) j \<longleftrightarrow> (j = i \<and> i < bm_num_docs bm) \<or> bitmap_get bm j) \<and>
    (snd (bitmap_set bm i) \<longleftrightarrow> i < bm_num_docs bm \<and> \<not> bitmap_get bm i)"
proof (cases "i < bm_num_docs bm")
  case True
  have "snd (bitmap_set bm i) \<longleftrightarrow> \<not> bitmap_get bm i"
    using True [unfolded not_le [symmetric]] True by (simp add: bitmap_set_def bitmap_get_def Let_def)
  then show ?thesis using assms True
    by (auto simp: bitmap_get_iff bitmap_set_bits word_unat_eq_iff [of j i])
next
  case False
  then have "bm_num_docs bm \<le> i" by simp
  then show ?thesis using assms False by (auto simp: bitmap_set_def)
qed

section \<open>Counting\<close>

lemma count_ones_card: "count_ones b = card {k. k < 8 \<and> bit b k}"
proof -
  have "count_ones b = card (set (filter (bit b) [0..<8]))"
    unfolding count_ones_def by (rule distinct_card [symmetric]) simp
  then show ?thesis by (simp add: conj_commute)
qed

lemma bits_at_snoc:
  "{n. bits_at (bs @ [b]) n} = {n. bits_at bs n} \<union> (\<lambda>k. 8 * length bs + k) ` {k. k < 8 \<and> bit b k}"
proof (intro set_eqI iffI)
  fix n assume n: "n \<in> {n. bits_at (bs @ [b]) n}"
  show "n \<in> {n. bits_at bs n} \<union> (\<lambda>k. 8 * length bs + k) ` {k. k < 8 \<and> bit b k}"
  proof (cases "n < 8 * length bs")
    case True
    then have "n div 8 < length bs" by simp
    then show ?thesis using n True by (auto simp: bits_at_def nth_append)
  next
    case False
    then obtain k where k: "n = 8 * length bs + k" by (metis le_Suc_ex not_less)
    with n have "k < 8" by (simp add: bits_at_def)
    then show ?thesis using n k by (auto simp: bits_at_def nth_append)
  qed
next
  fix n assume "n \<in> {n. bits_at bs n} \<union> (\<lambda>k. 8 * length bs + k) ` {k. k < 8 \<and> bit b k}"
  then show "n \<in> {n. bits_at (bs @ [b]) n}"
    by (auto simp: bits_at_def nth_append)
qed

lemma finite_bits_at [simp]: "finite {n. bits_at bs n}"
  by (rule finite_subset [of _ "{..<8 * length bs}"]) (auto simp: bits_at_def)

lemma sum_count_ones: "sum_list (map count_ones bs) = card {n. bits_at bs n}"
proof (induction bs rule: rev_induct)
  case Nil
  then show ?case by (simp add: bits_at_def)
next
  case (snoc b bs)
  have "{n. bits_at bs n} \<inter> (\<lambda>k. 8 * length bs + k) ` {k. k < 8 \<and> bit b k} = {}"
    by (auto simp: bits_at_def)
  then have "card {n. bits_at (bs @ [b]) n} = card {n. bits_at bs n} + count_ones b"
    by (simp add: bits_at_snoc card_Un_disjoint card_image inj_on_def count_ones_card)
  then show ?case using snoc by simp
qed

lemma sum_ones_eq: "sum_ones bs = of_nat (card {n. bits_at bs n})"
  unfolding sum_count_ones [symmetric] by (induction bs) (simp_all add: sum_ones_def)

theorem bitmap_count_correct:
  assumes "bitmap_ok bm"
  shows "unat (bitmap_count bm) = card {i. bitmap_get bm i} \<and> bitmap_count bm \<le> bm_num_docs bm"
proof -
  have sub: "{n. bits_at (bm_bits bm) n} \<subseteq> {..<unat (bm_num_docs bm)}"
    using assms by (auto simp: bitmap_ok_def)
  then have le: "card {n. bits_at (bm_bits bm) n} \<le> unat (bm_num_docs bm)"
    using card_mono [OF _ sub] by simp
  have "{n. bits_at (bm_bits bm) n} = unat ` {i. bitmap_get bm i}"
  proof (intro set_eqI iffI)
    fix n assume n: "n \<in> {n. bits_at (bm_bits bm) n}"
    then have "n < unat (bm_num_docs bm)" using sub by auto
    then have "n = unat (of_nat n :: u32)"
      using unat_bounds(2) [of "bm_num_docs bm"] by (simp add: unsigned_of_nat take_bit_nat_eq_self)
    then show "n \<in> unat ` {i. bitmap_get bm i}"
      using n assms by (metis bitmap_get_iff imageI mem_Collect_eq)
  qed (use assms in \<open>auto simp: bitmap_get_iff\<close>)
  moreover have "inj_on unat {i. bitmap_get bm i}" by (simp add: inj_on_def word_unat_eq_iff)
  ultimately have c: "card {n. bits_at (bm_bits bm) n} = card {i. bitmap_get bm i}"
    by (simp add: card_image)
  have "unat (bitmap_count bm) = card {n. bits_at (bm_bits bm) n}"
    using le unat_bounds(2) [of "bm_num_docs bm"]
    by (simp add: bitmap_count_def sum_ones_eq unsigned_of_nat take_bit_nat_eq_self)
  then show ?thesis using c le by (simp add: word_le_nat_alt)
qed

section \<open>The file\<close>

lemma ceil8:
  "n mod 8 \<noteq> 0 \<Longrightarrow> (n + 7) div 8 = n div 8 + (1 :: nat)"
  "n mod 8 = 0 \<Longrightarrow> 8 * ((n + 7) div 8) = (n :: nat)"
  by presburger+

lemma same_byte:
  fixes m n :: nat
  assumes "n \<le> m" and "m < 8 * (n div 8 + 1)"
  shows "m div 8 = n div 8 \<and> n mod 8 \<le> m mod 8"
proof -
  have "n div 8 \<le> m div 8" using assms(1) by (rule div_le_mono)
  moreover have "m div 8 < n div 8 + 1" using assms(2) by (simp add: less_mult_imp_div_less mult.commute)
  ultimately have eq: "m div 8 = n div 8" by simp
  have "n mod 8 \<le> m mod 8"
    using assms(1) eq div_mult_mod_eq [of n 8] div_mult_mod_eq [of m 8] by linarith
  with eq show ?thesis ..
qed

text \<open>The last byte has no bit past \<open>num_docs\<close> exactly when no bit anywhere is.\<close>

lemma stray_bits:
  assumes "length bs = div_ceil8 n"
  shows "(n mod 8 \<noteq> 0 \<and> bs \<noteq> [] \<and> drop_bit (unat (n mod 8)) (last bs) \<noteq> 0) \<longleftrightarrow>
         (\<exists>m. bits_at bs m \<and> unat n \<le> m)"
proof
  define r where "r = unat n mod 8"
  have r: "unat (n mod 8) = r" by (simp add: r_def unat_mod_distrib)
  assume st: "n mod 8 \<noteq> 0 \<and> bs \<noteq> [] \<and> drop_bit (unat (n mod 8)) (last bs) \<noteq> 0"
  then obtain k where "bit (drop_bit r (last bs)) k" using r ex_bit by metis
  then have k: "bit (last bs) (r + k)" by (simp add: bit_drop_bit_eq)
  then have k8: "r + k < 8" by (auto dest: bit_imp_le_length)
  have r0: "unat n mod 8 \<noteq> 0" using st r r_def by (metis unat_eq_zero)
  then have len: "length bs = unat n div 8 + 1" using assms ceil8(1) by (simp add: div_ceil8_def)
  have "bits_at bs (8 * (length bs - 1) + (r + k))"
    using k k8 st len by (simp add: bits_at_def last_conv_nth)
  moreover have "unat n \<le> 8 * (length bs - 1) + (r + k)"
    using len unfolding r_def by simp
  ultimately show "\<exists>m. bits_at bs m \<and> unat n \<le> m" by blast
next
  assume "\<exists>m. bits_at bs m \<and> unat n \<le> m"
  then obtain m where m: "m < 8 * length bs" "bit (bs ! (m div 8)) (m mod 8)" "unat n \<le> m"
    by (auto simp: bits_at_def)
  have r0: "unat n mod 8 \<noteq> 0" using m(1,3) assms ceil8(2) [of "unat n"] by (auto simp: div_ceil8_def)
  then have len: "length bs = unat n div 8 + 1" using assms ceil8(1) by (simp add: div_ceil8_def)
  then have last: "m div 8 = unat n div 8" "unat n mod 8 \<le> m mod 8"
    using m(1,3) same_byte by auto
  have "bit (drop_bit (unat n mod 8) (last bs)) (m mod 8 - unat n mod 8)"
    using m(2) len last by (subst last_conv_nth) (auto simp: bit_drop_bit_eq)
  then have "drop_bit (unat n mod 8) (last bs) \<noteq> 0" by auto
  moreover have "n mod 8 \<noteq> 0" using r0 by (auto simp: word_unat_eq_iff unat_mod_distrib)
  ultimately show "n mod 8 \<noteq> 0 \<and> bs \<noteq> [] \<and> drop_bit (unat (n mod 8)) (last bs) \<noteq> 0"
    using len by (auto simp: unat_mod_distrib)
qed

theorem del_roundtrip:
  assumes "bitmap_ok bm"
  shows "del_parse_verified crc (bitmap_encode crc bm) =
    Inr \<lparr>dv_num_docs = bm_num_docs bm, dv_num_deleted = bitmap_count bm, dv_bits = bm_bits bm,
         dv_crc = crc (le_bytes 4 (bm_num_docs bm) @ le_bytes 4 (bitmap_count bm) @ bm_bits bm)\<rparr>"
proof -
  have len: "length (bm_bits bm) = div_ceil8 (bm_num_docs bm)" using assms by (simp add: bitmap_ok_def)
  have "\<not> (\<exists>m. bits_at (bm_bits bm) m \<and> unat (bm_num_docs bm) \<le> m)"
    using assms by (auto simp: bitmap_ok_def not_le [symmetric])
  then have "\<not> (bm_num_docs bm mod 8 \<noteq> 0 \<and> bm_bits bm \<noteq> [] \<and>
      drop_bit (unat (bm_num_docs bm mod 8)) (last (bm_bits bm)) \<noteq> 0)"
    using stray_bits [OF len] by blast
  then show ?thesis using len
    by (auto simp: del_parse_verified_def bitmap_encode_def Let_def envelope_parse_seal
        DEL_BODY_HEADER_LEN_def bitmap_count_def fail_if_def)
qed

theorem del_view_of_roundtrip:
  assumes "bitmap_ok bm" and "del_parse_verified crc (bitmap_encode crc bm) = Inr v"
  shows "del_to_bitmap v = bm \<and> (del_is_deleted v i \<longleftrightarrow> bitmap_get bm i)"
  using assms(2) unfolding del_roundtrip [OF assms(1)]
  by (auto simp: del_to_bitmap_def del_is_deleted_def bitmap_get_def)

theorem del_parse_sound:
  assumes "del_parse_verified crc bs = Inr v"
  shows "bitmap_ok (del_to_bitmap v) \<and> dv_num_deleted v = bitmap_count (del_to_bitmap v) \<and>
    bs = bitmap_encode crc (del_to_bitmap v)"
proof -
  from assms obtain env where env: "envelope_parse_verified crc KDel bs = Inr env"
    and len8: "8 \<le> length (body_of bs env)"
    and nd: "dv_num_docs v = peek32 (body_of bs env) 0"
    and ndel: "dv_num_deleted v = peek32 (body_of bs env) 4"
    and bits: "dv_bits v = drop 8 (body_of bs env)"
    and len: "length (dv_bits v) = div_ceil8 (dv_num_docs v)"
    and pop: "sum_ones (dv_bits v) = dv_num_deleted v"
    and stray: "\<not> (dv_num_docs v mod 8 \<noteq> 0 \<and> dv_bits v \<noteq> [] \<and>
       drop_bit (unat (dv_num_docs v mod 8)) (last (dv_bits v)) \<noteq> 0)"
    by (auto simp: del_parse_verified_def Let_def DEL_BODY_HEADER_LEN_def)
  have ok: "bitmap_ok (del_to_bitmap v)"
    using len stray stray_bits [OF len] by (force simp: bitmap_ok_def del_to_bitmap_def not_le)
  from env have sealed: "bs = seal crc KDel (body_of bs env)" by (rule envelope_parse_verifiedE)
  have "take (4 + 4) (body_of bs env) = take 4 (body_of bs env) @ take 4 (drop 4 (body_of bs env))"
    by (rule take_add)
  also have "\<dots> = le_bytes 4 (dv_num_docs v) @ le_bytes 4 (dv_num_deleted v)"
    using len8 nd ndel take_drop_le_bytes(1) [of 0 "body_of bs env"] by (simp add: take_drop_le_bytes)
  finally have "body_of bs env = le_bytes 4 (dv_num_docs v) @ le_bytes 4 (dv_num_deleted v) @ dv_bits v"
    using bits append_take_drop_id [of 8 "body_of bs env"] by simp
  then show ?thesis
    using ok sealed pop by (simp add: bitmap_encode_def del_to_bitmap_def bitmap_count_def)
qed

end
