(* ===== verification/Overlay.thy ===== *)
theory Overlay
  imports Envelope
begin

text \<open>
  Patches to the mutable fields of a document (\<open>src/format/overlay.rs\<close>): path, inode, mtime and size of
  documents whose content did not change. A \<open>&str\<close> is its UTF-8 bytes; a \<open>u32\<close> loop index below
  \<open>num_patches\<close> is a \<open>nat\<close>.

  Main facts: what \<open>overlay_encode\<close> writes, \<open>overlay_parse_verified\<close> accepts and \<open>overlay_iter\<close> lists
  (\<open>overlay_iter_of_encode\<close>); for any accepted file the binary search \<open>overlay_find\<close> is the lookup in
  the listed patches (\<open>overlay_find_map_of\<close>).
\<close>

definition OVL_BODY_HEADER_LEN :: nat where "OVL_BODY_HEADER_LEN = 24"
definition PATCH_LEN :: nat where "PATCH_LEN = 36"

record patch_in =
  pi_doc_id :: u32
  pi_inode :: u64
  pi_mtime_nanos :: i64
  pi_size :: u64
  pi_path :: bytes

text \<open>The encoding loop at index \<open>i\<close>, over the body and the path heap written so far.\<close>

fun overlay_write :: "nat \<Rightarrow> patch_in list \<Rightarrow> bytes \<Rightarrow> bytes \<Rightarrow> (bytes \<times> bytes) fresult" where
  "overlay_write i [] body paths = Inr (body, paths)"
| "overlay_write i (p # ps) body paths =
     and_then (fail_if (length (pi_path p) > 0xffffffff \<or> length paths + length (pi_path p) > 0xffffffff)
       (Invariant ''overlay path heap exceeds 4 GiB'')) (\<lambda>_.
     let at = OVL_BODY_HEADER_LEN + i * PATCH_LEN;
         body = copy_at body at (le_bytes 4 (pi_doc_id p));
         body = copy_at body (at + 4) (le_bytes 8 (pi_inode p));
         body = copy_at body (at + 12) (le_bytes 8 (pi_mtime_nanos p));
         body = copy_at body (at + 20) (le_bytes 8 (pi_size p));
         body = copy_at body (at + 28) (le_bytes 4 (of_nat (length paths) :: u32));
         body = copy_at body (at + 32) (le_bytes 4 (of_nat (length (pi_path p)) :: u32))
     in overlay_write (i + 1) ps body (paths @ pi_path p))"

definition overlay_encode :: "(bytes \<Rightarrow> u32) \<Rightarrow> patch_in list \<Rightarrow> bytes fresult" where
  "overlay_encode crc patches =
     and_then (overlay_write 0 patches (replicate (OVL_BODY_HEADER_LEN + length patches * PATCH_LEN) 0) []) (\<lambda>(body, paths).
     let paths_off = of_nat (HEADER_LEN + length body) :: u64;
         body = copy_at body 0 (le_bytes 4 (of_nat (length patches) :: u32));
         body = copy_at body 8 (le_bytes 8 paths_off);
         body = copy_at body 16 (le_bytes 8 (of_nat (length paths) :: u64));
         body = body @ paths
     in Inr (seal crc KOverlay body))"

record patch =
  p_doc_id :: u32
  p_inode :: u64
  p_mtime_nanos :: i64
  p_size :: u64
  path_off :: u32
  path_len :: u32

record overlay_view =
  ov_bytes :: bytes
  ov_env :: envelope
  ov_num_patches :: u32
  ov_paths :: bytes

definition ov_record_at :: "nat \<Rightarrow> nat" where
  "ov_record_at i = HEADER_LEN + OVL_BODY_HEADER_LEN + i * PATCH_LEN"

definition overlay_patch :: "overlay_view \<Rightarrow> nat \<Rightarrow> patch option" where
  "overlay_patch v i =
     (if unat (ov_num_patches v) \<le> i then None
      else let b = ov_bytes v; at = ov_record_at i in
        Option.bind (ok (read_u32_le b at)) (\<lambda>did.
        Option.bind (ok (read_u64_le b (at + 4))) (\<lambda>ino.
        Option.bind (ok (read_i64_le b (at + 12))) (\<lambda>mt.
        Option.bind (ok (read_u64_le b (at + 20))) (\<lambda>sz.
        Option.bind (ok (read_u32_le b (at + 28))) (\<lambda>po.
        Option.bind (ok (read_u32_le b (at + 32))) (\<lambda>pl.
        Some \<lparr>p_doc_id = did, p_inode = ino, p_mtime_nanos = mt, p_size = sz, path_off = po, path_len = pl\<rparr>)))))))"

definition ov_path_of :: "overlay_view \<Rightarrow> patch \<Rightarrow> bytes option" where
  "ov_path_of v p =
     Option.bind (get_range (ov_paths v) (unat (path_off p)) (unat (path_off p) + unat (path_len p))) from_utf8"

text \<open>The loop of \<open>parse_verified\<close>: \<open>n\<close> patches left to check, at index \<open>i\<close>.\<close>

fun check_patches :: "overlay_view \<Rightarrow> nat \<Rightarrow> nat \<Rightarrow> u32 option \<Rightarrow> unit fresult" where
  "check_patches v i 0 prev = Inr ()"
| "check_patches v i (Suc n) prev =
     and_then (ok_or (overlay_patch v i) (Corrupt ''overlay patch out of range'')) (\<lambda>p.
     and_then (case prev of Some pr \<Rightarrow>
         fail_if (p_doc_id p \<le> pr) (Corrupt ''overlay patches not sorted/unique'') | None \<Rightarrow> Inr ()) (\<lambda>_.
     and_then (ok_or (ov_path_of v p) (Corrupt ''overlay patch has a bad path'')) (\<lambda>_.
     check_patches v (i + 1) n (Some (p_doc_id p)))))"

definition overlay_parse_verified :: "(bytes \<Rightarrow> u32) \<Rightarrow> bytes \<Rightarrow> overlay_view fresult" where
  "overlay_parse_verified crc bs =
     and_then (envelope_parse_verified crc KOverlay bs) (\<lambda>env.
     let body = body_of bs env in
     and_then (fail_if (length body < OVL_BODY_HEADER_LEN) (Truncated (length body) OVL_BODY_HEADER_LEN)) (\<lambda>_.
     and_then (read_u32_le body 0) (\<lambda>num_patches.
     and_then (and_then (read_u64_le body 8) to_usize) (\<lambda>paths_off.
     and_then (and_then (read_u64_le body 16) to_usize) (\<lambda>paths_len.
     let records_end = HEADER_LEN + OVL_BODY_HEADER_LEN + unat num_patches * PATCH_LEN in
     and_then (fail_if (paths_off \<noteq> records_end \<or> usize_add paths_off paths_len \<noteq> snd (env_body env))
       (Corrupt ''overlay regions do not tile the body'')) (\<lambda>_.
     and_then (slice bs paths_off paths_len) (\<lambda>paths.
     let v = \<lparr>ov_bytes = bs, ov_env = env, ov_num_patches = num_patches, ov_paths = paths\<rparr> in
     and_then (check_patches v 0 (unat num_patches) None) (\<lambda>_.
     Inr v))))))))"

text \<open>The binary search; the early \<open>?\<close> returns are \<open>Option.bind\<close>.\<close>

function overlay_find_loop :: "overlay_view \<Rightarrow> u32 \<Rightarrow> nat \<Rightarrow> nat \<Rightarrow> (patch \<times> bytes) option" where
  "overlay_find_loop v doc_id lo hi =
     (if lo < hi then
        (let mid = lo + (hi - lo) div 2 in
         Option.bind (overlay_patch v mid) (\<lambda>p.
           if p_doc_id p < doc_id then overlay_find_loop v doc_id (mid + 1) hi
           else if doc_id < p_doc_id p then overlay_find_loop v doc_id lo mid
           else Option.bind (ov_path_of v p) (\<lambda>path. Some (p, path))))
      else None)"
  by pat_completeness auto
termination by (relation "measure (\<lambda>(_, _, lo, hi). hi - lo)") auto

declare overlay_find_loop.simps [simp del]

definition overlay_find :: "overlay_view \<Rightarrow> u32 \<Rightarrow> (patch \<times> bytes) option" where
  "overlay_find v doc_id = overlay_find_loop v doc_id 0 (unat (ov_num_patches v))"

definition overlay_iter :: "overlay_view \<Rightarrow> (patch \<times> bytes) list" where
  "overlay_iter v = List.map_filter
     (\<lambda>i. Option.bind (overlay_patch v i) (\<lambda>p. Option.bind (ov_path_of v p) (\<lambda>path. Some (p, path))))
     [0..<unat (ov_num_patches v)]"

section \<open>What the encoder writes\<close>

definition patch_bytes :: "nat \<Rightarrow> patch_in \<Rightarrow> bytes" where
  "patch_bytes off p =
     le_bytes 4 (pi_doc_id p) @ le_bytes 8 (pi_inode p) @ le_bytes 8 (pi_mtime_nanos p) @
     le_bytes 8 (pi_size p) @ le_bytes 4 (of_nat off :: u32) @ le_bytes 4 (of_nat (length (pi_path p)) :: u32)"

fun patch_recs :: "nat \<Rightarrow> patch_in list \<Rightarrow> bytes list" where
  "patch_recs off [] = []"
| "patch_recs off (p # ps) = patch_bytes off p # patch_recs (off + length (pi_path p)) ps"

lemma length_patch_bytes [simp]: "length (patch_bytes off p) = 36"
  by (simp add: patch_bytes_def)

lemma length_patch_recs [simp]: "length (patch_recs off ps) = length ps"
  by (induction ps arbitrary: off) simp_all

lemma patch_recs_width: "\<forall>r \<in> set (patch_recs off ps). length r = 36"
  by (induction ps arbitrary: off) simp_all

lemma patch_recs_nth:
  "i < length ps \<Longrightarrow> patch_recs off ps ! i = patch_bytes (off + heap_off (map pi_path ps) i) (ps ! i)"
proof (induction ps arbitrary: off i)
  case Nil
  then show ?case by simp
next
  case (Cons p ps)
  then show ?case by (cases i) (simp_all add: heap_off_def add.assoc)
qed

lemma copy_patch:
  assumes "at + 36 \<le> length body"
  shows "copy_at (copy_at (copy_at (copy_at (copy_at (copy_at body at (le_bytes 4 (pi_doc_id p)))
      (at + 4) (le_bytes 8 (pi_inode p))) (at + 12) (le_bytes 8 (pi_mtime_nanos p)))
      (at + 20) (le_bytes 8 (pi_size p))) (at + 28) (le_bytes 4 (of_nat off :: u32)))
      (at + 32) (le_bytes 4 (of_nat (length (pi_path p)) :: u32)) = copy_at body at (patch_bytes off p)"
  using assms by (simp add: copy_at_copy_at patch_bytes_def)

lemma overlay_write_eq:
  assumes "length pre = OVL_BODY_HEADER_LEN + i * PATCH_LEN"
    and "length paths + length (concat (map pi_path ps)) \<le> 0xffffffff"
  shows "overlay_write i ps (pre @ replicate (length ps * PATCH_LEN) 0) paths =
     Inr (pre @ concat (patch_recs (length paths) ps), paths @ concat (map pi_path ps))"
  using assms
proof (induction ps arbitrary: i pre paths)
  case Nil
  then show ?case by simp
next
  case (Cons p ps)
  let ?pre = "pre @ patch_bytes (length paths) p"
  have c: "copy_at (pre @ replicate (36 + length ps * 36) 0) (length pre) (patch_bytes (length paths) p) =
      ?pre @ replicate (length ps * PATCH_LEN) 0"
    by (simp add: copy_at_next PATCH_LEN_def)
  have "overlay_write (Suc i) ps (?pre @ replicate (length ps * PATCH_LEN) 0) (paths @ pi_path p) =
     Inr (?pre @ concat (patch_recs (length (paths @ pi_path p)) ps), (paths @ pi_path p) @ concat (map pi_path ps))"
    by (rule Cons.IH) (use Cons.prems in \<open>simp_all add: PATCH_LEN_def\<close>)
  moreover have "length pre = OVL_BODY_HEADER_LEN + i * 36" using Cons.prems by (simp add: PATCH_LEN_def)
  ultimately show ?case using Cons.prems c
    by (simp add: copy_patch Let_def fail_if_def PATCH_LEN_def)
qed

definition overlay_body :: "patch_in list \<Rightarrow> bytes" where
  "overlay_body ps =
     (le_bytes 4 (of_nat (length ps) :: u32) @ replicate 4 0 @
      le_bytes 8 (of_nat (40 + length ps * 36) :: u64) @
      le_bytes 8 (of_nat (length (concat (map pi_path ps))) :: u64)) @
     concat (patch_recs 0 ps) @ concat (map pi_path ps)"

lemma overlay_encode_eq:
  assumes "length (concat (map pi_path ps)) \<le> 0xffffffff"
  shows "overlay_encode crc ps = Inr (seal crc KOverlay (overlay_body ps))"
proof -
  have "overlay_write 0 ps (replicate 24 0 @ replicate (length ps * PATCH_LEN) 0) [] =
     Inr (replicate 24 0 @ concat (patch_recs (length ([] :: bytes)) ps), [] @ concat (map pi_path ps))"
    by (rule overlay_write_eq) (use assms in \<open>simp_all add: OVL_BODY_HEADER_LEN_def\<close>)
  moreover have "length (concat (patch_recs 0 ps)) = length ps * 36"
    using length_records [OF patch_recs_width] by simp
  ultimately show ?thesis
    by (simp add: overlay_encode_def OVL_BODY_HEADER_LEN_def replicate_add copy_at_def Let_def
        overlay_body_def HEADER_LEN_def)
qed

section \<open>What an accepted file holds\<close>

text \<open>One patch with its path, as \<open>iter\<close> and \<open>find\<close> give it.\<close>

definition overlay_at :: "overlay_view \<Rightarrow> nat \<Rightarrow> (patch \<times> bytes) option" where
  "overlay_at v i = Option.bind (overlay_patch v i) (\<lambda>p. Option.bind (ov_path_of v p) (\<lambda>path. Some (p, path)))"

definition lists_patches :: "overlay_view \<Rightarrow> (patch \<times> bytes) list \<Rightarrow> bool" where
  "lists_patches v es \<longleftrightarrow>
     length es = unat (ov_num_patches v) \<and> (\<forall>i < length es. overlay_at v i = Some (es ! i)) \<and>
     sorted_wrt (<) (map (\<lambda>e. p_doc_id (fst e)) es)"

lemma overlay_iter_at: "overlay_iter v = List.map_filter (overlay_at v) [0..<unat (ov_num_patches v)]"
  by (simp add: overlay_iter_def overlay_at_def [abs_def])

lemma lists_patches_iter: "lists_patches v es \<Longrightarrow> overlay_iter v = es"
proof -
  assume a: "lists_patches v es"
  then have "List.map_filter (overlay_at v) [0..<length es] = map (\<lambda>i. es ! i) [0..<length es]"
    unfolding map_filter_def lists_patches_def by (subst filter_True) (auto intro: map_cong)
  also have "\<dots> = es" by (rule map_nth)
  finally show ?thesis using a by (simp add: overlay_iter_at lists_patches_def)
qed

lemma check_patches_Inr:
  "check_patches v i n prev = Inr u \<Longrightarrow>
     \<exists>es. length es = n \<and> (\<forall>j < n. overlay_at v (i + j) = Some (es ! j)) \<and>
       sorted_wrt (<) (map (\<lambda>e. p_doc_id (fst e)) es) \<and>
       (\<forall>pr. prev = Some pr \<longrightarrow> (\<forall>e \<in> set es. pr < p_doc_id (fst e)))"
proof (induction n arbitrary: i prev)
  case 0
  then show ?case by simp
next
  case (Suc n)
  from Suc.prems obtain p path where p: "overlay_patch v i = Some p" "ov_path_of v p = Some path"
    and pr: "\<forall>pr. prev = Some pr \<longrightarrow> pr < p_doc_id p"
    and rec: "check_patches v (i + 1) n (Some (p_doc_id p)) = Inr u"
    by (auto split: option.splits simp: not_le)
  from Suc.IH [OF rec] obtain es where es: "length es = n" "\<forall>j < n. overlay_at v (i + 1 + j) = Some (es ! j)"
    "sorted_wrt (<) (map (\<lambda>e. p_doc_id (fst e)) es)" "\<forall>e \<in> set es. p_doc_id p < p_doc_id (fst e)"
    by blast
  have "overlay_at v (i + j) = Some (((p, path) # es) ! j)" if "j < Suc n" for j
    using that es(2) p by (cases j) (auto simp: overlay_at_def)
  moreover have "\<forall>pr'. prev = Some pr' \<longrightarrow> (\<forall>e \<in> set ((p, path) # es). pr' < p_doc_id (fst e))"
    using pr es(4) by (auto intro: order.strict_trans)
  ultimately show ?case using es by (intro exI [of _ "(p, path) # es"]) simp
qed

lemma overlay_parse_lists:
  assumes "overlay_parse_verified crc bs = Inr v"
  shows "\<exists>es. lists_patches v es"
proof -
  from assms have "check_patches v 0 (unat (ov_num_patches v)) None = Inr ()"
    by (auto simp: overlay_parse_verified_def Let_def)
  from check_patches_Inr [OF this] show ?thesis by (auto simp: lists_patches_def)
qed

section \<open>The binary search\<close>

lemma overlay_find_loop_lookup:
  assumes "lists_patches v es" and "hi \<le> length es"
    and "\<forall>j < lo. p_doc_id (fst (es ! j)) < d" and "\<forall>j < length es. hi \<le> j \<longrightarrow> d < p_doc_id (fst (es ! j))"
  shows "overlay_find_loop v d lo hi = map_of (map (\<lambda>e. (p_doc_id (fst e), e)) es) d"
  using assms
proof (induction v d lo hi rule: overlay_find_loop.induct)
  case (1 v d lo hi)
  let ?m = "map (\<lambda>e. (p_doc_id (fst e), e)) es"
  show ?case
  proof (cases "lo < hi")
    case False
    have "d \<notin> fst ` set ?m"
    proof
      assume "d \<in> fst ` set ?m"
      then obtain j where "j < length es" "d = p_doc_id (fst (es ! j))" by (auto simp: in_set_conv_nth)
      then show False using 1(5,6) False by (cases "j < lo") auto
    qed
    then have "map_of ?m d = None" by (simp only: map_of_eq_None_iff) simp
    then show ?thesis using False by (simp add: overlay_find_loop.simps)
  next
    case True
    define mid where "mid = lo + (hi - lo) div 2"
    have mid: "lo \<le> mid" "mid < hi" "mid < length es" using True 1(4) by (auto simp: mid_def)
    obtain p path where e: "es ! mid = (p, path)" by (cases "es ! mid")
    have "overlay_at v mid = Some (p, path)" using 1(3) mid e by (simp add: lists_patches_def)
    then have at: "overlay_patch v mid = Some p" "ov_path_of v p = Some path"
      by (auto simp: overlay_at_def split: bind_splits)
    have sorted: "p_doc_id (fst (es ! j)) < p_doc_id (fst (es ! k))" if "j < k" "k < length es" for j k
      using 1(3) that sorted_wrt_nth_less [of "(<)" "map (\<lambda>e. p_doc_id (fst e)) es" j k] by (simp add: lists_patches_def)
    consider "p_doc_id p < d" | "d < p_doc_id p" | "p_doc_id p = d" by fastforce
    then show ?thesis
    proof cases
      case 1
      have "p_doc_id (fst (es ! j)) < d" if "j < mid + 1" for j
      proof (cases "j = mid")
        case False
        then have "p_doc_id (fst (es ! j)) < p_doc_id (fst (es ! mid))" using that mid by (intro sorted) simp_all
        then show ?thesis using 1 e by simp
      qed (use 1 e in simp)
      then have "overlay_find_loop v d (mid + 1) hi = map_of ?m d"
        using "1.IH"(1) [OF True mid_def at(1) 1] "1.prems" by blast
      then show ?thesis using 1 True at by (simp add: overlay_find_loop.simps [of v d lo hi] mid_def [symmetric] Let_def)
    next
      case 2
      have "d < p_doc_id (fst (es ! j))" if "j < length es" "mid \<le> j" for j
      proof (cases "j = mid")
        case False
        then have "p_doc_id (fst (es ! mid)) < p_doc_id (fst (es ! j))" using that mid by (intro sorted) simp_all
        then show ?thesis using 2 e by simp
      qed (use 2 e in simp)
      then have "overlay_find_loop v d lo mid = map_of ?m d"
        using "1.IH"(2) [OF True mid_def at(1) not_less_iff_gr_or_eq [THEN iffD2, OF disjI1 [OF 2]] 2] "1.prems" mid by simp
      moreover have "\<not> p_doc_id p < d" using 2 by simp
      ultimately show ?thesis using 2 True at
        by (simp add: overlay_find_loop.simps [of v d lo hi] mid_def [symmetric] Let_def)
    next
      case 3
      have "distinct (map fst ?m)"
        using 1(3) strict_sorted_iff by (fastforce simp: lists_patches_def comp_def)
      moreover have "(d, es ! mid) \<in> set ?m" using 3 e mid nth_mem [OF mid(3)] by force
      ultimately have "map_of ?m d = Some (es ! mid)" by simp
      then show ?thesis using 3 True at e
        by (simp add: overlay_find_loop.simps [of v d lo hi] mid_def [symmetric] Let_def)
    qed
  qed
qed

text \<open>Whatever file \<open>parse_verified\<close> accepts, the search agrees with the listing.\<close>

lemma overlay_find_is_lookup:
  assumes "overlay_parse_verified crc bs = Inr v"
  shows "overlay_find v d = map_of (map (\<lambda>e. (p_doc_id (fst e), e)) (overlay_iter v)) d"
proof -
  from overlay_parse_lists [OF assms] obtain es where es: "lists_patches v es" ..
  then have "overlay_find_loop v d 0 (unat (ov_num_patches v)) = map_of (map (\<lambda>e. (p_doc_id (fst e), e)) es) d"
    by (intro overlay_find_loop_lookup) (auto simp: lists_patches_def)
  then show ?thesis by (simp add: overlay_find_def lists_patches_iter [OF es])
qed

section \<open>Round trip\<close>

definition patches_ok :: "patch_in list \<Rightarrow> bool" where
  "patches_ok ps \<longleftrightarrow> length ps < 2 ^ 32 \<and> sorted_wrt (<) (map pi_doc_id ps) \<and> (\<forall>p \<in> set ps. utf8_valid (pi_path p)) \<and>
     length (concat (map pi_path ps)) \<le> 0xffffffff"

definition stored_patch :: "patch_in list \<Rightarrow> nat \<Rightarrow> patch \<times> bytes" where
  "stored_patch ps i = (let p = ps ! i in
     (\<lparr>p_doc_id = pi_doc_id p, p_inode = pi_inode p, p_mtime_nanos = pi_mtime_nanos p, p_size = pi_size p,
       path_off = of_nat (heap_off (map pi_path ps) i), path_len = of_nat (length (pi_path p))\<rparr>, pi_path p))"

lemma length_overlay_body: "length (overlay_body ps) = 24 + length ps * 36 + length (concat (map pi_path ps))"
  using length_records [OF patch_recs_width [of 0 ps]] by (simp add: overlay_body_def)

lemma overlay_peek:
  assumes "i < length ps"
  shows "k + 4 \<le> 36 \<Longrightarrow> peek32 (seal crc KOverlay (overlay_body ps)) (ov_record_at i + k) =
      peek32 (patch_bytes (heap_off (map pi_path ps) i) (ps ! i)) k"
    and "k + 8 \<le> 36 \<Longrightarrow> peek64 (seal crc KOverlay (overlay_body ps)) (ov_record_at i + k) =
      peek64 (patch_bytes (heap_off (map pi_path ps) i) (ps ! i)) k"
    and "ov_record_at i + 36 \<le> length (seal crc KOverlay (overlay_body ps))"
proof -
  let ?hdr = "le_bytes 4 (of_nat (length ps) :: u32) @ replicate 4 0 @
      le_bytes 8 (of_nat (40 + length ps * 36) :: u64) @
      le_bytes 8 (of_nat (length (concat (map pi_path ps))) :: u64)"
  have h: "length ?hdr = 24" by simp
  have i: "i < length (patch_recs 0 ps)" using assms by simp
  note r = peek_record [OF patch_recs_width [of 0 ps] i h]
  have n: "patch_recs 0 ps ! i = patch_bytes (heap_off (map pi_path ps) i) (ps ! i)"
    using patch_recs_nth [OF assms] by simp
  have len: "24 + i * 36 + 36 \<le> length (overlay_body ps)" using assms by (simp add: length_overlay_body)
  have at: "ov_record_at i + k = 16 + (24 + i * 36 + k)" for k
    by (simp add: ov_record_at_def HEADER_LEN_def OVL_BODY_HEADER_LEN_def PATCH_LEN_def)
  show "k + 4 \<le> 36 \<Longrightarrow> peek32 (seal crc KOverlay (overlay_body ps)) (ov_record_at i + k) =
      peek32 (patch_bytes (heap_off (map pi_path ps) i) (ps ! i)) k"
    unfolding at using len by (subst peek_seal) (auto simp only: overlay_body_def r(1) n intro: order.trans)
  show "k + 8 \<le> 36 \<Longrightarrow> peek64 (seal crc KOverlay (overlay_body ps)) (ov_record_at i + k) =
      peek64 (patch_bytes (heap_off (map pi_path ps) i) (ps ! i)) k"
    unfolding at using len by (subst peek_seal) (auto simp only: overlay_body_def r(2) n)
  show "ov_record_at i + 36 \<le> length (seal crc KOverlay (overlay_body ps))"
    using len at [of 36] by simp
qed

definition overlay_of :: "(bytes \<Rightarrow> u32) \<Rightarrow> patch_in list \<Rightarrow> overlay_view" where
  "overlay_of crc ps = \<lparr>ov_bytes = seal crc KOverlay (overlay_body ps), ov_env = sealed_env crc (overlay_body ps),
     ov_num_patches = of_nat (length ps), ov_paths = concat (map pi_path ps)\<rparr>"

lemma overlay_at_stored:
  assumes "patches_ok ps" and "i < length ps"
  shows "overlay_patch (overlay_of crc ps) i = Some (fst (stored_patch ps i))"
    and "ov_path_of (overlay_of crc ps) (fst (stored_patch ps i)) = Some (pi_path (ps ! i))"
proof -
  note k = overlay_peek [OF assms(2), where crc = crc] overlay_peek(1,2) [OF assms(2), where k = 0 and crc = crc, simplified]
  have n: "unat (of_nat (length ps) :: u32) = length ps"
    using assms(1) by (simp add: patches_ok_def unsigned_of_nat take_bit_nat_eq_self)
  show "overlay_patch (overlay_of crc ps) i = Some (fst (stored_patch ps i))"
    using assms(2) k(3) n
    by (simp add: overlay_patch_def overlay_of_def Let_def k stored_patch_def patch_bytes_def)
  have m: "i < length (map pi_path ps)" using assms(2) by simp
  have o: "heap_off (map pi_path ps) i + length (pi_path (ps ! i)) \<le> 0xffffffff"
    using heap_off_le [OF m] assms by (simp add: patches_ok_def)
  then show "ov_path_of (overlay_of crc ps) (fst (stored_patch ps i)) = Some (pi_path (ps ! i))"
    using heap_get [OF m] assms
    by (simp add: ov_path_of_def overlay_of_def stored_patch_def Let_def unsigned_of_nat take_bit_nat_eq_self
        patches_ok_def)
qed

lemma check_patches_ok:
  assumes "\<forall>j < n. overlay_at v (i + j) = Some (es ! j)" and "length es = n"
    and "sorted_wrt (<) (map (\<lambda>e. p_doc_id (fst e)) es)"
    and "\<forall>pr. prev = Some pr \<longrightarrow> (\<forall>e \<in> set es. pr < p_doc_id (fst e))"
  shows "check_patches v i n prev = Inr ()"
  using assms
proof (induction n arbitrary: i prev es)
  case 0
  then show ?case by simp
next
  case (Suc n)
  then obtain e es' where es: "es = e # es'" "length es' = n" by (cases es) auto
  have "overlay_at v i = Some e" using Suc.prems(1) es by fastforce
  then have at: "overlay_patch v i = Some (fst e)" "ov_path_of v (fst e) = Some (snd e)"
    by (auto simp: overlay_at_def split: bind_splits)
  have "check_patches v (i + 1) n (Some (p_doc_id (fst e))) = Inr ()"
    by (rule Suc.IH [of _ es']) (use Suc.prems es in force)+
  then show ?case using at Suc.prems es by (auto split: option.splits simp: not_le fail_if_def)
qed

lemma overlay_parse_of_encode:
  assumes "patches_ok ps" and "overlay_encode crc ps = Inr bs"
  shows "overlay_parse_verified crc bs = Inr (overlay_of crc ps)"
proof -
  define body where "body = overlay_body ps"
  have bs: "bs = seal crc KOverlay body"
    using assms overlay_encode_eq [of ps crc] by (simp add: patches_ok_def body_def)
  have len: "length body = 24 + length ps * 36 + length (concat (map pi_path ps))"
    by (simp add: body_def length_overlay_body)
  have sz: "length (concat (map pi_path ps)) \<le> 0xffffffff" "length ps < 2 ^ 32"
    using assms(1) by (auto simp: patches_ok_def)
  have n: "unat (of_nat (length ps) :: u32) = length ps"
    using sz by (simp add: unsigned_of_nat take_bit_nat_eq_self)
  have p0: "peek32 body 0 = of_nat (length ps)" by (simp add: body_def overlay_body_def)
  have p8: "peek64 body 8 = of_nat (40 + length ps * 36)" by (simp add: body_def overlay_body_def del: of_nat_add)
  have p16: "peek64 body 16 = of_nat (length (concat (map pi_path ps)))"
    by (simp add: body_def overlay_body_def del: length_concat)
  have u: "unat (of_nat (40 + length ps * 36) :: u64) = 40 + length ps * 36"
    "unat (of_nat (length (concat (map pi_path ps))) :: u64) = length (concat (map pi_path ps))"
    using sz by (simp_all add: unsigned_of_nat take_bit_nat_eq_self del: of_nat_add length_concat)
  have d: "take (length (concat (map pi_path ps))) (drop (40 + length ps * 36) bs) = concat (map pi_path ps)"
    using take_drop_seal [of "24 + length ps * 36" "length (concat (map pi_path ps))" body crc KOverlay] len
      length_records [OF patch_recs_width [of 0 ps]]
    by (simp add: bs body_def overlay_body_def)
  have "check_patches (overlay_of crc ps) 0 (length ps) None = Inr ()"
  proof (rule check_patches_ok)
    show "\<forall>j < length ps. overlay_at (overlay_of crc ps) (0 + j) = Some (map (stored_patch ps) [0..<length ps] ! j)"
      using overlay_at_stored [OF assms(1), of _ crc] by (simp add: overlay_at_def stored_patch_def Let_def)
    have "map (\<lambda>e. p_doc_id (fst e)) (map (stored_patch ps) [0..<length ps]) = map pi_doc_id ps"
      by (rule nth_equalityI) (simp_all add: stored_patch_def Let_def)
    then show "sorted_wrt (<) (map (\<lambda>e. p_doc_id (fst e)) (map (stored_patch ps) [0..<length ps]))"
      using assms(1) by (simp add: patches_ok_def)
  qed simp_all
  then show ?thesis
    using len sz
    by (simp add: overlay_parse_verified_def envelope_parse_seal bs Let_def OVL_BODY_HEADER_LEN_def HEADER_LEN_def
        PATCH_LEN_def p0 p8 p16 u n d [unfolded bs] usize_add_small overlay_of_def body_def [symmetric]
        del: of_nat_add length_concat)
qed

lemma overlay_iter_of_encode:
  assumes "patches_ok ps" and "overlay_encode crc ps = Inr bs"
  shows "\<exists>v. overlay_parse_verified crc bs = Inr v \<and> overlay_iter v = map (stored_patch ps) [0..<length ps]"
proof (intro exI conjI)
  show "overlay_parse_verified crc bs = Inr (overlay_of crc ps)" by (rule overlay_parse_of_encode [OF assms])
  then obtain es where es: "lists_patches (overlay_of crc ps) es" using overlay_parse_lists by blast
  have "length es = length ps"
    using es assms(1) by (simp add: lists_patches_def overlay_of_def patches_ok_def unsigned_of_nat take_bit_nat_eq_self)
  moreover have "overlay_at (overlay_of crc ps) i = Some (stored_patch ps i)" if "i < length ps" for i
    using overlay_at_stored [OF assms(1) that] by (simp add: overlay_at_def stored_patch_def Let_def)
  ultimately have "es = map (stored_patch ps) [0..<length ps]"
    using es by (auto simp: lists_patches_def intro: nth_equalityI)
  then show "overlay_iter (overlay_of crc ps) = map (stored_patch ps) [0..<length ps]"
    using lists_patches_iter [OF es] by simp
qed

end
