(* ===== verification/Doc_Table.thy ===== *)
theory Doc_Table
  imports Prelude
begin

text \<open>
  Document ids and the sparse document table (\<open>src/index/doc_table.rs\<close>). A \<open>PathBuf\<close> is its bytes and a
  \<open>SystemTime\<close> its nanoseconds since the epoch. An operation that panics (\<open>assert!\<close>, \<open>expect\<close>) returns
  \<open>None\<close>. The counters are words and wrap as release arithmetic does.

  Main fact: in every table the operations can reach the counters are exactly the sums over the
  slots (\<open>reachable_ok\<close>), although each operation only adjusts them.
\<close>

datatype doc_status = Indexed | Skipped | Binary | TooLarge

fun was_read :: "doc_status \<Rightarrow> bool" where
  "was_read Indexed = True"
| "was_read Skipped = True"
| "was_read _ = False"

record doc_meta =
  dm_path :: bytes
  dm_inode :: u64
  dm_mtime :: int
  dm_size :: u64
  dm_len :: u32
  dm_status :: doc_status
  dm_content_hash :: u64

text \<open>\<open>FileEntry\<close> of the crawler, as far as \<open>from_entry\<close> reads it.\<close>

datatype file_kind = FText | FBinary | FTooLarge

record file_entry =
  fe_path :: bytes
  fe_inode :: u64
  fe_mtime :: int
  fe_size :: u64
  fe_kind :: file_kind

definition from_entry :: "file_entry \<Rightarrow> doc_meta" where
  "from_entry e = \<lparr>dm_path = fe_path e, dm_inode = fe_inode e, dm_mtime = fe_mtime e, dm_size = fe_size e,
     dm_len = 0, dm_status = Skipped, dm_content_hash = 0\<rparr>"

record doc_table =
  dt_slots :: "doc_meta option list"
  dt_live :: u32
  dt_indexed :: u32
  dt_total_len :: u64

definition dt_new :: doc_table where
  "dt_new = \<lparr>dt_slots = [], dt_live = 0, dt_indexed = 0, dt_total_len = 0\<rparr>"

definition dt_insert :: "nat \<Rightarrow> doc_meta \<Rightarrow> doc_table \<Rightarrow> doc_table option" where
  "dt_insert i m t =
     (let t = (if length (dt_slots t) \<le> i then t\<lparr>dt_slots := dt_slots t @ replicate (i + 1 - length (dt_slots t)) None\<rparr> else t)
      in if dt_slots t ! i \<noteq> None then None
         else let t = (if dm_status m = Indexed
                  then t\<lparr>dt_indexed := dt_indexed t + 1, dt_total_len := dt_total_len t + ucast (dm_len m)\<rparr> else t)
           in Some (t\<lparr>dt_live := dt_live t + 1, dt_slots := (dt_slots t)[i := Some m]\<rparr>))"

text \<open>\<open>self.dt_slots.get(id)\<close> and then the entry, if the slot has one.\<close>

definition dt_get :: "doc_table \<Rightarrow> nat \<Rightarrow> doc_meta option" where
  "dt_get t i = (if i < length (dt_slots t) then dt_slots t ! i else None)"

definition dt_mark_indexed :: "nat \<Rightarrow> u32 \<Rightarrow> doc_table \<Rightarrow> doc_table option" where
  "dt_mark_indexed i len t =
     (case dt_get t i of
        None \<Rightarrow> None
      | Some m \<Rightarrow>
          let t = (if dm_status m = Indexed then t\<lparr>dt_total_len := dt_total_len t - ucast (dm_len m)\<rparr>
                   else t\<lparr>dt_indexed := dt_indexed t + 1\<rparr>);
              m = m\<lparr>dm_status := Indexed, dm_len := len\<rparr>
          in Some (t\<lparr>dt_slots := (dt_slots t)[i := Some m], dt_total_len := dt_total_len t + ucast len\<rparr>))"

definition dt_set_status :: "nat \<Rightarrow> doc_status \<Rightarrow> doc_table \<Rightarrow> doc_table option" where
  "dt_set_status i status t =
     (case dt_get t i of
        None \<Rightarrow> None
      | Some m \<Rightarrow>
          let (t, m) = (if dm_status m = Indexed
                  then (t\<lparr>dt_indexed := dt_indexed t - 1, dt_total_len := dt_total_len t - ucast (dm_len m)\<rparr>, m\<lparr>dm_len := 0\<rparr>)
                  else (t, m))
          in Some (t\<lparr>dt_slots := (dt_slots t)[i := Some (m\<lparr>dm_status := status\<rparr>)]\<rparr>))"

definition dt_set_hash :: "nat \<Rightarrow> u64 \<Rightarrow> doc_table \<Rightarrow> doc_table" where
  "dt_set_hash i h t =
     (case dt_get t i of
        None \<Rightarrow> t
      | Some m \<Rightarrow> t\<lparr>dt_slots := (dt_slots t)[i := Some (m\<lparr>dm_content_hash := h\<rparr>)]\<rparr>)"

definition dt_remove :: "nat \<Rightarrow> doc_table \<Rightarrow> doc_meta option \<times> doc_table" where
  "dt_remove i t =
     (case dt_get t i of
        None \<Rightarrow> (None, t)
      | Some m \<Rightarrow>
          let t = t\<lparr>dt_slots := (dt_slots t)[i := None], dt_live := dt_live t - 1\<rparr>;
              t = (if dm_status m = Indexed
                   then t\<lparr>dt_indexed := dt_indexed t - 1, dt_total_len := dt_total_len t - ucast (dm_len m)\<rparr> else t)
          in (Some m, t))"

definition dt_len :: "doc_table \<Rightarrow> nat" where "dt_len t = unat (dt_live t)"
definition dt_is_empty :: "doc_table \<Rightarrow> bool" where "dt_is_empty t \<longleftrightarrow> dt_live t = 0"
definition dt_id_bound :: "doc_table \<Rightarrow> u32" where "dt_id_bound t = of_nat (length (dt_slots t))"
definition dt_indexed_count :: "doc_table \<Rightarrow> u32" where "dt_indexed_count t = dt_indexed t"

definition dt_iter :: "doc_table \<Rightarrow> (nat \<times> doc_meta) list" where
  "dt_iter t = List.map_filter (\<lambda>(i, s). map_option (Pair i) s) (zip [0..<length (dt_slots t)] (dt_slots t))"

section \<open>Counters\<close>

fun live_w :: "doc_meta option \<Rightarrow> u32" where
  "live_w None = 0"
| "live_w (Some m) = 1"

fun indexed_w :: "doc_meta option \<Rightarrow> u32" where
  "indexed_w None = 0"
| "indexed_w (Some m) = (if dm_status m = Indexed then 1 else 0)"

fun len_w :: "doc_meta option \<Rightarrow> u64" where
  "len_w None = 0"
| "len_w (Some m) = (if dm_status m = Indexed then ucast (dm_len m) else 0)"

definition dt_ok :: "doc_table \<Rightarrow> bool" where
  "dt_ok t \<longleftrightarrow> dt_live t = sum_list (map live_w (dt_slots t)) \<and> dt_indexed t = sum_list (map indexed_w (dt_slots t)) \<and>
     dt_total_len t = sum_list (map len_w (dt_slots t))"

lemma sum_list_upd:
  "i < length xs \<Longrightarrow> sum_list (map f (xs[i := y])) = sum_list (map f xs) - f (xs ! i) + (f y :: 'a::ab_group_add)"
  by (induction xs arbitrary: i) (auto split: nat.splits simp: algebra_simps)

lemma sum_holes: "sum_list (replicate n (0 :: 'a::comm_monoid_add)) = 0"
  by (induction n) simp_all

lemma dt_get_Some: "dt_get t i = Some m \<longleftrightarrow> i < length (dt_slots t) \<and> dt_slots t ! i = Some m"
  by (simp add: dt_get_def)

lemma dt_new_ok: "dt_ok dt_new"
  by (simp add: dt_ok_def dt_new_def)

lemma dt_insert_ok: "dt_insert i m t = Some t' \<Longrightarrow> dt_ok t \<Longrightarrow> dt_ok t'"
  by (auto simp: dt_insert_def dt_ok_def Let_def sum_list_upd nth_append sum_holes split: if_splits)

lemma dt_mark_indexed_ok: "dt_mark_indexed i n t = Some t' \<Longrightarrow> dt_ok t \<Longrightarrow> dt_ok t'"
  by (auto simp: dt_mark_indexed_def dt_ok_def Let_def sum_list_upd dt_get_Some split: if_splits option.splits)

lemma dt_set_status_ok: "dt_set_status i s t = Some t' \<Longrightarrow> s \<noteq> Indexed \<Longrightarrow> dt_ok t \<Longrightarrow> dt_ok t'"
  by (auto simp: dt_set_status_def dt_ok_def Let_def sum_list_upd dt_get_Some split: if_splits option.splits)

lemma dt_set_hash_ok: "dt_ok t \<Longrightarrow> dt_ok (dt_set_hash i h t)"
  by (auto simp: dt_set_hash_def dt_ok_def sum_list_upd dt_get_Some split: option.splits)

lemma dt_remove_ok: "dt_ok t \<Longrightarrow> dt_ok (snd (dt_remove i t))"
  by (auto simp: dt_remove_def dt_ok_def Let_def sum_list_upd dt_get_Some split: option.splits)

text \<open>The tables a program can build: any sequence of operations, none of which panics.\<close>

inductive dt_reachable :: "doc_table \<Rightarrow> bool" where
  reach_new: "dt_reachable dt_new"
| reach_insert: "dt_reachable t \<Longrightarrow> dt_insert i m t = Some t' \<Longrightarrow> dt_reachable t'"
| reach_mark: "dt_reachable t \<Longrightarrow> dt_mark_indexed i n t = Some t' \<Longrightarrow> dt_reachable t'"
| reach_status: "dt_reachable t \<Longrightarrow> s \<noteq> Indexed \<Longrightarrow> dt_set_status i s t = Some t' \<Longrightarrow> dt_reachable t'"
| reach_hash: "dt_reachable t \<Longrightarrow> dt_reachable (dt_set_hash i h t)"
| reach_remove: "dt_reachable t \<Longrightarrow> dt_reachable (snd (dt_remove i t))"

lemma reachable_ok: "dt_reachable t \<Longrightarrow> dt_ok t"
  by (induction rule: dt_reachable.induct)
    (auto intro: dt_new_ok dt_insert_ok dt_mark_indexed_ok dt_set_status_ok dt_set_hash_ok dt_remove_ok)

section \<open>Lookups and iteration\<close>

lemma dt_get_insert: "dt_insert i m t = Some t' \<Longrightarrow> dt_get t' j = (if j = i then Some m else dt_get t j)"
  by (auto simp: dt_insert_def dt_get_def Let_def nth_append nth_list_update split: if_splits)

lemma dt_get_remove: "dt_get (snd (dt_remove i t)) j = (if j = i then None else dt_get t j)"
  by (auto simp: dt_remove_def dt_get_def Let_def nth_list_update split: option.splits if_splits)

lemma dt_get_mark_indexed:
  "dt_mark_indexed i n t = Some t' \<Longrightarrow>
     dt_get t' j = (if j = i then map_option (\<lambda>m. m\<lparr>dm_status := Indexed, dm_len := n\<rparr>) (dt_get t i) else dt_get t j)"
  by (auto simp: dt_mark_indexed_def dt_get_def Let_def nth_list_update split: option.splits if_splits)

lemma dt_iter_set: "(i, m) \<in> set (dt_iter t) \<longleftrightarrow> dt_get t i = Some m"
proof -
  have "(i, m) \<in> set (dt_iter t) \<longleftrightarrow> (\<exists>n < length (dt_slots t). dt_slots t ! n = Some m \<and> i = n)"
    unfolding dt_iter_def map_filter_def by (force simp: in_set_zip image_iff)
  then show ?thesis by (auto simp: dt_get_def)
qed

lemma map_filter_append: "List.map_filter f (xs @ ys) = List.map_filter f xs @ List.map_filter f ys"
  by (simp add: map_filter_def)

lemma dt_iter_counts:
  "sum_list (map live_w ss) = of_nat (length (List.map_filter (\<lambda>(i, s). map_option (Pair i) s) (zip [k..<k + length ss] ss)))"
proof (induction ss arbitrary: k)
  case Nil
  then show ?case by (simp add: map_filter_def)
next
  case (Cons s ss)
  have "[k..<k + length (s # ss)] = k # [Suc k..<Suc k + length ss]" by (simp add: upt_conv_Cons del: upt_Suc)
  then show ?case using Cons.IH [of "Suc k"] by (cases s) (simp_all add: map_filter_simps)
qed

lemma dt_len_iter: "dt_reachable t \<Longrightarrow> dt_live t = of_nat (length (dt_iter t))"
  using reachable_ok [of t] dt_iter_counts [of "dt_slots t" 0] by (simp add: dt_ok_def dt_iter_def)

end
