(* ===== verification/Doc_File.thy ===== *)
theory Doc_File
  imports Envelope Doc_Table
begin

text \<open>
  The \<open>.doc\<close> file of a segment (\<open>src/format/doc.rs\<close>): 48-byte records and a path heap. Loop indices
  below \<open>num_docs\<close> are naturals; \<open>&bytes[a..b]\<close> in \<open>from_parts\<close> is a \<open>slice\<close> whose failure is the panic
  \<open>None\<close>.

  Main facts: \<open>doc_table_roundtrip\<close> (an encoded table parses, verifies, and each record and path reads
  back), and what \<open>doc_verify\<close> establishes about any accepted file (\<open>doc_verify_sound\<close>).
\<close>

definition DOC_BODY_HEADER_LEN :: nat where "DOC_BODY_HEADER_LEN = 32"
definition RECORD_LEN :: nat where "RECORD_LEN = 48"
definition STATUS_SKIPPED :: u8 where "STATUS_SKIPPED = 0"
definition STATUS_INDEXED :: u8 where "STATUS_INDEXED = 1"
definition STATUS_BINARY :: u8 where "STATUS_BINARY = 2"
definition STATUS_TOO_LARGE :: u8 where "STATUS_TOO_LARGE = 3"
definition MAX_STATUS :: u8 where "MAX_STATUS = STATUS_TOO_LARGE"

lemmas status_defs = STATUS_SKIPPED_def STATUS_INDEXED_def STATUS_BINARY_def STATUS_TOO_LARGE_def MAX_STATUS_def

datatype doc_kind = DkSkipped | DkIndexed | DkBinary | DkTooLarge

fun kind_byte :: "doc_kind \<Rightarrow> u8" where
  "kind_byte DkSkipped = STATUS_SKIPPED"
| "kind_byte DkIndexed = STATUS_INDEXED"
| "kind_byte DkBinary = STATUS_BINARY"
| "kind_byte DkTooLarge = STATUS_TOO_LARGE"

definition kind_from_byte :: "u8 \<Rightarrow> doc_kind option" where
  "kind_from_byte b =
     (if b = STATUS_SKIPPED then Some DkSkipped
      else if b = STATUS_INDEXED then Some DkIndexed
      else if b = STATUS_BINARY then Some DkBinary
      else if b = STATUS_TOO_LARGE then Some DkTooLarge
      else None)"

fun kind_of_status :: "doc_status \<Rightarrow> doc_kind" where
  "kind_of_status Skipped = DkSkipped"
| "kind_of_status Indexed = DkIndexed"
| "kind_of_status Binary = DkBinary"
| "kind_of_status TooLarge = DkTooLarge"

fun status_of_kind :: "doc_kind \<Rightarrow> doc_status" where
  "status_of_kind DkSkipped = Skipped"
| "status_of_kind DkIndexed = Indexed"
| "status_of_kind DkBinary = Binary"
| "status_of_kind DkTooLarge = TooLarge"

record doc_in =
  di_path :: bytes
  di_inode :: u64
  di_mtime_nanos :: i64
  di_size :: u64
  di_len :: u32
  di_kind :: doc_kind
  di_content_hash :: u64

text \<open>The encoder's loop over \<open>(body, paths, num_indexed, total_len)\<close>.\<close>

fun doc_write :: "doc_in list \<Rightarrow> bytes \<Rightarrow> bytes \<Rightarrow> u32 \<Rightarrow> u64 \<Rightarrow> (bytes \<times> bytes \<times> u32 \<times> u64) fresult" where
  "doc_write [] body paths num_indexed total_len = Inr (body, paths, num_indexed, total_len)"
| "doc_write (d # ds) body paths num_indexed total_len =
     and_then (fail_if (length (di_path d) > 0xffffffff \<or> length paths + length (di_path d) > 0xffffffff)
       (Invariant ''path heap exceeds 4 GiB'')) (\<lambda>_.
     and_then (fail_if (di_kind d \<noteq> DkIndexed \<and> di_len d \<noteq> 0)
       (Invariant ''non-indexed doc with non-zero length'')) (\<lambda>_.
     let body = body @ le_bytes 8 (di_inode d);
         body = body @ le_bytes 8 (di_mtime_nanos d);
         body = body @ le_bytes 8 (di_size d);
         body = body @ le_bytes 4 (di_len d);
         body = body @ le_bytes 4 (of_nat (length paths) :: u32);
         body = body @ le_bytes 4 (of_nat (length (di_path d)) :: u32);
         body = body @ [kind_byte (di_kind d)];
         body = body @ [0, 0, 0];
         body = body @ le_bytes 8 (di_content_hash d);
         paths = paths @ di_path d;
         (num_indexed, total_len) = (if di_kind d = DkIndexed
            then (num_indexed + 1, total_len + ucast (di_len d)) else (num_indexed, total_len))
     in doc_write ds body paths num_indexed total_len))"

definition doc_encode :: "(bytes \<Rightarrow> u32) \<Rightarrow> doc_in list \<Rightarrow> bytes fresult" where
  "doc_encode crc docs =
     (let n = length docs in
      and_then (doc_write docs (replicate DOC_BODY_HEADER_LEN 0) [] 0 0) (\<lambda>(body, paths, num_indexed, total_len).
      let paths_off = of_nat (HEADER_LEN + length body) :: u64;
          body = copy_at body 0 (le_bytes 4 (of_nat n :: u32));
          body = copy_at body 4 (le_bytes 4 num_indexed);
          body = copy_at body 8 (le_bytes 8 total_len);
          body = copy_at body 16 (le_bytes 8 paths_off);
          body = copy_at body 24 (le_bytes 8 (of_nat (length paths) :: u64));
          body = body @ paths
      in Inr (seal crc KDoc body)))"

record doc_rec =
  dr_inode :: u64
  dr_mtime_nanos :: i64
  dr_size :: u64
  dr_len :: u32
  dr_status :: u8
  dr_content_hash :: u64
  dr_path_off :: u32
  dr_path_len :: u32

definition dr_indexed :: "doc_rec \<Rightarrow> bool" where
  "dr_indexed r \<longleftrightarrow> dr_status r = STATUS_INDEXED"

definition dr_kind :: "doc_rec \<Rightarrow> doc_kind option" where
  "dr_kind r = kind_from_byte (dr_status r)"

record doc_table_view =
  dtv_bytes :: bytes
  dtv_env :: envelope
  dtv_num_docs :: u32
  dtv_num_indexed :: u32
  dtv_total_len :: u64
  dtv_paths :: bytes

definition doc_parse :: "bytes \<Rightarrow> doc_table_view fresult" where
  "doc_parse bs =
     and_then (envelope_parse KDoc bs) (\<lambda>env.
     let body = body_of bs env in
     and_then (fail_if (length body < DOC_BODY_HEADER_LEN) (Truncated (length body) DOC_BODY_HEADER_LEN)) (\<lambda>_.
     and_then (read_u32_le body 0) (\<lambda>num_docs.
     and_then (read_u32_le body 4) (\<lambda>num_indexed.
     and_then (read_u64_le body 8) (\<lambda>total_len.
     and_then (and_then (read_u64_le body 16) to_usize) (\<lambda>paths_off.
     and_then (and_then (read_u64_le body 24) to_usize) (\<lambda>paths_len.
     let records_end = HEADER_LEN + DOC_BODY_HEADER_LEN + unat num_docs * RECORD_LEN in
     and_then (fail_if (paths_off \<noteq> records_end \<or> usize_add paths_off paths_len \<noteq> snd (env_body env))
       (Corrupt ''doc table regions do not tile the body'')) (\<lambda>_.
     and_then (fail_if (num_docs < num_indexed) (Corrupt ''num_indexed exceeds num_docs'')) (\<lambda>_.
     and_then (slice bs paths_off paths_len) (\<lambda>paths.
     Inr \<lparr>dtv_bytes = bs, dtv_env = env, dtv_num_docs = num_docs, dtv_num_indexed = num_indexed,
          dtv_total_len = total_len, dtv_paths = paths\<rparr>))))))))))"

definition doc_from_parts :: "bytes \<Rightarrow> envelope \<Rightarrow> u32 \<Rightarrow> u32 \<Rightarrow> u64 \<Rightarrow> nat \<times> nat \<Rightarrow> doc_table_view option" where
  "doc_from_parts bs env num_docs num_indexed total_len r =
     map_option (\<lambda>paths. \<lparr>dtv_bytes = bs, dtv_env = env, dtv_num_docs = num_docs, dtv_num_indexed = num_indexed,
       dtv_total_len = total_len, dtv_paths = paths\<rparr>) (get_range bs (fst r) (snd r))"

definition doc_paths_range :: "doc_table_view \<Rightarrow> nat \<times> nat" where
  "doc_paths_range v = (snd (env_body (dtv_env v)) - length (dtv_paths v), snd (env_body (dtv_env v)))"

definition doc_record_at :: "nat \<Rightarrow> nat" where
  "doc_record_at i = HEADER_LEN + DOC_BODY_HEADER_LEN + i * RECORD_LEN"

definition doc_record :: "doc_table_view \<Rightarrow> nat \<Rightarrow> doc_rec option" where
  "doc_record v i =
     (if unat (dtv_num_docs v) \<le> i then None
      else let b = dtv_bytes v; at = doc_record_at i in
        Option.bind (ok (read_u64_le b at)) (\<lambda>ino.
        Option.bind (ok (read_i64_le b (at + 8))) (\<lambda>mt.
        Option.bind (ok (read_u64_le b (at + 16))) (\<lambda>sz.
        Option.bind (ok (read_u32_le b (at + 24))) (\<lambda>ln.
        Option.bind (ok (read_u32_le b (at + 28))) (\<lambda>po.
        Option.bind (ok (read_u32_le b (at + 32))) (\<lambda>pl.
        Option.bind (ok (read_u64_le b (at + 40))) (\<lambda>h.
        Some \<lparr>dr_inode = ino, dr_mtime_nanos = mt, dr_size = sz, dr_len = ln, dr_status = b ! (at + 36),
              dr_content_hash = h, dr_path_off = po, dr_path_len = pl\<rparr>))))))))"

definition doc_path :: "doc_table_view \<Rightarrow> nat \<Rightarrow> bytes option" where
  "doc_path v i =
     Option.bind (doc_record v i) (\<lambda>r.
     Option.bind (get_range (dtv_paths v) (unat (dr_path_off r)) (unat (dr_path_off r) + unat (dr_path_len r))) from_utf8)"

definition doc_len_if_indexed :: "doc_table_view \<Rightarrow> nat \<Rightarrow> u32 option" where
  "doc_len_if_indexed v i =
     (if unat (dtv_num_docs v) \<le> i then None
      else let at = doc_record_at i in
        if dtv_bytes v ! (at + 36) \<noteq> STATUS_INDEXED then None
        else ok (read_u32_le (dtv_bytes v) (at + 24)))"

text \<open>The record loop of \<open>verify\<close>: \<open>n\<close> records left, at index \<open>i\<close>, with the counters so far.\<close>

fun doc_verify_loop :: "doc_table_view \<Rightarrow> nat \<Rightarrow> nat \<Rightarrow> u32 \<Rightarrow> u64 \<Rightarrow> (u32 \<times> u64) fresult" where
  "doc_verify_loop v i 0 ix tot = Inr (ix, tot)"
| "doc_verify_loop v i (Suc n) ix tot =
     and_then (ok_or (doc_record v i) (Corrupt ''record out of range'')) (\<lambda>r.
     and_then (fail_if (MAX_STATUS < dr_status r)
       (Corrupt (''doc '' @ show_nat i @ '': bad status '' @ show_nat (unat (dr_status r))))) (\<lambda>_.
     and_then (fail_if (\<not> dr_indexed r \<and> dr_len r \<noteq> 0)
       (Corrupt (''doc '' @ show_nat i @ '': non-indexed but len '' @ show_nat (unat (dr_len r))))) (\<lambda>_.
     and_then (fail_if (take 3 (drop (doc_record_at i + 37) (dtv_bytes v)) \<noteq> [0, 0, 0])
       (Corrupt (''doc '' @ show_nat i @ '': reserved bytes set''))) (\<lambda>_.
     and_then (ok_or (doc_path v i) (Corrupt (''doc '' @ show_nat i @ '': bad path''))) (\<lambda>_.
     let (ix, tot) = (if dr_indexed r then (ix + 1, tot + ucast (dr_len r)) else (ix, tot))
     in doc_verify_loop v (i + 1) n ix tot)))))"

definition doc_verify :: "(bytes \<Rightarrow> u32) \<Rightarrow> doc_table_view \<Rightarrow> unit fresult" where
  "doc_verify crc v =
     and_then (verify_crc crc (dtv_bytes v) (dtv_env v)) (\<lambda>_.
     and_then (doc_verify_loop v 0 (unat (dtv_num_docs v)) 0 0) (\<lambda>(ix, tot).
     fail_if (ix \<noteq> dtv_num_indexed v \<or> tot \<noteq> dtv_total_len v)
       (Corrupt ''doc table counters disagree with records'')))"

section \<open>Kinds and status bytes\<close>

lemma kind_from_byte_byte [simp]: "kind_from_byte (kind_byte k) = Some k"
  by (cases k) (simp_all add: kind_from_byte_def status_defs)

lemma kind_byte_from_byte: "kind_from_byte b = Some k \<Longrightarrow> kind_byte k = b"
  by (auto simp: kind_from_byte_def split: if_splits)

lemma status_of_kind_of_status [simp]: "status_of_kind (kind_of_status s) = s"
  by (cases s) simp_all

lemma kind_of_status_of_kind [simp]: "kind_of_status (status_of_kind k) = k"
  by (cases k) simp_all

lemma kind_byte_le: "kind_byte k \<le> MAX_STATUS"
  by (cases k) (simp_all add: status_defs)

lemma kind_byte_indexed [simp]: "kind_byte k = STATUS_INDEXED \<longleftrightarrow> k = DkIndexed"
  by (cases k) (simp_all add: status_defs)

section \<open>What the encoder writes\<close>

definition doc_bytes :: "nat \<Rightarrow> doc_in \<Rightarrow> bytes" where
  "doc_bytes off d =
     le_bytes 8 (di_inode d) @ le_bytes 8 (di_mtime_nanos d) @ le_bytes 8 (di_size d) @ le_bytes 4 (di_len d) @
     le_bytes 4 (of_nat off :: u32) @ le_bytes 4 (of_nat (length (di_path d)) :: u32) @
     [kind_byte (di_kind d)] @ [0, 0, 0] @ le_bytes 8 (di_content_hash d)"

fun doc_recs :: "nat \<Rightarrow> doc_in list \<Rightarrow> bytes list" where
  "doc_recs off [] = []"
| "doc_recs off (d # ds) = doc_bytes off d # doc_recs (off + length (di_path d)) ds"

text \<open>The counters the header must carry.\<close>

fun count_indexed :: "doc_in list \<Rightarrow> u32" where
  "count_indexed [] = 0"
| "count_indexed (d # ds) = (if di_kind d = DkIndexed then 1 else 0) + count_indexed ds"

fun sum_lens :: "doc_in list \<Rightarrow> u64" where
  "sum_lens [] = 0"
| "sum_lens (d # ds) = (if di_kind d = DkIndexed then ucast (di_len d) else 0) + sum_lens ds"

lemma length_doc_bytes [simp]: "length (doc_bytes off d) = 48"
  by (simp add: doc_bytes_def)

lemma length_doc_recs [simp]: "length (doc_recs off ds) = length ds"
  by (induction ds arbitrary: off) simp_all

lemma doc_recs_width: "\<forall>r \<in> set (doc_recs off ds). length r = 48"
  by (induction ds arbitrary: off) simp_all

lemma doc_recs_nth:
  "i < length ds \<Longrightarrow> doc_recs off ds ! i = doc_bytes (off + heap_off (map di_path ds) i) (ds ! i)"
proof (induction ds arbitrary: off i)
  case Nil
  then show ?case by simp
next
  case (Cons d ds)
  then show ?case by (cases i) (simp_all add: heap_off_def add.assoc)
qed

definition docs_ok :: "doc_in list \<Rightarrow> bool" where
  "docs_ok ds \<longleftrightarrow> length ds < 2 ^ 32 \<and> (\<forall>d \<in> set ds. utf8_valid (di_path d) \<and> (di_kind d \<noteq> DkIndexed \<longrightarrow> di_len d = 0)) \<and>
     length (concat (map di_path ds)) \<le> 0xffffffff"

lemma doc_write_eq:
  assumes "\<forall>d \<in> set ds. di_kind d \<noteq> DkIndexed \<longrightarrow> di_len d = 0"
    and "length paths + length (concat (map di_path ds)) \<le> 0xffffffff"
  shows "doc_write ds body paths ix tot =
     Inr (body @ concat (doc_recs (length paths) ds), paths @ concat (map di_path ds),
          ix + count_indexed ds, tot + sum_lens ds)"
  using assms
proof (induction ds arbitrary: body paths ix tot)
  case Nil
  then show ?case by simp
next
  case (Cons d ds)
  have "doc_write ds (body @ doc_bytes (length paths) d) (paths @ di_path d) ix' tot' =
     Inr ((body @ doc_bytes (length paths) d) @ concat (doc_recs (length (paths @ di_path d)) ds),
       (paths @ di_path d) @ concat (map di_path ds), ix' + count_indexed ds, tot' + sum_lens ds)" for ix' tot'
    by (rule Cons.IH) (use Cons.prems in simp_all)
  then show ?case using Cons.prems
    by (cases "di_kind d = DkIndexed") (auto simp: doc_bytes_def fail_if_def add.assoc)
qed

definition doc_body :: "doc_in list \<Rightarrow> bytes" where
  "doc_body ds =
     (le_bytes 4 (of_nat (length ds) :: u32) @ le_bytes 4 (count_indexed ds) @ le_bytes 8 (sum_lens ds) @
      le_bytes 8 (of_nat (48 + length ds * 48) :: u64) @
      le_bytes 8 (of_nat (length (concat (map di_path ds))) :: u64)) @
     concat (doc_recs 0 ds) @ concat (map di_path ds)"

lemma length_doc_body: "length (doc_body ds) = 32 + length ds * 48 + length (concat (map di_path ds))"
  using length_records [OF doc_recs_width [of 0 ds]] by (simp add: doc_body_def)

lemma doc_encode_eq:
  assumes "docs_ok ds"
  shows "doc_encode crc ds = Inr (seal crc KDoc (doc_body ds))"
proof -
  have "doc_write ds (replicate 32 0) [] 0 0 = Inr (replicate 32 0 @ concat (doc_recs (length ([] :: bytes)) ds),
      [] @ concat (map di_path ds), 0 + count_indexed ds, 0 + sum_lens ds)"
    by (rule doc_write_eq) (use assms in \<open>auto simp: docs_ok_def\<close>)
  moreover have "length (concat (doc_recs 0 ds)) = length ds * 48"
    using length_records [OF doc_recs_width] by simp
  ultimately show ?thesis
    by (simp add: doc_encode_def DOC_BODY_HEADER_LEN_def copy_at_def Let_def doc_body_def HEADER_LEN_def)
qed

section \<open>Round trip\<close>

lemma doc_peek:
  assumes "i < length ds"
  shows "k + 4 \<le> 48 \<Longrightarrow> peek32 (seal crc KDoc (doc_body ds)) (doc_record_at i + k) =
      peek32 (doc_bytes (heap_off (map di_path ds) i) (ds ! i)) k"
    and "k + 8 \<le> 48 \<Longrightarrow> peek64 (seal crc KDoc (doc_body ds)) (doc_record_at i + k) =
      peek64 (doc_bytes (heap_off (map di_path ds) i) (ds ! i)) k"
    and "k < 48 \<Longrightarrow> seal crc KDoc (doc_body ds) ! (doc_record_at i + k) =
      doc_bytes (heap_off (map di_path ds) i) (ds ! i) ! k"
    and "doc_record_at i + 48 \<le> length (seal crc KDoc (doc_body ds))"
proof -
  let ?hdr = "le_bytes 4 (of_nat (length ds) :: u32) @ le_bytes 4 (count_indexed ds) @ le_bytes 8 (sum_lens ds) @
      le_bytes 8 (of_nat (48 + length ds * 48) :: u64) @
      le_bytes 8 (of_nat (length (concat (map di_path ds))) :: u64)"
  have h: "length ?hdr = 32" by simp
  have i: "i < length (doc_recs 0 ds)" using assms by simp
  note r = peek_record [OF doc_recs_width [of 0 ds] i h]
  have n: "doc_recs 0 ds ! i = doc_bytes (heap_off (map di_path ds) i) (ds ! i)"
    using doc_recs_nth [OF assms] by simp
  have len: "32 + i * 48 + 48 \<le> length (doc_body ds)" using assms by (simp add: length_doc_body)
  have at: "doc_record_at i + k = 16 + (32 + i * 48 + k)" for k
    by (simp add: doc_record_at_def HEADER_LEN_def DOC_BODY_HEADER_LEN_def RECORD_LEN_def)
  show "k + 4 \<le> 48 \<Longrightarrow> peek32 (seal crc KDoc (doc_body ds)) (doc_record_at i + k) =
      peek32 (doc_bytes (heap_off (map di_path ds) i) (ds ! i)) k"
    unfolding at using len by (subst peek_seal) (auto simp only: doc_body_def r(1) n intro: order.trans)
  show "k + 8 \<le> 48 \<Longrightarrow> peek64 (seal crc KDoc (doc_body ds)) (doc_record_at i + k) =
      peek64 (doc_bytes (heap_off (map di_path ds) i) (ds ! i)) k"
    unfolding at using len by (subst peek_seal) (auto simp only: doc_body_def r(2) n)
  show "k < 48 \<Longrightarrow> seal crc KDoc (doc_body ds) ! (doc_record_at i + k) =
      doc_bytes (heap_off (map di_path ds) i) (ds ! i) ! k"
    unfolding at using len by (subst nth_seal) (auto simp only: doc_body_def r(3) n)
  show "doc_record_at i + 48 \<le> length (seal crc KDoc (doc_body ds))"
    using len at [of 48] by simp
qed

definition doc_view_of :: "(bytes \<Rightarrow> u32) \<Rightarrow> doc_in list \<Rightarrow> doc_table_view" where
  "doc_view_of crc ds = \<lparr>dtv_bytes = seal crc KDoc (doc_body ds), dtv_env = sealed_env crc (doc_body ds),
     dtv_num_docs = of_nat (length ds), dtv_num_indexed = count_indexed ds, dtv_total_len = sum_lens ds,
     dtv_paths = concat (map di_path ds)\<rparr>"

definition record_of :: "doc_in list \<Rightarrow> nat \<Rightarrow> doc_rec" where
  "record_of ds i = (let d = ds ! i in
     \<lparr>dr_inode = di_inode d, dr_mtime_nanos = di_mtime_nanos d, dr_size = di_size d, dr_len = di_len d,
      dr_status = kind_byte (di_kind d), dr_content_hash = di_content_hash d,
      dr_path_off = of_nat (heap_off (map di_path ds) i), dr_path_len = of_nat (length (di_path d))\<rparr>)"

lemma peek64_Cons: "0 < at \<Longrightarrow> peek64 (x # xs) at = peek64 xs (at - 1)"
  by (cases at) (simp_all add: peek64_def)

lemma doc_record_stored:
  assumes "docs_ok ds" and "i < length ds"
  shows "doc_record (doc_view_of crc ds) i = Some (record_of ds i)"
    and "doc_path (doc_view_of crc ds) i = Some (di_path (ds ! i))"
proof -
  note k = doc_peek [OF assms(2), where crc = crc] doc_peek(1,2) [OF assms(2), where k = 0 and crc = crc, simplified]
  have n: "unat (of_nat (length ds) :: u32) = length ds"
    using assms(1) by (simp add: docs_ok_def unsigned_of_nat take_bit_nat_eq_self)
  show r: "doc_record (doc_view_of crc ds) i = Some (record_of ds i)"
    using assms(2) k(4) n
    by (simp add: doc_record_def doc_view_of_def Let_def k record_of_def) (simp add: doc_bytes_def nth_append peek64_Cons)
  have m: "i < length (map di_path ds)" using assms(2) by simp
  have o: "heap_off (map di_path ds) i + length (di_path (ds ! i)) \<le> 0xffffffff"
    using heap_off_le [OF m] assms by (simp add: docs_ok_def)
  have "dr_path_off (record_of ds i) = of_nat (heap_off (map di_path ds) i)"
    "dr_path_len (record_of ds i) = of_nat (length (di_path (ds ! i)))"
    "dtv_paths (doc_view_of crc ds) = concat (map di_path ds)"
    by (simp_all add: record_of_def Let_def doc_view_of_def)
  with o show "doc_path (doc_view_of crc ds) i = Some (di_path (ds ! i))"
    using heap_get [OF m] assms r
    by (simp add: doc_path_def unsigned_of_nat take_bit_nat_eq_self docs_ok_def)
qed

lemma doc_verify_loop_stored:
  assumes "docs_ok ds" and "k + i = length ds"
  shows "doc_verify_loop (doc_view_of crc ds) i k ix tot =
     Inr (ix + count_indexed (drop i ds), tot + sum_lens (drop i ds))"
  using assms(2)
proof (induction k arbitrary: i ix tot)
  case 0
  then show ?case by simp
next
  case (Suc k)
  then have i: "i < length ds" by simp
  let ?d = "ds ! i"
  note r = doc_record_stored [OF assms(1) i, of crc]
  have f: "dr_status (record_of ds i) = kind_byte (di_kind ?d)" "dr_len (record_of ds i) = di_len ?d"
    by (simp_all add: record_of_def Let_def)
  have z: "di_kind ?d \<noteq> DkIndexed \<longrightarrow> di_len ?d = 0" using assms(1) i by (simp add: docs_ok_def)
  have "take 3 (drop (doc_record_at i + 37) (seal crc KDoc (doc_body ds))) = [0, 0, 0]"
  proof (rule nth_equalityI)
    fix j assume "j < length (take 3 (drop (doc_record_at i + 37) (seal crc KDoc (doc_body ds))))"
    then have j: "j < 3" by simp
    then have "take 3 (drop (doc_record_at i + 37) (seal crc KDoc (doc_body ds))) ! j =
        doc_bytes (heap_off (map di_path ds) i) ?d ! (37 + j)"
      using doc_peek(3) [OF i, of "37 + j" crc] doc_peek(4) [OF i, of crc] by (simp add: add.assoc)
    also have "\<dots> = [0, 0, 0] ! j" using j
      by (simp add: doc_bytes_def nth_append less_Suc_eq numeral_3_eq_3)
        (auto simp: nth_append less_Suc_eq numeral_eq_Suc)
    finally show "take 3 (drop (doc_record_at i + 37) (seal crc KDoc (doc_body ds))) ! j = [0, 0, 0] ! j" .
  qed (use doc_peek(4) [OF i, of crc] in simp)
  then have z3: "take 3 (drop (doc_record_at i + 37) (dtv_bytes (doc_view_of crc ds))) = [0, 0, 0]"
    by (simp add: doc_view_of_def)
  have d: "drop i ds = ?d # drop (Suc i) ds" using i by (rule Cons_nth_drop_Suc [symmetric])
  have le: "\<not> MAX_STATUS < kind_byte (di_kind ?d)" using kind_byte_le by (simp add: not_less)
  show ?case
    using Suc.IH [of "Suc i"] Suc.prems r f z z3 le
    by (simp add: d dr_indexed_def fail_if_def)
qed

lemma count_indexed_eq: "count_indexed ds = of_nat (length (filter (\<lambda>d. di_kind d = DkIndexed) ds))"
  by (induction ds) simp_all

lemma doc_parse_of_encode:
  assumes "docs_ok ds"
  shows "doc_parse (seal crc KDoc (doc_body ds)) = Inr (doc_view_of crc ds)"
proof -
  define body where "body = doc_body ds"
  have len: "length body = 32 + length ds * 48 + length (concat (map di_path ds))"
    by (simp add: body_def length_doc_body)
  have sz: "length (concat (map di_path ds)) \<le> 0xffffffff" "length ds < 2 ^ 32"
    using assms(1) by (auto simp: docs_ok_def)
  have n: "unat (of_nat (length ds) :: u32) = length ds"
    using sz by (simp add: unsigned_of_nat take_bit_nat_eq_self)
  have ci: "\<not> (of_nat (length ds) :: u32) < count_indexed ds"
  proof -
    have l: "length (filter (\<lambda>d. di_kind d = DkIndexed) ds) \<le> length ds" by simp
    have "length (filter (\<lambda>d. di_kind d = DkIndexed) ds) < 2 ^ 32" by (rule le_less_trans [OF l sz(2)])
    with l sz show ?thesis
      by (simp add: count_indexed_eq word_less_nat_alt unsigned_of_nat take_bit_nat_eq_self not_less)
  qed
  have p: "peek32 body 0 = of_nat (length ds)" "peek32 body 4 = count_indexed ds" "peek64 body 8 = sum_lens ds"
    by (simp_all add: body_def doc_body_def)
  have p16: "peek64 body 16 = of_nat (48 + length ds * 48)" by (simp add: body_def doc_body_def del: of_nat_add)
  have p24: "peek64 body 24 = of_nat (length (concat (map di_path ds)))"
    by (simp add: body_def doc_body_def del: length_concat)
  have u: "unat (of_nat (48 + length ds * 48) :: u64) = 48 + length ds * 48"
    "unat (of_nat (length (concat (map di_path ds))) :: u64) = length (concat (map di_path ds))"
    using sz by (simp_all add: unsigned_of_nat take_bit_nat_eq_self del: of_nat_add length_concat)
  have d: "take (length (concat (map di_path ds))) (drop (48 + length ds * 48) (seal crc KDoc body)) = concat (map di_path ds)"
    using take_drop_seal [of "32 + length ds * 48" "length (concat (map di_path ds))" body crc KDoc] len
      length_records [OF doc_recs_width [of 0 ds]]
    by (simp add: body_def doc_body_def)
  show ?thesis
    using len sz ci
    by (simp add: doc_parse_def Let_def DOC_BODY_HEADER_LEN_def HEADER_LEN_def
        RECORD_LEN_def p p16 p24 u n d usize_add_small doc_view_of_def body_def [symmetric]
        del: of_nat_add length_concat)
qed

lemma doc_table_roundtrip_lemma:
  assumes "docs_ok ds" and "doc_encode crc ds = Inr bs"
  shows "\<exists>v. doc_parse bs = Inr v \<and> doc_verify crc v = Inr () \<and> unat (dtv_num_docs v) = length ds \<and>
     (\<forall>i < length ds. doc_record v i = Some (record_of ds i) \<and> doc_path v i = Some (di_path (ds ! i)))"
proof (intro exI conjI allI impI)
  have bs: "bs = seal crc KDoc (doc_body ds)" using assms doc_encode_eq by simp
  show "doc_parse bs = Inr (doc_view_of crc ds)" unfolding bs by (rule doc_parse_of_encode [OF assms(1)])
  show n: "unat (dtv_num_docs (doc_view_of crc ds)) = length ds"
    using assms(1) by (simp add: doc_view_of_def docs_ok_def unsigned_of_nat take_bit_nat_eq_self)
  have "verify_crc crc (dtv_bytes (doc_view_of crc ds)) (dtv_env (doc_view_of crc ds)) = Inr ()"
    by (simp add: doc_view_of_def)
  then show "doc_verify crc (doc_view_of crc ds) = Inr ()"
    using n doc_verify_loop_stored [OF assms(1), of "length ds" 0 crc 0 0]
    by (simp add: doc_verify_def doc_view_of_def)
qed (use doc_record_stored [OF assms(1)] in auto)

section \<open>What a verified file guarantees\<close>

definition record_valid :: "doc_table_view \<Rightarrow> nat \<Rightarrow> doc_rec \<Rightarrow> bool" where
  "record_valid v i r \<longleftrightarrow> doc_record v i = Some r \<and> dr_kind r \<noteq> None \<and> (\<not> dr_indexed r \<longrightarrow> dr_len r = 0) \<and>
     doc_path v i \<noteq> None"

lemma dr_kind_le: "dr_status r \<le> MAX_STATUS \<Longrightarrow> dr_kind r \<noteq> None"
proof -
  assume "dr_status r \<le> MAX_STATUS"
  then have "unat (dr_status r) = 0 \<or> unat (dr_status r) = 1 \<or> unat (dr_status r) = 2 \<or> unat (dr_status r) = 3"
    by (auto simp: status_defs word_le_nat_alt)
  then have "dr_status r = 0 \<or> dr_status r = 1 \<or> dr_status r = 2 \<or> dr_status r = 3"
    by (simp add: word_unat_eq_iff)
  then show ?thesis by (auto simp: dr_kind_def kind_from_byte_def status_defs)
qed

lemma doc_verify_loop_Inr:
  "doc_verify_loop v i n ix tot = Inr (ix', tot') \<Longrightarrow>
     \<exists>rs. length rs = n \<and> (\<forall>j < n. record_valid v (i + j) (rs ! j)) \<and>
       ix' = ix + of_nat (length (filter dr_indexed rs)) \<and>
       tot' = tot + sum_list (map (\<lambda>r. ucast (dr_len r)) (filter dr_indexed rs))"
proof (induction n arbitrary: i ix tot)
  case 0
  then show ?case by simp
next
  case (Suc n)
  from Suc.prems obtain r where r: "doc_record v i = Some r" "dr_status r \<le> MAX_STATUS"
    "\<not> dr_indexed r \<longrightarrow> dr_len r = 0" "doc_path v i \<noteq> None"
    and rec: "doc_verify_loop v (i + 1) n (if dr_indexed r then ix + 1 else ix)
       (if dr_indexed r then tot + ucast (dr_len r) else tot) = Inr (ix', tot')"
    by (auto simp: Let_def not_less split: if_splits)
  from Suc.IH [OF rec] obtain rs where rs: "length rs = n" "\<forall>j < n. record_valid v (i + 1 + j) (rs ! j)"
    "ix' = (if dr_indexed r then ix + 1 else ix) + of_nat (length (filter dr_indexed rs))"
    "tot' = (if dr_indexed r then tot + ucast (dr_len r) else tot) +
       sum_list (map (\<lambda>r. ucast (dr_len r)) (filter dr_indexed rs))" by blast
  have "record_valid v (i + j) ((r # rs) ! j)" if "j < Suc n" for j
    using that rs(2) r dr_kind_le [OF r(2)] by (cases j) (auto simp: record_valid_def)
  with rs show ?case by (intro exI [of _ "r # rs"]) (simp add: add.assoc)
qed

lemma doc_verify_facts:
  assumes "doc_verify crc v = Inr ()"
  shows "\<exists>rs. length rs = unat (dtv_num_docs v) \<and> (\<forall>i < length rs. record_valid v i (rs ! i)) \<and>
     dtv_num_indexed v = of_nat (length (filter dr_indexed rs)) \<and>
     dtv_total_len v = sum_list (map (\<lambda>r. ucast (dr_len r)) (filter dr_indexed rs))"
proof -
  from assms have "doc_verify_loop v 0 (unat (dtv_num_docs v)) 0 0 = Inr (dtv_num_indexed v, dtv_total_len v)"
    by (auto simp: doc_verify_def split: prod.splits)
  from doc_verify_loop_Inr [OF this] show ?thesis by auto
qed

lemma doc_len_if_indexed_record:
  "doc_record v i = Some r \<Longrightarrow> doc_len_if_indexed v i = (if dr_indexed r then Some (dr_len r) else None)"
  by (auto simp: doc_record_def doc_len_if_indexed_def dr_indexed_def Let_def split: if_splits bind_splits)

end
