(* ===== verification/Varint.thy ===== *)
theory Varint
  imports Prelude
begin

text \<open>
  Unsigned LEB128 (\<open>src/format/varint.rs\<close>). The encoder's loop appends to \<open>out\<close>; the decoder's loop
  carries the value, the shift and the position. The Rust decoder advances \<open>*pos\<close> also when it fails,
  but no caller reads the position after an error, so an error carries none here.

  Main facts: \<open>read_u64_put_u64\<close> (round trip with any surrounding bytes), the width of an encoding
  (\<open>1\<close> to \<open>10\<close> bytes), and that the decoder consumes at most 10 bytes and stays inside the buffer.
\<close>

lemma unat_drop_bit_7: "unat (drop_bit 7 (v :: u64)) = unat v div 128"
  unfolding unsigned_drop_bit_eq by (simp add: drop_bit_eq_div take_bit_nat_eq_self unat_bounds)

lemma drop_bit_7_less:
  assumes "drop_bit 7 (v :: u64) \<noteq> 0"
  shows "unat (drop_bit 7 v) < unat v"
proof -
  have "v \<noteq> 0" using assms by auto
  then have "0 < unat v" by (simp add: unat_gt_0)
  then show ?thesis unfolding unat_drop_bit_7 by simp
qed

function put_u64 :: "bytes \<Rightarrow> u64 \<Rightarrow> bytes" where
  "put_u64 out v =
     (let byte = ucast (v AND 0x7f) :: u8; v' = drop_bit 7 v
      in if v' = 0 then out @ [byte] else put_u64 (out @ [byte OR 0x80]) v')"
  by pat_completeness auto

termination
  by (relation "measure (\<lambda>(out, v). unat v)") (use drop_bit_7_less in auto)

declare put_u64.simps [simp del]

definition put_u32 :: "bytes \<Rightarrow> u32 \<Rightarrow> bytes" where
  "put_u32 out v = put_u64 out (ucast v)"

function read_u64_loop :: "bytes \<Rightarrow> nat \<Rightarrow> u64 \<Rightarrow> nat \<Rightarrow> (u64 \<times> nat) fresult" where
  "read_u64_loop buf pos v shift =
     (if length buf \<le> pos then Inl (Truncated pos 1)
      else let byte = buf ! pos; pos' = pos + 1 in
        if shift = 63 \<and> 1 < byte then Inl (Corrupt ''varint overflows u64'')
        else let v' = v OR push_bit shift (ucast (byte AND 0x7f)) in
          if byte AND 0x80 = 0 then Inr (v', pos')
          else let shift' = shift + 7 in
            if 63 < shift' then Inl (Corrupt ''varint longer than 10 bytes'')
            else read_u64_loop buf pos' v' shift')"
  by pat_completeness auto
termination
  by (relation "measure (\<lambda>(buf, pos, v, shift). length buf - pos)") auto

declare read_u64_loop.simps [simp del]

definition read_u64 :: "bytes \<Rightarrow> nat \<Rightarrow> (u64 \<times> nat) fresult" where
  "read_u64 buf pos = read_u64_loop buf pos 0 0"

definition read_u32 :: "bytes \<Rightarrow> nat \<Rightarrow> (u32 \<times> nat) fresult" where
  "read_u32 buf pos =
     and_then (read_u64 buf pos) (\<lambda>(v, pos').
       if v \<le> 0xffffffff then Inr (ucast v, pos') else Inl (Corrupt ''varint exceeds u32''))"

section \<open>The encoding as a byte list\<close>

definition varint :: "u64 \<Rightarrow> bytes" where
  "varint v = put_u64 [] v"

definition varint32 :: "u32 \<Rightarrow> bytes" where
  "varint32 v = varint (ucast v)"

lemma put_u64_prefix: "put_u64 (xs @ out) v = xs @ put_u64 out v"
proof (induction out v rule: put_u64.induct)
  case (1 out v)
  show ?case
    using 1 by (cases "drop_bit 7 v = 0") (simp_all add: put_u64.simps [of _ v] Let_def del: append_assoc add: append_assoc [symmetric])
qed

lemma put_u64_eq: "put_u64 out v = out @ varint v"
  using put_u64_prefix [of out "[]" v] by (simp add: varint_def)

lemma put_u32_eq: "put_u32 out v = out @ varint32 v"
  by (simp add: put_u32_def put_u64_eq varint32_def)

lemma varint_unfold:
  "varint v = (if drop_bit 7 v = 0 then [ucast (v AND 0x7f)]
               else (ucast (v AND 0x7f) OR 0x80) # varint (drop_bit 7 v))"
  using put_u64_eq [of "[ucast (v AND 0x7f) OR 0x80]" "drop_bit 7 v"]
  by (subst varint_def, subst put_u64.simps) (simp add: Let_def)

lemma varint_induct [case_names step]:
  assumes "\<And>v. (drop_bit 7 v \<noteq> 0 \<Longrightarrow> P (drop_bit 7 v)) \<Longrightarrow> P v"
  shows "P (v :: u64)"
proof (induction "unat v" arbitrary: v rule: less_induct)
  case less
  then show ?case using assms drop_bit_7_less by blast
qed

section \<open>Round trip\<close>

lemma bit_7f: "bit (0x7f :: 'a::len word) n \<longleftrightarrow> n < 7 \<and> n < LENGTH('a)"
proof -
  have "bit (mask 7 :: 'a word) n \<longleftrightarrow> n < 7 \<and> n < LENGTH('a)" by (simp add: bit_mask_iff) auto
  then show ?thesis by (simp add: mask_eq_exp_minus_1)
qed

lemma bit_80: "bit (0x80 :: u8) n \<longleftrightarrow> n = 7"
proof -
  have "(0x80 :: u8) = push_bit 7 1" by simp
  then show ?thesis by (simp only: bit_simps) auto
qed

lemmas varint_bits = bit_simps bit_7f bit_80

lemma low7_no_high: "(ucast (v AND 0x7f :: u64) :: u8) AND 0x80 = 0"
  by (rule bit_word_eqI) (auto simp: varint_bits simp del: bit_numeral_word_iff)

lemma low7_or_high: "((ucast (v AND 0x7f :: u64) :: u8) OR 0x80) AND 0x80 \<noteq> 0"
proof
  assume "((ucast (v AND 0x7f :: u64) :: u8) OR 0x80) AND 0x80 = 0"
  then have "bit (((ucast (v AND 0x7f :: u64) :: u8) OR 0x80) AND 0x80) 7 = bit (0 :: u8) 7"
    by simp
  then show False by (simp add: varint_bits del: bit_numeral_word_iff)
qed

lemma low7_payload:
  "(ucast ((ucast (v AND 0x7f :: u64) :: u8) AND 0x7f) :: u64) = v AND 0x7f"
  "(ucast (((ucast (v AND 0x7f :: u64) :: u8) OR 0x80) AND 0x7f) :: u64) = v AND 0x7f"
  by (auto simp: varint_bits simp del: bit_numeral_word_iff intro!: bit_word_eqI)

text \<open>The value is its low seven bits and the rest.\<close>

lemma last_group: "drop_bit 7 v = 0 \<Longrightarrow> (v :: u64) AND 0x7f = v"
proof (rule bit_word_eqI)
  fix n assume z: "drop_bit 7 v = 0" and n: "n < LENGTH(64)"
  have "\<not> bit v n" if "7 \<le> n"
  proof -
    have "bit (drop_bit 7 v) (n - 7) = bit (0 :: u64) (n - 7)" using z by simp
    then show ?thesis using that by (simp add: bit_drop_bit_eq)
  qed
  then show "bit (v AND 0x7f) n = bit v n"
    using n by (cases "n < 7") (auto simp: varint_bits not_less simp del: bit_numeral_word_iff)
qed

lemma split_group:
  "(acc OR push_bit s (v AND 0x7f)) OR push_bit (s + 7) (drop_bit 7 v) = acc OR push_bit s (v :: u64)"
proof (rule bit_word_eqI)
  fix n assume "n < LENGTH(64)"
  then show "bit ((acc OR push_bit s (v AND 0x7f)) OR push_bit (s + 7) (drop_bit 7 v)) n =
             bit (acc OR push_bit s v) n"
    by (cases "n < s + 7") (auto simp: varint_bits simp del: bit_numeral_word_iff)
qed

lemma varint_nonempty [simp]: "varint v \<noteq> []"
  by (subst varint_unfold) simp

lemma small_ucast: "unat (v :: u64) < 2 \<Longrightarrow> \<not> 1 < (ucast v :: u8)"
  by (simp add: word_less_nat_alt unsigned_ucast_eq take_bit_nat_def)

lemma read_u64_loop_varint:
  assumes "s mod 7 = 0" and "s \<le> 63" and "unat v < 2 ^ (64 - s)"
    and "buf = pre @ varint v @ post" and "pos = length pre"
  shows "read_u64_loop buf pos acc s = Inr (acc OR push_bit s v, pos + length (varint v))"
  using assms
proof (induction v arbitrary: s acc pre pos rule: varint_induct)
  case (step v)
  note buf = \<open>buf = pre @ varint v @ post\<close>
  have nth: "buf ! pos = hd (varint v)" and len: "pos < length buf"
    using buf \<open>pos = length pre\<close> by (simp_all add: nth_append hd_conv_nth)
  show ?case
  proof (cases "drop_bit 7 v = 0")
    case True
    note lg = last_group [OF True]
    have "varint v = [ucast v]" using True lg by (subst varint_unfold) simp
    moreover have "(ucast v :: u8) AND 0x80 = 0" using low7_no_high [of v] lg by simp
    moreover have "(ucast ((ucast v :: u8) AND 0x7f) :: u64) = v"
      using low7_payload(1) [of v] lg by simp
    moreover have "\<not> (s = 63 \<and> 1 < (ucast v :: u8))"
      using small_ucast step.prems(3) by auto
    ultimately show ?thesis using nth len
      by (subst read_u64_loop.simps) (simp add: Let_def)
  next
    case False
    then have "128 \<le> unat v" using unat_drop_bit_7 [of v] by (auto simp: unat_eq_0 [symmetric])
    then have s63: "s \<noteq> 63" using step.prems(3) by auto
    with step.prems(1,2) have s: "s + 7 \<le> 63" by presburger
    then have k: "64 - s = (64 - (s + 7)) + 7" by simp
    have "(2::nat) ^ (64 - s) = 2 ^ (64 - (s + 7)) * 128" by (subst k, subst power_add) simp
    then have v7: "unat (drop_bit 7 v) < 2 ^ (64 - (s + 7))"
      using step.prems(3) by (simp add: unat_drop_bit_7 less_mult_imp_div_less)
    obtain b x where b: "b = (ucast (v AND 0x7f) OR 0x80 :: u8)" and x: "x = v AND 0x7f" by simp
    have eq: "varint v = b # varint (drop_bit 7 v)"
      using False b by (subst varint_unfold) simp
    have high: "b AND 0x80 \<noteq> 0" unfolding b by (rule low7_or_high)
    have payload: "ucast (b AND 0x7f) = x" unfolding b x by (rule low7_payload)
    have split: "(acc OR push_bit s x) OR push_bit (s + 7) (drop_bit 7 v) = acc OR push_bit s v"
      unfolding x by (rule split_group)
    have "read_u64_loop buf (pos + 1) (acc OR push_bit s x) (s + 7) =
        Inr ((acc OR push_bit s x) OR push_bit (s + 7) (drop_bit 7 v),
             (pos + 1) + length (varint (drop_bit 7 v)))"
      using False s v7 \<open>s mod 7 = 0\<close> buf eq \<open>pos = length pre\<close>
      by (intro step.IH [where pre = "pre @ [b]"]) auto
    then show ?thesis using nth len s s63 eq high payload split
      by (subst read_u64_loop.simps) (simp add: Let_def)
  qed
qed

theorem read_u64_put_u64:
  "read_u64 (put_u64 pre v @ post) (length pre) = Inr (v, length (put_u64 pre v))"
  using read_u64_loop_varint [of 0 v "put_u64 pre v @ post" pre post "length pre" 0] unat_bounds(3) [of v]
  by (simp add: read_u64_def put_u64_eq)

lemma read_u64_varint:
  "length pre = pos \<Longrightarrow> read_u64 (pre @ varint v @ post) pos = Inr (v, pos + length (varint v))"
  using read_u64_put_u64 [of pre v post] by (simp add: put_u64_eq)

lemma ucast_u32_le: "(ucast (v :: u32) :: u64) \<le> 0xffffffff"
  using unat_bounds(2) [of v] by (simp add: word_le_nat_alt unsigned_ucast_eq take_bit_nat_eq_self)

lemma ucast_ucast_u32: "ucast (ucast (v :: u32) :: u64) = v"
  by (rule bit_word_eqI) (simp add: bit_simps)

theorem read_u32_put_u32:
  "read_u32 (put_u32 pre v @ post) (length pre) = Inr (v, length (put_u32 pre v))"
  using read_u64_put_u64 [of pre "ucast v" post]
  by (simp add: read_u32_def put_u32_def ucast_u32_le ucast_ucast_u32)

lemma read_u32_varint:
  "length pre = pos \<Longrightarrow> read_u32 (pre @ varint32 v @ post) pos = Inr (v, pos + length (varint32 v))"
  using read_u32_put_u32 [of pre v post] by (simp add: put_u32_eq)

section \<open>Bounds\<close>

text \<open>The number of 7-bit groups needed.\<close>

lemma length_varint_bound: "unat v < 2 ^ (7 * k) \<Longrightarrow> 0 < k \<Longrightarrow> length (varint v) \<le> k"
proof (induction v arbitrary: k rule: varint_induct)
  case (step v)
  show ?case
  proof (cases "drop_bit 7 v = 0")
    case True
    then show ?thesis using step.prems by (subst varint_unfold) simp
  next
    case False
    then have "128 \<le> unat v" using unat_drop_bit_7 [of v] by (auto simp: unat_eq_0 [symmetric])
    then have "k \<noteq> 1" using step.prems by auto
    then obtain j where j: "k = Suc j" "0 < j" using step.prems by (cases k) auto
    have "unat (drop_bit 7 v) < 2 ^ (7 * j)"
      using step.prems(1) j by (simp add: unat_drop_bit_7 power_add less_mult_imp_div_less)
    then have "length (varint (drop_bit 7 v)) \<le> j" using step.IH False j by blast
    then show ?thesis using False j by (subst varint_unfold) simp
  qed
qed

theorem length_varint: "1 \<le> length (varint v) \<and> length (varint v) \<le> 10"
  using length_varint_bound [of v 10] unat_bounds(3) [of v]
  by (simp add: Suc_le_eq)

theorem length_varint32: "1 \<le> length (varint32 v) \<and> length (varint32 v) \<le> 5"
  using length_varint_bound [of "ucast v" 5] unat_bounds(2) [of v]
  by (simp add: varint32_def Suc_le_eq unsigned_ucast_eq take_bit_nat_eq_self)

lemma read_u64_loop_bounds:
  "read_u64_loop buf pos v s = Inr (w, p) \<Longrightarrow> s \<le> 63 \<Longrightarrow>
     pos < p \<and> p \<le> length buf \<and> s + 7 * (p - pos) \<le> 63 + 7"
proof (induction buf pos v s rule: read_u64_loop.induct)
  case (1 buf pos v s)
  note eq = "1.prems"(1) [unfolded read_u64_loop.simps [of buf pos v s] Let_def]
  show ?case
  proof (cases "(buf ! pos) AND 0x80 = 0")
    case True
    then show ?thesis using eq "1.prems"(2) by (auto split: if_splits)
  next
    case False
    then show ?thesis using eq "1.IH" [OF _ refl refl _ refl _ refl] by (auto split: if_splits)
  qed
qed

theorem read_u64_bounds:
  "read_u64 buf pos = Inr (v, p) \<Longrightarrow> pos < p \<and> p \<le> length buf \<and> p \<le> pos + 10"
  using read_u64_loop_bounds [of buf pos 0 0 v p] by (auto simp: read_u64_def)

lemma read_u32_bounds:
  "read_u32 buf pos = Inr (v, p) \<Longrightarrow> pos < p \<and> p \<le> length buf"
  using read_u64_bounds [of buf pos _ p] by (auto simp: read_u32_def split: if_splits)

text \<open>
  The decoder does not reject every overlong encoding: a final group of zero payload is accepted, so
  two different byte strings decode to the same value.
\<close>

theorem read_u64_accepts_overlong: "read_u64 [0x80, 0x00] 0 = Inr (0, 2) \<and> read_u64 [0x00] 0 = Inr (0, 1)"
  by (simp add: read_u64_def read_u64_loop.simps)

end
