(* ===== verification/Postings.thy ===== *)
theory Postings
  imports Prelude "HOL-Library.AList"
begin

text \<open>
  The storage boundary of the query engine (\<open>src/index/postings.rs\<close>) and the in-memory backend
  (\<open>src/index/memory.rs\<close>).

  A term's postings are a \<open>plist\<close>: documents with their positions. The trait \<open>PostingCursor\<close> is the
  record \<open>cursor_ops\<close> of its methods, so that the engine is written once over any cursor; the locale
  \<open>posting_cursor\<close> states what the methods promise about the postings a cursor still has to deliver
  (\<open>repr c ps\<close>). \<open>positions\<close> may panic on an exhausted cursor, which is \<open>None\<close>.

  A \<open>HashMap\<close> is an association list with distinct keys, in its (arbitrary) iteration order.

  Main facts: the galloping \<open>seek\<close> of the in-memory cursor is \<open>dropWhile\<close> (\<open>mem_seek_repr\<close>), so the
  cursor meets the interface (\<open>interpretation mem_cursor\<close>); \<open>push\<close> and \<open>append\<close> keep lists sorted; merging
  shards looks up the concatenation of the shards' lists (\<open>get_merge_shard\<close>).
\<close>

type_synonym plist = "(u32 \<times> u32 list) list"

definition plist_ok :: "plist \<Rightarrow> bool" where
  "plist_ok ps \<longleftrightarrow> sorted_wrt (<) (map fst ps) \<and> (\<forall>(d, qs) \<in> set ps. qs \<noteq> [] \<and> sorted_wrt (<) qs)"

section \<open>The cursor interface\<close>

record 'c cursor_ops =
  co_doc :: "'c \<Rightarrow> u32 option"
  co_advance :: "'c \<Rightarrow> u32 option \<times> 'c"
  co_seek :: "'c \<Rightarrow> u32 \<Rightarrow> u32 option \<times> 'c"
  co_positions :: "'c \<Rightarrow> (u32 list \<times> 'c) option"
  co_term_freq :: "'c \<Rightarrow> (u32 \<times> 'c) option"

text \<open>The default body of \<open>term_freq\<close>.\<close>

definition default_term_freq :: "('c \<Rightarrow> (u32 list \<times> 'c) option) \<Rightarrow> 'c \<Rightarrow> (u32 \<times> 'c) option" where
  "default_term_freq positions c = map_option (\<lambda>(ps, c). (of_nat (length ps), c)) (positions c)"

definition head_doc :: "plist \<Rightarrow> u32 option" where
  "head_doc ps = (case ps of [] \<Rightarrow> None | p # _ \<Rightarrow> Some (fst p))"

lemma head_doc_simps [simp]: "head_doc [] = None" "head_doc (p # ps) = Some (fst p)"
  by (simp_all add: head_doc_def)

abbreviation seek_to :: "u32 \<Rightarrow> plist \<Rightarrow> plist" where
  "seek_to t ps \<equiv> dropWhile (\<lambda>p. fst p < t) ps"

lemma head_doc_seek:
  "sorted_wrt (<) (map fst ps) \<Longrightarrow> head_doc (seek_to t ps) = Some d \<Longrightarrow>
     t \<le> d \<and> d \<in> fst ` set ps \<and> (\<forall>e \<in> fst ` set ps. t \<le> e \<longrightarrow> d \<le> e)"
proof (induction ps)
  case Nil
  then show ?case by simp
next
  case (Cons p ps)
  then show ?case by (cases "fst p < t") (auto simp: not_less)
qed

locale posting_cursor =
  fixes ops :: "'c cursor_ops"
    and repr :: "'c \<Rightarrow> plist \<Rightarrow> bool"
  assumes repr_sorted: "repr c ps \<Longrightarrow> sorted_wrt (<) (map fst ps)"
    and repr_doc: "repr c ps \<Longrightarrow> co_doc ops c = head_doc ps"
    and repr_advance: "repr c ps \<Longrightarrow> co_advance ops c = (d, c') \<Longrightarrow> repr c' (tl ps) \<and> d = head_doc (tl ps)"
    and repr_seek: "repr c ps \<Longrightarrow> co_seek ops c t = (d, c') \<Longrightarrow> repr c' (seek_to t ps) \<and> d = head_doc (seek_to t ps)"
    and repr_positions: "repr c (p # ps) \<Longrightarrow> \<exists>c'. co_positions ops c = Some (snd p, c') \<and> repr c' (p # ps)"
    and repr_term_freq: "repr c (p # ps) \<Longrightarrow> \<exists>c'. co_term_freq ops c = Some (of_nat (length (snd p)), c') \<and> repr c' (p # ps)"
begin

lemma doc_None: "repr c ps \<Longrightarrow> co_doc ops c = None \<longleftrightarrow> ps = []"
  by (cases ps) (simp_all add: repr_doc)

lemma doc_Some: "repr c ps \<Longrightarrow> co_doc ops c = Some d \<longleftrightarrow> (\<exists>qs r. ps = (d, qs) # r)"
  by (cases ps) (auto simp: repr_doc)

text \<open>Where \<open>seek\<close> lands: the first posting at or past the target.\<close>

lemma seek_lands:
  assumes "repr c ps" and "co_seek ops c t = (Some d, c')"
  shows "t \<le> d \<and> d \<in> fst ` set ps \<and> (\<forall>e \<in> fst ` set ps. t \<le> e \<longrightarrow> d \<le> e)"
  using head_doc_seek [OF repr_sorted [OF assms(1)]] repr_seek [OF assms] by metis

lemma advance_repr: "repr c ps \<Longrightarrow> repr (snd (co_advance ops c)) (tl ps)"
  using repr_advance [of c ps "fst (co_advance ops c)" "snd (co_advance ops c)"] by simp

lemma seek_repr: "repr c ps \<Longrightarrow> repr (snd (co_seek ops c t)) (seek_to t ps)"
  using repr_seek [of c ps t "fst (co_seek ops c t)" "snd (co_seek ops c t)"] by simp

end

text \<open>A posting list hands out cursors over its own postings.\<close>

record ('l, 'c) list_ops =
  lo_doc_freq :: "'l \<Rightarrow> u32"
  lo_cursor :: "'l \<Rightarrow> 'c"
  lo_cursor_ops :: "'c cursor_ops"

locale posting_list = posting_cursor "lo_cursor_ops lops" repr
  for lops :: "('l, 'c) list_ops" and repr :: "'c \<Rightarrow> plist \<Rightarrow> bool" +
  fixes contents :: "'l \<Rightarrow> plist \<Rightarrow> bool"
  assumes cursor_repr: "contents l ps \<Longrightarrow> repr (lo_cursor lops l) ps"
    and doc_freq_eq: "contents l ps \<Longrightarrow> lo_doc_freq lops l = of_nat (length ps)"
begin

lemma contents_sorted: "contents l ps \<Longrightarrow> sorted_wrt (<) (map fst ps)"
  using cursor_repr repr_sorted by blast

end

section \<open>The in-memory list\<close>

definition mem_push :: "plist \<Rightarrow> u32 \<Rightarrow> u32 \<Rightarrow> plist" where
  "mem_push ps doc position =
     (if ps \<noteq> [] then
        (if fst (last ps) = doc then
           (if snd (last ps) = [] \<or> last (snd (last ps)) \<noteq> position
            then ps[length ps - 1 := (doc, snd (last ps) @ [position])] else ps)
         else ps @ [(doc, [position])])
      else ps @ [(doc, [position])])"

definition mem_append :: "plist \<Rightarrow> plist \<Rightarrow> plist" where
  "mem_append ps other = ps @ other"

definition mem_doc_freq :: "plist \<Rightarrow> u32" where
  "mem_doc_freq ps = of_nat (length ps)"

record mem_cursor =
  mc_postings :: plist
  mc_idx :: nat

definition mem_cursor_new :: "plist \<Rightarrow> mem_cursor" where
  "mem_cursor_new ps = \<lparr>mc_postings = ps, mc_idx = 0\<rparr>"

definition mem_doc :: "mem_cursor \<Rightarrow> u32 option" where
  "mem_doc c = (if mc_idx c < length (mc_postings c) then Some (fst (mc_postings c ! mc_idx c)) else None)"

definition mem_advance :: "mem_cursor \<Rightarrow> u32 option \<times> mem_cursor" where
  "mem_advance c =
     (let c = (if mc_idx c < length (mc_postings c) then c\<lparr>mc_idx := mc_idx c + 1\<rparr> else c) in (mem_doc c, c))"

text \<open>\<open>partition_point\<close> of a slice that the predicate partitions.\<close>

definition partition_point :: "('a \<Rightarrow> bool) \<Rightarrow> 'a list \<Rightarrow> nat" where
  "partition_point P xs = length (takeWhile P xs)"

text \<open>
  The doubling loop of \<open>seek\<close>: \<open>step\<close> starts at 1 and doubles, so it is \<open>2 ^ k\<close>; the result is the final
  \<open>lo\<close> and \<open>hi\<close>.
\<close>

function gallop :: "plist \<Rightarrow> u32 \<Rightarrow> nat \<Rightarrow> nat \<Rightarrow> nat \<times> nat" where
  "gallop ps target lo k =
     (let hi = lo + 2 ^ k in
      if hi < length ps \<and> fst (ps ! hi) < target then gallop ps target hi (k + 1) else (lo, hi))"
  by pat_completeness auto
termination by (relation "measure (\<lambda>(ps, _, lo, _). length ps - lo)") (auto intro: diff_less_mono2)

declare gallop.simps [simp del]

definition mem_seek :: "mem_cursor \<Rightarrow> u32 \<Rightarrow> u32 option \<times> mem_cursor" where
  "mem_seek c target =
     (let ps = mc_postings c; len = length ps in
      if len \<le> mc_idx c then (None, c)
      else if target \<le> fst (ps ! mc_idx c) then (Some (fst (ps ! mc_idx c)), c)
      else let (lo, hi) = gallop ps target (mc_idx c) 0;
               hi = min hi len;
               off = partition_point (\<lambda>p. fst p < target) (take (hi - (lo + 1)) (drop (lo + 1) ps));
               c = c\<lparr>mc_idx := lo + 1 + off\<rparr>
           in (mem_doc c, c))"

definition mem_positions :: "mem_cursor \<Rightarrow> (u32 list \<times> mem_cursor) option" where
  "mem_positions c =
     (if mc_idx c < length (mc_postings c) then Some (snd (mc_postings c ! mc_idx c), c) else None)"

definition mem_cursor_ops :: "mem_cursor cursor_ops" where
  "mem_cursor_ops = \<lparr>co_doc = mem_doc, co_advance = mem_advance, co_seek = mem_seek,
     co_positions = mem_positions, co_term_freq = default_term_freq mem_positions\<rparr>"

definition mem_list_ops :: "(plist, mem_cursor) list_ops" where
  "mem_list_ops = \<lparr>lo_doc_freq = mem_doc_freq, lo_cursor = mem_cursor_new, lo_cursor_ops = mem_cursor_ops\<rparr>"

section \<open>The term store\<close>

type_synonym mem_store = "(bytes \<times> plist) list"

definition total_postings :: "mem_store \<Rightarrow> u64" where
  "total_postings s = sum_list (map (\<lambda>(_, l). of_nat (length l)) s)"

definition merge_shard :: "mem_store \<Rightarrow> mem_store \<Rightarrow> mem_store" where
  "merge_shard terms shard =
     (if terms = [] then shard
      else foldl (\<lambda>ts (term, list). case map_of ts term of
             Some l \<Rightarrow> AList.update term (mem_append l list) ts
           | None \<Rightarrow> AList.update term list ts) terms shard)"

definition store_get :: "mem_store \<Rightarrow> bytes \<Rightarrow> plist option" where
  "store_get s term = map_of s term"

definition term_count :: "mem_store \<Rightarrow> nat" where
  "term_count s = length s"

section \<open>The galloping seek\<close>

lemma sorted_nth_less:
  "sorted_wrt (<) (map fst ps) \<Longrightarrow> i \<le> j \<Longrightarrow> j < length ps \<Longrightarrow> fst (ps ! i) \<le> fst (ps ! j)"
  for ps :: plist
  using sorted_wrt_nth_less [of "(<)" "map fst ps" i j] by (cases "i = j") auto

lemma below_index:
  fixes ps :: plist
  assumes "sorted_wrt (<) (map fst ps)" and "i < length ps" and "fst (ps ! i) < t"
  shows "\<forall>p \<in> set (take (Suc i) ps). fst p < t"
proof
  fix p assume "p \<in> set (take (Suc i) ps)"
  then obtain j where j: "j < Suc i" "j < length ps" "p = ps ! j" by (auto simp: in_set_conv_nth)
  then have "fst p \<le> fst (ps ! i)" using sorted_nth_less [OF assms(1), of j i] assms(2) by simp
  then show "fst p < t" using assms(3) by simp
qed

text \<open>What the doubling loop leaves: everything up to \<open>lo\<close> is below the target, nothing from \<open>hi\<close> on is.\<close>

lemma gallop_bounds:
  assumes "sorted_wrt (<) (map fst ps)" and "lo < length ps" and "fst (ps ! lo) < t"
    and "gallop ps t lo k = (lo', hi')"
  shows "lo \<le> lo' \<and> lo' < hi' \<and> lo' < length ps \<and> fst (ps ! lo') < t \<and>
     (hi' < length ps \<longrightarrow> t \<le> fst (ps ! hi'))"
  using assms
proof (induction ps t lo k rule: gallop.induct)
  case (1 ps t lo k)
  show ?case
  proof (cases "lo + 2 ^ k < length ps \<and> fst (ps ! (lo + 2 ^ k)) < t")
    case True
    then have "gallop ps t (lo + 2 ^ k) (k + 1) = (lo', hi')"
      using "1.prems"(4) by (simp add: gallop.simps [of ps t lo k])
    with 1 True show ?thesis by fastforce
  next
    case False
    then have "lo' = lo \<and> hi' = lo + 2 ^ k" using "1.prems"(4) by (auto simp: gallop.simps [of ps t lo k] Let_def split: if_splits)
    with False "1.prems" show ?thesis by (auto simp: not_less)
  qed
qed

text \<open>Within sorted postings the number of documents below the target is the index \<open>seek\<close> computes.\<close>

lemma takeWhile_from:
  fixes ps :: plist
  assumes "sorted_wrt (<) (map fst ps)" and "lo < length ps" and "fst (ps ! lo) < t"
    and "lo < hi" and "hi < length ps \<longrightarrow> t \<le> fst (ps ! hi)"
  shows "lo + 1 + length (takeWhile (\<lambda>p. fst p < t) (take (min hi (length ps) - (lo + 1)) (drop (lo + 1) ps))) =
     length (takeWhile (\<lambda>p. fst p < t) ps)"
proof -
  let ?P = "\<lambda>p :: u32 \<times> u32 list. fst p < t"
  let ?m = "min hi (length ps)"
  have pre: "\<forall>p \<in> set (take (lo + 1) ps). ?P p"
    using below_index [OF assms(1-3)] by simp
  have a: "takeWhile ?P ps = take (lo + 1) ps @ takeWhile ?P (drop (lo + 1) ps)"
    using takeWhile_append2 [of "take (lo + 1) ps" ?P "drop (lo + 1) ps"] pre by simp
  have b: "takeWhile ?P (drop (lo + 1) ps) = takeWhile ?P (take (?m - (lo + 1)) (drop (lo + 1) ps))"
  proof (cases "hi < length ps")
    case True
    have "drop (lo + 1) ps = take (?m - (lo + 1)) (drop (lo + 1) ps) @ drop ?m ps"
      using assms(4) True by (metis append_take_drop_id drop_drop le_add_diff_inverse2 min.strict_order_iff Suc_eq_plus1 Suc_leI)
    moreover have "drop ?m ps = ps ! hi # drop (Suc hi) ps" using True by (simp add: Cons_nth_drop_Suc)
    ultimately show ?thesis using assms(5) True
      by (metis takeWhile_tail not_less)
  next
    case False
    then show ?thesis by simp
  qed
  show ?thesis using a b assms(2) by simp
qed

definition mem_repr :: "mem_cursor \<Rightarrow> plist \<Rightarrow> bool" where
  "mem_repr c ps \<longleftrightarrow> sorted_wrt (<) (map fst (mc_postings c)) \<and> mc_idx c \<le> length (mc_postings c) \<and>
     ps = drop (mc_idx c) (mc_postings c)"

lemma mem_doc_repr: "mem_repr c ps \<Longrightarrow> mem_doc c = head_doc ps"
  by (auto simp: mem_repr_def mem_doc_def Cons_nth_drop_Suc [symmetric])

lemma mem_advance_repr: "mem_repr c ps \<Longrightarrow> mem_advance c = (d, c') \<Longrightarrow> mem_repr c' (tl ps) \<and> d = head_doc (tl ps)"
proof -
  assume r: "mem_repr c ps" and a: "mem_advance c = (d, c')"
  then have "mem_repr c' (tl ps)" "d = mem_doc c'"
    by (auto simp: mem_repr_def mem_advance_def Let_def tl_drop drop_Suc split: if_splits)
  then show ?thesis using mem_doc_repr by simp
qed

lemma mem_seek_repr:
  assumes "mem_repr c ps" and "mem_seek c t = (d, c')"
  shows "mem_repr c' (seek_to t ps) \<and> d = head_doc (seek_to t ps)"
proof -
  let ?xs = "mc_postings c" let ?i = "mc_idx c"
  have sorted: "sorted_wrt (<) (map fst ?xs)" and ps: "ps = drop ?i ?xs" using assms(1) by (auto simp: mem_repr_def)
  consider "length ?xs \<le> ?i" | "?i < length ?xs" "t \<le> fst (?xs ! ?i)" | "?i < length ?xs" "fst (?xs ! ?i) < t"
    by fastforce
  then have "mem_repr c' (seek_to t ps) \<and> d = mem_doc c'"
  proof cases
    case 1
    then show ?thesis using assms by (auto simp: mem_repr_def mem_seek_def mem_doc_def)
  next
    case 2
    then have "seek_to t ps = ps" using ps by (simp add: Cons_nth_drop_Suc [symmetric] not_less)
    then show ?thesis using assms 2 by (auto simp: mem_repr_def mem_seek_def mem_doc_def Let_def)
  next
    case 3
    obtain lo hi where g: "gallop ?xs t ?i 0 = (lo, hi)" by force
    note b = gallop_bounds [OF sorted 3 g]
    let ?n = "length (takeWhile (\<lambda>p. fst p < t) ?xs)"
    have "lo + 1 + partition_point (\<lambda>p. fst p < t) (take (min hi (length ?xs) - (lo + 1)) (drop (lo + 1) ?xs)) = ?n"
      unfolding partition_point_def using b by (intro takeWhile_from [OF sorted]) simp_all
    moreover have "\<not> length ?xs \<le> ?i" "\<not> t \<le> fst (?xs ! ?i)" using 3 by simp_all
    ultimately have "mem_seek c t = (mem_doc (c\<lparr>mc_idx := ?n\<rparr>), c\<lparr>mc_idx := ?n\<rparr>)"
      by (simp only: mem_seek_def Let_def g prod.case if_False)
    then have "c' = c\<lparr>mc_idx := ?n\<rparr> \<and> d = mem_doc c'" using assms(2) by simp
    moreover have "seek_to t ps = drop ?n ?xs"
    proof -
      have "\<forall>p \<in> set (take ?i ?xs). fst p < t"
        using below_index [OF sorted 3] set_take_subset_set_take [of ?i "Suc ?i" ?xs] by auto
      then have "seek_to t (take ?i ?xs @ drop ?i ?xs) = seek_to t (drop ?i ?xs)" by (intro dropWhile_append2) auto
      then show ?thesis using ps by (simp add: dropWhile_eq_drop)
    qed
    moreover have "?n \<le> length ?xs" by (rule length_takeWhile_le)
    ultimately show ?thesis using sorted by (simp add: mem_repr_def)
  qed
  then show ?thesis using mem_doc_repr by simp
qed

lemma mem_repr_nth: "mem_repr c (p # ps) \<Longrightarrow> mc_idx c < length (mc_postings c) \<and> mc_postings c ! mc_idx c = p"
proof -
  assume "mem_repr c (p # ps)"
  then have d: "drop (mc_idx c) (mc_postings c) = p # ps" by (simp add: mem_repr_def)
  then have "mc_idx c < length (mc_postings c)" by (metis drop_all list.distinct(1) not_less)
  with nth_via_drop [OF d] show ?thesis by simp
qed

lemma mem_positions_repr: "mem_repr c (p # ps) \<Longrightarrow> mem_positions c = Some (snd p, c)"
  using mem_repr_nth by (auto simp: mem_positions_def)

interpretation mem_cursor: posting_cursor mem_cursor_ops mem_repr
proof unfold_locales
  show "mem_repr c ps \<Longrightarrow> sorted_wrt (<) (map fst ps)" for c ps
    by (auto simp: mem_repr_def drop_map [symmetric] intro: sorted_wrt_drop)
qed (simp_all add: mem_cursor_ops_def mem_doc_repr mem_advance_repr mem_seek_repr mem_positions_repr default_term_freq_def)

interpretation mem_list: posting_list mem_list_ops mem_repr "\<lambda>l ps. l = ps \<and> sorted_wrt (<) (map fst ps)"
  rewrites "lo_cursor_ops mem_list_ops = mem_cursor_ops"
proof -
  have eq: "lo_cursor_ops mem_list_ops = mem_cursor_ops" by (simp add: mem_list_ops_def)
  have "posting_list_axioms mem_list_ops mem_repr (\<lambda>l ps. l = ps \<and> sorted_wrt (<) (map fst ps))"
    by unfold_locales (auto simp: mem_list_ops_def mem_cursor_new_def mem_repr_def mem_doc_freq_def)
  then show "posting_list mem_list_ops mem_repr (\<lambda>l ps. l = ps \<and> sorted_wrt (<) (map fst ps))"
    using mem_cursor.posting_cursor_axioms by (simp add: posting_list_def eq)
  show "lo_cursor_ops mem_list_ops = mem_cursor_ops" by (rule eq)
qed

section \<open>Building lists\<close>

lemma mem_push_docs: "fst ` set (mem_push ps d q) = insert d (fst ` set ps)"
proof (cases "ps = []")
  case False
  then obtain ys y where "ps = ys @ [y]" by (metis append_butlast_last_id)
  then show ?thesis by (auto simp: mem_push_def list_update_append)
qed (simp add: mem_push_def)

lemma mem_push_ok:
  assumes "plist_ok ps" and "\<forall>e \<in> fst ` set ps. e \<le> d"
    and "\<forall>qs. (d, qs) \<in> set ps \<longrightarrow> (\<forall>p \<in> set qs. p \<le> q)"
  shows "plist_ok (mem_push ps d q)"
proof (cases "ps = []")
  case True
  then show ?thesis by (simp add: mem_push_def plist_ok_def)
next
  case False
  then obtain ys e qs where ps: "ps = ys @ [(e, qs)]" by (metis append_butlast_last_id surj_pair)
  then have ys: "\<forall>p \<in> set ys. fst p < e" and qs: "qs \<noteq> []" "sorted_wrt (<) qs"
    using assms(1) by (auto simp: plist_ok_def sorted_wrt_append)
  then obtain rs r where r: "qs = rs @ [r]" by (metis append_butlast_last_id)
  show ?thesis
  proof (cases "e = d")
    case True
    show ?thesis
    proof (cases "last qs = q")
      case True
      then show ?thesis using assms(1) \<open>e = d\<close> qs by (simp add: mem_push_def ps)
    next
      case False
      have "\<forall>p \<in> set qs. p < q"
      proof
        fix p assume "p \<in> set qs"
        moreover have "r \<le> q" "r \<noteq> q" using assms(3) ps \<open>e = d\<close> r False by auto
        moreover have "p \<le> r" using \<open>p \<in> set qs\<close> qs(2) r by (auto simp: sorted_wrt_append)
        ultimately show "p < q" by simp
      qed
      then show ?thesis using assms(1) \<open>e = d\<close> False qs
        by (auto simp: mem_push_def ps list_update_append plist_ok_def sorted_wrt_append)
    qed
  next
    case False
    then have "e < d" using assms(2) ps by auto
    then show ?thesis using assms(1) False ys
      by (auto simp: mem_push_def ps plist_ok_def sorted_wrt_append)
  qed
qed

lemma mem_append_ok:
  "plist_ok a \<Longrightarrow> plist_ok b \<Longrightarrow> \<forall>x \<in> set a. \<forall>y \<in> set b. fst x < fst y \<Longrightarrow> plist_ok (mem_append a b)"
  by (auto simp: plist_ok_def mem_append_def sorted_wrt_append)

text \<open>Merging a shard: each term's list is the old list followed by the shard's.\<close>

definition plist_of :: "plist option \<Rightarrow> plist" where
  "plist_of l = (case l of None \<Rightarrow> [] | Some ps \<Rightarrow> ps)"

lemma merge_fold:
  assumes "distinct (map fst shard)"
  shows "map_of (foldl (\<lambda>ts (term, list). case map_of ts term of
             Some l \<Rightarrow> AList.update term (mem_append l list) ts
           | None \<Rightarrow> AList.update term list ts) terms shard) t =
     (case map_of shard t of None \<Rightarrow> map_of terms t | Some list \<Rightarrow> Some (plist_of (map_of terms t) @ list))"
  using assms
proof (induction shard arbitrary: terms)
  case Nil
  then show ?case by simp
next
  case (Cons e shard)
  obtain k l where e: "e = (k, l)" by force
  have nk: "map_of shard k = None" using Cons.prems e by (simp add: map_of_eq_None_iff)
  show ?case
    using Cons.IH Cons.prems e nk
    by (cases "map_of terms k"; cases "t = k") (auto simp: update_conv' plist_of_def mem_append_def split: option.splits)
qed

lemma get_merge_shard:
  assumes "distinct (map fst shard)"
  shows "store_get (merge_shard s shard) t =
     (case store_get shard t of None \<Rightarrow> store_get s t | Some l \<Rightarrow> Some (plist_of (store_get s t) @ l))"
  using merge_fold [OF assms, of s t]
  by (auto simp: merge_shard_def store_get_def plist_of_def split: option.splits)

lemma merge_fold_distinct:
  "distinct (map fst s) \<Longrightarrow> distinct (map fst (foldl (\<lambda>ts (term, list). case map_of ts term of
             Some l \<Rightarrow> AList.update term (mem_append l list) ts
           | None \<Rightarrow> AList.update term list ts) s xs))"
  by (induction xs arbitrary: s) (auto simp: distinct_update split: option.splits prod.splits)

lemma merge_shard_distinct:
  "distinct (map fst s) \<Longrightarrow> distinct (map fst shard) \<Longrightarrow> distinct (map fst (merge_shard s shard))"
  by (simp add: merge_shard_def merge_fold_distinct)

end
