(* ===== verification/Idx_Postings.thy ===== *)
theory Idx_Postings
  imports Varint Postings
begin

text \<open>
  Encoded posting lists (\<open>src/format/idx.rs\<close>: \<open>encode_postings\<close>, \<open>DiskPostingList\<close>, \<open>DiskCursor\<close>).
  The scratch buffer the encoder clears before each use is a local list. After a decoding error
  nothing reads the cursor's byte position again, so the failed read leaves it where it was.

  \<open>decode_rest\<close> is the reference decoder: it decodes a whole list eagerly. The lazy cursor refines it
  (\<open>disk_repr\<close>), which makes it a \<open>posting_cursor\<close> (\<open>interpretation disk_cursor\<close>); \<open>encode_postings\<close> is
  its right inverse (\<open>decode_encode\<close>); and \<open>disk_verify\<close> accepts a list exactly when the reference
  decoder does with the advertised count (\<open>disk_verify_iff\<close>).
\<close>

definition checked_add :: "'a::len word \<Rightarrow> 'a word \<Rightarrow> 'a word option" where
  "checked_add a b = (if unat a + unat b < 2 ^ LENGTH('a) then Some (a + b) else None)"

section \<open>Encoding\<close>

fun encode_positions :: "u32 option \<Rightarrow> u32 list \<Rightarrow> bytes \<Rightarrow> bytes fresult" where
  "encode_positions prev [] scratch = Inr scratch"
| "encode_positions prev (p # ps) scratch =
     and_then (case prev of
         Some q \<Rightarrow> if p \<le> q then Inl (Invariant ''positions must strictly increase'') else Inr (put_u32 scratch (p - q))
       | None \<Rightarrow> Inr (put_u32 scratch p)) (\<lambda>scratch.
     encode_positions (Some p) ps scratch)"

fun encode_loop :: "u32 option \<Rightarrow> plist \<Rightarrow> bytes \<Rightarrow> u64 \<Rightarrow> (bytes \<times> u64) fresult" where
  "encode_loop prev [] out tokens = Inr (out, tokens)"
| "encode_loop prev ((doc, positions) # ps) out tokens =
     and_then (case prev of
         Some p \<Rightarrow> if doc \<le> p then Inl (Invariant ''doc ids must strictly increase'') else Inr (put_u32 out (doc - p))
       | None \<Rightarrow> Inr (put_u32 out doc)) (\<lambda>out.
     and_then (fail_if (positions = []) (Invariant ''posting with no positions'')) (\<lambda>_.
     let out = put_u32 out (of_nat (length positions)) in
     and_then (encode_positions None positions []) (\<lambda>scratch.
     let out = put_u32 out (of_nat (length scratch));
         out = out @ scratch
     in encode_loop (Some doc) ps out (tokens + of_nat (length positions)))))"

definition encode_postings :: "plist \<Rightarrow> bytes \<Rightarrow> (bytes \<times> u64) fresult" where
  "encode_postings ps out = encode_loop None ps (put_u32 out (of_nat (length ps))) 0"

section \<open>The cursor\<close>

record disk_list =
  dl_data :: bytes
  dl_doc_freq :: u32

record current =
  cu_doc :: u32
  cu_tf :: u32
  cu_pos_start :: nat
  cu_pos_end :: nat

record disk_cursor =
  dc_data :: bytes
  dc_pos :: nat
  dc_remaining :: u32
  dc_cur :: "current option"
  dc_positions :: "u32 list"
  dc_decoded :: bool
  dc_error :: "format_error option"

definition dc_fail :: "format_error \<Rightarrow> disk_cursor \<Rightarrow> disk_cursor" where
  "dc_fail e c = c\<lparr>dc_error := Some e, dc_cur := None, dc_remaining := 0\<rparr>"

text \<open>\<open>decode_header\<close> on the fields it reads; the new byte position is the second component.\<close>

definition decode_header :: "bytes \<Rightarrow> nat \<Rightarrow> u32 option \<Rightarrow> (current \<times> nat) fresult" where
  "decode_header data pos cur_doc =
     and_then (read_u32 data pos) (\<lambda>(delta, pos).
     and_then (case cur_doc of
         None \<Rightarrow> Inr delta
       | Some d \<Rightarrow> and_then (fail_if (delta = 0) (Corrupt ''zero doc delta'')) (\<lambda>_.
           ok_or (checked_add d delta) (Corrupt ''doc id overflow''))) (\<lambda>doc.
     and_then (read_u32 data pos) (\<lambda>(tf, pos).
     and_then (fail_if (tf = 0) (Corrupt ''zero term frequency'')) (\<lambda>_.
     and_then (read_u32 data pos) (\<lambda>(pos_bytes, pos).
     let pos_start = pos in
     and_then (if pos_start + unat pos_bytes \<le> length data then Inr (pos_start + unat pos_bytes)
               else Inl (Truncated pos_start (unat pos_bytes))) (\<lambda>pos_end.
     Inr (\<lparr>cu_doc = doc, cu_tf = tf, cu_pos_start = pos_start, cu_pos_end = pos_end\<rparr>, pos_end)))))))"

definition load_next :: "disk_cursor \<Rightarrow> disk_cursor" where
  "load_next c =
     (if dc_remaining c = 0 then c\<lparr>dc_cur := None\<rparr>
      else case decode_header (dc_data c) (dc_pos c) (map_option cu_doc (dc_cur c)) of
             Inr (cu, pos) \<Rightarrow> c\<lparr>dc_pos := pos, dc_cur := Some cu, dc_remaining := dc_remaining c - 1, dc_decoded := False\<rparr>
           | Inl e \<Rightarrow> dc_fail e c)"

definition disk_cursor_new :: "bytes \<Rightarrow> disk_cursor" where
  "disk_cursor_new data =
     (let c = \<lparr>dc_data = data, dc_pos = 0, dc_remaining = 0, dc_cur = None, dc_positions = [],
               dc_decoded = False, dc_error = None\<rparr>;
          c = (case read_u32 data 0 of Inr (n, pos) \<Rightarrow> c\<lparr>dc_pos := pos, dc_remaining := n\<rparr> | Inl e \<Rightarrow> dc_fail e c)
      in load_next c)"

text \<open>The loop of \<open>decode_positions\<close>, \<open>n\<close> positions left; the result is the positions and the final offset.\<close>

fun positions_loop :: "bytes \<Rightarrow> nat \<Rightarrow> nat \<Rightarrow> u32 option \<Rightarrow> u32 list \<Rightarrow> (u32 list \<times> nat) fresult" where
  "positions_loop s p 0 prev out = Inr (out, p)"
| "positions_loop s p (Suc n) prev out =
     and_then (read_u32 s p) (\<lambda>(d, p).
     and_then (case prev of
         None \<Rightarrow> Inr d
       | Some q \<Rightarrow> and_then (fail_if (d = 0) (Corrupt ''zero position delta'')) (\<lambda>_.
           ok_or (checked_add q d) (Corrupt ''position overflow''))) (\<lambda>v.
     positions_loop s p n (Some v) (out @ [v])))"

definition decode_positions :: "bytes \<Rightarrow> current \<Rightarrow> u32 list fresult" where
  "decode_positions data c =
     and_then (positions_loop (take (cu_pos_end c) data) (cu_pos_start c) (unat (cu_tf c)) None []) (\<lambda>(ps, p).
     and_then (fail_if (p \<noteq> cu_pos_end c) (Corrupt ''pos_bytes disagrees with position varints'')) (\<lambda>_.
     Inr ps))"

definition disk_doc :: "disk_cursor \<Rightarrow> u32 option" where
  "disk_doc c = map_option cu_doc (dc_cur c)"

definition disk_advance :: "disk_cursor \<Rightarrow> u32 option \<times> disk_cursor" where
  "disk_advance c = (let c = (if dc_cur c \<noteq> None then load_next c else c) in (disk_doc c, c))"

text \<open>A list of at most \<open>dc_remaining\<close> further documents: the loop ends.\<close>

definition dc_left :: "disk_cursor \<Rightarrow> nat" where
  "dc_left c = unat (dc_remaining c) + (if dc_cur c = None then 0 else 1)"

lemma dc_left_load_next: "dc_cur c = Some cu \<Longrightarrow> dc_left (load_next c) < dc_left c"
proof -
  assume a: "dc_cur c = Some cu"
  show ?thesis
  proof (cases "dc_remaining c = 0")
    case False
    then have "unat (dc_remaining c - 1) < unat (dc_remaining c)"
      by (metis measure_unat)
    then show ?thesis using a by (auto simp: dc_left_def load_next_def dc_fail_def split: sum.splits)
  qed (simp add: a dc_left_def load_next_def)
qed

function disk_seek_loop :: "disk_cursor \<Rightarrow> u32 \<Rightarrow> disk_cursor" where
  "disk_seek_loop c target =
     (case dc_cur c of
        None \<Rightarrow> c
      | Some cu \<Rightarrow> if target \<le> cu_doc cu then c else disk_seek_loop (load_next c) target)"
  by pat_completeness auto
termination by (relation "measure (\<lambda>(c, _). dc_left c)") (auto intro: dc_left_load_next)

declare disk_seek_loop.simps [simp del]

definition disk_seek :: "disk_cursor \<Rightarrow> u32 \<Rightarrow> u32 option \<times> disk_cursor" where
  "disk_seek c target = (let c = disk_seek_loop c target in (disk_doc c, c))"

definition disk_positions :: "disk_cursor \<Rightarrow> u32 list \<times> disk_cursor" where
  "disk_positions c =
     (let c = (if dc_decoded c then c
               else let c = (case dc_cur c of
                          None \<Rightarrow> c
                        | Some cu \<Rightarrow> (case decode_positions (dc_data c) cu of
                              Inr ps \<Rightarrow> c\<lparr>dc_positions := ps\<rparr>
                            | Inl e \<Rightarrow> dc_fail e (c\<lparr>dc_positions := []\<rparr>)))
                    in c\<lparr>dc_decoded := True\<rparr>)
      in (dc_positions c, c))"

definition disk_term_freq :: "disk_cursor \<Rightarrow> u32" where
  "disk_term_freq c = (case dc_cur c of None \<Rightarrow> 0 | Some cu \<Rightarrow> cu_tf cu)"

definition disk_cursor_ops :: "disk_cursor cursor_ops" where
  "disk_cursor_ops = \<lparr>co_doc = disk_doc, co_advance = disk_advance, co_seek = disk_seek,
     co_positions = Some \<circ> disk_positions, co_term_freq = (\<lambda>c. Some (disk_term_freq c, c))\<rparr>"

definition disk_list_ops :: "(disk_list, disk_cursor) list_ops" where
  "disk_list_ops = \<lparr>lo_doc_freq = dl_doc_freq, lo_cursor = disk_cursor_new \<circ> dl_data, lo_cursor_ops = disk_cursor_ops\<rparr>"

definition encoded_len :: "disk_list \<Rightarrow> nat" where
  "encoded_len l = length (dl_data l)"

text \<open>The loop of \<open>DiskPostingList::verify\<close>: the final cursor and the number of good postings.\<close>

lemma dc_left_positions: "dc_left (snd (disk_positions c)) \<le> dc_left c"
  by (auto simp: disk_positions_def dc_left_def dc_fail_def Let_def split: option.splits sum.splits)

lemma dc_left_advance: "dc_cur c \<noteq> None \<Longrightarrow> dc_left (snd (disk_advance c)) < dc_left c"
  using dc_left_load_next by (auto simp: disk_advance_def Let_def)

lemma dc_left_step:
  assumes "dc_cur c \<noteq> None"
  shows "dc_left (snd (disk_advance (snd (disk_positions c)))) < dc_left c"
proof (cases "dc_cur (snd (disk_positions c)) = None")
  case True
  then have "dc_left (snd (disk_advance (snd (disk_positions c)))) = dc_left (snd (disk_positions c))"
    by (simp add: disk_advance_def Let_def)
  moreover have "dc_left (snd (disk_positions c)) < dc_left c"
    using assms True by (auto simp: disk_positions_def dc_left_def dc_fail_def Let_def split: option.splits sum.splits)
  ultimately show ?thesis by simp
next
  case False
  then show ?thesis using dc_left_advance [OF False] dc_left_positions [of c] by simp
qed

function verify_walk :: "disk_cursor \<Rightarrow> u32 \<Rightarrow> disk_cursor \<times> u32" where
  "verify_walk c n =
     (if disk_doc c = None then (c, n)
      else if dc_error c \<noteq> None then (c, n)
      else let tf = disk_term_freq c; (ps, c') = disk_positions c in
        if length ps \<noteq> unat tf then (c', n)
        else verify_walk (snd (disk_advance c')) (n + 1))"
  by pat_completeness auto
termination
proof (relation "measure (\<lambda>(c, _). dc_left c)", goal_cases)
  case (2 c n tf pc ps c')
  then have "dc_cur c \<noteq> None" by (simp add: disk_doc_def)
  moreover have "c' = snd (disk_positions c)" using 2 by (metis snd_conv)
  ultimately show ?case using dc_left_step by simp
qed simp

declare verify_walk.simps [simp del]

definition disk_verify :: "disk_list \<Rightarrow> unit fresult" where
  "disk_verify l =
     and_then (read_u32 (dl_data l) 0) (\<lambda>(count, _).
     and_then (fail_if (count \<noteq> dl_doc_freq l)
       (Corrupt ''posting list doc_count disagrees with dictionary doc_freq'')) (\<lambda>_.
     let (c, n) = verify_walk (disk_cursor_new (dl_data l)) 0 in
     (case dc_error c of
        Some e \<Rightarrow> Inl e
      | None \<Rightarrow> fail_if (n \<noteq> count \<or> dc_pos c \<noteq> length (dl_data l))
          (Corrupt ''posting list length disagrees with doc_count''))))"

section \<open>The reference decoder\<close>

fun decode_rest :: "bytes \<Rightarrow> nat \<Rightarrow> u32 option \<Rightarrow> nat \<Rightarrow> plist fresult" where
  "decode_rest data pos prev 0 =
     (if pos = length data then Inr [] else Inl (Corrupt ''posting list length disagrees with doc_count''))"
| "decode_rest data pos prev (Suc n) =
     and_then (decode_header data pos prev) (\<lambda>(cu, pos).
     and_then (decode_positions data cu) (\<lambda>qs.
     and_then (decode_rest data pos (Some (cu_doc cu)) n) (\<lambda>ps.
     Inr ((cu_doc cu, qs) # ps))))"

definition decode_list :: "bytes \<Rightarrow> plist fresult" where
  "decode_list data = and_then (read_u32 data 0) (\<lambda>(n, pos). decode_rest data pos None (unat n))"

lemma checked_add_less: "checked_add a b = Some c \<Longrightarrow> b \<noteq> 0 \<Longrightarrow> a < (c :: 'a::len word)"
  by (auto simp: checked_add_def word_less_nat_alt unat_word_ariths unat_gt_0 split: if_splits)

lemma decode_header_facts:
  assumes "decode_header data pos prev = Inr (cu, pos')"
  shows "cu_tf cu \<noteq> 0" and "\<forall>d. prev = Some d \<longrightarrow> d < cu_doc cu"
  using assms by (auto simp: decode_header_def Let_def checked_add_less split: option.splits if_splits)

lemma positions_loop_facts:
  "positions_loop s p n prev out = Inr (qs, p') \<Longrightarrow>
     \<exists>rs. qs = out @ rs \<and> length rs = n \<and> sorted_wrt (<) rs \<and> (\<forall>q. prev = Some q \<longrightarrow> (\<forall>r \<in> set rs. q < r))"
proof (induction n arbitrary: p prev out)
  case 0
  then show ?case by simp
next
  case (Suc n)
  from Suc.prems obtain v p1 where v: "\<forall>q. prev = Some q \<longrightarrow> q < v"
    and rec: "positions_loop s p1 n (Some v) (out @ [v]) = Inr (qs, p')"
    by (fastforce dest: checked_add_less split: option.splits)
  from Suc.IH [OF rec] obtain rs where rs: "qs = (out @ [v]) @ rs" "length rs = n" "sorted_wrt (<) rs"
    "\<forall>r \<in> set rs. v < r" by auto
  then show ?case using v by (intro exI [of _ "v # rs"]) (auto intro: order.strict_trans)
qed

lemma decode_positions_facts:
  assumes "decode_positions data cu = Inr qs"
  shows "length qs = unat (cu_tf cu)" and "sorted_wrt (<) qs"
proof -
  from assms obtain p where "positions_loop (take (cu_pos_end cu) data) (cu_pos_start cu) (unat (cu_tf cu)) None [] = Inr (qs, p)"
    by (auto simp: decode_positions_def)
  from positions_loop_facts [OF this] show "length qs = unat (cu_tf cu)" "sorted_wrt (<) qs" by auto
qed

lemma decode_rest_ok:
  "decode_rest data pos prev n = Inr ps \<Longrightarrow>
     length ps = n \<and> plist_ok ps \<and> (\<forall>d. prev = Some d \<longrightarrow> (\<forall>p \<in> set ps. d < fst p))"
proof (induction n arbitrary: pos prev ps)
  case 0
  then show ?case by (auto simp: plist_ok_def split: if_splits)
next
  case (Suc n)
  from Suc.prems obtain cu pos' qs r where h: "decode_header data pos prev = Inr (cu, pos')"
    and q: "decode_positions data cu = Inr qs" and r: "decode_rest data pos' (Some (cu_doc cu)) n = Inr r"
    and ps: "ps = (cu_doc cu, qs) # r" by auto
  have "qs \<noteq> []" using decode_positions_facts(1) [OF q] decode_header_facts(1) [OF h] by (auto simp: unat_eq_0)
  then show ?case using Suc.IH [OF r] decode_header_facts(2) [OF h] decode_positions_facts [OF q] ps
    by (auto simp: plist_ok_def intro: order.strict_trans)
qed

section \<open>The cursor refines the reference decoder\<close>

text \<open>\<open>disk_repr c ps\<close>: decoding from the cursor on succeeds and gives \<open>ps\<close>.\<close>

definition disk_repr :: "disk_cursor \<Rightarrow> plist \<Rightarrow> bool" where
  "disk_repr c ps \<longleftrightarrow> dc_error c = None \<and>
     (case dc_cur c of
        None \<Rightarrow> ps = [] \<and> dc_remaining c = 0 \<and> dc_pos c = length (dc_data c)
      | Some cu \<Rightarrow> \<exists>qs r. ps = (cu_doc cu, qs) # r \<and> cu_tf cu \<noteq> 0 \<and> decode_positions (dc_data c) cu = Inr qs \<and>
          decode_rest (dc_data c) (dc_pos c) (Some (cu_doc cu)) (unat (dc_remaining c)) = Inr r \<and>
          (dc_decoded c \<longrightarrow> dc_positions c = qs))"

lemma load_next_repr:
  assumes "decode_rest (dc_data c) (dc_pos c) (map_option cu_doc (dc_cur c)) (unat (dc_remaining c)) = Inr ps"
    and "dc_error c = None"
  shows "disk_repr (load_next c) ps"
proof (cases "unat (dc_remaining c)")
  case 0
  then have "dc_remaining c = 0" by (simp add: unat_eq_0)
  with assms show ?thesis by (auto simp: disk_repr_def load_next_def split: if_splits)
next
  case (Suc n)
  then have nz: "dc_remaining c \<noteq> 0" by auto
  then have n: "unat (dc_remaining c - 1) = n" using Suc by (simp add: unat_minus_one)
  from assms(1) Suc obtain cu pos' qs r where
    h: "decode_header (dc_data c) (dc_pos c) (map_option cu_doc (dc_cur c)) = Inr (cu, pos')"
    and q: "decode_positions (dc_data c) cu = Inr qs"
    and r: "decode_rest (dc_data c) pos' (Some (cu_doc cu)) n = Inr r" and ps: "ps = (cu_doc cu, qs) # r" by auto
  then show ?thesis using nz n assms(2) decode_header_facts(1) [OF h]
    by (simp add: disk_repr_def load_next_def)
qed

lemma disk_repr_sorted: "disk_repr c ps \<Longrightarrow> sorted_wrt (<) (map fst ps)"
  by (auto simp: disk_repr_def plist_ok_def dest!: decode_rest_ok split: option.splits)

lemma disk_repr_doc: "disk_repr c ps \<Longrightarrow> disk_doc c = head_doc ps"
  by (auto simp: disk_repr_def disk_doc_def split: option.splits)

lemma disk_repr_load: "disk_repr c (p # ps) \<Longrightarrow> disk_repr (load_next c) ps"
  by (rule load_next_repr) (auto simp: disk_repr_def split: option.splits)

lemma disk_repr_cur: "disk_repr c ps \<Longrightarrow> dc_cur c = None \<longleftrightarrow> ps = []"
  by (auto simp: disk_repr_def split: option.splits)

lemma disk_advance_repr: "disk_repr c ps \<Longrightarrow> disk_advance c = (d, c') \<Longrightarrow> disk_repr c' (tl ps) \<and> d = head_doc (tl ps)"
  by (cases ps) (auto simp: disk_advance_def disk_repr_cur Let_def dest: disk_repr_doc disk_repr_load [THEN disk_repr_doc] disk_repr_load)

lemma disk_seek_loop_repr: "disk_repr c ps \<Longrightarrow> disk_repr (disk_seek_loop c t) (seek_to t ps)"
proof (induction ps arbitrary: c)
  case Nil
  then have "dc_cur c = None" by (simp add: disk_repr_cur)
  with Nil show ?case by (simp add: disk_seek_loop.simps)
next
  case (Cons p ps)
  then obtain cu where cu: "dc_cur c = Some cu" "fst p = cu_doc cu" by (auto simp: disk_repr_def split: option.splits)
  show ?case
  proof (cases "fst p < t")
    case True
    then have "disk_seek_loop c t = disk_seek_loop (load_next c) t"
      using cu by (simp add: disk_seek_loop.simps [of c t] not_le)
    then show ?thesis using True Cons.IH disk_repr_load [OF Cons.prems] by simp
  next
    case False
    then have "t \<le> cu_doc cu" using cu by (simp add: not_less)
    then show ?thesis using False cu Cons.prems by (simp add: disk_seek_loop.simps [of c t])
  qed
qed

lemma disk_seek_repr: "disk_repr c ps \<Longrightarrow> disk_seek c t = (d, c') \<Longrightarrow> disk_repr c' (seek_to t ps) \<and> d = head_doc (seek_to t ps)"
  using disk_seek_loop_repr [of c ps t] by (auto simp: disk_seek_def Let_def disk_repr_doc [symmetric])

lemma disk_positions_repr:
  "disk_repr c (p # ps) \<Longrightarrow> fst (disk_positions c) = snd p \<and> disk_repr (snd (disk_positions c)) (p # ps)"
  by (auto simp: disk_repr_def disk_positions_def Let_def split: option.splits)

lemma disk_term_freq_repr: "disk_repr c (p # ps) \<Longrightarrow> disk_term_freq c = of_nat (length (snd p))"
  by (auto simp: disk_repr_def disk_term_freq_def decode_positions_facts split: option.splits)

interpretation disk_cursor: posting_cursor disk_cursor_ops disk_repr
proof unfold_locales
  fix c p ps assume r: "disk_repr c (p # ps)"
  show "\<exists>c'. co_positions disk_cursor_ops c = Some (snd p, c') \<and> disk_repr c' (p # ps)"
    using disk_positions_repr [OF r] by (cases "disk_positions c") (auto simp: disk_cursor_ops_def)
  show "\<exists>c'. co_term_freq disk_cursor_ops c = Some (of_nat (length (snd p)), c') \<and> disk_repr c' (p # ps)"
    using disk_term_freq_repr [OF r] r by (simp add: disk_cursor_ops_def)
qed (auto simp: disk_cursor_ops_def disk_repr_sorted disk_repr_doc dest: disk_advance_repr disk_seek_repr)

definition disk_contents :: "disk_list \<Rightarrow> plist \<Rightarrow> bool" where
  "disk_contents l ps \<longleftrightarrow> decode_list (dl_data l) = Inr ps \<and> dl_doc_freq l = of_nat (length ps)"

lemma disk_cursor_new_repr: "decode_list data = Inr ps \<Longrightarrow> disk_repr (disk_cursor_new data) ps"
  by (auto simp: decode_list_def disk_cursor_new_def Let_def intro!: load_next_repr)

interpretation disk_list: posting_list disk_list_ops disk_repr disk_contents
  rewrites "lo_cursor_ops disk_list_ops = disk_cursor_ops"
proof -
  have eq: "lo_cursor_ops disk_list_ops = disk_cursor_ops" by (simp add: disk_list_ops_def)
  have "posting_list_axioms disk_list_ops disk_repr disk_contents"
    by unfold_locales (auto simp: disk_list_ops_def disk_contents_def disk_cursor_new_repr)
  then show "posting_list disk_list_ops disk_repr disk_contents"
    using disk_cursor.posting_cursor_axioms by (simp add: posting_list_def eq)
  show "lo_cursor_ops disk_list_ops = disk_cursor_ops" by (rule eq)
qed

section \<open>Decoding what was encoded\<close>

definition delta :: "u32 option \<Rightarrow> u32 \<Rightarrow> u32" where
  "delta prev p = (case prev of None \<Rightarrow> p | Some q \<Rightarrow> p - q)"

fun delta_bytes :: "u32 option \<Rightarrow> u32 list \<Rightarrow> bytes" where
  "delta_bytes prev [] = []"
| "delta_bytes prev (p # ps) = varint32 (delta prev p) @ delta_bytes (Some p) ps"

fun post_bytes :: "u32 option \<Rightarrow> plist \<Rightarrow> bytes" where
  "post_bytes prev [] = []"
| "post_bytes prev ((d, qs) # ps) =
     varint32 (delta prev d) @ varint32 (of_nat (length qs)) @ varint32 (of_nat (length (delta_bytes None qs))) @
     delta_bytes None qs @ post_bytes (Some d) ps"

definition plist_bytes :: "plist \<Rightarrow> bytes" where
  "plist_bytes ps = varint32 (of_nat (length ps)) @ post_bytes None ps"

definition plist_fits :: "plist \<Rightarrow> bool" where
  "plist_fits ps \<longleftrightarrow> plist_ok ps \<and> length ps < 2 ^ 32 \<and>
     (\<forall>(d, qs) \<in> set ps. length qs < 2 ^ 32 \<and> length (delta_bytes None qs) < 2 ^ 32)"

abbreviation after :: "u32 option \<Rightarrow> u32 list \<Rightarrow> bool" where
  "after prev xs \<equiv> sorted_wrt (<) xs \<and> (\<forall>q. prev = Some q \<longrightarrow> (\<forall>x \<in> set xs. q < x))"

lemma encode_positions_eq: "after prev ps \<Longrightarrow> encode_positions prev ps scratch = Inr (scratch @ delta_bytes prev ps)"
  by (induction ps arbitrary: prev scratch) (auto simp: delta_def put_u32_eq not_le[symmetric] split: option.splits)

lemma encode_loop_eq:
  assumes "after prev (map fst ps)" and "\<forall>(d, qs) \<in> set ps. qs \<noteq> [] \<and> sorted_wrt (<) qs"
  shows "encode_loop prev ps out tokens =
     Inr (out @ post_bytes prev ps, tokens + of_nat (sum_list (map (\<lambda>p. length (snd p)) ps)))"
  using assms
proof (induction ps arbitrary: prev out tokens)
  case Nil
  then show ?case by simp
next
  case (Cons p ps)
  obtain d qs where p: "p = (d, qs)" by force
  have qs: "qs \<noteq> []" "after None qs" using Cons.prems p by auto
  have "encode_loop (Some d) ps out' tokens' =
     Inr (out' @ post_bytes (Some d) ps, tokens' + of_nat (sum_list (map (\<lambda>p. length (snd p)) ps)))" for out' tokens'
    by (rule Cons.IH) (use Cons.prems p in auto)
  then show ?case using Cons.prems p qs encode_positions_eq [OF qs(2), of "[]"]
    by (auto simp: delta_def put_u32_eq not_le [symmetric] split: option.splits)
qed

lemma encode_postings_eq:
  "plist_ok ps \<Longrightarrow> encode_postings ps out =
     Inr (out @ plist_bytes ps, of_nat (sum_list (map (\<lambda>p. length (snd p)) ps)))"
  using encode_loop_eq [where prev = None and ps = ps] by (simp add: encode_postings_def plist_ok_def plist_bytes_def put_u32_eq)

text \<open>Reading at an offset where a varint starts.\<close>

lemma read_u32_at:
  assumes "drop pos s = varint32 v @ rest"
  shows "read_u32 s pos = Inr (v, pos + length (varint32 v))" and "drop (pos + length (varint32 v)) s = rest"
proof -
  have "pos < length s" using assms length_varint32 [of v] by (metis append_is_Nil_conv drop_eq_Nil leI list.size(3) not_one_le_zero)
  then have "length (take pos s) = pos" by simp
  moreover have "s = take pos s @ varint32 v @ rest" using assms by (metis append_take_drop_id)
  ultimately show "read_u32 s pos = Inr (v, pos + length (varint32 v))" by (metis read_u32_varint)
  show "drop (pos + length (varint32 v)) s = rest"
    using assms by (metis add.commute append_eq_conv_conj drop_drop)
qed

lemma checked_add_diff: "q < p \<Longrightarrow> checked_add q (p - q) = Some (p :: u32)"
proof -
  assume "q < p"
  then have "unat (p - q) = unat p - unat q" "unat q \<le> unat p"
    by (simp_all add: unat_sub word_less_nat_alt word_le_nat_alt)
  then show ?thesis using unat_bounds(2) [of p] by (simp add: checked_add_def)
qed

lemma positions_loop_deltas:
  "drop p s = delta_bytes prev ps @ rest \<Longrightarrow> after prev ps \<Longrightarrow>
     positions_loop s p (length ps) prev out = Inr (out @ ps, p + length (delta_bytes prev ps))"
proof (induction ps arbitrary: p prev out)
  case Nil
  then show ?case by simp
next
  case (Cons x ps)
  from Cons.prems(1) have "drop p s = varint32 (delta prev x) @ delta_bytes (Some x) ps @ rest" by simp
  note r = read_u32_at [OF this]
  have "positions_loop s (p + length (varint32 (delta prev x))) (length ps) (Some x) (out @ [x]) =
      Inr ((out @ [x]) @ ps, p + length (varint32 (delta prev x)) + length (delta_bytes (Some x) ps))"
    by (rule Cons.IH [OF r(2)]) (use Cons.prems(2) in auto)
  then show ?case using Cons.prems(2) r
    by (auto simp: delta_def checked_add_diff fail_if_def split: option.splits)
qed

lemma decode_positions_deltas:
  assumes "drop a data = delta_bytes None qs @ rest" and "after None qs" and "length qs < 2 ^ 32"
    and "cu_pos_start cu = a" and "cu_pos_end cu = a + length (delta_bytes None qs)" and "cu_tf cu = of_nat (length qs)"
  shows "decode_positions data cu = Inr qs"
proof -
  have "drop a (take (cu_pos_end cu) data) = delta_bytes None qs @ []"
    using assms(1,5) by (simp add: drop_take)
  from positions_loop_deltas [OF this assms(2)] show ?thesis
    using assms by (simp add: decode_positions_def unsigned_of_nat take_bit_nat_eq_self)
qed

lemma decode_rest_post_bytes:
  assumes "drop pos data = post_bytes prev ps" and "pos \<le> length data" and "after prev (map fst ps)"
    and "\<forall>(d, qs) \<in> set ps. qs \<noteq> [] \<and> sorted_wrt (<) qs \<and> length qs < 2 ^ 32 \<and> length (delta_bytes None qs) < 2 ^ 32"
  shows "decode_rest data pos prev (length ps) = Inr ps"
  using assms
proof (induction ps arbitrary: pos prev)
  case Nil
  then show ?case by simp
next
  case (Cons p ps)
  obtain d qs where p: "p = (d, qs)" by force
  let ?ob = "delta_bytes None qs"
  have qs: "qs \<noteq> []" "after None qs" "length qs < 2 ^ 32" "length ?ob < 2 ^ 32" using Cons.prems p by auto
  from Cons.prems(1) p have "drop pos data = varint32 (delta prev d) @ varint32 (of_nat (length qs)) @
      varint32 (of_nat (length ?ob)) @ ?ob @ post_bytes (Some d) ps" by simp
  note r1 = read_u32_at [OF this]
  note r2 = read_u32_at [OF r1(2)]
  note r3 = read_u32_at [OF r2(2)]
  define a where "a = pos + length (varint32 (delta prev d)) + length (varint32 (of_nat (length qs) :: u32)) +
      length (varint32 (of_nat (length ?ob) :: u32))"
  note r3' = r3 [folded a_def]
  have ol: "unat (of_nat (length ?ob) :: u32) = length ?ob" using qs(4) by (simp add: unsigned_of_nat take_bit_nat_eq_self)
  have alen: "a + length ?ob \<le> length data"
  proof -
    have "length (drop a data) \<ge> length ?ob" by (simp add: r3'(2))
    moreover have "a \<le> length data" using read_u32_bounds [OF r3'(1)] by simp
    ultimately show ?thesis by simp
  qed
  have tf: "(of_nat (length qs) :: u32) \<noteq> 0" using qs(1,3) by (simp add: word_unat_eq_iff unsigned_of_nat take_bit_nat_eq_self)
  let ?cu = "\<lparr>cu_doc = d, cu_tf = of_nat (length qs), cu_pos_start = a, cu_pos_end = a + length ?ob\<rparr>"
  have h: "decode_header data pos prev = Inr (?cu, a + length ?ob)"
    using r1 r2 r3' Cons.prems(3) p alen ol tf
    by (auto simp: decode_header_def delta_def checked_add_diff Let_def fail_if_def split: option.splits)
  have q: "decode_positions data ?cu = Inr qs"
    by (rule decode_positions_deltas [OF r3'(2) qs(2,3)]) simp_all
  have "drop (a + length ?ob) data = post_bytes (Some d) ps"
    using r3'(2) by (metis add.commute append_eq_conv_conj drop_drop)
  then have "decode_rest data (a + length ?ob) (Some d) (length ps) = Inr ps"
    by (rule Cons.IH) (use alen Cons.prems p in auto)
  then show ?case using h q p by simp
qed

lemma decode_list_plist_bytes:
  assumes "plist_fits ps"
  shows "decode_list (plist_bytes ps) = Inr ps"
proof -
  have n: "unat (of_nat (length ps) :: u32) = length ps"
    using assms by (simp add: plist_fits_def unsigned_of_nat take_bit_nat_eq_self)
  have "drop 0 (plist_bytes ps) = varint32 (of_nat (length ps)) @ post_bytes None ps" by (simp add: plist_bytes_def)
  note r = read_u32_at [OF this]
  have "decode_rest (plist_bytes ps) (length (varint32 (of_nat (length ps) :: u32))) None (length ps) = Inr ps"
    by (rule decode_rest_post_bytes) (use assms r(2) in \<open>auto simp: plist_fits_def plist_ok_def plist_bytes_def\<close>)
  then show ?thesis using r(1) n by (simp add: decode_list_def)
qed

lemma decode_encode:
  "plist_fits ps \<Longrightarrow> \<exists>n. encode_postings ps [] = Inr (plist_bytes ps, n) \<and> decode_list (plist_bytes ps) = Inr ps"
  by (simp add: encode_postings_eq plist_fits_def decode_list_plist_bytes)

section \<open>Verification of a stored list\<close>

lemma disk_positions_Some:
  "dc_cur c = Some cu \<Longrightarrow> \<not> dc_decoded c \<Longrightarrow> decode_positions (dc_data c) cu = Inr qs \<Longrightarrow>
     disk_positions c = (qs, c\<lparr>dc_positions := qs, dc_decoded := True\<rparr>)"
  by (simp add: disk_positions_def Let_def)

lemma load_next_more [simp]:
  "dc_remaining c = 0 \<Longrightarrow> dc_cur (load_next c) = None"
  by (simp add: load_next_def)

lemma verify_walk_complete:
  assumes "disk_repr c ps" and "\<not> dc_decoded c \<or> ps = []"
  shows "\<exists>c'. verify_walk c n = (c', n + of_nat (length ps)) \<and> dc_error c' = None \<and> dc_pos c' = length (dc_data c) \<and> dc_data c' = dc_data c"
  using assms
proof (induction ps arbitrary: c n)
  case Nil
  then have "dc_cur c = None" by (simp add: disk_repr_cur)
  with Nil show ?case by (simp add: verify_walk.simps [of c] disk_doc_def disk_repr_def)
next
  case (Cons p ps)
  then obtain cu qs r where cu: "dc_cur c = Some cu" "p # ps = (cu_doc cu, qs) # r" "decode_positions (dc_data c) cu = Inr qs"
    "dc_error c = None"
    by (auto simp: disk_repr_def split: option.splits)
  let ?c = "c\<lparr>dc_positions := qs, dc_decoded := True\<rparr>"
  have pc: "disk_positions c = (qs, ?c)" using cu Cons.prems by (intro disk_positions_Some) auto
  moreover have "disk_repr (snd (disk_positions c)) (p # ps)" using disk_positions_repr [OF Cons.prems(1)] ..
  ultimately have "disk_repr ?c (p # ps)" by (simp only: snd_conv)
  then have ln: "disk_repr (load_next ?c) ps" by (rule disk_repr_load)
  have "dc_data (load_next ?c) = dc_data c"
    by (auto simp: load_next_def dc_fail_def split: sum.splits)
  moreover have "\<not> dc_decoded (load_next ?c) \<or> ps = []"
    using ln by (auto simp: load_next_def dc_fail_def disk_repr_def split: sum.splits if_splits)
  ultimately obtain c' where "verify_walk (load_next ?c) (n + 1) = (c', n + 1 + of_nat (length ps))"
    "dc_error c' = None" "dc_pos c' = length (dc_data c)" "dc_data c' = dc_data c"
    using Cons.IH [OF ln] by metis
  then show ?case using cu pc decode_positions_facts(1) [OF cu(3)]
    by (simp add: verify_walk.simps [of c] disk_doc_def disk_term_freq_def disk_advance_def Let_def add.assoc)
qed

text \<open>Between two iterations the walk is on a header whose positions are not decoded yet.\<close>

definition walk_inv :: "disk_cursor \<Rightarrow> bool" where
  "walk_inv c \<longleftrightarrow>
     (case dc_cur c of None \<Rightarrow> dc_remaining c = 0
      | Some cu \<Rightarrow> \<not> dc_decoded c \<and> cu_tf cu \<noteq> 0 \<and> dc_error c = None)"

lemma walk_inv_load_next: "dc_error c = None \<Longrightarrow> walk_inv (load_next c)"
  by (auto simp: walk_inv_def load_next_def dc_fail_def decode_header_facts split: sum.splits)

lemma load_next_repr_conv:
  assumes "disk_repr (load_next c) ps"
  shows "decode_rest (dc_data c) (dc_pos c) (map_option cu_doc (dc_cur c)) (unat (dc_remaining c)) = Inr ps"
proof (cases "dc_remaining c = 0")
  case True
  with assms show ?thesis by (simp add: disk_repr_def load_next_def)
next
  case False
  then have n: "unat (dc_remaining c) = Suc (unat (dc_remaining c - 1))"
    by (metis Suc_pred' unat_gt_0 unat_minus_one)
  from assms False show ?thesis
    by (auto simp: n disk_repr_def load_next_def dc_fail_def split: sum.splits)
qed

lemma verify_walk_sound:
  assumes "walk_inv c" and "verify_walk c n = (c', n')"
  shows "\<exists>k \<le> dc_left c. n' = n + of_nat k \<and>
     (k = dc_left c \<longrightarrow> dc_error c' = None \<longrightarrow> dc_pos c' = length (dc_data c) \<longrightarrow> (\<exists>ps. disk_repr c ps \<and> length ps = k))"
  using assms
proof (induction "dc_left c" arbitrary: c n rule: less_induct)
  case (less c n)
  show ?case
  proof (cases "dc_cur c")
    case None
    then have "c' = c" "n' = n" using less.prems(2) by (simp_all add: verify_walk.simps [of c n] disk_doc_def)
    then show ?thesis using None less.prems(1) by (intro exI [of _ 0]) (simp add: disk_repr_def walk_inv_def dc_left_def)
  next
    case (Some cu)
    then have inv: "\<not> dc_decoded c" "cu_tf cu \<noteq> 0" "dc_error c = None" using less.prems(1) by (auto simp: walk_inv_def)
    show ?thesis
    proof (cases "decode_positions (dc_data c) cu")
      case (Inl e)
      then have "disk_positions c = ([], (dc_fail e (c\<lparr>dc_positions := []\<rparr>))\<lparr>dc_decoded := True\<rparr>)"
        using Some inv by (simp add: disk_positions_def Let_def dc_fail_def)
      then have "dc_error c' = Some e" "n' = n"
        using less.prems(2) Some inv
        by (auto simp: verify_walk.simps [of c n] disk_doc_def disk_term_freq_def dc_fail_def unat_eq_0)
      then show ?thesis by (intro exI [of _ 0]) simp
    next
      case (Inr qs)
      let ?c = "c\<lparr>dc_positions := qs, dc_decoded := True\<rparr>"
      have pc: "disk_positions c = (qs, ?c)" using Some inv Inr by (intro disk_positions_Some) auto
      have adv: "snd (disk_advance ?c) = load_next ?c" using Some by (simp add: disk_advance_def Let_def)
      have walk: "verify_walk c n = verify_walk (load_next ?c) (n + 1)"
        using Some inv pc decode_positions_facts(1) [OF Inr]
        by (simp add: verify_walk.simps [of c] disk_doc_def disk_term_freq_def adv)
      have lt: "dc_left (load_next ?c) < dc_left c"
        using dc_left_load_next [of ?c cu] Some by (simp add: dc_left_def)
      have "walk_inv (load_next ?c)" using inv by (intro walk_inv_load_next) simp
      moreover have "verify_walk (load_next ?c) (n + 1) = (c', n')" using walk less.prems(2) by simp
      ultimately have "\<exists>k \<le> dc_left (load_next ?c). n' = n + 1 + of_nat k \<and>
         (k = dc_left (load_next ?c) \<longrightarrow> dc_error c' = None \<longrightarrow> dc_pos c' = length (dc_data (load_next ?c)) \<longrightarrow>
            (\<exists>ps. disk_repr (load_next ?c) ps \<and> length ps = k))"
        by (rule less.hyps [OF lt])
      then obtain k where k: "k \<le> dc_left (load_next ?c)" "n' = n + 1 + of_nat k"
        "k = dc_left (load_next ?c) \<longrightarrow> dc_error c' = None \<longrightarrow> dc_pos c' = length (dc_data (load_next ?c)) \<longrightarrow>
            (\<exists>ps. disk_repr (load_next ?c) ps \<and> length ps = k)" by (elim exE conjE) (rule that)
      have data: "dc_data (load_next ?c) = dc_data c"
        by (auto simp: load_next_def dc_fail_def split: sum.splits)
      have conv: "disk_repr c ((cu_doc cu, qs) # ps)" if "disk_repr (load_next ?c) ps" for ps
      proof -
        have "decode_rest (dc_data c) (dc_pos c) (Some (cu_doc cu)) (unat (dc_remaining c)) = Inr ps"
          using load_next_repr_conv [OF that] Some by simp
        then show ?thesis using Some inv Inr unfolding disk_repr_def by simp
      qed
      show ?thesis
      proof (intro exI [of _ "Suc k"] conjI impI)
        show "Suc k \<le> dc_left c" using k(1) lt by simp
        show "n' = n + of_nat (Suc k)" using k(2) by simp
      next
        assume "Suc k = dc_left c" "dc_error c' = None" "dc_pos c' = length (dc_data c)"
        moreover have "k = dc_left (load_next ?c)" using calculation(1) k(1) lt by simp
        ultimately obtain ps where "disk_repr (load_next ?c) ps" "length ps = k" using k(3) data by auto
        then have "disk_repr c ((cu_doc cu, qs) # ps) \<and> length ((cu_doc cu, qs) # ps) = Suc k" using conv by simp
        then show "\<exists>ps. disk_repr c ps \<and> length ps = Suc k" by (rule exI)
      qed
    qed
  qed
qed

lemma disk_cursor_new_eq:
  "read_u32 data 0 = Inr (n, pos) \<Longrightarrow> disk_cursor_new data =
     load_next \<lparr>dc_data = data, dc_pos = pos, dc_remaining = n, dc_cur = None, dc_positions = [],
               dc_decoded = False, dc_error = None\<rparr>"
  by (simp add: disk_cursor_new_def Let_def)

lemma dc_left_new: "read_u32 data 0 = Inr (n, pos) \<Longrightarrow> dc_left (disk_cursor_new data) \<le> unat n"
  by (auto simp: disk_cursor_new_eq load_next_def dc_left_def dc_fail_def unat_minus_one Suc_leI unat_gt_0 split: sum.splits)

lemma disk_verify_iff_lemma: "disk_verify l = Inr () \<longleftrightarrow> (\<exists>ps. disk_contents l ps)"
proof
  assume v: "disk_verify l = Inr ()"
  then obtain pos c n where rd: "read_u32 (dl_data l) 0 = Inr (dl_doc_freq l, pos)"
    and w: "verify_walk (disk_cursor_new (dl_data l)) 0 = (c, n)"
    and ok: "dc_error c = None" "n = dl_doc_freq l" "dc_pos c = length (dl_data l)"
    by (auto simp: disk_verify_def split: prod.splits option.splits)
  let ?c = "disk_cursor_new (dl_data l)"
  have inv: "walk_inv ?c" unfolding disk_cursor_new_eq [OF rd] by (rule walk_inv_load_next) simp
  have data: "dc_data ?c = dl_data l"
    unfolding disk_cursor_new_eq [OF rd] by (auto simp: load_next_def dc_fail_def split: sum.splits)
  from verify_walk_sound [OF inv w] obtain k where k: "k \<le> dc_left ?c" "n = of_nat k"
    "k = dc_left ?c \<Longrightarrow> \<exists>ps. disk_repr ?c ps \<and> length ps = k" using ok data by auto
  have le: "dc_left ?c \<le> unat (dl_doc_freq l)" by (rule dc_left_new [OF rd])
  have "k < 2 ^ 32" using k(1) le unat_bounds(2) [of "dl_doc_freq l"] by simp
  then have "unat (dl_doc_freq l) = k" using k(2) ok(2) by (simp add: unsigned_of_nat take_bit_nat_eq_self)
  with k le obtain ps where ps: "disk_repr ?c ps" "length ps = k" by auto
  have "decode_list (dl_data l) = Inr ps"
    using load_next_repr_conv [OF ps(1) [unfolded disk_cursor_new_eq [OF rd]]] rd by (simp add: decode_list_def)
  then have "disk_contents l ps" using ps(2) k(2) ok(2) by (simp add: disk_contents_def)
  then show "\<exists>ps. disk_contents l ps" ..
next
  assume "\<exists>ps. disk_contents l ps"
  then obtain ps where ps: "decode_list (dl_data l) = Inr ps" "dl_doc_freq l = of_nat (length ps)"
    by (auto simp: disk_contents_def)
  then obtain n pos where rd: "read_u32 (dl_data l) 0 = Inr (n, pos)"
    and dr: "decode_rest (dl_data l) pos None (unat n) = Inr ps" by (auto simp: decode_list_def)
  have "length ps = unat n" using decode_rest_ok [OF dr] by simp
  then have n: "n = of_nat (length ps)" by simp
  have r: "disk_repr (disk_cursor_new (dl_data l)) ps" by (rule disk_cursor_new_repr [OF ps(1)])
  have nd: "\<not> dc_decoded (disk_cursor_new (dl_data l)) \<or> ps = []"
    unfolding disk_cursor_new_eq [OF rd] by (auto simp: load_next_def dc_fail_def split: sum.splits)
  have data: "dc_data (disk_cursor_new (dl_data l)) = dl_data l"
    unfolding disk_cursor_new_eq [OF rd] by (auto simp: load_next_def dc_fail_def split: sum.splits)
  from verify_walk_complete [OF r nd, of 0] data rd n ps(2) show "disk_verify l = Inr ()"
    by (auto simp: disk_verify_def)
qed

end
