(* ===== verification/Idx_Dict.thy ===== *)
theory Idx_Dict
  imports Envelope Idx_Postings "HOL-Library.List_Lexorder"
begin

text \<open>
  The \<open>.idx\<close> file (\<open>src/format/idx.rs\<close>): posting lists, the front-coded term dictionary in blocks of 64
  and the sparse index over block-first terms. Terms are compared as byte strings, which is the
  lexicographic order on lists. The output stream is a \<open>Vec<u8>\<close>, which never fails.

  A file \<open>idx_repr\<close>esents a list of blocks of dictionary entries when every block scans to its entries,
  the sparse index names each block's first term, and the terms increase strictly. Every file that
  \<open>idx_verify\<close> accepts does (\<open>idx_verify_repr\<close>); on such a file \<open>idx_lookup\<close> finds exactly the entry of the
  term (\<open>idx_lookup_entry\<close>) and the term iterator lists every entry in order (\<open>term_iter_lists\<close>).
\<close>

definition BLOCK_SIZE :: nat where "BLOCK_SIZE = 64"
definition TOC_LEN :: nat where "TOC_LEN = 64"
definition MAX_TERM_BYTES :: nat where "MAX_TERM_BYTES = 512"

record toc =
  postings_off :: u64
  postings_len :: u64
  dict_off :: u64
  dict_len :: u64
  sparse_off :: u64
  sparse_len :: u64
  num_terms :: u64
  num_blocks :: u32
  block_size :: u32

definition toc_encode :: "toc \<Rightarrow> bytes" where
  "toc_encode t =
     (let b = replicate TOC_LEN 0;
          b = copy_at b 0 (le_bytes 8 (postings_off t));
          b = copy_at b 8 (le_bytes 8 (postings_len t));
          b = copy_at b 16 (le_bytes 8 (dict_off t));
          b = copy_at b 24 (le_bytes 8 (dict_len t));
          b = copy_at b 32 (le_bytes 8 (sparse_off t));
          b = copy_at b 40 (le_bytes 8 (sparse_len t));
          b = copy_at b 48 (le_bytes 8 (num_terms t));
          b = copy_at b 56 (le_bytes 4 (num_blocks t));
          b = copy_at b 60 (le_bytes 4 (block_size t))
      in b)"

definition toc_decode :: "bytes \<Rightarrow> toc fresult" where
  "toc_decode b =
     and_then (read_u64_le b 0) (\<lambda>po.
     and_then (read_u64_le b 8) (\<lambda>pl.
     and_then (read_u64_le b 16) (\<lambda>do.
     and_then (read_u64_le b 24) (\<lambda>dl.
     and_then (read_u64_le b 32) (\<lambda>so.
     and_then (read_u64_le b 40) (\<lambda>sl.
     and_then (read_u64_le b 48) (\<lambda>nt.
     and_then (read_u32_le b 56) (\<lambda>nb.
     and_then (read_u32_le b 60) (\<lambda>bsz.
     Inr \<lparr>postings_off = po, postings_len = pl, dict_off = do, dict_len = dl, sparse_off = so, sparse_len = sl,
          num_terms = nt, num_blocks = nb, block_size = bsz\<rparr>)))))))))"

section \<open>Writing\<close>

record idx_summary =
  is_len :: u64
  is_crc :: u32
  is_num_terms :: u64
  is_num_postings :: u64
  is_num_tokens :: u64

fun common_prefix :: "bytes \<Rightarrow> bytes \<Rightarrow> nat" where
  "common_prefix (x # xs) (y # ys) = (if x = y then Suc (common_prefix xs ys) else 0)"
| "common_prefix _ _ = 0"

record idx_writer =
  iw_body :: body_writer
  iw_dict :: bytes
  iw_sparse_offsets :: "u32 list"
  iw_sparse_entries :: bytes
  iw_prev_term :: bytes
  iw_postings_pos :: u64
  iw_summary :: idx_summary

text \<open>One iteration of the loop over the terms.\<close>

definition idx_write_term :: "bytes \<times> plist \<Rightarrow> idx_writer \<Rightarrow> idx_writer fresult" where
  "idx_write_term e w =
     (let (term, list) = e in
      if MAX_TERM_BYTES < length term then Inr w
      else and_then (encode_postings list []) (\<lambda>(buf, tokens).
        let i = unat (is_num_terms (iw_summary w));
            w = (if i mod BLOCK_SIZE = 0 then
                   let so = iw_sparse_offsets w @ [of_nat (length (iw_sparse_entries w))];
                       se = put_u32 (iw_sparse_entries w) (of_nat (length term));
                       se = se @ term;
                       se = put_u64 se (of_nat (length (iw_dict w)));
                       se = put_u64 se (iw_postings_pos w)
                   in w\<lparr>iw_sparse_offsets := so, iw_sparse_entries := se, iw_prev_term := []\<rparr>
                 else w);
            prefix = common_prefix (iw_prev_term w) term;
            dict = put_u32 (iw_dict w) (of_nat prefix);
            dict = put_u32 dict (of_nat (length term - prefix));
            dict = dict @ drop prefix term;
            dict = put_u32 dict (mem_doc_freq list);
            dict = put_u64 dict (of_nat (length buf));
            s = iw_summary w
        in Inr (w\<lparr>iw_dict := dict, iw_body := bw_write_all (iw_body w) buf,
             iw_postings_pos := iw_postings_pos w + of_nat (length buf), iw_prev_term := term,
             iw_summary := s\<lparr>is_num_terms := is_num_terms s + 1,
                             is_num_postings := is_num_postings s + ucast (mem_doc_freq list),
                             is_num_tokens := is_num_tokens s + tokens\<rparr>\<rparr>)))"

fun idx_write_terms :: "(bytes \<times> plist) list \<Rightarrow> idx_writer \<Rightarrow> idx_writer fresult" where
  "idx_write_terms [] w = Inr w"
| "idx_write_terms (t # ts) w = and_then (idx_write_term t w) (idx_write_terms ts)"

definition idx_write :: "(bytes \<Rightarrow> u32) \<Rightarrow> bytes \<Rightarrow> (bytes \<times> plist) list \<Rightarrow> (bytes \<times> idx_summary) fresult" where
  "idx_write crc out terms =
     (let out = out @ header KIdx;
          w = \<lparr>iw_body = bw_new out, iw_dict = [], iw_sparse_offsets = [], iw_sparse_entries = [], iw_prev_term = [],
               iw_postings_pos = 0,
               iw_summary = \<lparr>is_len = 0, is_crc = 0, is_num_terms = 0, is_num_postings = 0, is_num_tokens = 0\<rparr>\<rparr>
      in and_then (idx_write_terms terms w) (\<lambda>w.
        let postings_len = iw_postings_pos w;
            dict_off = of_nat HEADER_LEN + postings_len;
            body = bw_write_all (iw_body w) (iw_dict w);
            sparse_off = dict_off + of_nat (length (iw_dict w));
            sparse = foldl (\<lambda>s o'. s @ le_bytes 4 o') [] (iw_sparse_offsets w);
            sparse = sparse @ iw_sparse_entries w;
            body = bw_write_all body sparse;
            toc = \<lparr>postings_off = of_nat HEADER_LEN, postings_len = postings_len, dict_off = dict_off,
                   dict_len = of_nat (length (iw_dict w)), sparse_off = sparse_off,
                   sparse_len = of_nat (length sparse), num_terms = is_num_terms (iw_summary w),
                   num_blocks = of_nat (length (iw_sparse_offsets w)), block_size = of_nat BLOCK_SIZE\<rparr>;
            body = bw_write_all body (toc_encode toc);
            (out, body_len, c) = bw_finish crc body;
            out = out @ footer body_len c
        in Inr (out, (iw_summary w)\<lparr>is_len := body_len + of_nat (HEADER_LEN + FOOTER_LEN), is_crc := c\<rparr>)))"

section \<open>The view\<close>

record idx_view =
  ix_bytes :: bytes
  ix_env :: envelope
  ix_toc :: toc

text \<open>\<open>num_terms.div_ceil(BLOCK_SIZE)\<close>.\<close>

definition div_ceil64 :: "u64 \<Rightarrow> nat" where
  "div_ceil64 n = (unat n + 63) div 64"

definition idx_parse :: "bytes \<Rightarrow> idx_view fresult" where
  "idx_parse bs =
     and_then (envelope_parse KIdx bs) (\<lambda>env.
     let (b0, b1) = env_body env in
     and_then (fail_if (b1 - b0 < TOC_LEN) (Truncated (b1 - b0) TOC_LEN)) (\<lambda>_.
     and_then (toc_decode (take TOC_LEN (drop (b1 - TOC_LEN) bs))) (\<lambda>toc.
     let h = of_nat HEADER_LEN;
         good = (postings_off toc = h \<and>
               checked_add (postings_off toc) (postings_len toc) = Some (dict_off toc) \<and>
               checked_add (dict_off toc) (dict_len toc) = Some (sparse_off toc) \<and>
               checked_add (sparse_off toc) (sparse_len toc) = Some (of_nat (b1 - TOC_LEN)) \<and>
               unat (block_size toc) = BLOCK_SIZE \<and>
               unat (num_blocks toc) = div_ceil64 (num_terms toc) \<and>
               4 * ucast (num_blocks toc) \<le> sparse_len toc) in
     and_then (fail_if (\<not> good) (Corrupt ''idx TOC regions do not tile the body'')) (\<lambda>_.
     Inr \<lparr>ix_bytes = bs, ix_env = env, ix_toc = toc\<rparr>))))"

definition sparse_entry :: "idx_view \<Rightarrow> nat \<Rightarrow> (bytes \<times> u64 \<times> u64) fresult" where
  "sparse_entry v b =
     and_then (to_usize (sparse_off (ix_toc v))) (\<lambda>table.
     and_then (read_u32_le (ix_bytes v) (table + 4 * b)) (\<lambda>off.
     let entries = table + 4 * unat (num_blocks (ix_toc v)) in
     and_then (to_usize (sparse_off (ix_toc v) + sparse_len (ix_toc v))) (\<lambda>sparse_end.
     let pos = entries + unat off in
     and_then (fail_if (sparse_end \<le> pos) (Corrupt ''sparse entry offset out of range'')) (\<lambda>_.
     and_then (read_u32 (ix_bytes v) pos) (\<lambda>(term_len, pos).
     and_then (slice (ix_bytes v) pos (unat term_len)) (\<lambda>term.
     let pos = pos + unat term_len in
     and_then (read_u64 (ix_bytes v) pos) (\<lambda>(block_off, pos).
     and_then (read_u64 (ix_bytes v) pos) (\<lambda>(postings_off, pos).
     and_then (fail_if (sparse_end < pos) (Corrupt ''sparse entry overruns region'')) (\<lambda>_.
     Inr (term, block_off, postings_off))))))))))"

record dict_entry =
  de_term :: bytes
  de_doc_freq :: u32
  de_postings_off :: u64
  de_postings_len :: u64

record block_scan =
  bs_pos :: nat
  bs_end :: nat
  bs_remaining :: nat
  bs_term :: bytes
  bs_postings_pos :: u64

definition next_entry :: "bytes \<Rightarrow> block_scan \<Rightarrow> (dict_entry option \<times> block_scan) fresult" where
  "next_entry bs s =
     (if bs_remaining s = 0 then Inr (None, s)
      else
        and_then (read_u32 bs (bs_pos s)) (\<lambda>(prefix, pos).
        and_then (read_u32 bs pos) (\<lambda>(suffix_len, pos).
        and_then (fail_if (length (bs_term s) < unat prefix)
          (Corrupt ''front-coding prefix longer than previous term'')) (\<lambda>_.
        and_then (slice bs pos (unat suffix_len)) (\<lambda>suffix.
        let pos = pos + unat suffix_len;
            term = take (unat prefix) (bs_term s) @ suffix in
        and_then (read_u32 bs pos) (\<lambda>(doc_freq, pos).
        and_then (read_u64 bs pos) (\<lambda>(postings_len, pos).
        and_then (fail_if (bs_end s < pos) (Corrupt ''dictionary entry overruns region'')) (\<lambda>_.
        let postings_off = bs_postings_pos s in
        and_then (ok_or (checked_add postings_off postings_len) (Corrupt ''postings offset overflow'')) (\<lambda>pp.
        Inr (Some \<lparr>de_term = term, de_doc_freq = doc_freq, de_postings_off = postings_off, de_postings_len = postings_len\<rparr>,
             s\<lparr>bs_pos := pos, bs_remaining := bs_remaining s - 1, bs_term := term, bs_postings_pos := pp\<rparr>))))))))))"

definition idx_block :: "idx_view \<Rightarrow> nat \<Rightarrow> block_scan fresult" where
  "idx_block v b =
     and_then (sparse_entry v b) (\<lambda>(_, block_off, postings_rel).
     and_then (to_usize (dict_off (ix_toc v) + block_off)) (\<lambda>start.
     and_then (to_usize (dict_off (ix_toc v) + dict_len (ix_toc v))) (\<lambda>end'.
     and_then (fail_if (end' < start) (Corrupt ''block offset outside dictionary'')) (\<lambda>_.
     let remaining = min (unat (num_terms (ix_toc v) - of_nat (b * BLOCK_SIZE))) BLOCK_SIZE
     in Inr \<lparr>bs_pos = start, bs_end = end', bs_remaining = remaining, bs_term = [],
             bs_postings_pos = postings_off (ix_toc v) + postings_rel\<rparr>))))"

definition postings_at :: "idx_view \<Rightarrow> u64 \<Rightarrow> u64 \<Rightarrow> u32 \<Rightarrow> disk_list fresult" where
  "postings_at v off len doc_freq =
     and_then (ok_or (checked_add off len) (Corrupt ''postings offset overflow'')) (\<lambda>end'.
     and_then (fail_if (postings_off (ix_toc v) + postings_len (ix_toc v) < end')
       (Corrupt ''posting list extends past the postings region'')) (\<lambda>_.
     and_then (to_usize off) (\<lambda>o'.
     and_then (to_usize len) (\<lambda>l.
     and_then (slice (ix_bytes v) o' l) (\<lambda>data.
     Inr \<lparr>dl_data = data, dl_doc_freq = doc_freq\<rparr>)))))"

section \<open>Lookup\<close>

text \<open>The binary search for the first block whose first term is past the target.\<close>

function block_search :: "idx_view \<Rightarrow> bytes \<Rightarrow> nat \<Rightarrow> nat \<Rightarrow> nat fresult" where
  "block_search v target lo hi =
     (if lo < hi then
        let mid = lo + (hi - lo) div 2 in
        and_then (sparse_entry v mid) (\<lambda>(first, _, _).
        if first \<le> target then block_search v target (mid + 1) hi else block_search v target lo mid)
      else Inr lo)"
  by pat_completeness auto
termination by (relation "measure (\<lambda>(_, _, lo, hi). hi - lo)") auto

declare block_search.simps [simp del]

lemma next_entry_remaining: "next_entry bs s = Inr (Some e, s') \<Longrightarrow> bs_remaining s' < bs_remaining s"
  by (auto simp: next_entry_def Let_def split: if_splits)

function scan_for :: "idx_view \<Rightarrow> bytes \<Rightarrow> block_scan \<Rightarrow> disk_list option fresult" where
  "scan_for v target s =
     and_then (next_entry (ix_bytes v) s) (\<lambda>(e, s').
     case e of
       None \<Rightarrow> Inr None
     | Some e \<Rightarrow>
         if de_term e < target then scan_for v target s'
         else if de_term e = target then
           and_then (postings_at v (de_postings_off e) (de_postings_len e) (de_doc_freq e)) (\<lambda>l. Inr (Some l))
         else Inr None)"
  by pat_completeness auto
termination by (relation "measure (\<lambda>(_, _, s). bs_remaining s)") (auto dest: next_entry_remaining)

declare scan_for.simps [simp del]

definition lookup_inner :: "idx_view \<Rightarrow> bytes \<Rightarrow> disk_list option fresult" where
  "lookup_inner v target =
     (let nb = unat (num_blocks (ix_toc v)) in
      if nb = 0 then Inr None
      else and_then (block_search v target 0 nb) (\<lambda>lo.
        if lo = 0 then Inr None
        else and_then (idx_block v (lo - 1)) (scan_for v target)))"

definition idx_lookup :: "idx_view \<Rightarrow> bytes \<Rightarrow> disk_list option" where
  "idx_lookup v term = (case lookup_inner v term of Inr r \<Rightarrow> r | Inl _ \<Rightarrow> None)"

section \<open>Verification\<close>

function pos_after_block :: "bytes \<Rightarrow> block_scan \<Rightarrow> nat fresult" where
  "pos_after_block bs s =
     and_then (next_entry bs s) (\<lambda>(e, s').
     case e of None \<Rightarrow> Inr (bs_pos s') | Some _ \<Rightarrow> pos_after_block bs s')"
  by pat_completeness auto
termination by (relation "measure (\<lambda>(_, s). bs_remaining s)") (auto dest: next_entry_remaining)

declare pos_after_block.simps [simp del]

text \<open>
  The inner loop of \<open>verify\<close> over one block, with \<open>idx_in_block\<close>, \<open>count\<close>, \<open>prev\<close>, \<open>expected_postings\<close>. The
  message of the order check leaves out the debug rendering of the term.
\<close>

function verify_entries ::
  "idx_view \<Rightarrow> nat \<Rightarrow> bytes \<Rightarrow> block_scan \<Rightarrow> nat \<Rightarrow> u64 \<Rightarrow> bytes option \<Rightarrow> u64 \<Rightarrow> (u64 \<times> bytes option \<times> u64) fresult" where
  "verify_entries v b first s i count prev expected =
     and_then (next_entry (ix_bytes v) s) (\<lambda>(e, s').
     case e of
       None \<Rightarrow> Inr (count, prev, expected)
     | Some e \<Rightarrow>
         and_then (fail_if (i = 0 \<and> de_term e \<noteq> first)
           (Corrupt (''block '' @ show_nat b @ '': sparse term differs from first entry''))) (\<lambda>_.
         and_then (case prev of
             Some p \<Rightarrow> fail_if (de_term e \<le> p) (Corrupt ''terms out of order'')
           | None \<Rightarrow> Inr ()) (\<lambda>_.
         and_then (fail_if (\<not> utf8_valid (de_term e)) (Corrupt ''term is not UTF-8'')) (\<lambda>_.
         and_then (postings_at v (de_postings_off e) (de_postings_len e) (de_doc_freq e)) (\<lambda>list.
         and_then (disk_verify list) (\<lambda>_.
         verify_entries v b first s' (i + 1) (count + 1) (Some (de_term e)) (de_postings_off e + de_postings_len e)))))))"
  by pat_completeness auto
termination by (relation "measure (\<lambda>(_, _, _, s, _). bs_remaining s)") (auto dest: next_entry_remaining)

declare verify_entries.simps [simp del]

fun verify_blocks :: "idx_view \<Rightarrow> nat \<Rightarrow> nat \<Rightarrow> u64 \<Rightarrow> bytes option \<Rightarrow> u64 \<Rightarrow> (u64 \<times> u64) fresult" where
  "verify_blocks v b 0 count prev expected = Inr (count, expected)"
| "verify_blocks v b (Suc n) count prev expected =
     and_then (sparse_entry v b) (\<lambda>(first, block_off, postings_rel).
     and_then (fail_if (postings_off (ix_toc v) + postings_rel \<noteq> expected)
       (Corrupt (''block '' @ show_nat b @ '': sparse postings_off disagrees with running total''))) (\<lambda>_.
     and_then (idx_block v b) (\<lambda>scan.
     and_then (if 0 < b then
         and_then (idx_block v (b - 1)) (\<lambda>before.
         and_then (pos_after_block (ix_bytes v) before) (\<lambda>end'.
         and_then (to_usize (dict_off (ix_toc v) + block_off)) (\<lambda>start.
         fail_if (end' \<noteq> start) (Corrupt (''block '' @ show_nat b @ '': block_off disagrees with previous block end'')))))
       else Inr ()) (\<lambda>_.
     and_then (verify_entries v b first scan 0 count prev expected) (\<lambda>(count, prev, expected).
     verify_blocks v (b + 1) n count prev expected)))))"

definition idx_verify :: "(bytes \<Rightarrow> u32) \<Rightarrow> idx_view \<Rightarrow> unit fresult" where
  "idx_verify crc v =
     and_then (verify_crc crc (ix_bytes v) (ix_env v)) (\<lambda>_.
     and_then (verify_blocks v 0 (unat (num_blocks (ix_toc v))) 0 None (postings_off (ix_toc v))) (\<lambda>(count, expected).
     and_then (fail_if (count \<noteq> num_terms (ix_toc v)) (Corrupt ''num_terms disagrees with dictionary'')) (\<lambda>_.
     fail_if (expected \<noteq> postings_off (ix_toc v) + postings_len (ix_toc v))
       (Corrupt ''postings region has trailing bytes''))))"

section \<open>The term iterator\<close>

record term_iter =
  ti_block :: nat
  ti_scan :: "block_scan option"

definition idx_terms :: term_iter where
  "idx_terms = \<lparr>ti_block = 0, ti_scan = None\<rparr>"

definition ti_left :: "idx_view \<Rightarrow> term_iter \<Rightarrow> nat" where
  "ti_left v t = 2 * (unat (num_blocks (ix_toc v)) - ti_block t) + (if ti_scan t = None then 0 else 1)"

function try_next :: "idx_view \<Rightarrow> term_iter \<Rightarrow> ((bytes \<times> u32 \<times> disk_list) option \<times> term_iter) fresult" where
  "try_next v t =
     (case ti_scan t of
        None \<Rightarrow>
          if unat (num_blocks (ix_toc v)) \<le> ti_block t then Inr (None, t)
          else and_then (idx_block v (ti_block t)) (\<lambda>scan.
            try_next v \<lparr>ti_block = ti_block t + 1, ti_scan = Some scan\<rparr>)
      | Some scan \<Rightarrow>
          and_then (next_entry (ix_bytes v) scan) (\<lambda>(e, scan).
          case e of
            Some e \<Rightarrow>
              and_then (ok_or (from_utf8 (de_term e)) (Corrupt ''term is not UTF-8'')) (\<lambda>term.
              and_then (postings_at v (de_postings_off e) (de_postings_len e) (de_doc_freq e)) (\<lambda>list.
              Inr (Some (term, de_doc_freq e, list), t\<lparr>ti_scan := Some scan\<rparr>)))
          | None \<Rightarrow> try_next v (t\<lparr>ti_scan := None\<rparr>)))"
  by pat_completeness auto
termination by (relation "measure (\<lambda>(v, t). ti_left v t)") (auto simp: ti_left_def)

declare try_next.simps [simp del]

section \<open>What a file represents\<close>

text \<open>All entries a scan delivers.\<close>

function scan_all :: "bytes \<Rightarrow> block_scan \<Rightarrow> dict_entry list fresult" where
  "scan_all bs s =
     and_then (next_entry bs s) (\<lambda>(e, s').
     case e of None \<Rightarrow> Inr [] | Some e \<Rightarrow> and_then (scan_all bs s') (\<lambda>es. Inr (e # es)))"
  by pat_completeness auto
termination by (relation "measure (\<lambda>(_, s). bs_remaining s)") (auto dest: next_entry_remaining)

declare scan_all.simps [simp del]

lemma next_entry_None: "next_entry bs s = Inr (None, s') \<longleftrightarrow> bs_remaining s = 0 \<and> s' = s"
  by (auto simp: next_entry_def Let_def split: if_splits)

lemma next_entry_left: "next_entry bs s = Inr (Some e, s') \<Longrightarrow> bs_remaining s = Suc (bs_remaining s')"
  by (auto simp: next_entry_def Let_def split: if_splits)

lemma scan_all_Cons:
  "next_entry bs s = Inr (Some e, s') \<Longrightarrow> scan_all bs s = and_then (scan_all bs s') (\<lambda>es. Inr (e # es))"
  by (simp add: scan_all.simps [of bs s])

lemma scan_all_Nil: "scan_all bs s = Inr [] \<longleftrightarrow> bs_remaining s = 0"
proof
  assume "scan_all bs s = Inr []"
  then show "bs_remaining s = 0"
    by (auto simp: scan_all.simps [of bs s] next_entry_None split: option.splits)
next
  assume "bs_remaining s = 0"
  then show "scan_all bs s = Inr []" by (simp add: scan_all.simps [of bs s] next_entry_def)
qed

lemma scan_all_ConsD:
  "scan_all bs s = Inr (e # es) \<Longrightarrow> \<exists>s'. next_entry bs s = Inr (Some e, s') \<and> scan_all bs s' = Inr es"
  by (subst (asm) scan_all.simps) (auto split: option.splits)

lemma scan_all_length: "scan_all bs s = Inr es \<Longrightarrow> length es = bs_remaining s"
proof (induction es arbitrary: s)
  case Nil
  then show ?case by (simp add: scan_all_Nil)
next
  case (Cons e es)
  from scan_all_ConsD [OF Cons.prems] obtain s' where "next_entry bs s = Inr (Some e, s')" "scan_all bs s' = Inr es"
    by blast
  then show ?case using Cons.IH next_entry_left by auto
qed

text \<open>The terms of a block, and the list an entry points to.\<close>

definition entry_list :: "idx_view \<Rightarrow> dict_entry \<Rightarrow> disk_list fresult" where
  "entry_list v e = postings_at v (de_postings_off e) (de_postings_len e) (de_doc_freq e)"

definition block_repr :: "idx_view \<Rightarrow> nat \<Rightarrow> dict_entry list \<Rightarrow> bool" where
  "block_repr v b es \<longleftrightarrow> es \<noteq> [] \<and> (\<exists>scan. idx_block v b = Inr scan \<and> scan_all (ix_bytes v) scan = Inr es) \<and>
     (\<exists>bo po. sparse_entry v b = Inr (de_term (hd es), bo, po))"

definition idx_repr :: "idx_view \<Rightarrow> dict_entry list list \<Rightarrow> bool" where
  "idx_repr v bs \<longleftrightarrow>
     length bs = unat (num_blocks (ix_toc v)) \<and> (\<forall>b < length bs. block_repr v b (bs ! b)) \<and>
     sorted_wrt (<) (map de_term (concat bs)) \<and>
     (\<forall>e \<in> set (concat bs). utf8_valid (de_term e) \<and> (\<exists>l ps. entry_list v e = Inr l \<and> disk_contents l ps))"

section \<open>Lookup on a represented file\<close>

lemma scan_for_entry:
  assumes "scan_all (ix_bytes v) s = Inr es" and "sorted_wrt (<) (map de_term es)"
  shows "scan_for v t s =
     (case find (\<lambda>e. de_term e = t) es of None \<Rightarrow> Inr None | Some e \<Rightarrow> and_then (entry_list v e) (\<lambda>l. Inr (Some l)))"
  using assms
proof (induction es arbitrary: s)
  case Nil
  then show ?case by (simp add: scan_all_Nil scan_for.simps [of v t s] next_entry_def)
next
  case (Cons e es)
  from scan_all_ConsD [OF Cons.prems(1)] obtain s' where
    s': "next_entry (ix_bytes v) s = Inr (Some e, s')" "scan_all (ix_bytes v) s' = Inr es" by blast
  have step: "scan_for v t s = (if de_term e < t then scan_for v t s'
         else if de_term e = t then and_then (entry_list v e) (\<lambda>l. Inr (Some l)) else Inr None)"
    by (simp add: scan_for.simps [of v t s] s'(1) entry_list_def)
  consider "de_term e < t" | "de_term e = t" | "t < de_term e" by fastforce
  then show ?case
  proof cases
    case 3
    have "find (\<lambda>e. de_term e = t) es = None"
      using Cons.prems(2) 3 by (auto simp: find_None_iff)
    then show ?thesis using step 3 by auto
  qed (use Cons step s' in auto)
qed

lemma find_unique:
  "distinct (map f xs) \<Longrightarrow> find (\<lambda>e. f e = t) xs = Some e \<longleftrightarrow> e \<in> set xs \<and> f e = t"
  by (induction xs) (auto simp: image_iff)

lemma sorted_concat_blocks:
  assumes "sorted_wrt (<) (map f (concat bs) :: 'a::linorder list)" and "i < j" and "j < length bs"
    and "x \<in> set (bs ! i)" and "y \<in> set (bs ! j)"
  shows "f x < f y"
  using assms
proof (induction bs arbitrary: i j)
  case Nil
  then show ?case by simp
next
  case (Cons b bs)
  then obtain j' where j: "j = Suc j'" by (cases j) auto
  show ?case
  proof (cases i)
    case 0
    then have "bs ! j' \<in> set bs" "x \<in> set b" "y \<in> set (bs ! j')" using Cons.prems j by auto
    then show ?thesis using Cons.prems(1) by (auto simp: sorted_wrt_append)
  next
    case (Suc i')
    then show ?thesis using Cons.prems j Cons.IH [of i' j'] by (auto simp: sorted_wrt_append)
  qed
qed

lemma sorted_block: "sorted_wrt (<) (map f (concat bs) :: 'a::linorder list) \<Longrightarrow> i < length bs \<Longrightarrow> sorted_wrt (<) (map f (bs ! i))"
proof (induction bs arbitrary: i)
  case (Cons b bs)
  then show ?case by (cases i) (auto simp: sorted_wrt_append)
qed simp

lemma sorted_hd_le: "sorted_wrt (<) (map f xs :: 'a::linorder list) \<Longrightarrow> x \<in> set xs \<Longrightarrow> f (hd xs) \<le> f x"
  by (cases xs) auto

lemma sorted_le_last: "sorted_wrt (<) (map f xs :: 'a::linorder list) \<Longrightarrow> x \<in> set xs \<Longrightarrow> f x \<le> f (last xs)"
  by (induction xs) (auto simp: less_imp_le)

abbreviation first_term :: "dict_entry list \<Rightarrow> bytes" where
  "first_term es \<equiv> de_term (hd es)"

lemma idx_reprD:
  assumes "idx_repr v bs" and "b < length bs"
  shows "bs ! b \<noteq> []" and "\<exists>bo po. sparse_entry v b = Inr (first_term (bs ! b), bo, po)"
    and "\<exists>scan. idx_block v b = Inr scan \<and> scan_all (ix_bytes v) scan = Inr (bs ! b)"
    and "sorted_wrt (<) (map de_term (bs ! b))"
  using assms sorted_block [of de_term bs b] by (auto simp: idx_repr_def block_repr_def)

lemma first_terms_less:
  assumes "idx_repr v bs" and "i < j" and "j < length bs"
  shows "first_term (bs ! i) < first_term (bs ! j)"
  using sorted_concat_blocks [of de_term bs i j "hd (bs ! i)" "hd (bs ! j)"] idx_reprD(1) [OF assms(1)] assms
  by (simp add: idx_repr_def)

lemma block_search_spec:
  assumes "idx_repr v bs" and "lo \<le> hi" and "hi \<le> length bs"
    and "\<forall>j < lo. first_term (bs ! j) \<le> t" and "\<forall>j. hi \<le> j \<longrightarrow> j < length bs \<longrightarrow> t < first_term (bs ! j)"
  shows "\<exists>k \<le> length bs. block_search v t lo hi = Inr k \<and> (\<forall>j < k. first_term (bs ! j) \<le> t) \<and>
     (\<forall>j. k \<le> j \<longrightarrow> j < length bs \<longrightarrow> t < first_term (bs ! j))"
  using assms(2-)
proof (induction "hi - lo" arbitrary: lo hi rule: less_induct)
  case less
  show ?case
  proof (cases "lo < hi")
    case False
    then show ?thesis using less.prems by (intro exI [of _ lo]) (auto simp: block_search.simps [of v t])
  next
    case True
    define mid where "mid = lo + (hi - lo) div 2"
    have mid: "lo \<le> mid" "mid < hi" "mid < length bs" using True less.prems(2) by (auto simp: mid_def)
    obtain bo po where se: "sparse_entry v mid = Inr (first_term (bs ! mid), bo, po)"
      using idx_reprD(2) [OF assms(1) mid(3)] by blast
    show ?thesis
    proof (cases "first_term (bs ! mid) \<le> t")
      case le: True
      have "block_search v t lo hi = block_search v t (mid + 1) hi"
        using True se le by (simp add: block_search.simps [of v t lo hi] mid_def [symmetric] Let_def)
      moreover have "first_term (bs ! j) \<le> t" if "j < mid + 1" for j
      proof (cases "j = mid")
        case False
        then have "first_term (bs ! j) < first_term (bs ! mid)"
          using that mid by (intro first_terms_less [OF assms(1)]) simp_all
        then show ?thesis using le by simp
      qed (use le in simp)
      ultimately show ?thesis using less.hyps [of hi "mid + 1"] less.prems mid by simp
    next
      case gt: False
      have "block_search v t lo hi = block_search v t lo mid"
        using True se gt by (simp add: block_search.simps [of v t lo hi] mid_def [symmetric] Let_def)
      moreover have "t < first_term (bs ! j)" if "mid \<le> j" "j < length bs" for j
      proof (cases "j = mid")
        case False
        then have "first_term (bs ! mid) < first_term (bs ! j)"
          using that mid by (intro first_terms_less [OF assms(1)]) simp_all
        then show ?thesis using gt by simp
      qed (use gt in simp)
      ultimately show ?thesis using less.hyps [of mid lo] less.prems mid by simp
    qed
  qed
qed

lemma lookup_inner_spec:
  assumes "idx_repr v bs"
  shows "lookup_inner v t =
     (case find (\<lambda>e. de_term e = t) (concat bs) of None \<Rightarrow> Inr None | Some e \<Rightarrow> and_then (entry_list v e) (\<lambda>l. Inr (Some l)))"
proof -
  have nb: "length bs = unat (num_blocks (ix_toc v))" and srt: "sorted_wrt (<) (map de_term (concat bs))"
    using assms by (auto simp: idx_repr_def)
  obtain k where k: "k \<le> length bs" "block_search v t 0 (length bs) = Inr k"
    "\<forall>j < k. first_term (bs ! j) \<le> t" "\<forall>j. k \<le> j \<longrightarrow> j < length bs \<longrightarrow> t < first_term (bs ! j)"
    using block_search_spec [OF assms, of 0 "length bs" t] by auto
  have later: "de_term e \<noteq> t" if "k \<le> j" "j < length bs" "e \<in> set (bs ! j)" for j e
    using sorted_hd_le [OF idx_reprD(4) [OF assms that(2)] that(3)] k(4) that by fastforce
  show ?thesis
  proof (cases k)
    case 0
    have "de_term e \<noteq> t" if "e \<in> set (concat bs)" for e
    proof -
      from that obtain es where "es \<in> set bs" "e \<in> set es" by auto
      then obtain j where "j < length bs" "e \<in> set (bs ! j)" by (auto simp: in_set_conv_nth)
      then show ?thesis using later [of j e] 0 by simp
    qed
    then have "find (\<lambda>e. de_term e = t) (concat bs) = None" by (simp only: find_None_iff) blast
    then show ?thesis using 0 k(2) nb by (simp add: lookup_inner_def Let_def)
  next
    case (Suc b)
    then have b: "b < length bs" using k(1) by simp
    obtain scan where scan: "idx_block v b = Inr scan" "scan_all (ix_bytes v) scan = Inr (bs ! b)"
      using idx_reprD(3) [OF assms b] by blast
    have dist: "distinct (map de_term (concat bs))" "distinct (map de_term (bs ! b))"
      using srt idx_reprD(4) [OF assms b] by (auto intro: sorted_wrt_less_distinct)
    have "e \<in> set (bs ! b)" if "e \<in> set (concat bs)" "de_term e = t" for e
    proof -
      from that(1) obtain es where "es \<in> set bs" "e \<in> set es" by auto
      then obtain j where j: "j < length bs" "e \<in> set (bs ! j)" by (auto simp: in_set_conv_nth)
      have "\<not> k \<le> j" using later [of j e] j that(2) by auto
      moreover have "\<not> j < b"
      proof
        assume "j < b"
        then have "de_term e < first_term (bs ! b)"
          using sorted_concat_blocks [OF srt \<open>j < b\<close> b j(2)] idx_reprD(1) [OF assms b] by simp
        then show False using k(3) Suc that(2) by force
      qed
      ultimately show ?thesis using j Suc by (metis less_antisym not_le)
    qed
    moreover have "set (bs ! b) \<subseteq> set (concat bs)" using nth_mem [OF b] by auto
    ultimately have "find (\<lambda>e. de_term e = t) (concat bs) = Some e \<longleftrightarrow> find (\<lambda>e. de_term e = t) (bs ! b) = Some e" for e
      using find_unique [OF dist(1)] find_unique [OF dist(2)] by blast
    then have "find (\<lambda>e. de_term e = t) (concat bs) = find (\<lambda>e. de_term e = t) (bs ! b)"
      by (metis not_None_eq)
    then show ?thesis
      using k(2) Suc scan scan_for_entry [OF scan(2) idx_reprD(4) [OF assms b], of t] nb b
      by (simp add: lookup_inner_def Let_def)
  qed
qed

text \<open>Lookup finds a term exactly when the file has it, with its list; absence is reported as such.\<close>

lemma idx_lookup_entry:
  assumes "idx_repr v bs"
  shows "idx_lookup v t = Some l \<longleftrightarrow> (\<exists>e \<in> set (concat bs). de_term e = t \<and> entry_list v e = Inr l)"
proof -
  have dist: "distinct (map de_term (concat bs))"
    using assms by (auto simp: idx_repr_def intro: sorted_wrt_less_distinct)
  show ?thesis
  proof (cases "find (\<lambda>e. de_term e = t) (concat bs)")
    case None
    then have "idx_lookup v t = None" by (simp add: idx_lookup_def lookup_inner_spec [OF assms])
    moreover have "\<not> (\<exists>e \<in> set (concat bs). de_term e = t \<and> entry_list v e = Inr l)"
      using None by (simp only: find_None_iff) blast
    ultimately show ?thesis by simp
  next
    case (Some e)
    then have e: "e \<in> set (concat bs)" "de_term e = t" using find_unique [OF dist] by auto
    have "e' = e" if "e' \<in> set (concat bs)" "de_term e' = t" for e'
      using find_unique [OF dist, of t e'] that Some by simp
    moreover have "idx_lookup v t = Some l \<longleftrightarrow> entry_list v e = Inr l"
      by (cases "entry_list v e") (simp_all add: idx_lookup_def lookup_inner_spec [OF assms] Some)
    ultimately show ?thesis using e by blast
  qed
qed

section \<open>A verified file is represented\<close>

definition entry_good :: "idx_view \<Rightarrow> dict_entry \<Rightarrow> bool" where
  "entry_good v e \<longleftrightarrow> utf8_valid (de_term e) \<and> (\<exists>l ps. entry_list v e = Inr l \<and> disk_contents l ps)"

lemma verify_entries_Inr:
  "verify_entries v b first s i count prev expected = Inr (count', prev', expected') \<Longrightarrow>
     \<exists>es. scan_all (ix_bytes v) s = Inr es \<and> sorted_wrt (<) (map de_term es) \<and>
       (\<forall>p. prev = Some p \<longrightarrow> (\<forall>e \<in> set es. p < de_term e)) \<and>
       (i = 0 \<longrightarrow> es \<noteq> [] \<longrightarrow> de_term (hd es) = first) \<and> (\<forall>e \<in> set es. entry_good v e) \<and>
       prev' = (if es = [] then prev else Some (de_term (last es)))"
proof (induction "bs_remaining s" arbitrary: s i count prev expected)
  case 0
  then have n: "next_entry (ix_bytes v) s = Inr (None, s)" by (simp add: next_entry_None)
  with 0 show ?case by (intro exI [of _ "[]"]) (simp add: verify_entries.simps [of v b first s] scan_all_Nil)
next
  case (Suc m)
  from Suc.prems Suc.hyps(2) obtain e s' l where n: "next_entry (ix_bytes v) s = Inr (Some e, s')"
    and f: "i = 0 \<longrightarrow> de_term e = first" and p: "\<forall>p. prev = Some p \<longrightarrow> p < de_term e" and u: "utf8_valid (de_term e)"
    and l: "entry_list v e = Inr l" "disk_verify l = Inr ()"
    and rec: "verify_entries v b first s' (i + 1) (count + 1) (Some (de_term e)) (de_postings_off e + de_postings_len e)
       = Inr (count', prev', expected')"
    by (subst (asm) verify_entries.simps)
      (auto simp: next_entry_None entry_list_def not_le split: option.splits)
  have "m = bs_remaining s'" using next_entry_left [OF n] Suc.hyps(2) by simp
  from Suc.hyps(1) [OF this rec] obtain es where es: "scan_all (ix_bytes v) s' = Inr es" "sorted_wrt (<) (map de_term es)"
    "\<forall>x \<in> set es. de_term e < de_term x" "\<forall>e \<in> set es. entry_good v e"
    "prev' = (if es = [] then Some (de_term e) else Some (de_term (last es)))" by auto
  have "entry_good v e" using u l disk_verify_iff_lemma by (auto simp: entry_good_def)
  then show ?case using n f p es
    by (intro exI [of _ "e # es"]) (auto simp: scan_all_Cons [OF n] intro: order.strict_trans)
qed

lemma verify_blocks_Inr:
  assumes "verify_blocks v b n count prev expected = Inr (count', expected')"
    and "\<forall>j. b \<le> j \<longrightarrow> j < b + n \<longrightarrow> j * 64 < unat (num_terms (ix_toc v))"
  shows "\<exists>bs. length bs = n \<and> (\<forall>j < n. block_repr v (b + j) (bs ! j)) \<and> sorted_wrt (<) (map de_term (concat bs)) \<and>
     (\<forall>p. prev = Some p \<longrightarrow> (\<forall>e \<in> set (concat bs). p < de_term e)) \<and> (\<forall>e \<in> set (concat bs). entry_good v e)"
  using assms
proof (induction n arbitrary: b count prev expected)
  case 0
  then show ?case by simp
next
  case (Suc n)
  from Suc.prems(1) obtain first bo po scan c p e where
    se: "sparse_entry v b = Inr (first, bo, po)" and bl: "idx_block v b = Inr scan"
    and ve: "verify_entries v b first scan 0 count prev expected = Inr (c, p, e)"
    and rec: "verify_blocks v (b + 1) n c p e = Inr (count', expected')" by auto
  from verify_entries_Inr [OF ve] obtain es where es: "scan_all (ix_bytes v) scan = Inr es" "sorted_wrt (<) (map de_term es)"
    "\<forall>q. prev = Some q \<longrightarrow> (\<forall>e \<in> set es. q < de_term e)" "es \<noteq> [] \<longrightarrow> de_term (hd es) = first"
    "\<forall>e \<in> set es. entry_good v e" "p = (if es = [] then prev else Some (de_term (last es)))" by auto
  have "b * 64 < unat (num_terms (ix_toc v))" using Suc.prems(2) by simp
  moreover from this have "unat (of_nat (b * BLOCK_SIZE) :: u64) = b * 64"
    using unat_bounds(3) [of "num_terms (ix_toc v)"] by (simp add: BLOCK_SIZE_def unsigned_of_nat take_bit_nat_eq_self del: of_nat_mult)
  ultimately have "unat (num_terms (ix_toc v) - of_nat (b * BLOCK_SIZE)) \<noteq> 0"
    by (simp add: unat_sub word_le_nat_alt del: of_nat_mult)
  then have "bs_remaining scan \<noteq> 0" using bl by (auto simp: idx_block_def Let_def BLOCK_SIZE_def)
  then have ne: "es \<noteq> []" using scan_all_length [OF es(1)] by auto
  from Suc.IH [OF rec] Suc.prems(2) obtain bs where bs: "length bs = n" "\<forall>j < n. block_repr v (b + 1 + j) (bs ! j)"
    "sorted_wrt (<) (map de_term (concat bs))" "\<forall>e \<in> set (concat bs). de_term (last es) < de_term e"
    "\<forall>e \<in> set (concat bs). entry_good v e" using es(6) ne by auto
  have le: "de_term e \<le> de_term (last es)" if "e \<in> set es" for e
    by (rule sorted_le_last [OF es(2) that])
  have "block_repr v (b + j) ((es # bs) ! j)" if "j < Suc n" for j
    using that bs(2) ne se bl es(1,4) by (cases j) (auto simp: block_repr_def)
  moreover have "sorted_wrt (<) (map de_term (concat (es # bs)))"
    using es(2) bs(3,4) le by (auto simp: sorted_wrt_append intro: le_less_trans)
  moreover have "\<forall>q. prev = Some q \<longrightarrow> (\<forall>e \<in> set (concat (es # bs)). q < de_term e)"
    using es(3) bs(4) last_in_set [OF ne] by (auto intro: less_trans)
  ultimately show ?case using bs es(5) by (intro exI [of _ "es # bs"]) auto
qed

lemma idx_parse_blocks:
  assumes "idx_parse bs = Inr v" and "b < unat (num_blocks (ix_toc v))"
  shows "b * 64 < unat (num_terms (ix_toc v))"
proof -
  have "unat (num_blocks (ix_toc v)) = (unat (num_terms (ix_toc v)) + 63) div 64"
    using assms(1) by (auto simp: idx_parse_def div_ceil64_def Let_def split: prod.splits)
  then show ?thesis using assms(2) by linarith
qed

lemma idx_verify_repr:
  assumes "idx_parse bs = Inr v" and "idx_verify crc v = Inr ()"
  shows "\<exists>blocks. idx_repr v blocks"
proof -
  from assms(2) obtain c e where "verify_blocks v 0 (unat (num_blocks (ix_toc v))) 0 None (postings_off (ix_toc v)) = Inr (c, e)"
    by (auto simp: idx_verify_def split: prod.splits)
  from verify_blocks_Inr [OF this] idx_parse_blocks [OF assms(1)] show ?thesis
    by (auto simp: idx_repr_def entry_good_def)
qed

section \<open>Iteration\<close>

text \<open>Calling \<open>try_next\<close> \<open>n\<close> times.\<close>

fun collect :: "idx_view \<Rightarrow> nat \<Rightarrow> term_iter \<Rightarrow> (bytes \<times> u32 \<times> disk_list) list fresult" where
  "collect v 0 t = Inr []"
| "collect v (Suc n) t =
     and_then (try_next v t) (\<lambda>(r, t').
     case r of None \<Rightarrow> Inr [] | Some x \<Rightarrow> and_then (collect v n t') (\<lambda>xs. Inr (x # xs)))"

definition entry_item :: "idx_view \<Rightarrow> dict_entry \<Rightarrow> bytes \<times> u32 \<times> disk_list" where
  "entry_item v e = (de_term e, de_doc_freq e, case entry_list v e of Inr l \<Rightarrow> l | Inl _ \<Rightarrow> \<lparr>dl_data = [], dl_doc_freq = 0\<rparr>)"

lemma entry_item_good: "entry_good v e \<Longrightarrow> entry_list v e = Inr (snd (snd (entry_item v e)))"
  by (auto simp: entry_good_def entry_item_def)

text \<open>The entries still to come at an iterator state.\<close>

definition iter_repr :: "idx_view \<Rightarrow> dict_entry list list \<Rightarrow> term_iter \<Rightarrow> dict_entry list \<Rightarrow> bool" where
  "iter_repr v bs t es \<longleftrightarrow>
     (\<exists>cur. (case ti_scan t of None \<Rightarrow> cur = [] | Some s \<Rightarrow> scan_all (ix_bytes v) s = Inr cur) \<and>
        es = cur @ concat (drop (ti_block t) bs)) \<and> ti_block t \<le> length bs \<and> (\<forall>e \<in> set es. entry_good v e)"

lemma try_next_repr:
  assumes "idx_repr v bs" and "iter_repr v bs t es"
  shows "case es of [] \<Rightarrow> \<exists>t'. try_next v t = Inr (None, t')
     | e # es' \<Rightarrow> \<exists>t'. try_next v t = Inr (Some (entry_item v e), t') \<and> iter_repr v bs t' es'"
  using assms(2)
proof (induction "ti_left v t" arbitrary: t rule: less_induct)
  case less
  have nb: "length bs = unat (num_blocks (ix_toc v))" using assms(1) by (simp add: idx_repr_def)
  show ?case
  proof (cases "ti_scan t")
    case None
    show ?thesis
    proof (cases "ti_block t < length bs")
      case False
      then have "es = []" using less.prems None by (auto simp: iter_repr_def)
      then show ?thesis using False None nb by (simp add: try_next.simps [of v t])
    next
      case True
      obtain scan where scan: "idx_block v (ti_block t) = Inr scan" "scan_all (ix_bytes v) scan = Inr (bs ! ti_block t)"
        using idx_reprD(3) [OF assms(1) True] by blast
      let ?t = "\<lparr>ti_block = ti_block t + 1, ti_scan = Some scan\<rparr>"
      have "try_next v t = try_next v ?t"
        using True None nb scan by (simp add: try_next.simps [of v t])
      moreover have "iter_repr v bs ?t es"
        using less.prems None True scan by (auto simp: iter_repr_def Cons_nth_drop_Suc [symmetric])
      moreover have "ti_left v ?t < ti_left v t" using True None nb by (simp add: ti_left_def)
      ultimately show ?thesis using less.hyps [of ?t] by (simp split: list.splits)
    qed
  next
    case (Some s)
    with less.prems obtain cur where cur: "scan_all (ix_bytes v) s = Inr cur" "es = cur @ concat (drop (ti_block t) bs)"
      "ti_block t \<le> length bs" "\<forall>e \<in> set es. entry_good v e" by (auto simp: iter_repr_def)
    show ?thesis
    proof (cases cur)
      case Nil
      then have "next_entry (ix_bytes v) s = Inr (None, s)" using cur(1) by (simp add: scan_all_Nil next_entry_None)
      then have "try_next v t = try_next v (t\<lparr>ti_scan := None\<rparr>)" using Some by (simp add: try_next.simps [of v t])
      moreover have "iter_repr v bs (t\<lparr>ti_scan := None\<rparr>) es" using cur Nil by (simp add: iter_repr_def)
      ultimately show ?thesis using less.hyps [of "t\<lparr>ti_scan := None\<rparr>"] Some
        by (simp add: ti_left_def split: list.splits)
    next
      case (Cons e es')
      from scan_all_ConsD [OF cur(1) [unfolded Cons]] obtain s' where
        s': "next_entry (ix_bytes v) s = Inr (Some e, s')" "scan_all (ix_bytes v) s' = Inr es'" by blast
      have g: "utf8_valid (de_term e)" "entry_good v e" using cur Cons by (auto simp: entry_good_def)
      then obtain l where "entry_list v e = Inr l" by (auto simp: entry_good_def)
      then have "try_next v t = Inr (Some (entry_item v e), t\<lparr>ti_scan := Some s'\<rparr>)"
        using Some s' g(1) by (simp add: try_next.simps [of v t] entry_list_def entry_item_def from_utf8_def)
      moreover have "iter_repr v bs (t\<lparr>ti_scan := Some s'\<rparr>) (es' @ concat (drop (ti_block t) bs))"
        using s' cur Cons by (auto simp: iter_repr_def)
      ultimately show ?thesis using cur Cons by simp
    qed
  qed
qed

lemma collect_repr:
  "idx_repr v bs \<Longrightarrow> iter_repr v bs t es \<Longrightarrow> length es < n \<Longrightarrow> collect v n t = Inr (map (entry_item v) es)"
proof (induction es arbitrary: n t)
  case Nil
  then obtain m where "n = Suc m" by (cases n) auto
  then show ?case using try_next_repr [OF Nil(1,2)] by auto
next
  case (Cons e es)
  then obtain m where m: "n = Suc m" by (cases n) auto
  from try_next_repr [OF Cons.prems(1,2)] obtain t' where
    "try_next v t = Inr (Some (entry_item v e), t')" "iter_repr v bs t' es" by auto
  then show ?case using Cons.IH [OF Cons.prems(1), of t' m] Cons.prems(3) m by simp
qed

lemma term_iter_lists:
  assumes "idx_repr v bs" and "length (concat bs) < n"
  shows "collect v n idx_terms = Inr (map (entry_item v) (concat bs))"
proof (rule collect_repr [OF assms(1) _ assms(2)])
  show "iter_repr v bs idx_terms (concat bs)"
    using assms(1) by (auto simp: iter_repr_def idx_terms_def idx_repr_def entry_good_def)
qed

end
