(* ===== verification/Idx_File.thy ===== *)
theory Idx_File
  imports Idx_Dict
begin

text \<open>
  The file \<open>idx_write\<close> produces, described as a list of bytes, and the round trip: parsing it gives a view
  that represents exactly the terms that were written, so that lookup returns each term's postings
  (\<open>idx_write_lookup\<close>). Only terms of at most \<open>MAX_TERM_BYTES\<close> bytes are stored.

  \<open>idx_fits\<close> collects the limits the format has: fewer than \<open>2^32\<close> bytes of sparse entries (their offsets
  are \<open>u32\<close>) and a file below \<open>2^63\<close> bytes.
\<close>

type_synonym terms = "(bytes \<times> plist) list"

definition num_blocks_of :: "nat \<Rightarrow> nat" where
  "num_blocks_of n = (n + 63) div 64"

definition posts :: "terms \<Rightarrow> bytes" where
  "posts es = concat (map (\<lambda>e. plist_bytes (snd e)) es)"

definition prev_of :: "terms \<Rightarrow> nat \<Rightarrow> bytes" where
  "prev_of es i = (if i mod 64 = 0 then [] else fst (es ! (i - 1)))"

definition entry_bytes :: "terms \<Rightarrow> nat \<Rightarrow> bytes" where
  "entry_bytes es i =
     (let (t, ps) = es ! i; k = common_prefix (prev_of es i) t in
      varint32 (of_nat k) @ varint32 (of_nat (length t - k)) @ drop k t @ varint32 (of_nat (length ps)) @
      varint (of_nat (length (plist_bytes ps))))"

definition dict_bytes :: "terms \<Rightarrow> bytes" where
  "dict_bytes es = concat (map (entry_bytes es) [0..<length es])"

definition sparse_rec :: "terms \<Rightarrow> nat \<Rightarrow> bytes" where
  "sparse_rec es b =
     (let t = fst (es ! (64 * b)) in
      varint32 (of_nat (length t)) @ t @ varint (of_nat (length (dict_bytes (take (64 * b) es)))) @
      varint (of_nat (length (posts (take (64 * b) es)))))"

definition sparse_bytes :: "terms \<Rightarrow> nat \<Rightarrow> bytes" where
  "sparse_bytes es n = concat (map (sparse_rec es) [0..<n])"

definition sparse_offs :: "terms \<Rightarrow> nat \<Rightarrow> u32 list" where
  "sparse_offs es n = map (\<lambda>b. of_nat (length (sparse_bytes es b))) [0..<n]"

lemma prev_of_append: "i < length xs \<Longrightarrow> prev_of (xs @ ys) i = prev_of xs i"
  by (auto simp: prev_of_def nth_append)

lemma entry_bytes_append: "i < length xs \<Longrightarrow> entry_bytes (xs @ ys) i = entry_bytes xs i"
  by (simp add: entry_bytes_def prev_of_append nth_append)

lemma posts_append [simp]: "posts (xs @ ys) = posts xs @ posts ys"
  by (simp add: posts_def)

lemma dict_bytes_snoc: "dict_bytes (xs @ [x]) = dict_bytes xs @ entry_bytes (xs @ [x]) (length xs)"
proof -
  have "map (entry_bytes (xs @ [x])) [0..<length xs] = map (entry_bytes xs) [0..<length xs]"
    by (rule map_cong) (simp_all add: entry_bytes_append)
  then have "concat (map (entry_bytes (xs @ [x])) [0..<length xs]) = dict_bytes xs"
    by (simp only: dict_bytes_def)
  then show ?thesis by (simp add: dict_bytes_def [of "xs @ [x]"])
qed

lemma num_blocks_of_less: "b < num_blocks_of n \<longleftrightarrow> 64 * b < n"
  unfolding num_blocks_of_def by linarith

lemma sparse_rec_append: "64 * b < length xs \<Longrightarrow> sparse_rec (xs @ ys) b = sparse_rec xs b"
  by (simp add: sparse_rec_def nth_append)

lemma sparse_bytes_append: "n \<le> num_blocks_of (length xs) \<Longrightarrow> sparse_bytes (xs @ ys) n = sparse_bytes xs n"
  unfolding sparse_bytes_def
  by (rule arg_cong [where f = concat], rule map_cong) (auto intro!: sparse_rec_append simp: num_blocks_of_less [symmetric])

lemma sparse_offs_append: "n \<le> num_blocks_of (length xs) \<Longrightarrow> sparse_offs (xs @ ys) n = sparse_offs xs n"
  by (auto simp: sparse_offs_def sparse_bytes_append)

lemma length_sparse_offs [simp]: "length (sparse_offs es n) = n"
  by (simp add: sparse_offs_def)

lemma sparse_bytes_Suc: "sparse_bytes es (Suc n) = sparse_bytes es n @ sparse_rec es n"
  by (simp add: sparse_bytes_def)

lemma sparse_offs_Suc: "sparse_offs es (Suc n) = sparse_offs es n @ [of_nat (length (sparse_bytes es n))]"
  by (simp add: sparse_offs_def)

section \<open>What the writer accumulates\<close>

definition storable :: "terms \<Rightarrow> terms" where
  "storable terms = filter (\<lambda>e. length (fst e) \<le> MAX_TERM_BYTES) terms"

text \<open>The writer's state after storing \<open>xs\<close>.\<close>

definition writer_at :: "bytes \<Rightarrow> terms \<Rightarrow> idx_writer \<Rightarrow> bool" where
  "writer_at out xs w \<longleftrightarrow>
     iw_body w = bw_write_all (bw_new out) (posts xs) \<and> iw_dict w = dict_bytes xs \<and>
     iw_sparse_offsets w = sparse_offs xs (num_blocks_of (length xs)) \<and>
     iw_sparse_entries w = sparse_bytes xs (num_blocks_of (length xs)) \<and>
     (length xs mod 64 \<noteq> 0 \<longrightarrow> iw_prev_term w = fst (last xs)) \<and>
     iw_postings_pos w = of_nat (length (posts xs)) \<and> is_num_terms (iw_summary w) = of_nat (length xs)"

lemma bw_write_all_append: "bw_write_all (bw_write_all w a) b = bw_write_all w (a @ b)"
  by (simp add: bw_write_all_def)

lemma num_blocks_of_eq: "num_blocks_of n = (if n mod 64 = 0 then n div 64 else Suc (n div 64))"
proof -
  have n: "n = 64 * (n div 64) + n mod 64" and r: "n mod 64 < 64" by simp_all
  show ?thesis
  proof (cases "n mod 64 = 0")
    case True
    then have "n = 64 * (n div 64)" using n by simp
    then have "(n + 63) div 64 = n div 64" by (intro div_nat_eqI) simp_all
    then show ?thesis using True by (simp add: num_blocks_of_def)
  next
    case False
    then have "0 < n mod 64" by simp
    with n r have "64 * Suc (n div 64) \<le> n + 63" "n + 63 < 64 * Suc (Suc (n div 64))"
      unfolding mult_Suc_right by linarith+
    then have "(n + 63) div 64 = Suc (n div 64)" by (rule div_nat_eqI)
    then show ?thesis using False by (simp add: num_blocks_of_def)
  qed
qed

lemma num_blocks_of_Suc: "num_blocks_of (Suc n) = (if n mod 64 = 0 then Suc (num_blocks_of n) else num_blocks_of n)"
proof -
  have "num_blocks_of (Suc n) = Suc (n div 64)"
  proof -
    have "Suc n + 63 = n + 64" by simp
    then show ?thesis unfolding num_blocks_of_def by simp
  qed
  then show ?thesis by (simp add: num_blocks_of_eq)
qed

lemma num_blocks_of_mult: "n mod 64 = 0 \<Longrightarrow> 64 * num_blocks_of n = n"
  using div_mult_mod_eq [of n 64] by (simp add: num_blocks_of_eq mult.commute)

lemma writer_at_step:
  assumes "writer_at out xs w" and "length t \<le> MAX_TERM_BYTES" and "plist_fits ps" and "length xs < 2 ^ 64"
  shows "\<exists>w'. idx_write_term (t, ps) w = Inr w' \<and> writer_at out (xs @ [(t, ps)]) w'"
proof -
  let ?ys = "xs @ [(t, ps)]" let ?n = "length xs"
  define nb where "nb = num_blocks_of ?n"
  have n: "unat (of_nat ?n :: u64) = ?n"
    using assms(4) by (simp add: unsigned_of_nat take_bit_nat_eq_self)
  have enc: "encode_postings ps [] = Inr (plist_bytes ps, of_nat (sum_list (map (\<lambda>p. length (snd p)) ps)))"
    using assms(3) by (simp add: encode_postings_eq plist_fits_def)
  have eb: "entry_bytes ?ys ?n = (let k = common_prefix (prev_of ?ys ?n) t in
      varint32 (of_nat k) @ varint32 (of_nat (length t - k)) @ drop k t @ varint32 (of_nat (length ps)) @
      varint (of_nat (length (plist_bytes ps))))"
    by (simp add: entry_bytes_def)
  have pv: "prev_of ?ys ?n = (if ?n mod 64 = 0 then [] else iw_prev_term w)"
    using assms(1) by (cases xs rule: rev_cases) (auto simp: prev_of_def writer_at_def nth_append)
  note defs = idx_write_term_def Let_def n BLOCK_SIZE_def enc eb pv writer_at_def dict_bytes_snoc
    num_blocks_of_Suc nb_def [symmetric] sparse_offs_append sparse_bytes_append put_u32_eq put_u64_eq mem_doc_freq_def
    bw_write_all_append posts_def not_less
  have sb: "sparse_bytes ?ys nb = sparse_bytes xs nb" "sparse_offs ?ys nb = sparse_offs xs nb"
    by (simp_all add: sparse_bytes_append sparse_offs_append nb_def)
  show ?thesis
  proof (cases "?n mod 64 = 0")
    case True
    have "sparse_rec ?ys nb = varint32 (of_nat (length t)) @ t @ varint (of_nat (length (dict_bytes xs))) @
       varint (of_nat (length (posts xs)))"
      using num_blocks_of_mult [OF True] by (simp add: sparse_rec_def nb_def [symmetric])
    then show ?thesis using assms True sb
      by (simp add: defs sparse_offs_Suc sparse_bytes_Suc)
  next
    case False
    then show ?thesis using assms sb by (simp add: defs)
  qed
qed

lemma idx_write_terms_at:
  assumes "writer_at out xs w" and "\<forall>e \<in> set (storable ts). plist_fits (snd e)" and "length xs + length ts < 2 ^ 64"
  shows "\<exists>w'. idx_write_terms ts w = Inr w' \<and> writer_at out (xs @ storable ts) w'"
  using assms
proof (induction ts arbitrary: xs w)
  case Nil
  then show ?case by (simp add: storable_def)
next
  case (Cons e ts)
  obtain t ps where e: "e = (t, ps)" by force
  show ?case
  proof (cases "length t \<le> MAX_TERM_BYTES")
    case False
    then have "idx_write_term e w = Inr w" using e by (simp add: idx_write_term_def)
    moreover have "storable (e # ts) = storable ts" using False e by (simp add: storable_def)
    ultimately show ?thesis using Cons by simp
  next
    case True
    then have s: "storable (e # ts) = e # storable ts" using e by (simp add: storable_def)
    obtain w' where w': "idx_write_term (t, ps) w = Inr w'" "writer_at out (xs @ [(t, ps)]) w'"
      using writer_at_step [OF Cons.prems(1) True, of ps] Cons.prems(2,3) s e by auto
    have "\<exists>w''. idx_write_terms ts w' = Inr w'' \<and> writer_at out ((xs @ [(t, ps)]) @ storable ts) w''"
      by (rule Cons.IH [OF w'(2)]) (use Cons.prems(2,3) s in auto)
    then show ?thesis using w' s e by simp
  qed
qed

section \<open>The file\<close>

lemma toc_encode_eq:
  "toc_encode t = le_bytes 8 (postings_off t) @ le_bytes 8 (postings_len t) @ le_bytes 8 (dict_off t) @
     le_bytes 8 (dict_len t) @ le_bytes 8 (sparse_off t) @ le_bytes 8 (sparse_len t) @ le_bytes 8 (num_terms t) @
     le_bytes 4 (num_blocks t) @ le_bytes 4 (block_size t)"
  by (simp add: toc_encode_def TOC_LEN_def copy_at_copy_at Let_def) (simp add: copy_at_def)

lemma length_toc_encode [simp]: "length (toc_encode t) = 64"
  by (simp add: toc_encode_eq)

lemma toc_decode_encode [simp]: "toc_decode (toc_encode t) = Inr t"
  by (simp add: toc_decode_def toc_encode_eq)

definition table_bytes :: "terms \<Rightarrow> bytes" where
  "table_bytes es = concat (map (le_bytes 4) (sparse_offs es (num_blocks_of (length es))))"

abbreviation all_sparse :: "terms \<Rightarrow> bytes" where
  "all_sparse es \<equiv> sparse_bytes es (num_blocks_of (length es))"

definition toc_of :: "terms \<Rightarrow> toc" where
  "toc_of es = \<lparr>postings_off = 16, postings_len = of_nat (length (posts es)), dict_off = 16 + of_nat (length (posts es)),
     dict_len = of_nat (length (dict_bytes es)),
     sparse_off = 16 + of_nat (length (posts es)) + of_nat (length (dict_bytes es)),
     sparse_len = of_nat (length (table_bytes es @ all_sparse es)), num_terms = of_nat (length es),
     num_blocks = of_nat (num_blocks_of (length es)), block_size = 64\<rparr>"

definition idx_body :: "terms \<Rightarrow> bytes" where
  "idx_body es = posts es @ dict_bytes es @ table_bytes es @ all_sparse es @ toc_encode (toc_of es)"

definition idx_fits :: "terms \<Rightarrow> bool" where
  "idx_fits es \<longleftrightarrow> sorted_wrt (<) (map fst es) \<and> (\<forall>e \<in> set es. utf8_valid (fst e) \<and> length (fst e) \<le> MAX_TERM_BYTES \<and> plist_fits (snd e)) \<and>
     length (all_sparse es) < 2 ^ 32 \<and> length (idx_body es) < 2 ^ 62"

lemma length_table: "length (table_bytes es) = 4 * num_blocks_of (length es)"
proof -
  have "length (concat (map (le_bytes 4 :: u32 \<Rightarrow> bytes) xs)) = 4 * length xs" for xs
    by (induction xs) simp_all
  then show ?thesis by (simp only: table_bytes_def) (simp add: sparse_offs_def)
qed

lemma fold_offs: "foldl (\<lambda>s o'. s @ le_bytes 4 (o' :: u32)) out xs = out @ concat (map (le_bytes 4) xs)"
  by (induction xs arbitrary: out) simp_all

lemma idx_write_eq:
  assumes "\<forall>e \<in> set (storable terms). plist_fits (snd e)" and "length terms < 2 ^ 64"
  shows "\<exists>s. idx_write crc [] terms = Inr (seal crc KIdx (idx_body (storable terms)), s) \<and>
    is_crc s = crc (idx_body (storable terms)) \<and> is_len s = of_nat (length (idx_body (storable terms)) + 32) \<and>
    is_num_terms s = of_nat (length (storable terms))"
proof -
  let ?w = "\<lparr>iw_body = bw_new (header KIdx), iw_dict = [], iw_sparse_offsets = [], iw_sparse_entries = [], iw_prev_term = [],
     iw_postings_pos = 0,
     iw_summary = \<lparr>is_len = 0, is_crc = 0, is_num_terms = 0, is_num_postings = 0, is_num_tokens = 0\<rparr>\<rparr>"
  have "writer_at (header KIdx) [] ?w"
    by (simp add: writer_at_def bw_write_all_def bw_new_def posts_def dict_bytes_def num_blocks_of_def
        sparse_offs_def sparse_bytes_def)
  from idx_write_terms_at [OF this assms(1)] assms(2) obtain w where
    w: "idx_write_terms terms ?w = Inr w" "writer_at (header KIdx) (storable terms) w" by auto
  then show ?thesis
    by (auto simp: idx_write_def Let_def writer_at_def bw_write_all_append bw_finish_def bw_new_def bw_write_all_def
        seal_def idx_body_def toc_of_def fold_offs table_bytes_def HEADER_LEN_def FOOTER_LEN_def BLOCK_SIZE_def add.assoc)
qed

section \<open>Reading the file back\<close>

lemma read_u64_at:
  assumes "drop pos s = varint v @ rest"
  shows "read_u64 s pos = Inr (v, pos + length (varint v))" and "drop (pos + length (varint v)) s = rest"
proof -
  have "pos < length s" using assms length_varint [of v] by (metis append_is_Nil_conv drop_eq_Nil leI list.size(3) not_one_le_zero)
  then have "length (take pos s) = pos" by simp
  moreover have "s = take pos s @ varint v @ rest" using assms by (metis append_take_drop_id)
  ultimately show "read_u64 s pos = Inr (v, pos + length (varint v))" by (metis read_u64_varint)
  show "drop (pos + length (varint v)) s = rest"
    using assms by (metis add.commute append_eq_conv_conj drop_drop)
qed

lemma slice_at:
  assumes "drop pos s = xs @ rest" and "pos \<le> length s"
  shows "slice s pos (length xs) = Inr xs" and "drop (pos + length xs) s = rest"
proof -
  have "length s - pos = length xs + length rest" using assms(1) by (metis length_append length_drop)
  then have "pos + length xs \<le> length s" using assms(2) by simp
  then show "slice s pos (length xs) = Inr xs" using assms(1) by simp
  show "drop (pos + length xs) s = rest"
    using assms(1) by (metis add.commute append_eq_conv_conj drop_drop)
qed

lemma drop_concat_map:
  "b < n \<Longrightarrow> drop (length (concat (map g [0..<b]))) (concat (map g [0..<n]) @ rest) = g b @ concat (map g [Suc b..<n]) @ rest"
proof -
  assume "b < n"
  then have "[0..<n] = [0..<b] @ b # [Suc b..<n]"
    using upt_add_eq_append [of 0 b "n - b"] by (simp add: upt_conv_Cons)
  then show ?thesis by simp
qed

definition idx_view_of :: "(bytes \<Rightarrow> u32) \<Rightarrow> terms \<Rightarrow> idx_view" where
  "idx_view_of crc es = \<lparr>ix_bytes = seal crc KIdx (idx_body es), ix_env = sealed_env crc (idx_body es), ix_toc = toc_of es\<rparr>"

definition after_toc :: "(bytes \<Rightarrow> u32) \<Rightarrow> terms \<Rightarrow> bytes" where
  "after_toc crc es = toc_encode (toc_of es) @ footer (of_nat (length (idx_body es))) (crc (idx_body es))"

lemma file_parts:
  "seal crc KIdx (idx_body es) =
     header KIdx @ posts es @ dict_bytes es @ table_bytes es @ all_sparse es @ after_toc crc es"
  by (simp add: seal_def idx_body_def after_toc_def)

lemma idx_sizes:
  assumes "idx_fits es"
  shows "length (posts es) + length (dict_bytes es) + 4 * num_blocks_of (length es) + length (all_sparse es) + 64 < 2 ^ 62"
    and "num_blocks_of (length es) < 2 ^ 32" and "length es < 2 ^ 62"
    and "length (all_sparse es) < 2 ^ 32"
proof -
  show 1: "length (posts es) + length (dict_bytes es) + 4 * num_blocks_of (length es) + length (all_sparse es) + 64 < 2 ^ 62"
    using assms by (simp add: idx_fits_def idx_body_def length_table)
  show s: "length (all_sparse es) < 2 ^ 32" using assms by (simp add: idx_fits_def)
  have nz: "1 \<le> length (sparse_rec es b)" for b
    using length_varint32 [of "of_nat (length (fst (es ! (64 * b))))"] by (simp add: sparse_rec_def Let_def)
  have "n \<le> length (sparse_bytes es n)" for n
  proof (induction n)
    case (Suc n)
    then show ?case using nz [of n] by (simp add: sparse_bytes_Suc)
  qed simp
  from this [of "num_blocks_of (length es)"] s show "num_blocks_of (length es) < 2 ^ 32" by simp
  have nz: "1 \<le> length (entry_bytes es i)" for i
    using length_varint32 [of "of_nat (common_prefix (prev_of es i) (fst (es ! i)))"]
    by (cases "es ! i") (simp add: entry_bytes_def Let_def)
  have "n \<le> length (concat (map (entry_bytes es) [0..<n]))" for n
  proof (induction n)
    case (Suc n)
    then show ?case using nz [of n] by simp
  qed simp
  from this [of "length es"] have "length es \<le> length (dict_bytes es)" by (simp add: dict_bytes_def)
  with 1 show "length es < 2 ^ 62" by simp
qed

lemma unat_of_nat64: "n < 2 ^ 62 \<Longrightarrow> unat (of_nat n :: u64) = n"
  by (simp add: unsigned_of_nat take_bit_nat_eq_self)

lemma unat_of_nat32: "n < 2 ^ 32 \<Longrightarrow> unat (of_nat n :: u32) = n"
  by (simp add: unsigned_of_nat take_bit_nat_eq_self)

definition dict_at :: "terms \<Rightarrow> nat" where "dict_at es = 16 + length (posts es)"
definition sparse_at :: "terms \<Rightarrow> nat" where "sparse_at es = dict_at es + length (dict_bytes es)"
definition entries_at :: "terms \<Rightarrow> nat" where "entries_at es = sparse_at es + 4 * num_blocks_of (length es)"
definition sparse_end_at :: "terms \<Rightarrow> nat" where "sparse_end_at es = entries_at es + length (all_sparse es)"

lemmas at_defs = dict_at_def sparse_at_def entries_at_def sparse_end_at_def

lemma toc_unats:
  assumes "idx_fits es"
  shows "unat (postings_off (toc_of es)) = 16" "unat (postings_len (toc_of es)) = length (posts es)"
    "unat (dict_off (toc_of es)) = dict_at es" "unat (dict_len (toc_of es)) = length (dict_bytes es)"
    "unat (sparse_off (toc_of es)) = sparse_at es"
    "unat (sparse_len (toc_of es)) = 4 * num_blocks_of (length es) + length (all_sparse es)"
    "unat (num_terms (toc_of es)) = length es" "unat (num_blocks (toc_of es)) = num_blocks_of (length es)"
    "unat (dict_off (toc_of es) + dict_len (toc_of es)) = sparse_at es"
    "unat (sparse_off (toc_of es) + sparse_len (toc_of es)) = sparse_end_at es"
    "unat (postings_off (toc_of es) + postings_len (toc_of es)) = dict_at es"
proof -
  note z = idx_sizes [OF assms]
  have d: "dict_off (toc_of es) = of_nat (dict_at es)" "sparse_off (toc_of es) = of_nat (sparse_at es)"
    "dict_off (toc_of es) + dict_len (toc_of es) = of_nat (sparse_at es)"
    "sparse_off (toc_of es) + sparse_len (toc_of es) = of_nat (sparse_end_at es)"
    "postings_off (toc_of es) + postings_len (toc_of es) = of_nat (dict_at es)"
    "sparse_len (toc_of es) = of_nat (4 * num_blocks_of (length es) + length (all_sparse es))"
    by (simp_all add: toc_of_def at_defs length_table)
  show "unat (postings_off (toc_of es)) = 16" by (simp add: toc_of_def)
  show "unat (postings_len (toc_of es)) = length (posts es)" "unat (dict_len (toc_of es)) = length (dict_bytes es)"
    "unat (num_terms (toc_of es)) = length es"
    using z by (simp_all add: toc_of_def unat_of_nat64)
  show "unat (num_blocks (toc_of es)) = num_blocks_of (length es)" using z by (simp add: toc_of_def unat_of_nat32)
  have b: "dict_at es < 2 ^ 62" "sparse_at es < 2 ^ 62" "sparse_end_at es < 2 ^ 62"
    "4 * num_blocks_of (length es) + length (all_sparse es) < 2 ^ 62"
    using z by (simp_all add: at_defs)
  show "unat (dict_off (toc_of es)) = dict_at es" unfolding d(1) by (rule unat_of_nat64 [OF b(1)])
  show "unat (sparse_off (toc_of es)) = sparse_at es" unfolding d(2) by (rule unat_of_nat64 [OF b(2)])
  show "unat (sparse_len (toc_of es)) = 4 * num_blocks_of (length es) + length (all_sparse es)"
    unfolding d(6) by (rule unat_of_nat64 [OF b(4)])
  show "unat (dict_off (toc_of es) + dict_len (toc_of es)) = sparse_at es"
    unfolding d(3) by (rule unat_of_nat64 [OF b(2)])
  show "unat (sparse_off (toc_of es) + sparse_len (toc_of es)) = sparse_end_at es"
    unfolding d(4) by (rule unat_of_nat64 [OF b(3)])
  show "unat (postings_off (toc_of es) + postings_len (toc_of es)) = dict_at es"
    unfolding d(5) by (rule unat_of_nat64 [OF b(1)])
qed

lemma checked_add_unat:
  "unat a + unat b = n \<Longrightarrow> n < 2 ^ 62 \<Longrightarrow> unat c = n \<Longrightarrow> checked_add a b = Some (c :: u64)"
proof -
  assume a: "unat a + unat b = n" "n < 2 ^ 62" "unat c = n"
  have "a + b = of_nat (unat a + unat b)" by simp
  also have "unat a + unat b = unat c" using a by simp
  also have "of_nat (unat c) = c" by simp
  finally show ?thesis using a by (simp add: checked_add_def)
qed

lemma idx_parse_file:
  assumes "idx_fits es"
  shows "idx_parse (seal crc KIdx (idx_body es)) = Inr (idx_view_of crc es)"
proof -
  note z = idx_sizes [OF assms] note t = toc_unats [OF assms]
  let ?f = "seal crc KIdx (idx_body es)"
  have len: "length (idx_body es) = sparse_end_at es + 64 - 16" by (simp add: idx_body_def at_defs length_table)
  have e: "16 + length (idx_body es) - 64 = sparse_end_at es" "\<not> 16 + length (idx_body es) - 16 < 64"
    using len by (simp_all add: at_defs)
  have tk: "take 64 (drop (sparse_end_at es) ?f) = toc_encode (toc_of es)"
    unfolding file_parts by (simp add: at_defs length_table after_toc_def)
  have ca: "checked_add (postings_off (toc_of es)) (postings_len (toc_of es)) = Some (dict_off (toc_of es))"
    "checked_add (dict_off (toc_of es)) (dict_len (toc_of es)) = Some (sparse_off (toc_of es))"
    using z t(1-6) by (intro checked_add_unat [OF _ _ refl]; simp add: at_defs unat_of_nat64)+
  have b: "sparse_end_at es < 2 ^ 62" "4 * num_blocks_of (length es) < 2 ^ 62" using z by (simp_all add: at_defs)
  have ca3: "checked_add (sparse_off (toc_of es)) (sparse_len (toc_of es)) = Some (of_nat (sparse_end_at es))"
  proof (rule checked_add_unat)
    show "unat (sparse_off (toc_of es)) + unat (sparse_len (toc_of es)) = sparse_end_at es"
      using t(5,6) by (simp add: at_defs)
    show "unat (of_nat (sparse_end_at es) :: u64) = sparse_end_at es" by (rule unat_of_nat64 [OF b(1)])
  qed (rule b(1))
  have sl: "4 * ucast (num_blocks (toc_of es)) \<le> sparse_len (toc_of es)"
  proof -
    have "(ucast (num_blocks (toc_of es)) :: u64) = of_nat (unat (num_blocks (toc_of es)))"
      by (simp add: word_unat_eq_iff unsigned_ucast_eq)
    then have "4 * ucast (num_blocks (toc_of es)) = (of_nat (4 * num_blocks_of (length es)) :: u64)" using t(8) by simp
    then show ?thesis using t(6) unat_of_nat64 [OF b(2)] by (simp only: word_le_nat_alt)
  qed
  have pb: "postings_off (toc_of es) = 16" "unat (block_size (toc_of es)) = 64" by (simp_all add: toc_of_def)
  show ?thesis
    using pb ca ca3 sl t(7,8) tk e
    by (simp add: idx_parse_def TOC_LEN_def HEADER_LEN_def BLOCK_SIZE_def idx_view_of_def div_ceil64_def num_blocks_of_def)
qed

lemma drop_dict: "drop (dict_at es) (seal crc KIdx (idx_body es)) = dict_bytes es @ table_bytes es @ all_sparse es @ after_toc crc es"
  unfolding file_parts by (simp add: at_defs)

lemma drop_entries: "drop (entries_at es) (seal crc KIdx (idx_body es)) = all_sparse es @ after_toc crc es"
  unfolding file_parts by (simp add: at_defs length_table)

lemma length_file: "length (seal crc KIdx (idx_body es)) = sparse_end_at es + 80"
  by (simp add: idx_body_def at_defs length_table)

lemma sparse_bytes_split:
  "b < n \<Longrightarrow> \<exists>rest. sparse_bytes es n = sparse_bytes es b @ sparse_rec es b @ rest \<and>
     length (sparse_bytes es b) + length (sparse_rec es b) \<le> length (sparse_bytes es n)"
proof -
  assume "b < n"
  then have "[0..<n] = [0..<b] @ b # [Suc b..<n]"
    using upt_add_eq_append [of 0 b "n - b"] by (simp add: upt_conv_Cons)
  then show ?thesis by (simp add: sparse_bytes_def)
qed

lemma table_entry:
  assumes "b < num_blocks_of (length es)"
  shows "read_u32_le (seal crc KIdx (idx_body es)) (sparse_at es + 4 * b) = Inr (of_nat (length (sparse_bytes es b)))"
proof -
  let ?rs = "map (le_bytes 4) (sparse_offs es (num_blocks_of (length es)))"
  let ?hdr = "header KIdx @ posts es @ dict_bytes es"
  have w: "\<forall>r \<in> set ?rs. length r = 4" by simp
  have i: "b < length ?rs" using assms by simp
  have h: "length ?hdr = sparse_at es" by (simp add: at_defs)
  have f: "seal crc KIdx (idx_body es) = ?hdr @ concat ?rs @ all_sparse es @ after_toc crc es"
    by (simp add: file_parts table_bytes_def)
  have "peek32 (seal crc KIdx (idx_body es)) (sparse_at es + b * 4 + 0) = peek32 (?rs ! b) 0"
    unfolding f by (rule peek_record(1) [OF w i h]) simp
  moreover have "?rs ! b = le_bytes 4 (of_nat (length (sparse_bytes es b)) :: u32)"
    using assms by (simp add: sparse_offs_def)
  moreover have "sparse_at es + 4 * b + 4 \<le> length (seal crc KIdx (idx_body es))"
    using assms unfolding length_file by (simp add: at_defs)
  ultimately show ?thesis by (simp add: mult.commute)
qed

lemma sparse_entry_file:
  assumes "idx_fits es" and "b < num_blocks_of (length es)"
  shows "sparse_entry (idx_view_of crc es) b = Inr (fst (es ! (64 * b)),
     of_nat (length (dict_bytes (take (64 * b) es))), of_nat (length (posts (take (64 * b) es))))"
proof -
  let ?f = "seal crc KIdx (idx_body es)" let ?t = "fst (es ! (64 * b))"
  note z = idx_sizes [OF assms(1)] note t = toc_unats [OF assms(1)]
  obtain rest where rest: "all_sparse es = sparse_bytes es b @ sparse_rec es b @ rest"
    "length (sparse_bytes es b) + length (sparse_rec es b) \<le> length (all_sparse es)"
    using sparse_bytes_split [OF assms(2)] by blast
  define pos where "pos = entries_at es + length (sparse_bytes es b)"
  have "drop pos ?f = drop (length (sparse_bytes es b)) (drop (entries_at es) ?f)" by (simp add: pos_def add.commute)
  also have "\<dots> = sparse_rec es b @ rest @ after_toc crc es" unfolding drop_entries rest(1) by simp
  finally have d: "drop pos ?f = varint32 (of_nat (length ?t)) @ ?t @ varint (of_nat (length (dict_bytes (take (64 * b) es)))) @
      varint (of_nat (length (posts (take (64 * b) es)))) @ rest @ after_toc crc es"
    by (simp add: sparse_rec_def Let_def)
  note r1 = read_u32_at [OF d]
  have "64 * b < length es" using assms(2) by (simp add: num_blocks_of_less)
  then have "length ?t \<le> 512" using assms(1) nth_mem by (fastforce simp: idx_fits_def MAX_TERM_BYTES_def)
  then have tl: "unat (of_nat (length ?t) :: u32) = length ?t" by (simp add: unat_of_nat32)
  have l1: "pos + length (varint32 (of_nat (length ?t) :: u32)) \<le> length ?f" using read_u32_bounds [OF r1(1)] by simp
  note r2 = slice_at [OF r1(2) l1]
  note r3 = read_u64_at [OF r2(2)]
  note r4 = read_u64_at [OF r3(2)]
  have so: "unat (of_nat (length (sparse_bytes es b)) :: u32) = length (sparse_bytes es b)"
    using rest(2) z(4) by (simp add: unat_of_nat32)
  have "0 < length (sparse_rec es b)" using length_varint32 [of "of_nat (length ?t)"] by (simp add: sparse_rec_def Let_def)
  then have lt: "pos < sparse_end_at es" using rest(2) unfolding pos_def at_defs by linarith
  have ge: "pos + length (sparse_rec es b) \<le> sparse_end_at es" using rest(2) by (simp add: pos_def at_defs)
  then have ge': "pos + length (varint32 (of_nat (length ?t) :: u32)) + length ?t +
      length (varint (of_nat (length (dict_bytes (take (64 * b) es))))) +
      length (varint (of_nat (length (posts (take (64 * b) es))))) \<le> sparse_end_at es"
    by (simp add: sparse_rec_def Let_def add.assoc)
  have e: "sparse_at es + 4 * num_blocks_of (length es) + length (sparse_bytes es b) = pos" by (simp add: pos_def at_defs)
  show ?thesis
    using table_entry [OF assms(2), of crc] r1 r2 r3 r4 lt ge' so tl t(5,8,10)
    by (simp add: sparse_entry_def idx_view_of_def e Let_def fail_if_def)
qed

section \<open>Scanning the blocks\<close>

definition dentry :: "terms \<Rightarrow> nat \<Rightarrow> dict_entry" where
  "dentry es i = \<lparr>de_term = fst (es ! i), de_doc_freq = of_nat (length (snd (es ! i))),
     de_postings_off = of_nat (16 + length (posts (take i es))), de_postings_len = of_nat (length (plist_bytes (snd (es ! i))))\<rparr>"

lemma common_prefix_take: "take (common_prefix a b) a = take (common_prefix a b) b"
  by (induction a b rule: common_prefix.induct) simp_all

lemma common_prefix_le: "common_prefix a b \<le> length a \<and> common_prefix a b \<le> length b"
  by (induction a b rule: common_prefix.induct) simp_all

lemma posts_take_Suc: "i < length es \<Longrightarrow> posts (take (Suc i) es) = posts (take i es) @ plist_bytes (snd (es ! i))"
  by (simp add: take_Suc_conv_app_nth posts_def)

lemma posts_take_le: "length (posts (take i es)) \<le> length (posts es)"
  using posts_append [of "take i es" "drop i es"] by simp

lemma next_entry_file:
  assumes "idx_fits es" and "i < length es"
    and "drop (bs_pos s) f = entry_bytes es i @ rest" and "bs_term s = prev_of es i" and "bs_remaining s \<noteq> 0"
    and "bs_postings_pos s = of_nat (16 + length (posts (take i es)))"
    and "bs_pos s + length (entry_bytes es i) \<le> bs_end s"
  shows "next_entry f s = Inr (Some (dentry es i), s\<lparr>bs_pos := bs_pos s + length (entry_bytes es i),
     bs_remaining := bs_remaining s - 1, bs_term := fst (es ! i),
     bs_postings_pos := of_nat (16 + length (posts (take (Suc i) es)))\<rparr>)"
proof -
  note z = idx_sizes [OF assms(1)]
  obtain t ps where e: "es ! i = (t, ps)" by force
  define k where "k = common_prefix (prev_of es i) t"
  have k: "k \<le> length (prev_of es i)" "k \<le> length t" "take k (prev_of es i) = take k t"
    using common_prefix_le common_prefix_take by (auto simp: k_def)
  have "es ! i \<in> set es" using assms(2) by simp
  then have fit: "length t \<le> 512" "plist_fits ps" using assms(1) e by (auto simp: idx_fits_def MAX_TERM_BYTES_def)
  have "unat (of_nat k :: u32) = k" by (rule unat_of_nat32) (use k(2) fit(1) in simp)
  moreover have "unat (of_nat (length t - k) :: u32) = length t - k" by (rule unat_of_nat32) (use fit(1) in simp)
  ultimately have u: "unat (of_nat k :: u32) = k" "unat (of_nat (length t - k) :: u32) = length t - k" .
  have d: "drop (bs_pos s) f = varint32 (of_nat k) @ varint32 (of_nat (length t - k)) @ drop k t @
      varint32 (of_nat (length ps)) @ varint (of_nat (length (plist_bytes ps))) @ rest"
    using assms(3) e by (simp add: entry_bytes_def k_def [symmetric] Let_def)
  note r1 = read_u32_at [OF d]
  note r2 = read_u32_at [OF r1(2)]
  have l2: "bs_pos s + length (varint32 (of_nat k :: u32)) + length (varint32 (of_nat (length t - k) :: u32)) \<le> length f"
    using read_u32_bounds [OF r2(1)] by simp
  note r3 = slice_at [OF r2(2) l2, unfolded length_drop]
  note r4 = read_u32_at [OF r3(2)]
  note r5 = read_u64_at [OF r4(2)]
  have el: "length (entry_bytes es i) = length (varint32 (of_nat k :: u32)) + length (varint32 (of_nat (length t - k) :: u32)) +
      (length t - k) + length (varint32 (of_nat (length ps) :: u32)) + length (varint (of_nat (length (plist_bytes ps)) :: u64))"
    using e by (simp add: entry_bytes_def k_def [symmetric] Let_def)
  have tk: "take k (prev_of es i) @ drop k t = t" using k(3) by simp
  have le: "length (posts (take i es)) + length (plist_bytes ps) \<le> length (posts es)"
    using posts_take_le [of "Suc i" es] posts_take_Suc [OF assms(2)] e by simp
  have ca: "checked_add (of_nat (16 + length (posts (take i es)))) (of_nat (length (plist_bytes ps)) :: u64) =
      Some (of_nat (16 + length (posts (take (Suc i) es))))"
    using le z(1) posts_take_Suc [OF assms(2)] e
    by (intro checked_add_unat [OF _ _ unat_of_nat64]) (simp_all add: unat_of_nat64 del: of_nat_add)
  show ?thesis
    using assms(4-7) k(1) r1 r2 r3 r4 r5 u el tk ca e
    by (simp add: next_entry_def Let_def fail_if_def dentry_def add.assoc)
qed

definition dict_tail :: "terms \<Rightarrow> nat \<Rightarrow> bytes" where
  "dict_tail es i = concat (map (entry_bytes es) [i..<length es])"

lemma dict_tail_Cons: "i < length es \<Longrightarrow> dict_tail es i = entry_bytes es i @ dict_tail es (Suc i)"
  by (simp add: dict_tail_def upt_conv_Cons)

lemma dict_take: "k \<le> length es \<Longrightarrow> dict_bytes (take k es) = concat (map (entry_bytes es) [0..<k])"
proof -
  assume k: "k \<le> length es"
  have "map (entry_bytes (take k es @ drop k es)) [0..<k] = map (entry_bytes (take k es)) [0..<k]"
    using k by (intro map_cong) (simp_all add: entry_bytes_append del: append_take_drop_id)
  then have m: "map (entry_bytes es) [0..<k] = map (entry_bytes (take k es)) [0..<k]" by (simp only: append_take_drop_id)
  show ?thesis unfolding m using k by (simp add: dict_bytes_def min_def)
qed

lemma dict_split: "k \<le> length es \<Longrightarrow> dict_bytes es = dict_bytes (take k es) @ dict_tail es k"
  using upt_add_eq_append [of 0 k "length es - k"] by (simp add: dict_take dict_bytes_def [of es] dict_tail_def)

lemma scan_all_file:
  assumes "idx_fits es" and "i + m \<le> length es" and "\<forall>j. i < j \<longrightarrow> j < i + m \<longrightarrow> j mod 64 \<noteq> 0"
    and "drop (bs_pos s) f = dict_tail es i @ rest" and "m \<noteq> 0 \<longrightarrow> bs_term s = prev_of es i" and "bs_remaining s = m"
    and "bs_postings_pos s = of_nat (16 + length (posts (take i es)))"
    and "bs_pos s + length (dict_tail es i) \<le> bs_end s"
  shows "scan_all f s = Inr (map (dentry es) [i..<i + m])"
  using assms(2-)
proof (induction m arbitrary: i s)
  case 0
  then show ?case by (simp add: scan_all_Nil)
next
  case (Suc m)
  then have i: "i < length es" by simp
  let ?s = "s\<lparr>bs_pos := bs_pos s + length (entry_bytes es i), bs_remaining := bs_remaining s - 1, bs_term := fst (es ! i),
     bs_postings_pos := of_nat (16 + length (posts (take (Suc i) es)))\<rparr>"
  have d: "drop (bs_pos s) f = entry_bytes es i @ dict_tail es (Suc i) @ rest"
    using Suc.prems(3) dict_tail_Cons [OF i] by simp
  have n: "next_entry f s = Inr (Some (dentry es i), ?s)"
    by (rule next_entry_file [OF assms(1) i d]) (use Suc.prems dict_tail_Cons [OF i] in simp_all)
  have d': "drop (bs_pos s + length (entry_bytes es i)) f = dict_tail es (Suc i) @ rest"
    using d by (metis add.commute append_eq_conv_conj drop_drop)
  have "scan_all f ?s = Inr (map (dentry es) [Suc i..<Suc i + m])"
  proof (rule Suc.IH)
    show "m \<noteq> 0 \<longrightarrow> bs_term ?s = prev_of es (Suc i)" using Suc.prems(2) by (auto simp: prev_of_def)
  qed (use Suc.prems d' dict_tail_Cons [OF i] in auto)
  moreover have "[i..<i + Suc m] = i # [Suc i..<Suc i + m]" by (simp add: upt_conv_Cons del: upt_Suc)
  ultimately show ?case by (simp add: scan_all_Cons [OF n] del: upt_Suc)
qed

definition file_blocks :: "terms \<Rightarrow> dict_entry list list" where
  "file_blocks es = map (\<lambda>b. map (dentry es) [64 * b..<min (64 * b + 64) (length es)]) [0..<num_blocks_of (length es)]"

lemma upt_blocks: "concat (map (\<lambda>b. [64 * b..<min (64 * b + 64) n]) [0..<k]) = [0..<min (64 * k) n]"
proof (induction k)
  case 0
  then show ?case by simp
next
  case (Suc k)
  show ?case
  proof (cases "64 * k < n")
    case True
    have "[0..<64 * k + d] = [0..<64 * k] @ [64 * k..<64 * k + d]" for d by (rule upt_add_eq_append) simp
    from this [of "min (64 * k + 64) n - 64 * k"]
    have "[0..<min (64 * k + 64) n] = [0..<64 * k] @ [64 * k..<min (64 * k + 64) n]" using True by simp
    moreover have "min (64 * Suc k) n = min (64 * k + 64) n" by (simp add: add.commute)
    moreover have "min (64 * k) n = 64 * k" using True by simp
    ultimately show ?thesis using Suc by simp
  next
    case False
    then show ?thesis using Suc by (simp add: min_def)
  qed
qed

lemma concat_file_blocks: "concat (file_blocks es) = map (dentry es) [0..<length es]"
proof -
  have "length es \<le> 64 * num_blocks_of (length es)"
    using num_blocks_of_less [of "num_blocks_of (length es)" "length es"] by simp
  then have "[0..<length es] = concat (map (\<lambda>b. [64 * b..<min (64 * b + 64) (length es)]) [0..<num_blocks_of (length es)])"
    by (simp add: upt_blocks)
  then show ?thesis by (simp only: file_blocks_def map_concat map_map comp_def)
qed

text \<open>The scan over entries \<open>i..<i + m\<close> of one block.\<close>

definition scan_at :: "terms \<Rightarrow> bytes \<Rightarrow> nat \<Rightarrow> nat \<Rightarrow> block_scan \<Rightarrow> bool" where
  "scan_at es f i m s \<longleftrightarrow> i + m \<le> length es \<and> (\<forall>j. i < j \<longrightarrow> j < i + m \<longrightarrow> j mod 64 \<noteq> 0) \<and>
     (\<exists>rest. drop (bs_pos s) f = dict_tail es i @ rest) \<and> (m \<noteq> 0 \<longrightarrow> bs_term s = prev_of es i) \<and> bs_remaining s = m \<and>
     bs_postings_pos s = of_nat (16 + length (posts (take i es))) \<and> bs_pos s + length (dict_tail es i) = bs_end s"

lemma idx_block_file:
  assumes "idx_fits es" and "b < num_blocks_of (length es)"
  shows "\<exists>scan. idx_block (idx_view_of crc es) b = Inr scan \<and>
     scan_all (ix_bytes (idx_view_of crc es)) scan = Inr (map (dentry es) [64 * b..<min (64 * b + 64) (length es)]) \<and>
     bs_pos scan = dict_at es + length (dict_bytes (take (64 * b) es)) \<and>
     scan_at es (seal crc KIdx (idx_body es)) (64 * b) (min (length es - 64 * b) 64) scan"
proof -
  note z = idx_sizes [OF assms(1)] note t = toc_unats [OF assms(1)]
  have b: "64 * b < length es" using assms(2) by (simp add: num_blocks_of_less)
  then have tl: "length (dict_bytes es) = length (dict_bytes (take (64 * b) es)) + length (dict_tail es (64 * b))"
    using dict_split [of "64 * b" es] by simp
  define start where "start = dict_at es + length (dict_bytes (take (64 * b) es))"
  define m where "m = min (length es - 64 * b) 64"
  let ?scan = "\<lparr>bs_pos = start, bs_end = sparse_at es, bs_remaining = m, bs_term = [],
     bs_postings_pos = of_nat (16 + length (posts (take (64 * b) es)))\<rparr>"
  have "unat (of_nat (64 * b) :: u64) = 64 * b" using b z(3) by (intro unat_of_nat64) simp
  then have rm: "unat (num_terms (toc_of es) - of_nat (b * BLOCK_SIZE)) = length es - 64 * b"
    using t(7) b by (simp add: BLOCK_SIZE_def unat_sub word_le_nat_alt mult.commute)
  have start: "unat (dict_off (toc_of es) + of_nat (length (dict_bytes (take (64 * b) es)))) = start"
  proof -
    have "dict_off (toc_of es) + of_nat (length (dict_bytes (take (64 * b) es))) = of_nat start"
      by (simp add: start_def toc_of_def dict_at_def)
    moreover have "start < 2 ^ 62" using tl z(1) by (simp add: start_def at_defs)
    ultimately show ?thesis by (simp add: unat_of_nat64)
  qed
  have le: "start \<le> sparse_at es" using tl by (simp add: start_def sparse_at_def)
  have po: "postings_off (toc_of es) + of_nat (length (posts (take (64 * b) es))) = of_nat (16 + length (posts (take (64 * b) es)))"
    by (simp add: toc_of_def)
  have blk: "idx_block (idx_view_of crc es) b = Inr ?scan"
    using sparse_entry_file [OF assms, of crc] start le rm t(9) po
    by (simp add: idx_block_def Let_def idx_view_of_def BLOCK_SIZE_def m_def fail_if_def)
  have "drop start (seal crc KIdx (idx_body es)) =
      drop (length (dict_bytes (take (64 * b) es))) (drop (dict_at es) (seal crc KIdx (idx_body es)))"
    by (simp add: start_def add.commute)
  also have "\<dots> = dict_tail es (64 * b) @ table_bytes es @ all_sparse es @ after_toc crc es"
    unfolding drop_dict using dict_split [of "64 * b" es] b by simp
  finally have d: "drop start (seal crc KIdx (idx_body es)) = dict_tail es (64 * b) @ table_bytes es @ all_sparse es @ after_toc crc es" .
  have "j mod 64 \<noteq> 0" if "64 * b < j" "j < 64 * b + 64" for j :: nat
  proof
    assume "j mod 64 = 0"
    then obtain q where "j = 64 * q" by (auto elim: dvdE simp: mod_eq_0_iff_dvd)
    then show False using that by simp
  qed
  then have "scan_all (seal crc KIdx (idx_body es)) ?scan = Inr (map (dentry es) [64 * b..<64 * b + m])"
    using b tl d by (intro scan_all_file [OF assms(1)]) (simp_all add: m_def prev_of_def start_def sparse_at_def)
  moreover have "64 * b + m = min (64 * b + 64) (length es)" using b by (simp add: m_def)
  moreover have "scan_at es (seal crc KIdx (idx_body es)) (64 * b) m ?scan"
    using b tl d \<open>\<And>j. 64 * b < j \<Longrightarrow> j < 64 * b + 64 \<Longrightarrow> j mod 64 \<noteq> 0\<close>
    by (auto simp: scan_at_def m_def prev_of_def start_def sparse_at_def)
  ultimately show ?thesis using blk by (simp add: idx_view_of_def start_def m_def)
qed

lemma entry_list_file:
  assumes "idx_fits es" and "i < length es"
  shows "entry_list (idx_view_of crc es) (dentry es i) =
      Inr \<lparr>dl_data = plist_bytes (snd (es ! i)), dl_doc_freq = of_nat (length (snd (es ! i)))\<rparr>"
proof -
  note z = idx_sizes [OF assms(1)] note t = toc_unats [OF assms(1)]
  define off where "off = 16 + length (posts (take i es))"
  let ?pb = "plist_bytes (snd (es ! i))"
  have le: "off + length ?pb \<le> dict_at es"
    using posts_take_le [of "Suc i" es] posts_take_Suc [OF assms(2)] by (simp add: off_def dict_at_def)
  then have lt: "off + length ?pb < 2 ^ 62" using z(1) by (simp add: at_defs)
  then have u: "unat (of_nat off :: u64) = off" "unat (of_nat (length ?pb) :: u64) = length ?pb"
    "unat (of_nat (off + length ?pb) :: u64) = off + length ?pb"
    by (simp_all add: unat_of_nat64 del: of_nat_add)
  have ca: "checked_add (of_nat off) (of_nat (length ?pb)) = Some (of_nat (off + length ?pb) :: u64)"
    using u lt by (intro checked_add_unat) simp_all
  have lim: "\<not> postings_off (toc_of es) + postings_len (toc_of es) < of_nat (off + length ?pb)"
    using t(11) le u(3) by (simp only: word_less_nat_alt not_less)
  have "posts es = posts (take (Suc i) es) @ posts (drop (Suc i) es)" using posts_append [of "take (Suc i) es" "drop (Suc i) es"] by simp
  then have "posts es = posts (take i es) @ ?pb @ posts (drop (Suc i) es)" using posts_take_Suc [OF assms(2)] by simp
  then have sl: "take (length ?pb) (drop off (seal crc KIdx (idx_body es))) = ?pb"
    unfolding file_parts by (simp add: off_def)
  have len: "off + length ?pb \<le> length (seal crc KIdx (idx_body es))" using le unfolding length_file by (simp add: at_defs)
  show ?thesis
    using ca lim u sl len
    by (simp add: entry_list_def postings_at_def dentry_def off_def [symmetric] idx_view_of_def fail_if_def del: of_nat_add)
qed

lemma idx_repr_file:
  assumes "idx_fits es"
  shows "idx_repr (idx_view_of crc es) (file_blocks es)"
  unfolding idx_repr_def
proof (intro conjI allI impI)
  note t = toc_unats [OF assms]
  show len: "length (file_blocks es) = unat (num_blocks (ix_toc (idx_view_of crc es)))"
    using t(8) by (simp add: file_blocks_def idx_view_of_def)
  show "block_repr (idx_view_of crc es) b (file_blocks es ! b)" if "b < length (file_blocks es)" for b
  proof -
    have b: "b < num_blocks_of (length es)" "64 * b < length es" using that num_blocks_of_less by (auto simp: file_blocks_def)
    have fb: "file_blocks es ! b = map (dentry es) [64 * b..<min (64 * b + 64) (length es)]"
      using b by (simp add: file_blocks_def)
    have "64 * b < min (64 * b + 64) (length es)" using b by simp
    then have "hd [64 * b..<min (64 * b + 64) (length es)] = 64 * b" "[64 * b..<min (64 * b + 64) (length es)] \<noteq> []"
      using hd_upt [of "64 * b" "min (64 * b + 64) (length es)"] by (auto simp only: upt_eq_Nil_conv)
    then show ?thesis
      using idx_block_file [OF assms b(1), of crc] sparse_entry_file [OF assms b(1), of crc] fb
      by (auto simp: block_repr_def hd_map dentry_def)
  qed
  have terms: "map de_term (concat (file_blocks es)) = map fst es"
    by (rule nth_equalityI) (simp_all add: concat_file_blocks dentry_def)
  then show "sorted_wrt (<) (map de_term (concat (file_blocks es)))" using assms by (simp add: idx_fits_def)
  show "\<forall>e \<in> set (concat (file_blocks es)). utf8_valid (de_term e) \<and>
     (\<exists>l ps. entry_list (idx_view_of crc es) e = Inr l \<and> disk_contents l ps)"
  proof
    fix e assume "e \<in> set (concat (file_blocks es))"
    then obtain i where i: "i < length es" "e = dentry es i" by (auto simp: concat_file_blocks simp del: set_concat)
    have "es ! i \<in> set es" using i(1) by simp
    then have "utf8_valid (fst (es ! i))" "plist_fits (snd (es ! i))" using assms by (auto simp: idx_fits_def)
    then show "utf8_valid (de_term e) \<and> (\<exists>l ps. entry_list (idx_view_of crc es) e = Inr l \<and> disk_contents l ps)"
      using entry_list_file [OF assms i(1), of crc] i(2)
      by (auto simp: dentry_def disk_contents_def decode_list_plist_bytes)
  qed
qed

text \<open>The file written for a list of terms answers each lookup with that term's postings.\<close>

lemma idx_lookup_file:
  assumes "idx_fits es"
  shows "case map_of es t of
       Some ps \<Rightarrow> \<exists>l. idx_lookup (idx_view_of crc es) t = Some l \<and> disk_contents l ps
     | None \<Rightarrow> idx_lookup (idx_view_of crc es) t = None"
proof -
  have dist: "distinct (map fst es)" using assms by (auto simp: idx_fits_def intro: sorted_wrt_less_distinct)
  note lk = idx_lookup_entry [OF idx_repr_file [OF assms], of crc t]
  show ?thesis
  proof (cases "map_of es t")
    case None
    then have "t \<notin> fst ` set es" by (simp add: map_of_eq_None_iff)
    then have "idx_lookup (idx_view_of crc es) t \<noteq> Some l" for l
      unfolding lk by (auto simp: concat_file_blocks dentry_def simp del: set_concat)
    then show ?thesis using None by auto
  next
    case (Some ps)
    then obtain i where i: "i < length es" "es ! i = (t, ps)" by (metis in_set_conv_nth map_of_SomeD)
    let ?l = "\<lparr>dl_data = plist_bytes ps, dl_doc_freq = of_nat (length ps)\<rparr>"
    have "entry_list (idx_view_of crc es) (dentry es i) = Inr ?l" using entry_list_file [OF assms i(1)] i(2) by simp
    moreover have "dentry es i \<in> set (concat (file_blocks es))" using i(1) by (simp add: concat_file_blocks del: set_concat)
    moreover have "de_term (dentry es i) = t" using i(2) by (simp add: dentry_def)
    ultimately have "idx_lookup (idx_view_of crc es) t = Some ?l" unfolding lk by blast
    moreover have "plist_fits ps" using assms i nth_mem [OF i(1)] by (auto simp: idx_fits_def)
    then have "disk_contents ?l ps" by (simp add: disk_contents_def decode_list_plist_bytes)
    ultimately show ?thesis using Some by auto
  qed
qed

lemma idx_write_lookup:
  assumes "idx_fits (storable terms)" and "length terms < 2 ^ 64"
  shows "\<exists>f s v. idx_write crc [] terms = Inr (f, s) \<and> idx_parse f = Inr v \<and>
     (\<forall>t. case map_of (storable terms) t of
        Some ps \<Rightarrow> \<exists>l. idx_lookup v t = Some l \<and> disk_contents l ps
      | None \<Rightarrow> idx_lookup v t = None)"
proof -
  have "\<forall>e \<in> set (storable terms). plist_fits (snd e)" using assms(1) by (simp add: idx_fits_def)
  from idx_write_eq [OF this assms(2), of crc] obtain s where
    "idx_write crc [] terms = Inr (seal crc KIdx (idx_body (storable terms)), s)" by blast
  then show ?thesis using idx_parse_file [OF assms(1), of crc] idx_lookup_file [OF assms(1)] by blast
qed

section \<open>The written file verifies\<close>

lemma scan_at_next:
  assumes "idx_fits es" and "scan_at es f i (Suc m) s"
  shows "\<exists>s'. next_entry f s = Inr (Some (dentry es i), s') \<and> scan_at es f (Suc i) m s' \<and>
     bs_pos s' = bs_pos s + length (entry_bytes es i) \<and> bs_end s' = bs_end s"
proof -
  have i: "i < length es" using assms(2) by (simp add: scan_at_def)
  obtain rest where "drop (bs_pos s) f = dict_tail es i @ rest" using assms(2) by (auto simp: scan_at_def)
  then have d: "drop (bs_pos s) f = entry_bytes es i @ dict_tail es (Suc i) @ rest"
    using dict_tail_Cons [OF i] by simp
  let ?s = "s\<lparr>bs_pos := bs_pos s + length (entry_bytes es i), bs_remaining := bs_remaining s - 1, bs_term := fst (es ! i),
     bs_postings_pos := of_nat (16 + length (posts (take (Suc i) es)))\<rparr>"
  have n: "next_entry f s = Inr (Some (dentry es i), ?s)"
    by (rule next_entry_file [OF assms(1) i d]) (use assms(2) dict_tail_Cons [OF i] in \<open>auto simp: scan_at_def\<close>)
  have d': "drop (bs_pos s + length (entry_bytes es i)) f = dict_tail es (Suc i) @ rest"
    using d by (metis add.commute append_eq_conv_conj drop_drop)
  have "scan_at es f (Suc i) m ?s"
    unfolding scan_at_def
  proof (intro conjI)
    show "m \<noteq> 0 \<longrightarrow> bs_term ?s = prev_of es (Suc i)" using assms(2) by (auto simp: prev_of_def scan_at_def)
  qed (use assms(2) d' dict_tail_Cons [OF i] in \<open>auto simp: scan_at_def\<close>)
  then show ?thesis using n by (intro exI [of _ ?s]) simp
qed

lemma pos_after_block_file:
  "idx_fits es \<Longrightarrow> scan_at es f i m s \<Longrightarrow>
     pos_after_block f s = Inr (bs_pos s + length (concat (map (entry_bytes es) [i..<i + m])))"
proof (induction m arbitrary: i s)
  case 0
  then have "next_entry f s = Inr (None, s)" by (simp add: next_entry_None scan_at_def)
  then show ?case by (simp add: pos_after_block.simps [of f s])
next
  case (Suc m)
  from scan_at_next [OF Suc.prems] obtain s' where s': "next_entry f s = Inr (Some (dentry es i), s')"
    "scan_at es f (Suc i) m s'" "bs_pos s' = bs_pos s + length (entry_bytes es i)" by blast
  have "[i..<i + Suc m] = i # [Suc i..<Suc i + m]" by (simp add: upt_conv_Cons del: upt_Suc)
  then show ?case using Suc.IH [OF Suc.prems(1) s'(2)] s'(1,3) by (simp add: pos_after_block.simps [of f s] del: upt_Suc)
qed

lemma verify_entries_file:
  assumes "idx_fits es"
  shows "scan_at es (seal crc KIdx (idx_body es)) i m s \<Longrightarrow> (k = 0 \<longrightarrow> m \<noteq> 0 \<longrightarrow> first = fst (es ! i)) \<Longrightarrow>
     prev = (if i = 0 then None else Some (fst (es ! (i - 1)))) \<Longrightarrow>
     verify_entries (idx_view_of crc es) b first s k count prev expected =
       Inr (count + of_nat m, if i + m = 0 then None else Some (fst (es ! (i + m - 1))),
            if m = 0 then expected else of_nat (16 + length (posts (take (i + m) es))))"
proof (induction m arbitrary: i s k count prev expected)
  case 0
  then have "next_entry (ix_bytes (idx_view_of crc es)) s = Inr (None, s)" by (simp add: next_entry_None scan_at_def)
  then show ?case using 0 by (simp add: verify_entries.simps [of "idx_view_of crc es" b first s])
next
  case (Suc m)
  from scan_at_next [OF assms Suc.prems(1)] obtain s' where
    n: "next_entry (seal crc KIdx (idx_body es)) s = Inr (Some (dentry es i), s')"
    and s': "scan_at es (seal crc KIdx (idx_body es)) (Suc i) m s'" by blast
  have i: "i < length es" using Suc.prems(1) by (simp add: scan_at_def)
  then have mem: "es ! i \<in> set es" by simp
  then have ok: "utf8_valid (fst (es ! i))" "plist_fits (snd (es ! i))" using assms by (auto simp: idx_fits_def)
  let ?l = "\<lparr>dl_data = plist_bytes (snd (es ! i)), dl_doc_freq = of_nat (length (snd (es ! i)))\<rparr>"
  have el: "postings_at (idx_view_of crc es) (de_postings_off (dentry es i)) (de_postings_len (dentry es i)) (de_doc_freq (dentry es i)) = Inr ?l"
    using entry_list_file [OF assms i, of crc] by (simp add: entry_list_def)
  have dv: "disk_verify ?l = Inr ()"
    unfolding disk_verify_iff_lemma using ok(2) by (auto simp: disk_contents_def decode_list_plist_bytes)
  have lt: "fst (es ! (i - 1)) < fst (es ! i)" if "i \<noteq> 0"
    using sorted_wrt_nth_less [of "(<)" "map fst es" "i - 1" i] assms i that by (simp add: idx_fits_def)
  have off: "de_postings_off (dentry es i) + de_postings_len (dentry es i) = of_nat (16 + length (posts (take (Suc i) es)))"
    by (simp add: dentry_def posts_take_Suc [OF i])
  have tm: "de_term (dentry es i) = fst (es ! i)" by (simp add: dentry_def)
  have rec: "verify_entries (idx_view_of crc es) b first s' (k + 1) (count + 1) (Some (fst (es ! i)))
       (of_nat (16 + length (posts (take (Suc i) es)))) =
     Inr (count + 1 + of_nat m, if Suc i + m = 0 then None else Some (fst (es ! (Suc i + m - 1))),
       if m = 0 then of_nat (16 + length (posts (take (Suc i) es))) else of_nat (16 + length (posts (take (Suc i + m) es))))"
    by (rule Suc.IH [OF s']) simp_all
  have "verify_entries (idx_view_of crc es) b first s k count prev expected =
     verify_entries (idx_view_of crc es) b first s' (k + 1) (count + 1) (Some (fst (es ! i)))
       (of_nat (16 + length (posts (take (Suc i) es))))"
  proof -
    have f: "fail_if (k = 0 \<and> de_term (dentry es i) \<noteq> first) e = Inr ()" for e :: format_error
      using Suc.prems(2) tm by (auto simp: fail_if_def)
    have p: "(case prev of Some p \<Rightarrow> fail_if (de_term (dentry es i) \<le> p) e | None \<Rightarrow> Inr ()) = Inr ()" for e :: format_error
      using Suc.prems(3) tm lt by (cases "i = 0") (simp_all add: fail_if_def leD)
    have u: "fail_if (\<not> utf8_valid (de_term (dentry es i))) e = Inr ()" for e :: format_error using ok(1) tm by simp
    have "ix_bytes (idx_view_of crc es) = seal crc KIdx (idx_body es)" by (simp add: idx_view_of_def)
    then show ?thesis
      by (subst verify_entries.simps) (simp only: n f [unfolded tm] p [unfolded tm] u [unfolded tm] el dv off tm and_then_simps prod.case option.case)
  qed
  then show ?case unfolding rec by (auto simp: add.assoc)
qed

lemma verify_blocks_file:
  assumes "idx_fits es" and "b + n = num_blocks_of (length es)"
  shows "verify_blocks (idx_view_of crc es) b n (of_nat (min (64 * b) (length es)))
     (if b = 0 then None else Some (fst (es ! (min (64 * b) (length es) - 1))))
     (of_nat (16 + length (posts (take (64 * b) es)))) =
   Inr (of_nat (length es), of_nat (16 + length (posts es)))"
  using assms(2)
proof (induction n arbitrary: b)
  case 0
  then have "length es \<le> 64 * b" using num_blocks_of_less [of b "length es"] by simp
  then show ?case by simp
next
  case (Suc n)
  then have b: "b < num_blocks_of (length es)" "64 * b < length es" using num_blocks_of_less [of b "length es"] by simp_all
  define m where "m = min (length es - 64 * b) 64"
  have m: "m \<noteq> 0" "64 * b + m = min (64 * Suc b) (length es)" using b by (auto simp: m_def)
  obtain scan where scan: "idx_block (idx_view_of crc es) b = Inr scan" 
    "bs_pos scan = dict_at es + length (dict_bytes (take (64 * b) es))"
    "scan_at es (seal crc KIdx (idx_body es)) (64 * b) m scan"
    using idx_block_file [OF assms(1) b(1), of crc] by (auto simp: m_def)
  note se = sparse_entry_file [OF assms(1) b(1), of crc]
  have po: "postings_off (toc_of es) + of_nat (length (posts (take (64 * b) es))) = of_nat (16 + length (posts (take (64 * b) es)))"
    by (simp add: toc_of_def)
  have start: "unat (dict_off (toc_of es) + of_nat (length (dict_bytes (take (64 * b) es)))) = bs_pos scan"
    using scan(1) se by (auto simp: idx_block_def idx_view_of_def Let_def)
  have before: "and_then (idx_block (idx_view_of crc es) (b - 1)) (\<lambda>before.
         and_then (pos_after_block (ix_bytes (idx_view_of crc es)) before) (\<lambda>end'.
         and_then (to_usize (dict_off (ix_toc (idx_view_of crc es)) + of_nat (length (dict_bytes (take (64 * b) es))))) (\<lambda>start.
         fail_if (end' \<noteq> start) e))) = Inr ()" if "0 < b" for e
  proof -
    have b': "b - 1 < num_blocks_of (length es)" using b by simp
    obtain scan' where scan': "idx_block (idx_view_of crc es) (b - 1) = Inr scan'"
      "bs_pos scan' = dict_at es + length (dict_bytes (take (64 * (b - 1)) es))"
      "scan_at es (seal crc KIdx (idx_body es)) (64 * (b - 1)) (min (length es - 64 * (b - 1)) 64) scan'"
      using idx_block_file [OF assms(1) b', of crc] by auto
    have e: "min (length es - 64 * (b - 1)) 64 = 64" "64 * (b - 1) + 64 = 64 * b" using b that by auto
    have "dict_bytes (take (64 * b) es) = dict_bytes (take (64 * (b - 1)) es) @ concat (map (entry_bytes es) [64 * (b - 1)..<64 * b])"
    proof -
      have "[0..<64 * (b - 1) + 64] = [0..<64 * (b - 1)] @ [64 * (b - 1)..<64 * (b - 1) + 64]" by (rule upt_add_eq_append) simp
      then have "[0..<64 * b] = [0..<64 * (b - 1)] @ [64 * (b - 1)..<64 * b]" unfolding e(2) .
      then show ?thesis using b by (simp add: dict_take)
    qed
    then have "bs_pos scan' + length (concat (map (entry_bytes es) [64 * (b - 1)..<64 * (b - 1) + 64])) = bs_pos scan"
      using scan(2) scan'(2) e(2) by simp
    then show ?thesis
      using scan'(1) pos_after_block_file [OF assms(1) scan'(3)] e start by (simp add: idx_view_of_def)
  qed
  have ve: "verify_entries (idx_view_of crc es) b (fst (es ! (64 * b))) scan 0 (of_nat (64 * b))
       (if 64 * b = 0 then None else Some (fst (es ! (64 * b - 1)))) (of_nat (16 + length (posts (take (64 * b) es)))) =
     Inr (of_nat (64 * b) + of_nat m, if 64 * b + m = 0 then None else Some (fst (es ! (64 * b + m - 1))),
       if m = 0 then of_nat (16 + length (posts (take (64 * b) es))) else of_nat (16 + length (posts (take (64 * b + m) es))))"
    by (rule verify_entries_file [OF assms(1) scan(3)]) simp_all
  have tk: "take (64 * b + m) es = take (64 * Suc b) es" using m(2) by (simp add: min_def)
  have ih: "verify_blocks (idx_view_of crc es) (b + 1) n (of_nat (64 * b) + of_nat m) (Some (fst (es ! (64 * b + m - 1))))
      (of_nat (16 + length (posts (take (64 * b + m) es)))) = Inr (of_nat (length es), of_nat (16 + length (posts es)))"
    using Suc.IH [of "Suc b"] Suc.prems m(2) tk by (simp add: of_nat_add [symmetric] del: of_nat_add of_nat_mult)
  have p: "min (64 * b) (length es) = 64 * b" "b = 0 \<longleftrightarrow> 64 * b = 0" using b by auto
  show ?case
  proof (cases "0 < b")
    case True
    have "fail_if (postings_off (ix_toc (idx_view_of crc es)) + of_nat (length (posts (take (64 * b) es))) \<noteq>
      of_nat (16 + length (posts (take (64 * b) es)))) e = Inr ()" for e :: format_error
      using po by (simp add: idx_view_of_def)
    then show ?thesis
      using ve ih m(1) se scan(1) before [OF True] True unfolding p by (simp add: Let_def)
  next
    case False
    have "fail_if (postings_off (ix_toc (idx_view_of crc es)) + of_nat (length (posts (take (64 * b) es))) \<noteq>
      of_nat (16 + length (posts (take (64 * b) es)))) e = Inr ()" for e :: format_error
      using po by (simp add: idx_view_of_def)
    then show ?thesis
      using ve ih m(1) se scan(1) False unfolding p by (simp add: Let_def)
  qed
qed

lemma idx_verify_file:
  assumes "idx_fits es"
  shows "idx_verify crc (idx_view_of crc es) = Inr ()"
proof -
  note t = toc_unats [OF assms]
  have "verify_blocks (idx_view_of crc es) 0 (num_blocks_of (length es)) 0 None 16 =
      Inr (of_nat (length es), of_nat (16 + length (posts es)))"
    using verify_blocks_file [OF assms, of 0 "num_blocks_of (length es)" crc] by (simp add: posts_def)
  moreover have "postings_off (toc_of es) = 16" "num_terms (toc_of es) = of_nat (length es)"
    "postings_len (toc_of es) = of_nat (length (posts es))" by (simp_all add: toc_of_def)
  ultimately show ?thesis using t(8) by (simp add: idx_verify_def idx_view_of_def)
qed

end
