(* ===== verification/Format_Properties.thy ===== *)
theory Format_Properties
  imports Manifest Deletions Overlay Doc_Table Doc_File Idx_File
begin

text \<open>
  The properties of the on-disk formats and of the structures they store: what each decoder accepts,
  that encoding and decoding are inverse, and that lookups in a stored file agree with the data.
\<close>

section \<open>Envelope, manifest, deletions\<close>

text \<open>
  C1: the manifest decoder accepts exactly the encodings of well-formed manifests, and recovers them:
  no byte string decodes to a manifest other than the one it encodes, and every manifest whose segments
  own ascending disjoint id ranges, whose counters fit and whose optional files are consistent survives
  the round trip.
\<close>

theorem manifest_decode_exact:
  "manifest_decode crc bs = Inr m \<longleftrightarrow> manifest_ok m \<and> bs = manifest_encode crc m"
  using manifest_roundtrip manifest_decode_sound by blast

text \<open>
  C2: in a decoded manifest the id ranges of any two segments are disjoint and in order, and none leaves
  the 32-bit id space.
\<close>

theorem manifest_segments_disjoint:
  assumes "manifest_decode crc bs = Inr m" and "i < j" and "j < length (segments m)"
  shows "end_doc (segments m ! i) \<le> unat (base_doc (segments m ! j)) \<and> end_doc (segments m ! j) \<le> 2 ^ 32"
  using assms by (rule manifest_ranges_disjoint)

definition sample_entry :: "u32 \<Rightarrow> u32 \<Rightarrow> segment_entry" where
  "sample_entry sid base = \<lparr>segment_id = sid, del_gen = 0, base_doc = base, num_docs = 10, num_deleted = 0, idx_crc = 0,
     doc_crc = 0, del_crc = 0, idx_len = 100, doc_len = 100, del_len = 0, num_tokens = 5, num_postings = 5, num_terms = 3\<rparr>"

definition sample_manifest :: manifest where
  "sample_manifest = \<lparr>generation = 7, next_segment_id = 3, committed_unix_nanos = 0, state_gen = 0, state_crc = 0,
     state_len = 0, segments = [sample_entry 1 0, sample_entry 2 10]\<rparr>"

lemma sample_manifest_ok: "manifest_ok sample_manifest"
  by (simp add: manifest_ok_def sample_manifest_def sample_entry_def entry_ok_def end_doc_def)

lemma manifest_segments_disjoint_witness:
  "end_doc (sample_entry 1 0) \<le> unat (base_doc (sample_entry 2 10)) \<and> end_doc (sample_entry 2 10) \<le> 2 ^ 32"
  using manifest_segments_disjoint [OF manifest_roundtrip [OF sample_manifest_ok, where crc = "\<lambda>_. 0"], of 0 1]
  by (simp add: sample_manifest_def)

text \<open>
  C3: the envelope check accepts exactly the sealed bodies of the expected kind; in particular a file
  of another kind, a truncated file or one whose body does not match its checksum is rejected.
\<close>

theorem envelope_accepts_exactly_sealed:
  "envelope_parse_verified crc k bs = Inr env \<longleftrightarrow> (\<exists>body. bs = seal crc k body \<and> env = sealed_env crc body)"
proof
  assume "envelope_parse_verified crc k bs = Inr env"
  then have "bs = seal crc k (body_of bs env)" "env_body env = (16, 16 + length (body_of bs env))"
    "env_crc env = crc (body_of bs env)" by (auto elim: envelope_parse_verifiedE)
  then have "env = sealed_env crc (body_of bs env)" by (cases env) (simp add: sealed_env_def HEADER_LEN_def)
  then show "\<exists>body. bs = seal crc k body \<and> env = sealed_env crc body"
    using \<open>bs = seal crc k (body_of bs env)\<close> by blast
qed (auto simp: envelope_parse_seal)


text \<open>
  C5: setting a bit keeps the bitmap well formed, changes no other answer, does nothing out of range,
  and reports whether the bit was new; the cached count is the number of set bits.
\<close>

theorem bitmap_set_get_count:
  assumes "bitmap_ok bm"
  shows "bitmap_ok (fst (bitmap_set bm i)) \<and>
    (bitmap_get (fst (bitmap_set bm i)) j \<longleftrightarrow> (j = i \<and> i < bm_num_docs bm) \<or> bitmap_get bm j) \<and>
    (snd (bitmap_set bm i) \<longleftrightarrow> i < bm_num_docs bm \<and> \<not> bitmap_get bm i) \<and>
    unat (bitmap_count bm) = card {i. bitmap_get bm i}"
proof -
  note s = bitmap_set_correct [OF assms, of i j] and c = bitmap_count_correct [OF assms]
  from s [THEN conjunct1] s [THEN conjunct2, THEN conjunct1] s [THEN conjunct2, THEN conjunct2] c [THEN conjunct1]
  show ?thesis by (intro conjI)
qed

lemma bitmap_set_get_count_witness:
  "bitmap_get (fst (bitmap_set (bitmap_new 10) 3)) 3 \<and> snd (bitmap_set (bitmap_new 10) 3)"
proof -
  have "bitmap_ok (bitmap_new 10)"
    by (auto simp: bitmap_ok_def bitmap_new_def bits_at_def div_ceil8_def nth_replicate)
  from bitmap_set_get_count [OF this, of 3 3] show ?thesis
    by (simp add: bitmap_new_def bitmap_get_def div_ceil8_def)
qed

section \<open>Overlay and document table\<close>

text \<open>
  C6: whatever overlay file is accepted, the binary search \<open>find\<close> returns for every document id exactly the
  patch (with its path) that the listing has for it, and nothing for an id the listing lacks.
\<close>

theorem overlay_find_map_of:
  assumes "overlay_parse_verified crc bs = Inr v"
  shows "overlay_find v d = map_of (map (\<lambda>e. (p_doc_id (fst e), e)) (overlay_iter v)) d"
  using assms by (rule overlay_find_is_lookup)

text \<open>
  C7: every sorted list of patches with valid UTF-8 paths below 4 GiB is encoded, and the file is accepted
  and lists the same patches in order, each with its path.
\<close>

theorem overlay_roundtrip:
  assumes "patches_ok ps"
  shows "\<exists>bs v. overlay_encode crc ps = Inr bs \<and> overlay_parse_verified crc bs = Inr v \<and>
     overlay_iter v = map (stored_patch ps) [0..<length ps]"
proof -
  have "overlay_encode crc ps = Inr (seal crc KOverlay (overlay_body ps))"
    using assms by (intro overlay_encode_eq) (simp add: patches_ok_def)
  then show ?thesis using overlay_iter_of_encode [OF assms] by blast
qed

definition sample_patches :: "patch_in list" where
  "sample_patches =
     [\<lparr>pi_doc_id = 2, pi_inode = 7, pi_mtime_nanos = 1, pi_size = 3, pi_path = ascii ''a/b''\<rparr>,
      \<lparr>pi_doc_id = 9, pi_inode = 8, pi_mtime_nanos = 2, pi_size = 4, pi_path = [0xC3, 0xA9]\<rparr>]"

lemma sample_patches_ok: "patches_ok sample_patches"
  by (simp add: patches_ok_def sample_patches_def ascii_def utf8_valid.simps(2) cont_byte_def)

lemma overlay_roundtrip_witness:
  "\<exists>bs v. overlay_encode (\<lambda>_. 0) sample_patches = Inr bs \<and> overlay_parse_verified (\<lambda>_. 0) bs = Inr v \<and>
     map (p_doc_id \<circ> fst) (overlay_iter v) = [2, 9]"
proof -
  from overlay_roundtrip [OF sample_patches_ok, of "\<lambda>_. 0"] obtain bs v where
    "overlay_encode (\<lambda>_. 0) sample_patches = Inr bs" "overlay_parse_verified (\<lambda>_. 0) bs = Inr v"
    "overlay_iter v = map (stored_patch sample_patches) [0..<length sample_patches]" by blast
  moreover have "map (p_doc_id \<circ> fst) (map (stored_patch sample_patches) [0..<length sample_patches]) = [2, 9]"
    by (simp add: sample_patches_def stored_patch_def)
  ultimately show ?thesis by auto
qed

lemma overlay_find_map_of_witness:
  "\<exists>v. overlay_parse_verified (\<lambda>_. 0) (seal (\<lambda>_. 0) KOverlay (overlay_body sample_patches)) = Inr v \<and>
     map_option snd (overlay_find v 9) = Some [0xC3, 0xA9] \<and> overlay_find v 3 = None"
proof -
  have "overlay_encode (\<lambda>_. 0) sample_patches = Inr (seal (\<lambda>_. 0) KOverlay (overlay_body sample_patches))"
    using sample_patches_ok by (intro overlay_encode_eq) (simp add: patches_ok_def)
  from overlay_iter_of_encode [OF sample_patches_ok this] obtain v where
    v: "overlay_parse_verified (\<lambda>_. 0) (seal (\<lambda>_. 0) KOverlay (overlay_body sample_patches)) = Inr v"
    and it: "overlay_iter v = map (stored_patch sample_patches) [0..<length sample_patches]" by blast
  have l: "map (\<lambda>e. (p_doc_id (fst e), e)) (overlay_iter v) =
      [(2, stored_patch sample_patches 0), (9, stored_patch sample_patches 1)]"
    unfolding it by (simp add: sample_patches_def stored_patch_def)
  have "snd (stored_patch sample_patches 1) = [0xC3, 0xA9]" by (simp add: sample_patches_def stored_patch_def)
  then show ?thesis
    using v overlay_find_map_of [OF v, of 9] overlay_find_map_of [OF v, of 3] unfolding l
    by (cases "stored_patch sample_patches 1") auto
qed

text \<open>
  C8: an encoded document table parses, passes the full verification, and gives back every record and every
  path; the limits are the format's own (a path heap below 4 GiB, no length on an unindexed document).
\<close>

theorem doc_table_roundtrip:
  assumes "docs_ok ds"
  shows "\<exists>bs v. doc_encode crc ds = Inr bs \<and> doc_parse bs = Inr v \<and> doc_verify crc v = Inr () \<and>
     unat (dtv_num_docs v) = length ds \<and>
     (\<forall>i < length ds. doc_record v i = Some (record_of ds i) \<and> doc_path v i = Some (di_path (ds ! i)))"
  using doc_encode_eq [OF assms, of crc] doc_table_roundtrip_lemma [OF assms, of crc] by blast

definition sample_docs :: "doc_in list" where
  "sample_docs =
     [\<lparr>di_path = ascii ''x.rs'', di_inode = 1, di_mtime_nanos = 5, di_size = 10, di_len = 3, di_kind = DkIndexed, di_content_hash = 77\<rparr>,
      \<lparr>di_path = ascii ''y'', di_inode = 2, di_mtime_nanos = 6, di_size = 11, di_len = 0, di_kind = DkBinary, di_content_hash = 0\<rparr>]"

lemma doc_table_roundtrip_witness:
  "\<exists>bs v. doc_encode (\<lambda>_. 0) sample_docs = Inr bs \<and> doc_parse bs = Inr v \<and> doc_verify (\<lambda>_. 0) v = Inr () \<and>
     doc_path v 1 = Some (ascii ''y'')"
proof -
  have "docs_ok sample_docs" by (simp add: docs_ok_def sample_docs_def ascii_def utf8_valid.simps(2))
  from doc_table_roundtrip [OF this, of "\<lambda>_. 0"] obtain bs v where
    "doc_encode (\<lambda>_. 0) sample_docs = Inr bs" "doc_parse bs = Inr v" "doc_verify (\<lambda>_. 0) v = Inr ()"
    "\<forall>i < length sample_docs. doc_path v i = Some (di_path (sample_docs ! i))" by blast
  moreover have "1 < length sample_docs" "di_path (sample_docs ! 1) = ascii ''y''" by (simp_all add: sample_docs_def)
  ultimately show ?thesis by force
qed

text \<open>
  C9: what the full verification of a document table guarantees: every record exists, has a known status, a
  valid path and no length unless indexed, and the header counters are the totals over the records.
\<close>

theorem doc_verify_sound:
  assumes "doc_verify crc v = Inr ()"
  shows "\<exists>rs. length rs = unat (dtv_num_docs v) \<and>
     (\<forall>i < length rs. doc_record v i = Some (rs ! i) \<and> dr_kind (rs ! i) \<noteq> None \<and> doc_path v i \<noteq> None \<and>
        (\<not> dr_indexed (rs ! i) \<longrightarrow> dr_len (rs ! i) = 0)) \<and>
     dtv_num_indexed v = of_nat (length (filter dr_indexed rs)) \<and>
     dtv_total_len v = sum_list (map (\<lambda>r. ucast (dr_len r)) (filter dr_indexed rs))"
proof -
  from doc_verify_facts [OF assms] obtain rs where "length rs = unat (dtv_num_docs v)"
    "\<forall>i < length rs. record_valid v i (rs ! i)" "dtv_num_indexed v = of_nat (length (filter dr_indexed rs))"
    "dtv_total_len v = sum_list (map (\<lambda>r. ucast (dr_len r)) (filter dr_indexed rs))" by blast
  then show ?thesis by (intro exI [of _ rs]) (simp add: record_valid_def)
qed

lemma doc_verify_sound_witness:
  "\<exists>v rs. doc_parse (seal (\<lambda>_. 0) KDoc (doc_body sample_docs)) = Inr v \<and> length rs = 2 \<and>
     dtv_num_indexed v = of_nat (length (filter dr_indexed rs))"
proof -
  have ok: "docs_ok sample_docs" by (simp add: docs_ok_def sample_docs_def ascii_def utf8_valid.simps(2))
  have e: "doc_encode (\<lambda>_. 0) sample_docs = Inr (seal (\<lambda>_. 0) KDoc (doc_body sample_docs))" by (rule doc_encode_eq [OF ok])
  from doc_table_roundtrip_lemma [OF ok e] obtain v where
    v: "doc_parse (seal (\<lambda>_. 0) KDoc (doc_body sample_docs)) = Inr v" "doc_verify (\<lambda>_. 0) v = Inr ()" by blast
  have "v = doc_view_of (\<lambda>_. 0) sample_docs" using v(1) doc_parse_of_encode [OF ok] by simp
  then have "unat (dtv_num_docs v) = 2" by (simp add: doc_view_of_def sample_docs_def)
  with doc_verify_sound [OF v(2)] v(1) show ?thesis by metis
qed

section \<open>Posting lists and the dictionary\<close>

text \<open>
  C10: \<open>put_u64\<close> and \<open>read_u64\<close> are inverse at any offset in any buffer, and so are their 32-bit versions;
  an encoding takes one to ten bytes.
\<close>

theorem varint_roundtrip:
  "read_u64 (put_u64 pre v @ post) (length pre) = Inr (v, length (put_u64 pre v)) \<and>
   read_u32 (put_u32 pre w @ post) (length pre) = Inr (w, length (put_u32 pre w)) \<and>
   1 \<le> length (put_u64 [] v) \<and> length (put_u64 [] v) \<le> 10"
  using read_u64_put_u64 read_u32_put_u32 length_varint [of v] by (simp add: varint_def)

text \<open>
  C11: the galloping \<open>seek\<close> of the in-memory cursor lands where a linear scan would, for every cursor position
  and every target: on the first remaining posting whose document is at or past the target.
\<close>

theorem mem_seek_dropWhile:
  assumes "sorted_wrt (<) (map fst ps)" and "i \<le> length ps"
  shows "\<exists>j. mem_seek \<lparr>mc_postings = ps, mc_idx = i\<rparr> t =
      (head_doc (seek_to t (drop i ps)), \<lparr>mc_postings = ps, mc_idx = j\<rparr>) \<and> drop j ps = seek_to t (drop i ps)"
proof -
  let ?c = "\<lparr>mc_postings = ps, mc_idx = i\<rparr>"
  have r: "mem_repr ?c (drop i ps)" using assms by (simp add: mem_repr_def)
  obtain d c' where s: "mem_seek ?c t = (d, c')" by force
  have "mc_postings c' = ps"
    using s by (auto simp: mem_seek_def Let_def split: if_splits prod.splits)
  moreover have "drop (mc_idx c') (mc_postings c') = seek_to t (drop i ps)" "d = head_doc (seek_to t (drop i ps))"
    using mem_seek_repr [OF r s] by (auto simp: mem_repr_def)
  ultimately show ?thesis using s by (intro exI [of _ "mc_idx c'"]) (cases c', simp)
qed

lemma mem_seek_dropWhile_witness:
  "\<exists>j. mem_seek \<lparr>mc_postings = [(1, [0]), (4, [1]), (9, [2])], mc_idx = 0\<rparr> 5 =
     (Some 9, \<lparr>mc_postings = [(1, [0]), (4, [1]), (9, [2])], mc_idx = j\<rparr>)"
  using mem_seek_dropWhile [of "[(1, [0]), (4, [1]), (9, [2])]" 0 5] by auto

text \<open>
  C12: merging a shard into the term store looks up, for every term, the store's postings followed by the
  shard's; no term is lost, and terms stay unique.
\<close>

theorem merge_shard_concat:
  assumes "distinct (map fst s)" and "distinct (map fst shard)"
  shows "distinct (map fst (merge_shard s shard)) \<and>
     plist_of (store_get (merge_shard s shard) t) = plist_of (store_get s t) @ plist_of (store_get shard t) \<and>
     (store_get (merge_shard s shard) t = None \<longleftrightarrow> store_get s t = None \<and> store_get shard t = None)"
  using merge_shard_distinct [OF assms] get_merge_shard [OF assms(2), of s t]
  by (auto simp: plist_of_def split: option.splits)

lemma merge_shard_concat_witness:
  "plist_of (store_get (merge_shard [([97], [(0, [1])])] [([97], [(1, [0])]), ([98], [(1, [2])])]) [97]) = [(0, [1]), (1, [0])]"
  using merge_shard_concat [of "[([97], [(0, [1])])]" "[([97], [(1, [0])]), ([98], [(1, [2])])]" "[97]"]
  by (simp add: store_get_def plist_of_def)

text \<open>
  C13: an encoded posting list decodes to itself, for every list whose documents and positions strictly
  increase and whose counts fit in 32 bits.
\<close>

theorem postings_roundtrip:
  assumes "plist_fits ps"
  shows "\<exists>data n. encode_postings ps [] = Inr (data, n) \<and> decode_list data = Inr ps \<and>
     disk_verify \<lparr>dl_data = data, dl_doc_freq = of_nat (length ps)\<rparr> = Inr ()"
proof -
  from decode_encode [OF assms] obtain n where "encode_postings ps [] = Inr (plist_bytes ps, n)"
    and d: "decode_list (plist_bytes ps) = Inr ps" by blast
  moreover have "disk_verify \<lparr>dl_data = plist_bytes ps, dl_doc_freq = of_nat (length ps)\<rparr> = Inr ()"
    unfolding disk_verify_iff_lemma using d by (auto simp: disk_contents_def)
  ultimately show ?thesis by blast
qed

definition sample_plist :: plist where
  "sample_plist = [(3, [0, 7]), (200, [5])]"

lemma sample_plist_fits: "plist_fits sample_plist"
  by (simp add: plist_fits_def plist_ok_def sample_plist_def delta_def varint32_def varint_def put_u64.simps Let_def
      del: One_nat_def)

lemma postings_roundtrip_witness:
  "\<exists>data n. encode_postings sample_plist [] = Inr (data, n) \<and> decode_list data = Inr sample_plist"
  using postings_roundtrip [OF sample_plist_fits] by blast

text \<open>
  C14: \<open>DiskPostingList::verify\<close> accepts a stored list exactly when decoding it eagerly succeeds with the
  advertised number of documents.
\<close>

theorem disk_verify_exact:
  "disk_verify l = Inr () \<longleftrightarrow> (\<exists>ps. decode_list (dl_data l) = Inr ps \<and> dl_doc_freq l = of_nat (length ps))"
  unfolding disk_verify_iff_lemma disk_contents_def ..

text \<open>A run of the cursor: any sequence of \<open>advance\<close> and \<open>seek\<close> steps, on the lazy cursor and on the decoded list.\<close>

datatype cursor_step = Advance | Seek u32

fun step_cursor :: "cursor_step \<Rightarrow> disk_cursor \<Rightarrow> disk_cursor" where
  "step_cursor Advance c = snd (disk_advance c)"
| "step_cursor (Seek t) c = snd (disk_seek c t)"

fun step_plist :: "cursor_step \<Rightarrow> plist \<Rightarrow> plist" where
  "step_plist Advance ps = tl ps"
| "step_plist (Seek t) ps = seek_to t ps"

lemma step_cursor_repr: "disk_repr c ps \<Longrightarrow> disk_repr (fold step_cursor ss c) (fold step_plist ss ps)"
proof (induction ss arbitrary: c ps)
  case (Cons s ss)
  have "disk_repr (step_cursor s c) (step_plist s ps)"
    using disk_cursor.advance_repr [OF Cons.prems] disk_cursor.seek_repr [OF Cons.prems]
    by (cases s) (simp_all add: disk_cursor_ops_def)
  then show ?case using Cons.IH by simp
qed simp

text \<open>
  C15: on a list that decodes, the lazy cursor delivers the decoded postings: after any number of \<open>advance\<close>s
  and \<open>seek\<close>s it stands on the posting that walking and searching the decoded list reaches, with that
  posting's positions.
\<close>

theorem disk_cursor_refines:
  assumes "decode_list data = Inr ps"
  shows "let c = fold step_cursor ss (disk_cursor_new data); qs = fold step_plist ss ps in
     disk_doc c = head_doc qs \<and> (qs \<noteq> [] \<longrightarrow> fst (disk_positions c) = snd (hd qs)) \<and> dc_error c = None"
proof -
  have r: "disk_repr (fold step_cursor ss (disk_cursor_new data)) (fold step_plist ss ps)"
    by (rule step_cursor_repr [OF disk_cursor_new_repr [OF assms]])
  then have "fold step_plist ss ps \<noteq> [] \<Longrightarrow> fst (disk_positions (fold step_cursor ss (disk_cursor_new data))) = snd (hd (fold step_plist ss ps))"
    using disk_positions_repr [of _ "hd (fold step_plist ss ps)" "tl (fold step_plist ss ps)"] by simp
  then show ?thesis using disk_repr_doc [OF r] r by (simp add: Let_def disk_repr_def)
qed

lemma disk_cursor_refines_witness:
  "disk_doc (fold step_cursor [Seek 50] (disk_cursor_new (plist_bytes sample_plist))) = Some 200"
  using disk_cursor_refines [OF decode_list_plist_bytes [OF sample_plist_fits], of "[Seek 50]"]
  by (simp add: sample_plist_def Let_def)

text \<open>
  C16: on any index file the verification accepts there is a strictly increasing list of terms such that
  iterating the file lists exactly these terms, and looking up a term finds it exactly when it is listed,
  with the listed posting list.
\<close>

theorem verified_lookup_matches_iteration:
  assumes "idx_parse bs = Inr v" and "idx_verify crc v = Inr ()"
  shows "\<exists>items. sorted_wrt (<) (map fst items) \<and> (\<forall>n > length items. collect v n idx_terms = Inr items) \<and>
     (\<forall>t. idx_lookup v t = map_option snd (map_of items t))"
proof -
  obtain blocks where r: "idx_repr v blocks" using idx_verify_repr [OF assms] ..
  let ?items = "map (entry_item v) (concat blocks)"
  have fst: "map fst ?items = map de_term (concat blocks)" by (simp add: entry_item_def)
  have sorted: "sorted_wrt (<) (map fst ?items)" unfolding fst using r by (simp add: idx_repr_def)
  have good: "entry_good v e" if "e \<in> set (concat blocks)" for e using r that by (auto simp: idx_repr_def entry_good_def)
  have "idx_lookup v t = Some l \<longleftrightarrow> (\<exists>df. map_of ?items t = Some (df, l))" for t l
  proof -
    have "(\<exists>df. map_of ?items t = Some (df, l)) \<longleftrightarrow> (\<exists>e \<in> set (concat blocks). de_term e = t \<and> snd (snd (entry_item v e)) = l)"
      using sorted_wrt_less_distinct [OF sorted] by (subst map_of_eq_Some_iff) (auto simp: entry_item_def image_iff simp del: set_concat)
    also have "\<dots> \<longleftrightarrow> (\<exists>e \<in> set (concat blocks). de_term e = t \<and> entry_list v e = Inr l)"
      using entry_item_good good by (metis sum.inject(2))
    finally show ?thesis using idx_lookup_entry [OF r, of t l] by simp
  qed
  note lk = this
  have "idx_lookup v t = map_option snd (map_of ?items t)" for t
  proof (cases "map_of ?items t")
    case None
    then have "idx_lookup v t \<noteq> Some l" for l unfolding lk by simp
    then show ?thesis using None by (metis not_None_eq option.map(1))
  next
    case (Some x)
    obtain df l where x: "x = (df, l)" by force
    then have "idx_lookup v t = Some l" unfolding lk using Some by blast
    then show ?thesis using Some x by simp
  qed
  moreover have "\<forall>n > length ?items. collect v n idx_terms = Inr ?items" using term_iter_lists [OF r] by simp
  ultimately show ?thesis using sorted by blast
qed

text \<open>
  C17: the index file written for a sorted list of terms parses and verifies, and looking up any term gives
  a list that decodes to the postings that were written for it, or nothing if the term was not stored.
\<close>

theorem index_file_roundtrip:
  assumes "idx_fits (storable terms)" and "length terms < 2 ^ 64"
  shows "\<exists>f s v. idx_write crc [] terms = Inr (f, s) \<and> idx_parse f = Inr v \<and> idx_verify crc v = Inr () \<and>
     (\<forall>t. case map_of (storable terms) t of
        Some ps \<Rightarrow> \<exists>l. idx_lookup v t = Some l \<and> decode_list (dl_data l) = Inr ps \<and> dl_doc_freq l = of_nat (length ps)
      | None \<Rightarrow> idx_lookup v t = None)"
proof -
  have "\<forall>e \<in> set (storable terms). plist_fits (snd e)" using assms(1) by (simp add: idx_fits_def)
  from idx_write_eq [OF this assms(2), of crc] obtain s where
    w: "idx_write crc [] terms = Inr (seal crc KIdx (idx_body (storable terms)), s)" by blast
  show ?thesis
    using w idx_parse_file [OF assms(1), of crc] idx_verify_file [OF assms(1), of crc] idx_lookup_file [OF assms(1), of crc]
    unfolding disk_contents_def by blast
qed

definition sample_terms :: terms where
  "sample_terms = [(ascii ''bar'', sample_plist), (ascii ''barn'', [(1, [2])]), (ascii ''foo'', [(0, [1])])]"

lemma storable_sample: "storable sample_terms = sample_terms"
  by (simp add: storable_def sample_terms_def MAX_TERM_BYTES_def)

lemmas varint_eval = varint32_def varint_def put_u64.simps Let_def

lemma sample_terms_fit: "idx_fits sample_terms"
  unfolding idx_fits_def
proof (intro conjI ballI)
  show "sorted_wrt (<) (map fst sample_terms)" by (simp add: sample_terms_def ascii_def)
  have small: "plist_fits [(1, [2])]" "plist_fits [(0, [1])]"
    by (simp_all add: plist_fits_def plist_ok_def delta_def varint_eval)
  then show "plist_fits (snd e)" if "e \<in> set sample_terms" for e using that sample_plist_fits by (auto simp: sample_terms_def)
  show "utf8_valid (fst e)" "length (fst e) \<le> MAX_TERM_BYTES" if "e \<in> set sample_terms" for e
    using that by (auto simp: sample_terms_def ascii_def utf8_valid.simps(2) MAX_TERM_BYTES_def)
  have pb: "length (plist_bytes sample_plist) = 11" "length (plist_bytes [(1, [2])]) = 5" "length (plist_bytes [(0, [1])]) = 5"
    by (simp_all add: plist_bytes_def sample_plist_def delta_def varint_eval)
  have n: "length sample_terms = 3" "num_blocks_of 3 = 1" by (simp_all add: sample_terms_def num_blocks_of_def)
  have s: "length (all_sparse sample_terms) < 100"
    unfolding n by (simp add: sparse_bytes_def sparse_rec_def sample_terms_def ascii_def dict_bytes_def posts_def varint_eval)
  then show "length (all_sparse sample_terms) < 2 ^ 32" by simp
  have p: "length (posts sample_terms) = 21" by (simp add: posts_def sample_terms_def pb)
  have e: "length (entry_bytes sample_terms i) \<le> 25 + length (fst (sample_terms ! i))" for i
  proof -
    obtain t ps where t: "sample_terms ! i = (t, ps)" by force
    have "length (varint32 a) \<le> 5" "length (varint b) \<le> 10" for a b using length_varint32 [of a] length_varint [of b] by simp_all
    from this(1) [of "of_nat (common_prefix (prev_of sample_terms i) t)"] this(1) [of "of_nat (length t - common_prefix (prev_of sample_terms i) t)"]
      this(1) [of "of_nat (length ps)"] this(2) [of "of_nat (length (plist_bytes ps))"]
    show ?thesis using t by (simp add: entry_bytes_def Let_def)
  qed
  have "length (fst (sample_terms ! 0)) = 3" "length (fst (sample_terms ! 1)) = 4" "length (fst (sample_terms ! 2)) = 3"
    by (simp_all add: sample_terms_def ascii_def)
  moreover have "[0..<3] = [0, 1, 2 :: nat]" by (simp add: upt_rec)
  ultimately have "length (dict_bytes sample_terms) \<le> 85"
    using e [of 0] e [of 1] e [of 2] by (simp add: dict_bytes_def n)
  then show "length (idx_body sample_terms) < 2 ^ 62" using s p by (simp add: idx_body_def length_table n)
qed

lemma index_file_roundtrip_witness:
  "\<exists>f s v l. idx_write (\<lambda>_. 0) [] sample_terms = Inr (f, s) \<and> idx_parse f = Inr v \<and>
     idx_lookup v (ascii ''foo'') = Some l \<and> decode_list (dl_data l) = Inr [(0, [1])] \<and> idx_lookup v (ascii ''fo'') = None"
proof -
  have "length sample_terms < 2 ^ 64" by (simp add: sample_terms_def)
  from index_file_roundtrip [of sample_terms, unfolded storable_sample, OF sample_terms_fit this, of "\<lambda>_. 0"]
  obtain f s v where f: "idx_write (\<lambda>_. 0) [] sample_terms = Inr (f, s)" "idx_parse f = Inr v"
    and l: "\<forall>t. case map_of sample_terms t of
        Some ps \<Rightarrow> \<exists>l. idx_lookup v t = Some l \<and> decode_list (dl_data l) = Inr ps \<and> dl_doc_freq l = of_nat (length ps)
      | None \<Rightarrow> idx_lookup v t = None" by blast
  have m: "map_of sample_terms (ascii ''foo'') = Some [(0, [1])]" "map_of sample_terms (ascii ''fo'') = None"
    by (simp_all add: sample_terms_def ascii_def)
  show ?thesis using f spec [OF l, of "ascii ''foo''"] spec [OF l, of "ascii ''fo''"] unfolding m by auto
qed

lemma verified_lookup_matches_iteration_witness:
  "\<exists>v items. idx_parse (seal (\<lambda>_. 0) KIdx (idx_body sample_terms)) = Inr v \<and>
     (\<forall>n > length items. collect v n idx_terms = Inr items) \<and> sorted_wrt (<) (map fst items)"
  using verified_lookup_matches_iteration [OF idx_parse_file [OF sample_terms_fit, of "\<lambda>_. 0"] idx_verify_file [OF sample_terms_fit]]
    idx_parse_file [OF sample_terms_fit, of "\<lambda>_. 0"] by blast

section \<open>The in-memory document table\<close>

text \<open>
  C18: in every document table the operations can reach, the cached counters are what a count over the slots
  gives: live documents, indexed documents and their total length. The operations only ever adjust the counters.
\<close>

theorem doc_table_counters:
  assumes "dt_reachable t"
  shows "dt_live t = of_nat (length (dt_iter t)) \<and>
    dt_indexed t = sum_list (map indexed_w (dt_slots t)) \<and> dt_total_len t = sum_list (map len_w (dt_slots t))"
  using reachable_ok [OF assms] dt_len_iter [OF assms] by (simp add: dt_ok_def)

definition sample_meta :: doc_meta where
  "sample_meta = \<lparr>dm_path = ascii ''a'', dm_inode = 1, dm_mtime = 0, dm_size = 9, dm_len = 0, dm_status = Skipped,
     dm_content_hash = 0\<rparr>"

lemma doc_table_counters_witness:
  "\<exists>t t'. dt_insert 2 sample_meta dt_new = Some t \<and> dt_mark_indexed 2 7 t = Some t' \<and>
     dt_live t' = of_nat (length (dt_iter t')) \<and> dt_total_len t' = 7"
proof -
  define t where "t = \<lparr>dt_slots = [None, None, Some sample_meta], dt_live = 1, dt_indexed = 0, dt_total_len = 0\<rparr>"
  define t' where "t' = \<lparr>dt_slots = [None, None, Some (sample_meta\<lparr>dm_status := Indexed, dm_len := 7\<rparr>)],
    dt_live = 1, dt_indexed = 1, dt_total_len = 7\<rparr>"
  have i: "dt_insert 2 sample_meta dt_new = Some t"
    by (simp add: dt_insert_def dt_new_def t_def sample_meta_def eval_nat_numeral)
  have m: "dt_mark_indexed 2 7 t = Some t'"
    by (simp add: dt_mark_indexed_def dt_get_def t_def t'_def sample_meta_def)
  have "dt_reachable t'" using reach_mark [OF reach_insert [OF reach_new i] m] .
  from doc_table_counters [OF this] i m show ?thesis
    by (intro exI [of _ t] exI [of _ t']) (simp add: t'_def sample_meta_def)
qed

end
