(* ===== verification/Tokenizer.thy ===== *)
theory Tokenizer
  imports Prelude
begin

text \<open>
  The tokenizer (\<open>src/tokenizer.rs\<close>).

  A \<open>&str\<close> is the list of its characters (Unicode scalar values as numbers); byte offsets are sums of
  \<open>utf8_len\<close>. The character classes of the Rust standard library are exact for ASCII and a field of the record
  \<open>unicode\<close> beyond it. The segmentation \<open>split_word_bound_indices\<close> of the crate \<open>unicode-segmentation\<close> is the
  field \<open>uc_words\<close>; what is relied on is \<open>segments_of\<close>: the pieces make up the text and carry their offsets.

  The iterator \<open>Tokens\<close> is a state record with its step \<open>tokens_next\<close>.

  Main facts: the iterator yields, atom by atom, the whole atom and then its parts at the same position
  (\<open>tokens_list_eq\<close>); \<open>atoms\<close> and \<open>tokenize\<close> agree on boundaries and positions; every span cuts its atom out
  of the text (\<open>atom_spans\<close>); the identifier parts of an atom are the atom without its underscores.
\<close>

section \<open>Characters\<close>

type_synonym uchar = nat
type_synonym ustr = "uchar list"

definition utf8_width :: "uchar \<Rightarrow> nat" where
  "utf8_width c = (if c < 0x80 then 1 else if c < 0x800 then 2 else if c < 0x10000 then 3 else 4)"

definition utf8_len :: "ustr \<Rightarrow> nat" where
  "utf8_len s = sum_list (map utf8_width s)"

lemma utf8_len_simps [simp]:
  "utf8_len [] = 0"
  "utf8_len (c # s) = utf8_width c + utf8_len s"
  "utf8_len (s @ s') = utf8_len s + utf8_len s'"
  by (simp_all add: utf8_len_def)

definition str :: "string \<Rightarrow> ustr" where
  "str s = map of_char s"

record unicode =
  uc_alphabetic :: "uchar \<Rightarrow> bool"
  uc_numeric :: "uchar \<Rightarrow> bool"
  uc_uppercase :: "uchar \<Rightarrow> bool"
  uc_whitespace :: "uchar \<Rightarrow> bool"
  uc_to_lowercase :: "ustr \<Rightarrow> ustr"
  uc_words :: "ustr \<Rightarrow> (nat \<times> ustr) list"

definition is_ascii :: "uchar \<Rightarrow> bool" where "is_ascii c \<longleftrightarrow> c < 0x80"

definition is_uppercase :: "unicode \<Rightarrow> uchar \<Rightarrow> bool" where
  "is_uppercase U c = (if is_ascii c then 65 \<le> c \<and> c \<le> 90 else uc_uppercase U c)"

definition is_numeric :: "unicode \<Rightarrow> uchar \<Rightarrow> bool" where
  "is_numeric U c = (if is_ascii c then 48 \<le> c \<and> c \<le> 57 else uc_numeric U c)"

definition is_alphabetic :: "unicode \<Rightarrow> uchar \<Rightarrow> bool" where
  "is_alphabetic U c = (if is_ascii c then 65 \<le> c \<and> c \<le> 90 \<or> 97 \<le> c \<and> c \<le> 122 else uc_alphabetic U c)"

definition is_alphanumeric :: "unicode \<Rightarrow> uchar \<Rightarrow> bool" where
  "is_alphanumeric U c \<longleftrightarrow> is_alphabetic U c \<or> is_numeric U c"

definition is_whitespace :: "unicode \<Rightarrow> uchar \<Rightarrow> bool" where
  "is_whitespace U c = (if is_ascii c then c = 32 \<or> 9 \<le> c \<and> c \<le> 13 else uc_whitespace U c)"

definition is_ascii_punctuation :: "uchar \<Rightarrow> bool" where
  "is_ascii_punctuation c \<longleftrightarrow> 33 \<le> c \<and> c \<le> 47 \<or> 58 \<le> c \<and> c \<le> 64 \<or> 91 \<le> c \<and> c \<le> 96 \<or> 123 \<le> c \<and> c \<le> 126"

definition to_lowercase :: "unicode \<Rightarrow> ustr \<Rightarrow> ustr" where
  "to_lowercase U s =
     (if list_all is_ascii s then map (\<lambda>c. if 65 \<le> c \<and> c \<le> 90 then c + 32 else c) s else uc_to_lowercase U s)"

section \<open>Case folding, cut characters\<close>

definition fold_case :: "unicode \<Rightarrow> ustr \<Rightarrow> ustr" where
  "fold_case U s = (if list_ex (is_uppercase U) s then to_lowercase U s else s)"

definition is_cut :: "uchar \<Rightarrow> bool" where
  "is_cut c =
     (if is_ascii c then is_ascii_punctuation c \<and> c \<noteq> 95
      else c \<in> {0x00B7, 0x0387, 0x055F, 0x05F4, 0x2027, 0xFE13, 0xFE55, 0xFF1A,
                 0x2018, 0x2019, 0x2024, 0xFE52, 0xFF07, 0xFF0E,
                 0x037E, 0x0589, 0x060C, 0x060D, 0x066C, 0x07F8, 0x2044,
                 0xFE10, 0xFE14, 0xFE50, 0xFE54, 0xFF0C, 0xFF1B})"

section \<open>Identifier parts\<close>

datatype char_class = Upper | Lower | Digit | Other

definition class_of :: "unicode \<Rightarrow> uchar \<Rightarrow> char_class" where
  "class_of U c =
     (if is_uppercase U c then Upper else if is_numeric U c then Digit
      else if is_alphabetic U c then Lower else Other)"

text \<open>\<open>camel_loop U chars n i start out\<close>: the loop of \<open>split_camel\<close> with \<open>n\<close> indices left, at index \<open>i\<close>.\<close>

fun camel_loop :: "unicode \<Rightarrow> ustr \<Rightarrow> nat \<Rightarrow> nat \<Rightarrow> nat \<Rightarrow> ustr list \<Rightarrow> nat \<times> ustr list" where
  "camel_loop U chars 0 i start out = (start, out)"
| "camel_loop U chars (Suc n) i start out =
     (if class_of U (chars ! i) \<noteq> Upper then camel_loop U chars n (i + 1) start out
      else let prev = class_of U (chars ! (i - 1));
               after_non_upper = prev \<noteq> Upper \<and> prev \<noteq> Other;
               acronym_end = prev = Upper \<and> i + 1 < length chars \<and> class_of U (chars ! (i + 1)) = Lower
           in if after_non_upper \<or> acronym_end
              then camel_loop U chars n (i + 1) i (out @ [take (i - start) (drop start chars)])
              else camel_loop U chars n (i + 1) start out)"

definition split_camel :: "unicode \<Rightarrow> ustr \<Rightarrow> ustr list \<Rightarrow> ustr list" where
  "split_camel U seg out =
     (let (start, out) = camel_loop U seg (length seg - 1) 1 0 out in out @ [drop start seg])"

text \<open>\<open>str::split(sep)\<close>: the pieces between the separators, empty ones included.\<close>

fun split_on :: "uchar \<Rightarrow> ustr \<Rightarrow> ustr list" where
  "split_on sep [] = [[]]"
| "split_on sep (c # s) =
     (if c = sep then [] # split_on sep s
      else case split_on sep s of [] \<Rightarrow> [[c]] | p # ps \<Rightarrow> (c # p) # ps)"

definition identifier_parts :: "unicode \<Rightarrow> ustr \<Rightarrow> ustr list" where
  "identifier_parts U atom =
     (let parts = fold (\<lambda>seg parts. split_camel U seg parts) (filter (\<lambda>s. s \<noteq> []) (split_on 95 atom)) []
      in if length parts = 1 \<and> utf8_len (parts ! 0) = utf8_len atom then [] else parts)"

section \<open>The token iterator\<close>

record token =
  tok_term :: ustr
  tok_position :: u32
  tok_start :: nat
  tok_end :: nat

record tokens =
  tk_words :: "(nat \<times> ustr) list"          \<comment> \<open>what the segmentation still has to yield\<close>
  tk_word :: "(nat \<times> ustr) option"
  tk_pending :: "token list"
  tk_next_position :: u32
  tk_split :: bool

definition tokens_new :: "unicode \<Rightarrow> ustr \<Rightarrow> bool \<Rightarrow> tokens" where
  "tokens_new U text split =
     \<lparr>tk_words = uc_words U text, tk_word = None, tk_pending = [], tk_next_position = 0, tk_split = split\<rparr>"

definition words_weight :: "(nat \<times> ustr) option \<Rightarrow> (nat \<times> ustr) list \<Rightarrow> nat" where
  "words_weight word words =
     (case word of None \<Rightarrow> 0 | Some (_, r) \<Rightarrow> length r + 1) + sum_list (map (\<lambda>(_, r). length r + 2) words)"

lemma dropWhile_shorter: "length (dropWhile P xs) \<le> length xs"
  by (induction xs) auto

lemma remainder_shorter:
  "dropWhile is_cut rest \<noteq> [] \<Longrightarrow> length (dropWhile (\<lambda>c. \<not> is_cut c) (dropWhile is_cut rest)) < length rest"
proof -
  assume "dropWhile is_cut rest \<noteq> []"
  then obtain c r where "dropWhile is_cut rest = c # r" "\<not> is_cut c" by (metis hd_dropWhile list.collapse)
  then show ?thesis using dropWhile_shorter [of is_cut rest] dropWhile_shorter [of "\<lambda>c. \<not> is_cut c" r] by simp
qed

text \<open>The loop of \<open>next_atom\<close>: the atom with its offset, and the rest of the current word and of the words.\<close>

function next_atom :: "unicode \<Rightarrow> (nat \<times> ustr) option \<Rightarrow> (nat \<times> ustr) list \<Rightarrow>
    ((nat \<times> ustr) \<times> (nat \<times> ustr) option \<times> (nat \<times> ustr) list) option" where
  "next_atom U (Some (base, rest)) words =
     (let lead = takeWhile is_cut rest; run = dropWhile is_cut rest in
      if run = [] then next_atom U None words
      else let atom = takeWhile (\<lambda>c. \<not> is_cut c) run; remainder = dropWhile (\<lambda>c. \<not> is_cut c) run;
               start = base + utf8_len lead;
               word = (if remainder \<noteq> [] then Some (start + utf8_len atom, remainder) else None)
           in if list_ex (is_alphanumeric U) atom then Some ((start, atom), word, words)
              else next_atom U word words)"
| "next_atom U None [] = None"
| "next_atom U None (w # words) = next_atom U (Some w) words"
  by pat_completeness auto

termination
proof (relation "measure (\<lambda>(U, word, words). words_weight word words)", goal_cases)
  case (3 U base rest words lead run atom remainder start word)
  then show ?case using remainder_shorter [of rest] by (auto simp: words_weight_def)
qed (auto simp: words_weight_def)

declare next_atom.simps [simp del]

text \<open>The parts of an atom that the iterator queues: folded, without the atom itself and without repeats.\<close>

definition part_tokens :: "unicode \<Rightarrow> ustr \<Rightarrow> u32 \<Rightarrow> nat \<Rightarrow> nat \<Rightarrow> token list" where
  "part_tokens U atom position start end =
     fold (\<lambda>part pending. let t = fold_case U part in
        if t \<noteq> fold_case U atom \<and> \<not> list_ex (\<lambda>tok. tok_term tok = t) pending
        then pending @ [\<lparr>tok_term = t, tok_position = position, tok_start = start, tok_end = end\<rparr>] else pending)
       (identifier_parts U atom) []"

definition tokens_next :: "unicode \<Rightarrow> tokens \<Rightarrow> (token \<times> tokens) option" where
  "tokens_next U tk =
     (case tk_pending tk of
        t # ts \<Rightarrow> Some (t, tk\<lparr>tk_pending := ts\<rparr>)
      | [] \<Rightarrow>
          (case next_atom U (tk_word tk) (tk_words tk) of
             None \<Rightarrow> None
           | Some ((start, atom), word, words) \<Rightarrow>
               let position = tk_next_position tk; end = start + utf8_len atom; whole = fold_case U atom in
               Some (\<lparr>tok_term = whole, tok_position = position, tok_start = start, tok_end = end\<rparr>,
                 tk\<lparr>tk_word := word, tk_words := words, tk_next_position := position + 1,
                   tk_pending := (if tk_split tk then part_tokens U atom position start end else [])\<rparr>)))"

lemma next_atom_weight:
  "next_atom U word words = Some (a, word', words') \<Longrightarrow> words_weight word' words' < words_weight word words"
proof (induction U word words rule: next_atom.induct)
  case (1 U base rest words)
  show ?case
  proof (cases "dropWhile is_cut rest = []")
    case True
    then have "next_atom U None words = Some (a, word', words')" using "1.prems" by (simp add: next_atom.simps(1) [of U base])
    then show ?thesis using 1(1) [OF refl refl True] by (simp add: words_weight_def)
  next
    case False
    note r = remainder_shorter [OF False]
    let ?run = "dropWhile is_cut rest"
    show ?thesis
    proof (cases "list_ex (is_alphanumeric U) (takeWhile (\<lambda>c. \<not> is_cut c) ?run)")
      case True
      then show ?thesis using "1.prems" False r
        by (auto simp: next_atom.simps(1) [of U base] Let_def words_weight_def split: if_splits)
    next
      case noalnum: False
      show ?thesis using "1.prems" False r noalnum 1(2) [OF refl refl False refl refl refl refl noalnum]
        by (auto simp: next_atom.simps(1) [of U base] Let_def words_weight_def split: if_splits)
    qed
  qed
next
  case (3 U w words)
  then show ?case by (cases w) (auto simp: next_atom.simps(3) words_weight_def)
qed (simp add: next_atom.simps)

text \<open>Collecting the iterator.\<close>

function tokens_list :: "unicode \<Rightarrow> tokens \<Rightarrow> token list" where
  "tokens_list U tk = (case tokens_next U tk of None \<Rightarrow> [] | Some (t, tk') \<Rightarrow> t # tokens_list U tk')"
  by pat_completeness auto
termination
proof (relation "measures [\<lambda>(U, tk). words_weight (tk_word tk) (tk_words tk), \<lambda>(U, tk). length (tk_pending tk)]", goal_cases)
  case (2 U tk x t tk')
  then show ?case using next_atom_weight [of U "tk_word tk" "tk_words tk"]
    by (auto simp: tokens_next_def Let_def split: list.splits option.splits)
qed simp

declare tokens_list.simps [simp del]

definition tokenize :: "unicode \<Rightarrow> ustr \<Rightarrow> token list" where
  "tokenize U text = tokens_list U (tokens_new U text True)"

definition atoms :: "unicode \<Rightarrow> ustr \<Rightarrow> token list" where
  "atoms U text = tokens_list U (tokens_new U text False)"

section \<open>What the iterator yields\<close>

text \<open>Reference: the maximal runs of characters that are not cut, with their offsets.\<close>

function runs :: "nat \<Rightarrow> ustr \<Rightarrow> (nat \<times> ustr) list" where
  "runs base [] = []"
| "runs base (c # cs) =
     (if is_cut c then runs (base + utf8_width c) cs
      else let atom = c # takeWhile (\<lambda>c. \<not> is_cut c) cs
           in (base, atom) # runs (base + utf8_len atom) (dropWhile (\<lambda>c. \<not> is_cut c) cs))"
  by pat_completeness auto
termination by (relation "measure (\<lambda>(_, cs). length cs)") (auto simp: le_imp_less_Suc dropWhile_shorter)

declare runs.simps(2) [simp del]

definition has_alnum :: "unicode \<Rightarrow> nat \<times> ustr \<Rightarrow> bool" where
  "has_alnum U a = list_ex (is_alphanumeric U) (snd a)"

definition word_runs :: "(nat \<times> ustr) option \<Rightarrow> (nat \<times> ustr) list" where
  "word_runs word = (case word of None \<Rightarrow> [] | Some (b, r) \<Rightarrow> runs b r)"

definition all_atoms :: "unicode \<Rightarrow> (nat \<times> ustr) option \<Rightarrow> (nat \<times> ustr) list \<Rightarrow> (nat \<times> ustr) list" where
  "all_atoms U word words = filter (has_alnum U) (word_runs word @ concat (map (\<lambda>(b, r). runs b r) words))"

definition atom_tokens :: "unicode \<Rightarrow> bool \<Rightarrow> u32 \<Rightarrow> nat \<times> ustr \<Rightarrow> token list" where
  "atom_tokens U split p a =
     (let end = fst a + utf8_len (snd a) in
      \<lparr>tok_term = fold_case U (snd a), tok_position = p, tok_start = fst a, tok_end = end\<rparr> #
      (if split then part_tokens U (snd a) p (fst a) end else []))"

fun number_atoms :: "unicode \<Rightarrow> bool \<Rightarrow> u32 \<Rightarrow> (nat \<times> ustr) list \<Rightarrow> token list" where
  "number_atoms U split p [] = []"
| "number_atoms U split p (a # as) = atom_tokens U split p a @ number_atoms U split (p + 1) as"

lemma runs_skip:
  "runs base rest =
     (let run = dropWhile is_cut rest; start = base + utf8_len (takeWhile is_cut rest); atom = takeWhile (\<lambda>c. \<not> is_cut c) run
      in if run = [] then [] else (start, atom) # runs (start + utf8_len atom) (dropWhile (\<lambda>c. \<not> is_cut c) run))"
proof (induction rest arbitrary: base)
  case (Cons c rest)
  show ?case
  proof (cases "is_cut c")
    case True
    then show ?thesis using Cons.IH [of "base + utf8_width c"] by (simp add: runs.simps(2) Let_def add.assoc)
  next
    case False
    then show ?thesis by (simp add: runs.simps(2) Let_def add.assoc)
  qed
qed simp

lemma next_atom_atoms:
  "(case next_atom U word words of
      None \<Rightarrow> all_atoms U word words = []
    | Some (a, word', words') \<Rightarrow> all_atoms U word words = a # all_atoms U word' words')"
proof (induction U word words rule: next_atom.induct)
  case (1 U base rest words)
  let ?run = "dropWhile is_cut rest"
  let ?start = "base + utf8_len (takeWhile is_cut rest)"
  let ?atom = "takeWhile (\<lambda>c. \<not> is_cut c) ?run"
  let ?rem = "dropWhile (\<lambda>c. \<not> is_cut c) ?run"
  let ?word = "if ?rem \<noteq> [] then Some (?start + utf8_len ?atom, ?rem) else None"
  show ?case
  proof (cases "?run = []")
    case True
    then have a: "all_atoms U (Some (base, rest)) words = all_atoms U None words"
      by (simp add: all_atoms_def word_runs_def runs_skip [of base rest])
    have n: "next_atom U (Some (base, rest)) words = next_atom U None words"
      using True by (simp add: next_atom.simps(1) [of U base])
    show ?thesis unfolding a n by (rule 1(1) [OF refl refl True])
  next
    case False
    have w: "word_runs ?word = runs (?start + utf8_len ?atom) ?rem"
      by (cases "?rem = []") (simp_all add: word_runs_def del: dropWhile_eq_Nil_conv)
    have all: "all_atoms U (Some (base, rest)) words =
        (if has_alnum U (?start, ?atom) then [(?start, ?atom)] else []) @ all_atoms U ?word words"
      unfolding all_atoms_def w using False
      by (simp only: word_runs_def option.case prod.case runs_skip [of base rest]) (auto simp: Let_def)
    have n: "next_atom U (Some (base, rest)) words =
        (if has_alnum U (?start, ?atom) then Some ((?start, ?atom), ?word, words) else next_atom U ?word words)"
      using False by (auto simp: next_atom.simps(1) [of U base] Let_def has_alnum_def)
    show ?thesis
    proof (cases "has_alnum U (?start, ?atom)")
      case True
      then show ?thesis unfolding all n by simp
    next
      case noalnum: False
      then have "\<not> list_ex (is_alphanumeric U) ?atom" by (simp add: has_alnum_def)
      then have ih: "case next_atom U ?word words of None \<Rightarrow> all_atoms U ?word words = []
          | Some (a, word', words') \<Rightarrow> all_atoms U ?word words = a # all_atoms U word' words'"
        by (rule 1(2) [OF refl refl False refl refl refl refl])
      have a: "all_atoms U (Some (base, rest)) words = all_atoms U ?word words"
        unfolding all using noalnum by (simp only: if_False append_Nil)
      have n': "next_atom U (Some (base, rest)) words = next_atom U ?word words"
        unfolding n using noalnum by (simp only: if_False)
      show ?thesis unfolding a n' by (rule ih)
    qed
  qed
next
  case (2 U)
  then show ?case by (simp add: next_atom.simps all_atoms_def word_runs_def)
next
  case (3 U w words)
  have a: "all_atoms U None (w # words) = all_atoms U (Some w) words" by (cases w) (simp add: all_atoms_def word_runs_def)
  show ?case unfolding a next_atom.simps(3) by (rule 3)
qed

lemma tokens_list_state:
  "tokens_list U tk = tk_pending tk @ number_atoms U (tk_split tk) (tk_next_position tk) (all_atoms U (tk_word tk) (tk_words tk))"
proof (induction U tk rule: tokens_list.induct)
  case (1 U tk)
  note step = tokens_list.simps [of U tk]
  show ?case
  proof (cases "tk_pending tk")
    case (Cons t ts)
    then have n: "tokens_next U tk = Some (t, tk\<lparr>tk_pending := ts\<rparr>)" by (simp add: tokens_next_def)
    show ?thesis using step n 1 [OF n] Cons by simp
  next
    case Nil
    show ?thesis
    proof (cases "next_atom U (tk_word tk) (tk_words tk)")
      case None
      then have "tokens_next U tk = None" using Nil by (simp add: tokens_next_def)
      then show ?thesis using step Nil next_atom_atoms [of U "tk_word tk" "tk_words tk"] None by simp
    next
      case (Some r)
      obtain start atom word words where r: "r = ((start, atom), word, words)" by (cases r) auto
      have a: "all_atoms U (tk_word tk) (tk_words tk) = (start, atom) # all_atoms U word words"
        using next_atom_atoms [of U "tk_word tk" "tk_words tk"] Some r by simp
      define tk' where "tk' = tk\<lparr>tk_word := word, tk_words := words, tk_next_position := tk_next_position tk + 1,
         tk_pending := (if tk_split tk then part_tokens U atom (tk_next_position tk) start (start + utf8_len atom) else [])\<rparr>"
      define t where "t = \<lparr>tok_term = fold_case U atom, tok_position = tk_next_position tk, tok_start = start,
         tok_end = start + utf8_len atom\<rparr>"
      have n: "tokens_next U tk = Some (t, tk')"
        using Nil Some r by (simp add: tokens_next_def Let_def tk'_def t_def)
      show ?thesis using step n 1 [OF n] a Nil by (simp add: tk'_def t_def atom_tokens_def Let_def)
    qed
  qed
qed

definition text_atoms :: "unicode \<Rightarrow> ustr \<Rightarrow> (nat \<times> ustr) list" where
  "text_atoms U text = filter (has_alnum U) (concat (map (\<lambda>(b, r). runs b r) (uc_words U text)))"

lemma tokens_list_eq:
  "tokenize U text = number_atoms U True 0 (text_atoms U text)"
  "atoms U text = number_atoms U False 0 (text_atoms U text)"
  by (simp_all add: tokenize_def atoms_def tokens_list_state tokens_new_def all_atoms_def text_atoms_def word_runs_def)

lemma number_atoms_single:
  "length (number_atoms U False p as) = length as"
  "i < length as \<Longrightarrow> number_atoms U False p as ! i = hd (atom_tokens U False (p + of_nat i) (as ! i))"
proof (induction as arbitrary: p i)
  case (Cons a as)
  {
    case 1
    then show ?case using Cons by (simp add: atom_tokens_def Let_def)
  next
    case 2
    then show ?case using Cons by (cases i) (simp_all add: atom_tokens_def Let_def add.assoc)
  }
qed simp_all

text \<open>
  What is relied on of the segmentation: the pieces concatenate to the text, each with the byte offset it
  starts at.
\<close>

fun segments_of :: "nat \<Rightarrow> (nat \<times> ustr) list \<Rightarrow> ustr \<Rightarrow> bool" where
  "segments_of b [] text = (text = [])"
| "segments_of b ((o1, w) # ws) text = (o1 = b \<and> (\<exists>rest. text = w @ rest \<and> segments_of (b + utf8_len w) ws rest))"

text \<open>\<open>cuts_out text b a\<close>: the text, which starts at byte \<open>b\<close>, contains the atom at the atom's offset.\<close>

definition cuts_out :: "ustr \<Rightarrow> nat \<Rightarrow> nat \<times> ustr \<Rightarrow> bool" where
  "cuts_out text b a \<longleftrightarrow> (\<exists>pre post. text = pre @ snd a @ post \<and> fst a = b + utf8_len pre)"

lemma cuts_out_append: "cuts_out text (b + utf8_len xs) a \<Longrightarrow> cuts_out (xs @ text) b a"
  unfolding cuts_out_def by (metis append.assoc utf8_len_simps(3) add.assoc)

lemma cuts_out_append2: "cuts_out text b a \<Longrightarrow> cuts_out (text @ ys) b a"
  unfolding cuts_out_def by (metis append.assoc)

lemma runs_cut_out: "a \<in> set (runs b w) \<Longrightarrow> cuts_out w b a \<and> snd a \<noteq> [] \<and> \<not> list_ex is_cut (snd a)"
proof (induction b w rule: runs.induct)
  case (2 b c cs)
  let ?atom = "c # takeWhile (\<lambda>c. \<not> is_cut c) cs"
  let ?rest = "dropWhile (\<lambda>c. \<not> is_cut c) cs"
  show ?case
  proof (cases "is_cut c")
    case True
    then have "cuts_out cs (b + utf8_width c) a \<and> snd a \<noteq> [] \<and> \<not> list_ex is_cut (snd a)"
      using "2.IH"(1) "2.prems" by (simp add: runs.simps(2))
    then show ?thesis using cuts_out_append [of cs b "[c]" a] by simp
  next
    case False
    then consider "a = (b, ?atom)" | "a \<in> set (runs (b + utf8_len ?atom) ?rest)"
      using "2.prems" by (auto simp: runs.simps(2) Let_def)
    then show ?thesis
    proof cases
      case 1
      have "c # cs = [] @ ?atom @ ?rest" by simp
      then have "cuts_out (c # cs) b a" using 1 unfolding cuts_out_def by (metis add_0_right fst_conv snd_conv utf8_len_simps(1))
      then show ?thesis using 1 False by (auto simp: list_ex_iff dest: set_takeWhileD)
    next
      case 2
      then have "cuts_out ?rest (b + utf8_len ?atom) a \<and> snd a \<noteq> [] \<and> \<not> list_ex is_cut (snd a)"
        using "2.IH"(2) False by simp
      then show ?thesis using cuts_out_append [of ?rest b ?atom a] by simp
    qed
  qed
qed simp

lemma segments_cut_out:
  "segments_of b ws s \<Longrightarrow> a \<in> set (concat (map (\<lambda>(b, r). runs b r) ws)) \<Longrightarrow> cuts_out s b a"
proof (induction b ws s rule: segments_of.induct)
  case (2 b o1 w ws s)
  then obtain rest where r: "s = w @ rest" "segments_of (b + utf8_len w) ws rest" "o1 = b" by auto
  from "2.prems"(2) consider "a \<in> set (runs b w)" | "a \<in> set (concat (map (\<lambda>(b, r). runs b r) ws))" using r(3) by auto
  then show ?case
  proof cases
    case 1
    then show ?thesis using runs_cut_out r(1) cuts_out_append2 by blast
  next
    case 2
    then show ?thesis using "2.IH" [OF r(2)] r(1) cuts_out_append by blast
  qed
qed simp

lemma atom_spans:
  assumes "segments_of 0 (uc_words U text) text" and "a \<in> set (text_atoms U text)"
  shows "\<exists>pre post. text = pre @ snd a @ post \<and> fst a = utf8_len pre"
proof -
  have "a \<in> set (concat (map (\<lambda>(b, r). runs b r) (uc_words U text)))" using assms(2) by (simp add: text_atoms_def)
  from segments_cut_out [OF assms(1) this] show ?thesis by (simp add: cuts_out_def)
qed

lemma fold_all: "\<forall>x \<in> set acc. P x \<Longrightarrow> (\<And>q acc. \<forall>x \<in> set acc. P x \<Longrightarrow> \<forall>x \<in> set (f q acc). P x) \<Longrightarrow>
    \<forall>x \<in> set (fold f qs acc). P x"
proof (induction qs arbitrary: acc)
  case (Cons q qs)
  have "\<forall>x \<in> set (f q acc). P x" by (rule Cons.prems(2) [OF Cons.prems(1)])
  from Cons.IH [OF this Cons.prems(2)] show ?case by simp
qed simp

lemma part_tokens_shape:
  "\<forall>t \<in> set (part_tokens U atom p s e). tok_position t = p \<and> tok_start t = s \<and> tok_end t = e"
  unfolding part_tokens_def by (rule fold_all) (auto simp: Let_def)

section \<open>Identifier parts\<close>

definition camel_cut :: "unicode \<Rightarrow> ustr \<Rightarrow> nat \<Rightarrow> bool" where
  "camel_cut U cs i \<longleftrightarrow> class_of U (cs ! i) = Upper \<and>
    (class_of U (cs ! (i - 1)) \<noteq> Upper \<and> class_of U (cs ! (i - 1)) \<noteq> Other \<or>
     class_of U (cs ! (i - 1)) = Upper \<and> i + 1 < length cs \<and> class_of U (cs ! (i + 1)) = Lower)"

lemma camel_step:
  "camel_loop U cs (Suc n) i start out =
     (if camel_cut U cs i then camel_loop U cs n (i + 1) i (out @ [take (i - start) (drop start cs)])
      else camel_loop U cs n (i + 1) start out)"
  unfolding camel_loop.simps(2) camel_cut_def Let_def
  by (cases "class_of U (cs ! i) = Upper") (simp_all only: simp_thms if_True if_False)

lemma camel_loop_inv:
  assumes "camel_loop U cs n i start out = (start', out')" and "i + n = length cs" and "start < i"
    and "concat out = take start cs" and "[] \<notin> set out" and "1 \<le> i"
  shows "concat out' = take start' cs \<and> [] \<notin> set out' \<and> start' < i + n"
  using assms
proof (induction n arbitrary: i start out)
  case 0
  then show ?case by simp
next
  case (Suc n)
  have i: "i + 1 + n = length cs" "start < i + 1" "1 \<le> i + 1" using Suc.prems by simp_all
  show ?case
  proof (cases "camel_cut U cs i")
    case True
    then have s: "camel_loop U cs n (i + 1) i (out @ [take (i - start) (drop start cs)]) = (start', out')"
      using Suc.prems(1) by (simp only: camel_step if_True)
    have "concat (out @ [take (i - start) (drop start cs)]) = take start cs @ take (i - start) (drop start cs)"
      using Suc.prems(4) by simp
    also have "\<dots> = take i cs" using Suc.prems(3) take_add [of start "i - start" cs] by simp
    finally have c: "concat (out @ [take (i - start) (drop start cs)]) = take i cs" .
    have "take (i - start) (drop start cs) \<noteq> []" using Suc.prems(2,3) by simp
    then have n: "[] \<notin> set (out @ [take (i - start) (drop start cs)])" using Suc.prems(5) by simp
    have "i < i + 1" by simp
    from Suc.IH [OF s i(1) this c n i(3)] show ?thesis by simp
  next
    case False
    then have s: "camel_loop U cs n (i + 1) start out = (start', out')"
      using Suc.prems(1) by (simp only: camel_step if_False)
    from Suc.IH [OF s i(1,2) Suc.prems(4,5) i(3)] show ?thesis by simp
  qed
qed

lemma split_camel_concat:
  assumes "seg \<noteq> []"
  shows "\<exists>ps. split_camel U seg out = out @ ps \<and> concat ps = seg \<and> [] \<notin> set ps"
proof -
  have ext: "camel_loop U seg n i start out = (let r = camel_loop U seg n i start [] in (fst r, out @ snd r))" for n i start out
  proof (induction n arbitrary: i start out)
    case (Suc n)
    show ?case
      unfolding camel_step Suc [of "i + 1" i "out @ _"] Suc [of "i + 1" i "[] @ _"] Suc [of "i + 1" start out]
      by (simp add: Let_def)
  qed simp
  obtain start' ps where l: "camel_loop U seg (length seg - 1) 1 0 [] = (start', ps)" by force
  have "concat ps = take start' seg \<and> [] \<notin> set ps \<and> start' < length seg"
    using camel_loop_inv [OF l] assms by (cases seg) simp_all
  then have "concat (ps @ [drop start' seg]) = seg" "[] \<notin> set (ps @ [drop start' seg])" by auto
  moreover have "split_camel U seg out = out @ ps @ [drop start' seg]"
    using ext [of "length seg - 1" 1 0 out] l by (simp add: split_camel_def split_beta)
  ultimately show ?thesis by blast
qed

lemma split_on_concat: "concat (split_on sep s) = filter (\<lambda>c. c \<noteq> sep) s"
  by (induction s) (auto split: list.splits)

lemma concat_filter_nonempty: "concat (filter (\<lambda>s. s \<noteq> []) xs) = concat xs"
  by (induction xs) auto

lemma identifier_parts_concat_lemma:
  "identifier_parts U atom \<noteq> [] \<Longrightarrow>
     concat (identifier_parts U atom) = filter (\<lambda>c. c \<noteq> 95) atom \<and> [] \<notin> set (identifier_parts U atom)"
proof -
  have f: "[] \<notin> set segs \<Longrightarrow> [] \<notin> set parts \<Longrightarrow>
      concat (fold (split_camel U) segs parts) = concat parts @ concat segs \<and> [] \<notin> set (fold (split_camel U) segs parts)"
    for segs parts
  proof (induction segs arbitrary: parts)
    case (Cons seg segs)
    then obtain ps where "split_camel U seg parts = parts @ ps" "concat ps = seg" "[] \<notin> set ps"
      using split_camel_concat [of seg U parts] by auto
    then show ?case using Cons.IH [of "parts @ ps"] Cons.prems by simp
  qed simp
  let ?segs = "filter (\<lambda>s. s \<noteq> []) (split_on 95 atom)"
  have "[] \<notin> set ?segs" by simp
  from f [OF this, of "[]"] show "identifier_parts U atom \<noteq> [] \<Longrightarrow> ?thesis"
    by (auto simp: identifier_parts_def Let_def concat_filter_nonempty split_on_concat split: if_splits)
qed

end
