(* ===== verification/Utf8.thy ===== *)
theory Utf8
  imports Tokenizer
begin

text \<open>
  UTF-8, between the characters of a text and the bytes of a stored term or a file. Encoding a text of
  Unicode scalar values gives valid UTF-8 that decodes to the text (\<open>chars_encode\<close>, \<open>utf8_valid_encode\<close>), so
  different terms are stored under different keys (\<open>utf8_encode_inject\<close>).
\<close>

definition byte :: "nat \<Rightarrow> u8" where "byte n = of_nat n"

lemma unat_byte: "n < 256 \<Longrightarrow> unat (byte n) = n"
  by (simp add: byte_def unsigned_of_nat take_bit_nat_eq_self)

lemma byte_less: "n < 256 \<Longrightarrow> byte n < w \<longleftrightarrow> n < unat w" "n < 256 \<Longrightarrow> w \<le> byte n \<longleftrightarrow> unat w \<le> n"
  "n < 256 \<Longrightarrow> byte n \<le> w \<longleftrightarrow> n \<le> unat w"
  "n < 256 \<Longrightarrow> byte n = w \<longleftrightarrow> n = unat w"
  by (simp_all add: word_less_nat_alt word_le_nat_alt unat_byte word_unat_eq_iff)

definition utf8_char :: "uchar \<Rightarrow> bytes" where
  "utf8_char c =
     (if c < 0x80 then [byte c]
      else if c < 0x800 then [byte (192 + c div 64), byte (128 + c mod 64)]
      else if c < 0x10000 then [byte (224 + c div 4096), byte (128 + c div 64 mod 64), byte (128 + c mod 64)]
      else [byte (240 + c div 262144), byte (128 + c div 4096 mod 64), byte (128 + c div 64 mod 64), byte (128 + c mod 64)])"

definition utf8_encode :: "ustr \<Rightarrow> bytes" where
  "utf8_encode s = concat (map utf8_char s)"

lemma utf8_encode_simps [simp]:
  "utf8_encode [] = []"
  "utf8_encode (c # s) = utf8_char c @ utf8_encode s"
  "utf8_encode (s @ t) = utf8_encode s @ utf8_encode t"
  by (simp_all add: utf8_encode_def)

lemma length_utf8_encode: "length (utf8_encode s) = utf8_len s"
  by (induction s) (simp_all add: utf8_char_def utf8_width_def)

text \<open>The characters of valid UTF-8, by the lead byte.\<close>

fun chars :: "bytes \<Rightarrow> ustr" where
  "chars [] = []"
| "chars (a # r) =
     (if unat a < 0x80 then unat a # chars r
      else if unat a < 0xE0 then (case r of b # r1 \<Rightarrow> ((unat a - 192) * 64 + (unat b - 128)) # chars r1 | _ \<Rightarrow> [])
      else if unat a < 0xF0 then
        (case r of b # c # r2 \<Rightarrow> ((unat a - 224) * 4096 + (unat b - 128) * 64 + (unat c - 128)) # chars r2 | _ \<Rightarrow> [])
      else (case r of b # c # d # r3 \<Rightarrow>
             ((unat a - 240) * 262144 + (unat b - 128) * 4096 + (unat c - 128) * 64 + (unat d - 128)) # chars r3 | _ \<Rightarrow> []))"

declare chars.simps(2) [simp del]

definition scalar :: "uchar \<Rightarrow> bool" where
  "scalar c \<longleftrightarrow> c < 0xD800 \<or> 0xE000 \<le> c \<and> c < 0x110000"

abbreviation scalars :: "ustr \<Rightarrow> bool" where "scalars s \<equiv> list_all scalar s"

text \<open>The shape of an encoded character.\<close>

lemma utf8_char_cases:
  assumes "c < 0x110000"
  obtains (one) "c < 0x80" "utf8_char c = [byte c]"
  | (two) q m where "c = q * 64 + m" "m < 64" "2 \<le> q" "q < 32" "utf8_char c = [byte (192 + q), byte (128 + m)]"
  | (three) p q m where "c = p * 4096 + q * 64 + m" "m < 64" "q < 64" "p < 16" "0x800 \<le> c"
      "utf8_char c = [byte (224 + p), byte (128 + q), byte (128 + m)]"
  | (four) o1 p q m where "c = o1 * 262144 + p * 4096 + q * 64 + m" "m < 64" "q < 64" "p < 64" "o1 < 5" "0x10000 \<le> c"
      "utf8_char c = [byte (240 + o1), byte (128 + p), byte (128 + q), byte (128 + m)]"
proof -
  consider "c < 0x80" | "0x80 \<le> c" "c < 0x800" | "0x800 \<le> c" "c < 0x10000" | "0x10000 \<le> c" by linarith
  then show ?thesis
  proof cases
    case 1
    then show ?thesis by (intro one) (simp_all add: utf8_char_def)
  next
    case 2
    have "c div 64 < 32" by (rule less_mult_imp_div_less) (use 2 in simp)
    moreover have "2 \<le> c div 64" using div_le_mono [OF 2(1), of 64] by simp
    ultimately show ?thesis using 2 by (intro two [of "c div 64" "c mod 64"]) (simp_all add: utf8_char_def)
  next
    case 3
    have "c div 4096 < 16" by (rule less_mult_imp_div_less) (use 3 in simp)
    moreover have "c = c div 4096 * 4096 + c div 64 mod 64 * 64 + c mod 64"
    proof -
      have "c div 4096 = c div 64 div 64" by (simp add: div_mult2_eq [symmetric])
      then have "c div 64 = c div 4096 * 64 + c div 64 mod 64" by (metis div_mult_mod_eq)
      moreover have "c = c div 64 * 64 + c mod 64" by (metis div_mult_mod_eq)
      ultimately show ?thesis by linarith
    qed
    ultimately show ?thesis using 3 by (intro three [of "c div 4096" "c div 64 mod 64" "c mod 64"]) (simp_all add: utf8_char_def)
  next
    case 4
    have "c div 262144 < 5" by (rule less_mult_imp_div_less) (use assms in simp)
    moreover have "c = c div 262144 * 262144 + c div 4096 mod 64 * 4096 + c div 64 mod 64 * 64 + c mod 64"
    proof -
      have "c div 4096 = c div 64 div 64" "c div 262144 = c div 4096 div 64" by (simp_all add: div_mult2_eq [symmetric])
      then have "c div 4096 = c div 262144 * 64 + c div 4096 mod 64" "c div 64 = c div 4096 * 64 + c div 64 mod 64"
        by (metis div_mult_mod_eq)+
      moreover have "c = c div 64 * 64 + c mod 64" by (metis div_mult_mod_eq)
      ultimately show ?thesis by linarith
    qed
    ultimately show ?thesis using 4
      by (intro four [of "c div 262144" "c div 4096 mod 64" "c div 64 mod 64" "c mod 64"]) (simp_all add: utf8_char_def)
  qed
qed

lemma chars_char: "c < 0x110000 \<Longrightarrow> chars (utf8_char c @ r) = c # chars r"
  by (erule utf8_char_cases) (simp_all add: chars.simps(2) unat_byte)

lemma chars_encode: "scalars s \<Longrightarrow> chars (utf8_encode s) = s"
  by (induction s) (auto simp: chars_char scalar_def)

lemma utf8_encode_inject: "scalars s \<Longrightarrow> scalars t \<Longrightarrow> utf8_encode s = utf8_encode t \<longleftrightarrow> s = t"
  by (metis chars_encode)

lemma valid_bytes:
  "n < 128 \<Longrightarrow> utf8_valid (byte n # r) \<longleftrightarrow> utf8_valid r"
  "2 \<le> q \<Longrightarrow> q < 32 \<Longrightarrow> m < 64 \<Longrightarrow> utf8_valid (byte (192 + q) # byte (128 + m) # r) \<longleftrightarrow> utf8_valid r"
  "p < 16 \<Longrightarrow> q < 64 \<Longrightarrow> m < 64 \<Longrightarrow> (p = 0 \<longrightarrow> 32 \<le> q) \<Longrightarrow> (p = 13 \<longrightarrow> q < 32) \<Longrightarrow>
     utf8_valid (byte (224 + p) # byte (128 + q) # byte (128 + m) # r) \<longleftrightarrow> utf8_valid r"
  "k < 5 \<Longrightarrow> p < 64 \<Longrightarrow> q < 64 \<Longrightarrow> m < 64 \<Longrightarrow> (k = 0 \<longrightarrow> 16 \<le> p) \<Longrightarrow> (k = 4 \<longrightarrow> p < 16) \<Longrightarrow>
     utf8_valid (byte (240 + k) # byte (128 + p) # byte (128 + q) # byte (128 + m) # r) \<longleftrightarrow> utf8_valid r"
  by (simp_all add: utf8_valid.simps(2) byte_less cont_byte_def) auto

lemma utf8_valid_char: "scalar c \<Longrightarrow> utf8_valid (utf8_char c @ r) \<longleftrightarrow> utf8_valid r"
proof -
  assume c: "scalar c"
  then have "c < 0x110000" by (auto simp: scalar_def)
  then show ?thesis
  proof (cases rule: utf8_char_cases)
    case one
    then show ?thesis by (simp add: valid_bytes)
  next
    case (two q m)
    then show ?thesis by (simp add: valid_bytes)
  next
    case (three p q m)
    have "p = 0 \<longrightarrow> 32 \<le> q" using three(1,2,5) by (intro impI) simp
    moreover have "p = 13 \<longrightarrow> q < 32" using three(1,2,3) c unfolding scalar_def by (intro impI) auto
    ultimately show ?thesis using three by (simp add: valid_bytes)
  next
    case (four k p q m)
    have "k = 0 \<longrightarrow> 16 \<le> p" using four(1-3,6) by (intro impI) simp
    moreover have "k = 4 \<longrightarrow> p < 16" using four(1-3) c unfolding scalar_def by (intro impI) auto
    ultimately show ?thesis using four by (simp add: valid_bytes)
  qed
qed

lemma utf8_valid_encode: "scalars s \<Longrightarrow> utf8_valid (utf8_encode s)"
  by (induction s) (simp_all add: utf8_valid_char)

end
