(* ===== verification/Builder.thy ===== *)
theory Builder
  imports Utf8 Doc_Table Postings
begin

text \<open>
  Building one in-memory segment (\<open>src/index/builder.rs\<close>): the map step over a shard of files and the reduce
  step. Reading a file is the parameter \<open>read\<close> (\<open>None\<close> for an error), \<open>hash\<close> the content hash of the crate
  \<open>xxhash_rust\<close>. Shards are built in parallel and collected in order, so the parallel map is \<open>map\<close>. Terms
  are stored under their UTF-8 bytes. A panic of the document table is \<open>None\<close>.

  Main facts: the posting list of a term lists, for every file that contains it, the file's id with the
  positions of the term, ascending (\<open>build_postings\<close>), whatever the shard size; building never panics, and the
  table records each file's outcome (\<open>build_docs\<close>).
\<close>

section \<open>Map step\<close>

record shard =
  sh_first_doc :: u32
  sh_terms :: mem_store
  sh_doc_lens :: "(u32 \<times> u32 \<times> u64) list"
  sh_skipped :: "(u32 \<times> u64 option) list"
  sh_non_text :: "(u32 \<times> doc_status) list"
  sh_tokens :: u64

text \<open>\<open>decode_text\<close>: UTF-8, with a byte order mark stripped.\<close>

definition decode_text :: "bytes \<Rightarrow> ustr option" where
  "decode_text bs =
     (if utf8_valid bs
      then let text = chars bs in Some (if text \<noteq> [] \<and> hd text = 0xFEFF then tl text else text)
      else None)"

definition add_token :: "u32 \<Rightarrow> token \<Rightarrow> mem_store \<Rightarrow> mem_store" where
  "add_token doc tok terms =
     (let key = utf8_encode (tok_term tok) in
      case map_of terms key of
        Some l \<Rightarrow> AList.update key (mem_push l doc (tok_position tok)) terms
      | None \<Rightarrow> AList.update key (mem_push [] doc (tok_position tok)) terms)"

definition index_document :: "unicode \<Rightarrow> u32 \<Rightarrow> ustr \<Rightarrow> mem_store \<Rightarrow> (u32 \<times> u64) \<times> mem_store" where
  "index_document U doc text terms =
     fold (\<lambda>tok ((len, count), terms). ((tok_position tok + 1, count + 1), add_token doc tok terms))
       (tokenize U text) ((0, 0), terms)"

definition index_file :: "unicode \<Rightarrow> (bytes \<Rightarrow> bytes option) \<Rightarrow> (bytes \<Rightarrow> u64) \<Rightarrow> u32 \<Rightarrow> file_entry \<Rightarrow> shard \<Rightarrow> shard" where
  "index_file U read hash doc cf sh =
     (case fe_kind cf of
        FBinary \<Rightarrow> sh\<lparr>sh_non_text := sh_non_text sh @ [(doc, Binary)]\<rparr>
      | FTooLarge \<Rightarrow> sh\<lparr>sh_non_text := sh_non_text sh @ [(doc, TooLarge)]\<rparr>
      | FText \<Rightarrow>
          (case read (fe_path cf) of
             None \<Rightarrow> sh\<lparr>sh_skipped := sh_skipped sh @ [(doc, None)]\<rparr>
           | Some bs \<Rightarrow>
               (case decode_text bs of
                  None \<Rightarrow> sh\<lparr>sh_skipped := sh_skipped sh @ [(doc, Some (hash bs))]\<rparr>
                | Some text \<Rightarrow>
                    let ((len, n), terms) = index_document U doc text (sh_terms sh) in
                    sh\<lparr>sh_terms := terms, sh_doc_lens := sh_doc_lens sh @ [(doc, len, hash bs)], sh_tokens := sh_tokens sh + n\<rparr>)))"

definition index_shard :: "unicode \<Rightarrow> (bytes \<Rightarrow> bytes option) \<Rightarrow> (bytes \<Rightarrow> u64) \<Rightarrow> u32 \<Rightarrow> file_entry list \<Rightarrow> shard" where
  "index_shard U read hash first_doc files =
     fold (\<lambda>(i, cf) sh. index_file U read hash (first_doc + of_nat i) cf sh) (enumerate 0 files)
       \<lparr>sh_first_doc = first_doc, sh_terms = [], sh_doc_lens = [], sh_skipped = [], sh_non_text = [], sh_tokens = 0\<rparr>"

section \<open>Reduce step\<close>

definition merge_shards :: "shard list \<Rightarrow> mem_store" where
  "merge_shards shards = fold (\<lambda>sh store. merge_shard store (sh_terms sh)) shards []"

fun fold_opt :: "('a \<Rightarrow> 'b \<Rightarrow> 'b option) \<Rightarrow> 'a list \<Rightarrow> 'b \<Rightarrow> 'b option" where
  "fold_opt f [] s = Some s"
| "fold_opt f (x # xs) s = Option.bind (f x s) (fold_opt f xs)"

function chunks :: "nat \<Rightarrow> 'a list \<Rightarrow> 'a list list" where
  "chunks n xs = (if xs = [] \<or> n = 0 then [] else take n xs # chunks n (drop n xs))"
  by pat_completeness auto
termination by (relation "measure (\<lambda>(n, xs). length xs)") auto

declare chunks.simps [simp del]

record mem_index =
  mi_docs :: doc_table
  mi_terms :: mem_store
  mi_docs_skipped :: u32
  mi_total_tokens :: u64

definition apply_shard :: "shard \<Rightarrow> doc_table \<Rightarrow> doc_table option" where
  "apply_shard sh docs =
     Option.bind (fold_opt (\<lambda>(doc, len, h) docs.
        map_option (dt_set_hash (unat doc) h) (dt_mark_indexed (unat doc) len docs)) (sh_doc_lens sh) docs) (\<lambda>docs.
     let docs = fold (\<lambda>(doc, h) docs. case h of None \<Rightarrow> docs | Some h \<Rightarrow> dt_set_hash (unat doc) h docs) (sh_skipped sh) docs
     in fold_opt (\<lambda>(doc, status) docs. dt_set_status (unat doc) status docs) (sh_non_text sh) docs)"

definition build_crawled :: "unicode \<Rightarrow> (bytes \<Rightarrow> bytes option) \<Rightarrow> (bytes \<Rightarrow> u64) \<Rightarrow> nat \<Rightarrow> file_entry list \<Rightarrow> mem_index option" where
  "build_crawled U read hash shard_size0 files =
     (let shard_size = max shard_size0 1;
          shards = map (\<lambda>(i, chunk). index_shard U read hash (of_nat (i * shard_size)) chunk) (enumerate 0 (chunks shard_size files))
      in Option.bind (fold_opt (\<lambda>(i, cf). dt_insert i (from_entry cf)) (enumerate 0 files) dt_new) (\<lambda>docs.
         map_option (\<lambda>docs. \<lparr>mi_docs = docs, mi_terms = merge_shards shards,
             mi_docs_skipped = sum_list (map (\<lambda>sh. of_nat (length (sh_skipped sh))) shards),
             mi_total_tokens = sum_list (map sh_tokens shards)\<rparr>)
           (fold_opt apply_shard shards docs)))"

section \<open>The postings of one document\<close>

text \<open>Reference: the positions at which a text has a term.\<close>

definition positions_of :: "unicode \<Rightarrow> ustr \<Rightarrow> ustr \<Rightarrow> u32 list" where
  "positions_of U t text = map tok_position (filter (\<lambda>tok. tok_term tok = t) (tokenize U text))"

text \<open>What is relied on of case folding and of the text: terms are scalar values, and a text has fewer than
  \<open>2 ^ 32\<close> atoms.\<close>

definition text_fits :: "unicode \<Rightarrow> ustr \<Rightarrow> bool" where
  "text_fits U text \<longleftrightarrow> length (text_atoms U text) < 2 ^ 32 \<and> (\<forall>tok \<in> set (tokenize U text). scalars (tok_term tok))"

lemma part_tokens_fresh:
  "distinct (map tok_term (part_tokens U atom p s e)) \<and> fold_case U atom \<notin> tok_term ` set (part_tokens U atom p s e)"
proof -
  have "distinct (map tok_term acc) \<and> fold_case U atom \<notin> tok_term ` set acc \<Longrightarrow>
      distinct (map tok_term (fold (\<lambda>part pending. let t = fold_case U part in
        if t \<noteq> fold_case U atom \<and> \<not> list_ex (\<lambda>tok. tok_term tok = t) pending
        then pending @ [\<lparr>tok_term = t, tok_position = p, tok_start = s, tok_end = e\<rparr>] else pending) parts acc)) \<and>
      fold_case U atom \<notin> tok_term ` set (fold (\<lambda>part pending. let t = fold_case U part in
        if t \<noteq> fold_case U atom \<and> \<not> list_ex (\<lambda>tok. tok_term tok = t) pending
        then pending @ [\<lparr>tok_term = t, tok_position = p, tok_start = s, tok_end = e\<rparr>] else pending) parts acc)" for parts acc
  proof (induction parts arbitrary: acc)
    case (Cons q parts)
    show ?case unfolding fold_simps comp_def
      by (rule Cons.IH) (use Cons.prems in \<open>auto simp: Let_def list_ex_iff\<close>)
  qed simp
  from this [of "[]" "identifier_parts U atom"] show ?thesis unfolding part_tokens_def by simp
qed

lemma atom_tokens_terms:
  "distinct (map tok_term (atom_tokens U split p a)) \<and> (\<forall>tok \<in> set (atom_tokens U split p a). tok_position tok = p)"
  using part_tokens_fresh [of U "snd a" p "fst a" "fst a + utf8_len (snd a)"]
    part_tokens_shape [of U "snd a" p "fst a" "fst a + utf8_len (snd a)"]
  by (auto simp: atom_tokens_def Let_def)

lemma filter_distinct_term:
  "distinct (map tok_term toks) \<Longrightarrow> length (filter (\<lambda>tok. tok_term tok = t) toks) \<le> 1"
proof (induction toks)
  case (Cons x toks)
  then show ?case
  proof (cases "tok_term x = t")
    case True
    then have "filter (\<lambda>tok. tok_term tok = t) toks = []" using Cons.prems unfolding filter_empty_conv by (metis distinct.simps(2) image_eqI list.simps(9) set_map)
    then show ?thesis using True by simp
  qed (use Cons in simp)
qed simp

lemma number_atoms_positions:
  "unat p + length as \<le> 2 ^ 32 \<Longrightarrow>
     sorted_wrt (<) (map tok_position (filter (\<lambda>tok. tok_term tok = t) (number_atoms U split p as))) \<and>
     (\<forall>tok \<in> set (number_atoms U split p as). unat p \<le> unat (tok_position tok))"
proof (induction as arbitrary: p)
  case (Cons a as)
  let ?here = "filter (\<lambda>tok. tok_term tok = t) (atom_tokens U split p a)"
  have "length ?here \<le> 1" using filter_distinct_term atom_tokens_terms by blast
  moreover have "\<forall>x \<in> set ?here. tok_position x = p" using atom_tokens_terms [of U split p a] by simp
  ultimately have here: "?here = [] \<or> (\<exists>x. ?here = [x] \<and> tok_position x = p)" by (cases ?here) auto
  show ?case
  proof (cases as)
    case Nil
    then show ?thesis using here atom_tokens_terms [of U split p a] by auto
  next
    case (Cons b bs)
    then have "unat p + 1 < 2 ^ 32" using Cons.prems by simp
    then have u: "unat (p + 1) = unat p + 1" by (simp add: unat_word_ariths)
    have ih: "sorted_wrt (<) (map tok_position (filter (\<lambda>tok. tok_term tok = t) (number_atoms U split (p + 1) as)))"
      "\<forall>tok \<in> set (number_atoms U split (p + 1) as). unat p + 1 \<le> unat (tok_position tok)"
      using Cons.IH [of "p + 1"] Cons.prems u by simp_all
    have lt: "p < tok_position tok" if "tok \<in> set (number_atoms U split (p + 1) as)" for tok
      using ih(2) that unfolding word_less_nat_alt by force
    have "sorted_wrt (<) (map tok_position ?here @ map tok_position (filter (\<lambda>tok. tok_term tok = t) (number_atoms U split (p + 1) as)))"
    proof -
      have "sorted_wrt (<) (map tok_position ?here)" using here by auto
      moreover have "\<forall>x \<in> set ?here. tok_position x = p" using atom_tokens_terms [of U split p a] by simp
      ultimately show ?thesis using ih(1) lt unfolding sorted_wrt_append by simp
    qed
    moreover have "\<forall>tok \<in> set (number_atoms U split p (a # as)). unat p \<le> unat (tok_position tok)"
      using atom_tokens_terms [of U split p a] ih(2) by fastforce
    ultimately show ?thesis by simp
  qed
qed simp

lemma positions_sorted: "length (text_atoms U text) < 2 ^ 32 \<Longrightarrow> sorted_wrt (<) (positions_of U t text)"
  using number_atoms_positions [of 0 "text_atoms U text" t U True] by (simp add: positions_of_def tokens_list_eq)

section \<open>Pushing a document\<close>

lemma mem_push_fold:
  "sorted_wrt (<) qs \<Longrightarrow> fold (\<lambda>p l. mem_push l d p) qs (l @ [(d, ps @ [q])]) =
     (if \<forall>x \<in> set qs. q < x then l @ [(d, ps @ [q] @ qs)] else fold (\<lambda>p l. mem_push l d p) qs (l @ [(d, ps @ [q])]))"
proof (induction qs arbitrary: ps q)
  case (Cons x qs)
  show ?case
  proof (cases "q < x")
    case True
    then have "mem_push (l @ [(d, ps @ [q])]) d x = l @ [(d, (ps @ [q]) @ [x])]"
      by (auto simp: mem_push_def list_update_append)
    then show ?thesis using Cons.IH [of "ps @ [q]" x] Cons.prems by auto
  qed simp
qed simp

lemma push_document:
  assumes "\<forall>e \<in> fst ` set l. e \<noteq> d" and "sorted_wrt (<) qs"
  shows "fold (\<lambda>p l. mem_push l d p) qs l = (if qs = [] then l else l @ [(d, qs)])"
proof (cases qs)
  case (Cons q qs')
  have "mem_push l d q = l @ [(d, [] @ [q])]"
  proof (cases "l = []")
    case False
    then have "fst (last l) \<noteq> d" using assms(1) last_in_set [OF False] by blast
    then show ?thesis using False by (simp add: mem_push_def)
  qed (simp add: mem_push_def)
  then show ?thesis using mem_push_fold [of qs' d l "[]" q] assms(2) Cons by simp
qed simp

lemma add_token_get:
  "store_get (add_token doc tok terms) k =
     (if k = utf8_encode (tok_term tok) then Some (mem_push (plist_of (store_get terms k)) doc (tok_position tok)) else store_get terms k)"
  by (auto simp: add_token_def store_get_def plist_of_def update_conv Let_def split: option.splits)

lemma add_token_distinct: "distinct (map fst terms) \<Longrightarrow> distinct (map fst (add_token doc tok terms))"
  by (auto simp: add_token_def Let_def intro: distinct_update split: option.splits)

lemma add_tokens_get:
  "plist_of (store_get (fold (add_token doc) toks terms) k) =
     fold (\<lambda>p l. mem_push l doc p) (map tok_position (filter (\<lambda>tok. utf8_encode (tok_term tok) = k) toks)) (plist_of (store_get terms k))"
proof (induction toks arbitrary: terms)
  case (Cons tok toks)
  then show ?case by (auto simp: add_token_get plist_of_def)
qed simp

lemma add_tokens_distinct: "distinct (map fst terms) \<Longrightarrow> distinct (map fst (fold (add_token doc) toks terms))"
  by (induction toks arbitrary: terms) (simp_all add: add_token_distinct)

lemma index_document_eq:
  "index_document U doc text terms =
     ((of_nat (length (text_atoms U text)), of_nat (length (tokenize U text))), fold (add_token doc) (tokenize U text) terms)"
proof -
  have f: "fold (\<lambda>tok ((len, count), terms). ((tok_position tok + 1, count + 1), add_token doc tok terms)) toks ((l, c), terms) =
      ((if toks = [] then l else tok_position (last toks) + 1, c + of_nat (length toks)), fold (add_token doc) toks terms)"
    for toks l and c :: u64 and terms
    by (induction toks arbitrary: l c terms) auto
  have n: "number_atoms U split p as \<noteq> [] \<and> tok_position (last (number_atoms U split p as)) + 1 = p + of_nat (length as)"
    if "as \<noteq> []" for split p as
    using that
  proof (induction as arbitrary: p)
    case (Cons a as)
    have a: "atom_tokens U split p a \<noteq> []" by (simp add: atom_tokens_def Let_def)
    show ?case
    proof (cases "as = []")
      case True
      have "last (atom_tokens U split p a) \<in> set (atom_tokens U split p a)" using a by simp
      then have "tok_position (last (atom_tokens U split p a)) = p" using atom_tokens_terms [of U split p a] by blast
      then show ?thesis using True a by simp
    next
      case False
      then show ?thesis using Cons.IH [of "p + 1"] a by (simp add: add.assoc add.commute)
    qed
  qed simp
  show ?thesis
  proof (cases "text_atoms U text = []")
    case True
    then show ?thesis by (simp add: index_document_def f tokens_list_eq)
  next
    case False
    then show ?thesis using n [OF False, of True 0] by (simp add: index_document_def f tokens_list_eq)
  qed
qed

section \<open>The postings of a shard\<close>

definition doc_text :: "(bytes \<Rightarrow> bytes option) \<Rightarrow> file_entry \<Rightarrow> ustr option" where
  "doc_text read cf = (if fe_kind cf = FText then Option.bind (read (fe_path cf)) decode_text else None)"

fun postings_from :: "unicode \<Rightarrow> (bytes \<Rightarrow> bytes option) \<Rightarrow> ustr \<Rightarrow> nat \<Rightarrow> file_entry list \<Rightarrow> plist" where
  "postings_from U read t n [] = []"
| "postings_from U read t n (cf # files) =
     (case doc_text read cf of
        None \<Rightarrow> []
      | Some text \<Rightarrow> if positions_of U t text = [] then [] else [(of_nat n, positions_of U t text)]) @
     postings_from U read t (n + 1) files"

definition files_fit :: "unicode \<Rightarrow> (bytes \<Rightarrow> bytes option) \<Rightarrow> file_entry list \<Rightarrow> bool" where
  "files_fit U read files \<longleftrightarrow> length files < 2 ^ 32 \<and> (\<forall>cf \<in> set files. \<forall>text. doc_text read cf = Some text \<longrightarrow> text_fits U text)"

lemma postings_from_append:
  "postings_from U read t n (xs @ ys) = postings_from U read t n xs @ postings_from U read t (n + length xs) ys"
  by (induction xs arbitrary: n) auto

lemma postings_from_docs: "e \<in> fst ` set (postings_from U read t n files) \<Longrightarrow> \<exists>i < length files. e = of_nat (n + i)"
proof (induction files arbitrary: n)
  case (Cons cf files)
  from Cons.prems consider "e = of_nat n" | "e \<in> fst ` set (postings_from U read t (n + 1) files)"
    by (auto split: option.splits if_splits)
  then show ?case
  proof cases
    case 2
    then obtain i where "i < length files" "e = of_nat (n + 1 + i)" using Cons.IH by blast
    then show ?thesis by (intro exI [of _ "i + 1"]) simp
  qed (auto intro: exI [of _ 0])
qed simp

lemma index_file_get:
  assumes "scalars t" and "\<forall>text. doc_text read cf = Some text \<longrightarrow> text_fits U text"
    and "\<forall>e \<in> fst ` set (plist_of (store_get (sh_terms sh) (utf8_encode t))). e \<noteq> of_nat n"
  shows "plist_of (store_get (sh_terms (index_file U read hash (of_nat n) cf sh)) (utf8_encode t)) =
     plist_of (store_get (sh_terms sh) (utf8_encode t)) @ postings_from U read t n [cf]"
proof (cases "doc_text read cf")
  case None
  then show ?thesis
    by (auto simp: index_file_def doc_text_def split: file_kind.splits option.splits)
next
  case (Some w)
  then have fit: "text_fits U w" using assms(2) by simp
  have idx: "sh_terms (index_file U read hash (of_nat n) cf sh) = fold (add_token (of_nat n)) (tokenize U w) (sh_terms sh)"
    using Some by (auto simp: index_file_def doc_text_def index_document_eq split: file_kind.splits option.splits if_splits bind_splits)
  have "filter (\<lambda>tok. utf8_encode (tok_term tok) = utf8_encode t) (tokenize U w) = filter (\<lambda>tok. tok_term tok = t) (tokenize U w)"
    using fit assms(1) by (intro filter_cong) (auto simp: text_fits_def utf8_encode_inject)
  then have "plist_of (store_get (sh_terms (index_file U read hash (of_nat n) cf sh)) (utf8_encode t)) =
      fold (\<lambda>p l. mem_push l (of_nat n) p) (positions_of U t w) (plist_of (store_get (sh_terms sh) (utf8_encode t)))"
    unfolding idx add_tokens_get positions_of_def by simp
  also have "\<dots> = plist_of (store_get (sh_terms sh) (utf8_encode t)) @ postings_from U read t n [cf]"
    using push_document [OF assms(3) positions_sorted] fit Some by (simp add: text_fits_def)
  finally show ?thesis .
qed

lemma of_nat_inj32: "a < 2 ^ 32 \<Longrightarrow> b < 2 ^ 32 \<Longrightarrow> (of_nat a :: u32) = of_nat b \<longleftrightarrow> a = b"
  by (simp add: word_unat_eq_iff unsigned_of_nat take_bit_nat_eq_self)

lemma index_shard_fold:
  assumes "scalars t" and "\<forall>cf \<in> set files. \<forall>text. doc_text read cf = Some text \<longrightarrow> text_fits U text"
    and "n + k + length files \<le> 2 ^ 32"
    and "\<forall>e \<in> fst ` set (plist_of (store_get (sh_terms sh) (utf8_encode t))). \<exists>i < n + k. e = of_nat i"
  shows "plist_of (store_get (sh_terms (fold (\<lambda>(i, cf) sh. index_file U read hash (of_nat n + of_nat i) cf sh) (enumerate k files) sh)) (utf8_encode t)) =
     plist_of (store_get (sh_terms sh) (utf8_encode t)) @ postings_from U read t (n + k) files"
  using assms(2-)
proof (induction files arbitrary: k sh)
  case (Cons cf files)
  let ?sh = "index_file U read hash (of_nat (n + k)) cf sh"
  have ne: "\<forall>e \<in> fst ` set (plist_of (store_get (sh_terms sh) (utf8_encode t))). e \<noteq> of_nat (n + k)"
  proof
    fix e assume "e \<in> fst ` set (plist_of (store_get (sh_terms sh) (utf8_encode t)))"
    then obtain i where "i < n + k" "e = of_nat i" using Cons.prems(3) by blast
    then show "e \<noteq> of_nat (n + k)" using of_nat_inj32 [of i "n + k"] Cons.prems(2) by simp
  qed
  have g: "plist_of (store_get (sh_terms ?sh) (utf8_encode t)) =
      plist_of (store_get (sh_terms sh) (utf8_encode t)) @ postings_from U read t (n + k) [cf]"
    by (rule index_file_get [OF assms(1) _ ne]) (use Cons.prems(1) in simp)
  have "\<forall>e \<in> fst ` set (plist_of (store_get (sh_terms ?sh) (utf8_encode t))). \<exists>i < n + Suc k. e = of_nat i"
  proof
    fix e assume "e \<in> fst ` set (plist_of (store_get (sh_terms ?sh) (utf8_encode t)))"
    then consider "e \<in> fst ` set (plist_of (store_get (sh_terms sh) (utf8_encode t)))"
      | "e \<in> fst ` set (postings_from U read t (n + k) [cf])" unfolding g by auto
    then show "\<exists>i < n + Suc k. e = of_nat i"
    proof cases
      case 1
      then show ?thesis using Cons.prems(3) by (metis add_Suc_right less_Suc_eq)
    next
      case 2
      then show ?thesis using postings_from_docs [OF 2] by auto
    qed
  qed
  from Cons.IH [OF _ _ this] Cons.prems(1,2) g show ?case by simp
qed simp

lemma index_shard_get:
  assumes "scalars t" and "\<forall>cf \<in> set files. \<forall>text. doc_text read cf = Some text \<longrightarrow> text_fits U text"
    and "n + length files \<le> 2 ^ 32"
  shows "plist_of (store_get (sh_terms (index_shard U read hash (of_nat n) files)) (utf8_encode t)) = postings_from U read t n files"
  unfolding index_shard_def by (subst index_shard_fold [OF assms(1,2)]) (use assms(3) in \<open>simp_all add: store_get_def plist_of_def\<close>)

lemma index_shard_distinct: "distinct (map fst (sh_terms (index_shard U read hash d files)))"
proof -
  have "distinct (map fst (sh_terms sh)) \<Longrightarrow> distinct (map fst (sh_terms (index_file U read hash n cf sh)))" for n cf sh
    by (auto simp: index_file_def index_document_eq add_tokens_distinct split: file_kind.splits option.splits)
  then have "distinct (map fst (sh_terms sh)) \<Longrightarrow>
      distinct (map fst (sh_terms (fold (\<lambda>(i, cf) sh. index_file U read hash (d + of_nat i) cf sh) xs sh)))" for xs sh
    by (induction xs arbitrary: sh) auto
  then show ?thesis by (simp add: index_shard_def)
qed

section \<open>Merging the shards\<close>

lemma merge_shards_get:
  assumes "\<forall>sh \<in> set shards. distinct (map fst (sh_terms sh))" and "distinct (map fst store)"
  shows "plist_of (store_get (fold (\<lambda>sh store. merge_shard store (sh_terms sh)) shards store) k) =
     plist_of (store_get store k) @ concat (map (\<lambda>sh. plist_of (store_get (sh_terms sh) k)) shards)"
  using assms
proof (induction shards arbitrary: store)
  case (Cons sh shards)
  then have d: "distinct (map fst (merge_shard store (sh_terms sh)))" by (simp add: merge_shard_distinct)
  have "plist_of (store_get (merge_shard store (sh_terms sh)) k) = plist_of (store_get store k) @ plist_of (store_get (sh_terms sh) k)"
    using get_merge_shard [of "sh_terms sh" store k] Cons.prems(1) by (auto simp: plist_of_def split: option.splits)
  then show ?case using Cons.IH [OF _ d] Cons.prems(1) by simp
qed simp

lemma chunks_postings:
  "1 \<le> n \<Longrightarrow> concat (map (\<lambda>(i, c). postings_from U read t (i * n) c) (enumerate k (chunks n xs))) = postings_from U read t (k * n) xs"
proof (induction n xs arbitrary: k rule: chunks.induct)
  case (1 n xs)
  show ?case
  proof (cases "xs = []")
    case False
    have ih: "concat (map (\<lambda>(i, c). postings_from U read t (i * n) c) (enumerate (Suc k) (chunks n (drop n xs)))) =
        postings_from U read t (Suc k * n) (drop n xs)" by (rule "1.IH") (use False "1.prems" in simp_all)
    have "postings_from U read t (k * n) xs = postings_from U read t (k * n) (take n xs @ drop n xs)" by simp
    also have "\<dots> = postings_from U read t (k * n) (take n xs) @ postings_from U read t (Suc k * n) (drop n xs)"
    proof (cases "length xs \<le> n")
      case False
      then show ?thesis unfolding postings_from_append by (simp add: add.commute)
    qed simp
    finally show ?thesis using False "1.prems" ih by (simp add: chunks.simps [of n xs])
  qed (simp add: chunks.simps)
qed

lemma chunks_concat: "1 \<le> n \<Longrightarrow> concat (chunks n xs) = xs"
  by (induction n xs rule: chunks.induct) (simp add: chunks.simps)

text \<open>Where a chunk lies: its first index, and that it stays in the list.\<close>

lemma chunks_bounds:
  "1 \<le> n \<Longrightarrow> (i, c) \<in> set (enumerate k (chunks n xs)) \<Longrightarrow> set c \<subseteq> set xs \<and> i * n + length c \<le> k * n + length xs"
proof (induction n xs arbitrary: k rule: chunks.induct)
  case (1 n xs)
  show ?case
  proof (cases "xs = []")
    case False
    then consider "i = k" "c = take n xs" | "(i, c) \<in> set (enumerate (Suc k) (chunks n (drop n xs)))"
      using "1.prems" by (auto simp: chunks.simps [of n xs])
    then show ?thesis
    proof cases
      case 1
      then show ?thesis by (auto dest: in_set_takeD)
    next
      case 2
      have h: "set c \<subseteq> set (drop n xs) \<and> i * n + length c \<le> Suc k * n + length (drop n xs)"
        by (rule "1.IH" [OF _ "1.prems"(1) 2]) (use False "1.prems"(1) in simp)
      have "drop n xs \<noteq> []" using 2 by (auto simp: chunks.simps)
      then have "n \<le> length xs" by simp
      then show ?thesis using h by (auto dest: in_set_dropD)
    qed
  qed (use "1.prems" in \<open>simp add: chunks.simps\<close>)
qed

lemma build_store_get:
  assumes "files_fit U read files" and "scalars t" and "1 \<le> n"
  shows "plist_of (store_get (merge_shards (map (\<lambda>(i, c). index_shard U read hash (of_nat (i * n)) c) (enumerate 0 (chunks n files)))) (utf8_encode t)) =
     postings_from U read t 0 files"
proof -
  let ?shards = "map (\<lambda>(i, c). index_shard U read hash (of_nat (i * n)) c) (enumerate 0 (chunks n files))"
  have g: "plist_of (store_get (sh_terms (index_shard U read hash (of_nat (i * n)) c)) (utf8_encode t)) = postings_from U read t (i * n) c"
    if "(i, c) \<in> set (enumerate 0 (chunks n files))" for i c
    using chunks_bounds [OF assms(3) that] assms(1) by (intro index_shard_get [OF assms(2)]) (auto simp: files_fit_def)
  have "plist_of (store_get (merge_shards ?shards) (utf8_encode t)) =
      concat (map (\<lambda>sh. plist_of (store_get (sh_terms sh) (utf8_encode t))) ?shards)"
    unfolding merge_shards_def by (subst merge_shards_get) (auto simp: index_shard_distinct store_get_def plist_of_def)
  also have "map (\<lambda>sh. plist_of (store_get (sh_terms sh) (utf8_encode t))) ?shards =
      map (\<lambda>(i, c). postings_from U read t (i * n) c) (enumerate 0 (chunks n files))"
    using g by (auto simp del: of_nat_mult)
  also have "concat \<dots> = postings_from U read t 0 files" using chunks_postings [OF assms(3), of U read t 0 files] by simp
  finally show ?thesis .
qed

section \<open>The document table of the build\<close>

text \<open>What the query engine reads of a slot: nothing, an unindexed document, or the length of an indexed one.\<close>

definition doc_state :: "doc_table \<Rightarrow> nat \<Rightarrow> u32 option option" where
  "doc_state t i = map_option (\<lambda>m. if dm_status m = Indexed then Some (dm_len m) else None) (dt_get t i)"

lemma dt_get_set_hash: "dt_get (dt_set_hash i h t) j = (if j = i then map_option (\<lambda>m. m\<lparr>dm_content_hash := h\<rparr>) (dt_get t i) else dt_get t j)"
  by (auto simp: dt_set_hash_def dt_get_def nth_list_update split: option.splits if_splits)

lemma dt_get_set_status:
  "dt_set_status i st t = Some t' \<Longrightarrow> dt_get t' j =
     (if j = i then map_option (\<lambda>m. (if dm_status m = Indexed then m\<lparr>dm_len := 0\<rparr> else m)\<lparr>dm_status := st\<rparr>) (dt_get t i) else dt_get t j)"
  by (auto simp: dt_set_status_def dt_get_def Let_def nth_list_update split: option.splits if_splits)

lemma doc_state_hash: "doc_state (dt_set_hash i h t) = doc_state t"
  by (rule ext) (auto simp: doc_state_def dt_get_set_hash option.map_comp comp_def intro: option.map_cong)

lemma mark_step:
  assumes "doc_state t i \<noteq> None"
  shows "\<exists>t'. map_option (dt_set_hash i h) (dt_mark_indexed i len t) = Some t' \<and> doc_state t' = (doc_state t)(i := Some (Some len))"
proof -
  obtain m where m: "dt_get t i = Some m" using assms by (auto simp: doc_state_def)
  then obtain t' where t': "dt_mark_indexed i len t = Some t'" by (auto simp: dt_mark_indexed_def Let_def)
  have "doc_state t' = (doc_state t)(i := Some (Some len))"
    using dt_get_mark_indexed [OF t'] m by (auto simp: doc_state_def fun_eq_iff)
  then show ?thesis using t' by (simp add: doc_state_hash)
qed

lemma status_step:
  assumes "doc_state t i \<noteq> None" and "st \<noteq> Indexed"
  shows "\<exists>t'. dt_set_status i st t = Some t' \<and> doc_state t' = (doc_state t)(i := Some None)"
proof -
  obtain m where m: "dt_get t i = Some m" using assms by (auto simp: doc_state_def)
  then obtain t' where t': "dt_set_status i st t = Some t'" by (auto simp: dt_set_status_def Let_def split_beta)
  have "doc_state t' = (doc_state t)(i := Some None)"
    using dt_get_set_status [OF t'] m assms(2) by (auto simp: doc_state_def fun_eq_iff)
  then show ?thesis using t' by simp
qed

definition put_len :: "u32 \<times> u32 \<times> u64 \<Rightarrow> (nat \<Rightarrow> u32 option option) \<Rightarrow> nat \<Rightarrow> u32 option option" where
  "put_len x st = st(unat (fst x) := Some (Some (fst (snd x))))"

definition put_none :: "u32 \<times> doc_status \<Rightarrow> (nat \<Rightarrow> u32 option option) \<Rightarrow> nat \<Rightarrow> u32 option option" where
  "put_none x st = st(unat (fst x) := Some None)"

lemma put_other:
  "unat (fst x) \<noteq> n \<Longrightarrow> put_len x st n = st n"
  "unat (fst y) \<noteq> n \<Longrightarrow> put_none y st n = st n"
  "unat (fst y) \<noteq> n \<Longrightarrow> put_none y (st(n := v)) = (put_none y st)(n := v)"
  by (simp_all add: put_len_def put_none_def fun_upd_twist)

lemma put_keeps: "st i \<noteq> None \<Longrightarrow> put_len x st i \<noteq> None" "st i \<noteq> None \<Longrightarrow> put_none y st i \<noteq> None"
  by (simp_all add: put_len_def put_none_def)

lemma mark_fold:
  "\<forall>(d, len, h) \<in> set xs. doc_state t (unat d) \<noteq> None \<Longrightarrow>
     \<exists>t'. fold_opt (\<lambda>(doc, len, h) docs. map_option (dt_set_hash (unat doc) h) (dt_mark_indexed (unat doc) len docs)) xs t = Some t' \<and>
       doc_state t' = fold put_len xs (doc_state t)"
proof (induction xs arbitrary: t)
  case (Cons x xs)
  obtain d len h where x: "x = (d, len, h)" by (cases x)
  obtain t' where t': "map_option (dt_set_hash (unat d) h) (dt_mark_indexed (unat d) len t) = Some t'"
    "doc_state t' = put_len x (doc_state t)" using mark_step [of t "unat d" h len] Cons.prems x by (auto simp: put_len_def)
  have "\<forall>(d, len, h) \<in> set xs. doc_state t' (unat d) \<noteq> None" using Cons.prems put_keeps(1) unfolding t'(2) by fastforce
  from Cons.IH [OF this] t' x show ?case by auto
qed simp

lemma status_fold:
  "\<forall>(d, st) \<in> set xs. doc_state t (unat d) \<noteq> None \<and> st \<noteq> Indexed \<Longrightarrow>
     \<exists>t'. fold_opt (\<lambda>(doc, status) docs. dt_set_status (unat doc) status docs) xs t = Some t' \<and>
       doc_state t' = fold put_none xs (doc_state t)"
proof (induction xs arbitrary: t)
  case (Cons x xs)
  obtain d st where x: "x = (d, st)" by (cases x)
  obtain t' where t': "dt_set_status (unat d) st t = Some t'" "doc_state t' = put_none x (doc_state t)"
    using status_step [of t "unat d" st] Cons.prems x by (auto simp: put_none_def)
  have "\<forall>(d, st) \<in> set xs. doc_state t' (unat d) \<noteq> None \<and> st \<noteq> Indexed" using Cons.prems put_keeps(2) unfolding t'(2) by fastforce
  from Cons.IH [OF this] t' x show ?case by auto
qed simp

lemma hash_fold: "doc_state (fold (\<lambda>(doc, h) docs. case h of None \<Rightarrow> docs | Some h \<Rightarrow> dt_set_hash (unat doc) h docs) xs t) = doc_state t"
  by (induction xs arbitrary: t) (auto simp: doc_state_hash split: option.splits)

text \<open>A shard's effect on the table, and the files of the shard as it sees them.\<close>

definition shard_state :: "shard \<Rightarrow> (nat \<Rightarrow> u32 option option) \<Rightarrow> nat \<Rightarrow> u32 option option" where
  "shard_state sh st = fold put_none (sh_non_text sh)
     (fold put_len (sh_doc_lens sh) st)"

lemma apply_shard_state:
  assumes "\<forall>(d, len, h) \<in> set (sh_doc_lens sh). doc_state t (unat d) \<noteq> None"
    and "\<forall>(d, st) \<in> set (sh_non_text sh). doc_state t (unat d) \<noteq> None \<and> st \<noteq> Indexed"
  shows "\<exists>t'. apply_shard sh t = Some t' \<and> doc_state t' = shard_state sh (doc_state t)"
proof -
  obtain t1 where t1: "fold_opt (\<lambda>(doc, len, h) docs. map_option (dt_set_hash (unat doc) h) (dt_mark_indexed (unat doc) len docs)) (sh_doc_lens sh) t = Some t1"
    "doc_state t1 = fold put_len (sh_doc_lens sh) (doc_state t)"
    using mark_fold [OF assms(1)] by blast
  define t2 where "t2 = fold (\<lambda>(doc, h) docs. case h of None \<Rightarrow> docs | Some h \<Rightarrow> dt_set_hash (unat doc) h docs) (sh_skipped sh) t1"
  have t2: "doc_state t2 = doc_state t1" unfolding t2_def by (rule hash_fold)
  have keep: "st i \<noteq> None \<Longrightarrow> fold put_len xs st i \<noteq> None"
    for xs :: "(u32 \<times> u32 \<times> u64) list" and st i
  proof (induction xs arbitrary: st)
    case (Cons x xs)
    have "put_len x st i \<noteq> None" using Cons.prems by (rule put_keeps(1))
    then have "fold put_len xs (put_len x st) i \<noteq> None" by (rule Cons.IH)
    then show ?case by simp
  qed simp
  have "\<forall>(d, st) \<in> set (sh_non_text sh). doc_state t2 (unat d) \<noteq> None \<and> st \<noteq> Indexed"
    unfolding t2 t1(2) using assms(2) keep by fastforce
  from status_fold [OF this] obtain t3 where
    "fold_opt (\<lambda>(doc, status) docs. dt_set_status (unat doc) status docs) (sh_non_text sh) t2 = Some t3"
    "doc_state t3 = fold put_none (sh_non_text sh) (doc_state t2)" by blast
  then show ?thesis using t1 t2 by (simp add: apply_shard_def shard_state_def t2_def Let_def)
qed

text \<open>The lengths a range of files contributes.\<close>

definition file_len :: "unicode \<Rightarrow> (bytes \<Rightarrow> bytes option) \<Rightarrow> file_entry \<Rightarrow> u32 option" where
  "file_len U read cf = map_option (\<lambda>text. of_nat (length (text_atoms U text))) (doc_text read cf)"

lemma index_file_state:
  assumes "n < 2 ^ 32" and "st n = Some None"
    and "\<forall>d \<in> fst ` set (sh_non_text sh) \<union> fst ` set (sh_doc_lens sh). unat d \<noteq> n"
  shows "shard_state (index_file U read hash (of_nat n) cf sh) st = (shard_state sh st)(n := Some (file_len U read cf))"
proof -
  have u: "unat (of_nat n :: u32) = n" using assms(1) by (simp add: unsigned_of_nat take_bit_nat_eq_self)
  have lens: "\<forall>d \<in> fst ` set xs. unat d \<noteq> n \<Longrightarrow> fold put_len xs st n = st n"
    for xs st by (induction xs arbitrary: st) (auto simp: put_other)
  have nons: "\<forall>d \<in> fst ` set xs. unat d \<noteq> n \<Longrightarrow> fold put_none xs st n = st n"
    for xs st by (induction xs arbitrary: st) (auto simp: put_other)
  have nons_upd: "\<forall>d \<in> fst ` set xs. unat d \<noteq> n \<Longrightarrow> fold put_none xs (st(n := v)) = (fold put_none xs st)(n := v)"
    for xs st v by (induction xs arbitrary: st) (simp_all add: put_other)
  have same: "shard_state sh st n = Some None" using assms(2,3) lens nons by (simp add: shard_state_def)
  show ?thesis
  proof (cases "fe_kind cf")
    case FText
    show ?thesis
    proof (cases "doc_text read cf")
      case None
      then have "shard_state (index_file U read hash (of_nat n) cf sh) st = shard_state sh st"
        using FText by (auto simp: index_file_def doc_text_def shard_state_def split: option.splits bind_splits)
      then show ?thesis using same None by (auto simp: file_len_def)
    next
      case (Some w)
      then have "shard_state (index_file U read hash (of_nat n) cf sh) st =
          (shard_state sh st)(n := Some (Some (of_nat (length (text_atoms U w)))))"
        using FText nons_upd assms(3) u
        by (auto simp: index_file_def doc_text_def shard_state_def index_document_eq put_len_def split: option.splits bind_splits)
      then show ?thesis using Some by (simp add: file_len_def)
    qed
  qed (simp_all add: index_file_def shard_state_def u file_len_def doc_text_def put_none_def)
qed

lemma index_file_ids:
  "fst ` set (sh_non_text (index_file U read hash d cf sh)) \<union> fst ` set (sh_doc_lens (index_file U read hash d cf sh)) \<subseteq>
     insert d (fst ` set (sh_non_text sh) \<union> fst ` set (sh_doc_lens sh))"
  "\<forall>x \<in> set (sh_non_text sh). snd x \<noteq> Indexed \<Longrightarrow> \<forall>x \<in> set (sh_non_text (index_file U read hash d cf sh)). snd x \<noteq> Indexed"
  by (auto simp: index_file_def index_document_eq split: file_kind.splits option.splits)

text \<open>The ids a shard mentions, and that it marks nothing as indexed that is not text.\<close>

definition ids_in :: "nat \<Rightarrow> nat \<Rightarrow> shard \<Rightarrow> bool" where
  "ids_in a b sh \<longleftrightarrow> (\<forall>d \<in> fst ` set (sh_non_text sh) \<union> fst ` set (sh_doc_lens sh). a \<le> unat d \<and> unat d < b) \<and>
     (\<forall>x \<in> set (sh_non_text sh). snd x \<noteq> Indexed)"

lemma index_file_ids_in:
  assumes "ids_in a n sh" and "a \<le> n" and "n < 2 ^ 32"
  shows "ids_in a (n + 1) (index_file U read hash (of_nat n) cf sh)"
proof -
  have u: "unat (of_nat n :: u32) = n" using assms(3) by (simp add: unsigned_of_nat take_bit_nat_eq_self)
  show ?thesis unfolding ids_in_def
  proof (intro conjI ballI)
    fix d assume "d \<in> fst ` set (sh_non_text (index_file U read hash (of_nat n) cf sh)) \<union>
        fst ` set (sh_doc_lens (index_file U read hash (of_nat n) cf sh))"
    then have "d = of_nat n \<or> d \<in> fst ` set (sh_non_text sh) \<union> fst ` set (sh_doc_lens sh)" using index_file_ids(1) by blast
    then have "a \<le> unat d \<and> unat d < n + 1"
    proof
      assume "d \<in> fst ` set (sh_non_text sh) \<union> fst ` set (sh_doc_lens sh)"
      then have "a \<le> unat d \<and> unat d < n" using assms(1) by (simp add: ids_in_def)
      then show ?thesis by simp
    qed (use assms(2) u in simp)
    then show "a \<le> unat d" "unat d < n + 1" by simp_all
  next
    fix x assume "x \<in> set (sh_non_text (index_file U read hash (of_nat n) cf sh))"
    moreover have "\<forall>x \<in> set (sh_non_text sh). snd x \<noteq> Indexed" using assms(1) by (simp add: ids_in_def)
    ultimately show "snd x \<noteq> Indexed" using index_file_ids(2) by blast
  qed
qed

lemma index_shard_state_fold:
  assumes "ids_in n (n + k) sh" and "n + k + length files \<le> 2 ^ 32"
    and "\<forall>i. n + k \<le> i \<and> i < n + k + length files \<longrightarrow> st i = Some None"
  shows "ids_in n (n + k + length files) (fold (\<lambda>(i, cf) sh. index_file U read hash (of_nat n + of_nat i) cf sh) (enumerate k files) sh) \<and>
     shard_state (fold (\<lambda>(i, cf) sh. index_file U read hash (of_nat n + of_nat i) cf sh) (enumerate k files) sh) st =
       (\<lambda>i. if n + k \<le> i \<and> i < n + k + length files then Some (file_len U read (files ! (i - (n + k)))) else shard_state sh st i)"
  using assms
proof (induction files arbitrary: k sh)
  case Nil
  then show ?case by (auto simp: fun_eq_iff)
next
  case (Cons cf files)
  let ?sh = "index_file U read hash (of_nat (n + k)) cf sh"
  have ids: "ids_in n (n + Suc k) ?sh" using index_file_ids_in [OF Cons.prems(1)] Cons.prems(2) by simp
  have step: "shard_state ?sh st = (shard_state sh st)(n + k := Some (file_len U read cf))"
  proof (rule index_file_state)
    show "\<forall>d \<in> fst ` set (sh_non_text sh) \<union> fst ` set (sh_doc_lens sh). unat d \<noteq> n + k"
      using Cons.prems(1) unfolding ids_in_def by (metis less_irrefl)
  qed (use Cons.prems in simp_all)
  have ih: "ids_in n (n + Suc k + length files) (fold (\<lambda>(i, cf) sh. index_file U read hash (of_nat n + of_nat i) cf sh) (enumerate (Suc k) files) ?sh) \<and>
     shard_state (fold (\<lambda>(i, cf) sh. index_file U read hash (of_nat n + of_nat i) cf sh) (enumerate (Suc k) files) ?sh) st =
       (\<lambda>i. if n + Suc k \<le> i \<and> i < n + Suc k + length files then Some (file_len U read (files ! (i - (n + Suc k)))) else shard_state ?sh st i)"
    by (rule Cons.IH [OF ids]) (use Cons.prems in auto)
  moreover have "(if n + Suc k \<le> i \<and> i < n + Suc k + length files then Some (file_len U read (files ! (i - (n + Suc k)))) else shard_state ?sh st i) =
      (if n + k \<le> i \<and> i < n + k + length (cf # files) then Some (file_len U read ((cf # files) ! (i - (n + k)))) else shard_state sh st i)" for i
  proof (cases "n + k < i \<and> i < n + k + length (cf # files)")
    case True
    then have "i - (n + k) = Suc (i - (n + Suc k))" by linarith
    then show ?thesis using True by simp
  next
    case False
    then show ?thesis unfolding step by auto
  qed
  ultimately show ?case by simp
qed

lemma index_shard_state:
  assumes "n + length files \<le> 2 ^ 32" and "\<forall>i. n \<le> i \<and> i < n + length files \<longrightarrow> st i = Some None"
  shows "ids_in n (n + length files) (index_shard U read hash (of_nat n) files) \<and>
     shard_state (index_shard U read hash (of_nat n) files) st =
       (\<lambda>i. if n \<le> i \<and> i < n + length files then Some (file_len U read (files ! (i - n))) else st i)"
proof -
  let ?sh = "\<lparr>sh_first_doc = of_nat n, sh_terms = [], sh_doc_lens = [], sh_skipped = [], sh_non_text = [], sh_tokens = 0\<rparr>"
  have "ids_in n (n + 0) ?sh" "shard_state ?sh st = st" by (simp_all add: ids_in_def shard_state_def)
  then show ?thesis using index_shard_state_fold [of n 0 ?sh files st U read hash] assms
    by (simp add: index_shard_def fun_eq_iff)
qed

lemma apply_shards_state:
  assumes "1 \<le> n" and "k * n + length xs \<le> 2 ^ 32" and "\<forall>i. k * n \<le> i \<and> i < k * n + length xs \<longrightarrow> doc_state t i = Some None"
  shows "\<exists>t'. fold_opt apply_shard (map (\<lambda>(i, c). index_shard U read hash (of_nat (i * n)) c) (enumerate k (chunks n xs))) t = Some t' \<and>
     doc_state t' = (\<lambda>i. if k * n \<le> i \<and> i < k * n + length xs then Some (file_len U read (xs ! (i - k * n))) else doc_state t i)"
  using assms
proof (induction n xs arbitrary: k t rule: chunks.induct)
  case (1 n xs)
  show ?case
  proof (cases "xs = []")
    case True
    then show ?thesis by (auto simp: chunks.simps fun_eq_iff)
  next
    case False
    define c where "c = take n xs"
    define sh where "sh = index_shard U read hash (of_nat (k * n)) c"
    have lc: "length c \<le> length xs" by (simp add: c_def)
    have s: "ids_in (k * n) (k * n + length c) sh \<and>
        shard_state sh (doc_state t) = (\<lambda>i. if k * n \<le> i \<and> i < k * n + length c then Some (file_len U read (c ! (i - k * n))) else doc_state t i)"
      unfolding sh_def by (rule index_shard_state) (use "1.prems"(2,3) lc in auto)
    have ids: "doc_state t (unat d) \<noteq> None" if "d \<in> fst ` set (sh_non_text sh) \<union> fst ` set (sh_doc_lens sh)" for d
    proof -
      have "k * n \<le> unat d \<and> unat d < k * n + length c" using s that unfolding ids_in_def by blast
      then have "doc_state t (unat d) = Some None" using "1.prems"(3) lc by simp
      then show ?thesis by simp
    qed
    have "\<forall>(d, len, h) \<in> set (sh_doc_lens sh). doc_state t (unat d) \<noteq> None" using ids by force
    moreover have "\<forall>(d, st) \<in> set (sh_non_text sh). doc_state t (unat d) \<noteq> None \<and> st \<noteq> Indexed"
      using ids s unfolding ids_in_def by force
    ultimately obtain t1 where t1: "apply_shard sh t = Some t1" "doc_state t1 = shard_state sh (doc_state t)"
      using apply_shard_state [of sh t] by blast
    have st1: "doc_state t1 i = (if k * n \<le> i \<and> i < k * n + length c then Some (file_len U read (c ! (i - k * n))) else doc_state t i)" for i
      using t1(2) s by simp
    have "\<exists>t'. fold_opt apply_shard (map (\<lambda>(i, c). index_shard U read hash (of_nat (i * n)) c) (enumerate (Suc k) (chunks n (drop n xs)))) t1 = Some t' \<and>
        doc_state t' = (\<lambda>i. if Suc k * n \<le> i \<and> i < Suc k * n + length (drop n xs) then Some (file_len U read (drop n xs ! (i - Suc k * n))) else doc_state t1 i)"
      if "n < length xs"
    proof (rule "1.IH")
      show "\<not> (xs = [] \<or> n = 0)" "1 \<le> n" using False "1.prems"(1) by simp_all
      show "Suc k * n + length (drop n xs) \<le> 2 ^ 32" using that "1.prems"(2) by simp
      show "\<forall>i. Suc k * n \<le> i \<and> i < Suc k * n + length (drop n xs) \<longrightarrow> doc_state t1 i = Some None"
        using st1 "1.prems"(3) that by (auto simp: c_def)
    qed
    then obtain t' where t': "fold_opt apply_shard (map (\<lambda>(i, c). index_shard U read hash (of_nat (i * n)) c) (enumerate (Suc k) (chunks n (drop n xs)))) t1 = Some t'"
      "doc_state t' = (\<lambda>i. if Suc k * n \<le> i \<and> i < Suc k * n + length (drop n xs) then Some (file_len U read (drop n xs ! (i - Suc k * n))) else doc_state t1 i)"
    proof (cases "n < length xs")
      case False
      then show ?thesis by (intro that [of t1]) (auto simp: chunks.simps fun_eq_iff)
    qed blast
    have "doc_state t' i = (if k * n \<le> i \<and> i < k * n + length xs then Some (file_len U read (xs ! (i - k * n))) else doc_state t i)" for i
    proof (cases "Suc k * n \<le> i \<and> i < k * n + length xs")
      case True
      then have "n + (i - Suc k * n) = i - k * n" "i < Suc k * n + length (drop n xs)" by auto
      then show ?thesis using True t'(2) by (simp add: add.commute)
    next
      case False
      then have "doc_state t' i = doc_state t1 i" using t'(2) by auto
      then show ?thesis using False st1 [of i] by (auto simp: c_def)
    qed
    moreover have "fold_opt apply_shard (map (\<lambda>(i, c). index_shard U read hash (of_nat (i * n)) c) (enumerate k (chunks n xs))) t = Some t'"
      using t1(1) t'(1) False "1.prems"(1) by (simp add: chunks.simps [of n xs] sh_def c_def)
    ultimately show ?thesis by (auto simp: fun_eq_iff)
  qed
qed

lemma insert_fold:
  "length (dt_slots t) = k \<Longrightarrow> \<exists>t'. fold_opt (\<lambda>(i, cf). dt_insert i (from_entry cf)) (enumerate k files) t = Some t' \<and>
     dt_slots t' = dt_slots t @ map (\<lambda>cf. Some (from_entry cf)) files"
proof (induction files arbitrary: k t)
  case (Cons cf files)
  obtain t1 where t1: "dt_insert k (from_entry cf) t = Some t1" "dt_slots t1 = dt_slots t @ [Some (from_entry cf)]"
    using Cons.prems by (auto simp: dt_insert_def Let_def from_entry_def nth_append list_update_append)
  have "length (dt_slots t1) = Suc k" using t1(2) Cons.prems by simp
  from Cons.IH [OF this] t1 show ?case by auto
qed simp

text \<open>The build: it does not panic, and this is what it records.\<close>

lemma build_correct:
  assumes "files_fit U read files"
  shows "\<exists>idx. build_crawled U read hash n files = Some idx \<and>
     (\<forall>t. scalars t \<longrightarrow> plist_of (store_get (mi_terms idx) (utf8_encode t)) = postings_from U read t 0 files) \<and>
     (\<forall>i. doc_state (mi_docs idx) i = (if i < length files then Some (file_len U read (files ! i)) else None)) \<and>
     length (dt_slots (mi_docs idx)) = length files"
proof -
  let ?n = "max n 1"
  let ?shards = "map (\<lambda>(i, c). index_shard U read hash (of_nat (i * ?n)) c) (enumerate 0 (chunks ?n files))"
  obtain t0 where t0: "fold_opt (\<lambda>(i, cf). dt_insert i (from_entry cf)) (enumerate 0 files) dt_new = Some t0"
    "dt_slots t0 = map (\<lambda>cf. Some (from_entry cf)) files" using insert_fold [of dt_new 0 files] by (auto simp: dt_new_def)
  have st0: "doc_state t0 = (\<lambda>i. if i < length files then Some None else None)"
    using t0(2) by (auto simp: doc_state_def dt_get_def from_entry_def fun_eq_iff)
  obtain t1 where t1: "fold_opt apply_shard ?shards t0 = Some t1"
    "doc_state t1 = (\<lambda>i. if i < length files then Some (file_len U read (files ! i)) else None)"
    using apply_shards_state [of ?n 0 files t0 U read hash] st0 assms by (auto simp: files_fit_def fun_eq_iff)
  have "length (dt_slots t1) = length files"
  proof -
    have mark: "dt_mark_indexed i l t = Some t' \<Longrightarrow> length (dt_slots t') = length (dt_slots t)" for i l t t'
      by (auto simp: dt_mark_indexed_def Let_def split: option.splits)
    have hash: "length (dt_slots (dt_set_hash i h t)) = length (dt_slots t)" for i h t
      by (auto simp: dt_set_hash_def split: option.splits)
    have status: "dt_set_status i s t = Some t' \<Longrightarrow> length (dt_slots t') = length (dt_slots t)" for i s t t'
      by (auto simp: dt_set_status_def Let_def split: option.splits prod.splits if_splits)
    have gen: "(\<And>x s s'. f x s = Some s' \<Longrightarrow> length (dt_slots s') = length (dt_slots s)) \<Longrightarrow> fold_opt f xs s = Some s' \<Longrightarrow>
        length (dt_slots s') = length (dt_slots s)" for f :: "'b \<Rightarrow> doc_table \<Rightarrow> doc_table option" and xs s s'
      by (induction xs arbitrary: s) (auto split: bind_splits)
    have fh: "length (dt_slots (fold (\<lambda>(doc, h) docs. case h of None \<Rightarrow> docs | Some h \<Rightarrow> dt_set_hash (unat doc) h docs) xs t)) = length (dt_slots t)"
      for xs :: "(u32 \<times> u64 option) list" and t by (induction xs arbitrary: t) (auto simp: hash split: option.splits)
    have g1: "fold_opt (\<lambda>(doc, len, h) docs. map_option (dt_set_hash (unat doc) h) (dt_mark_indexed (unat doc) len docs)) xs t = Some t' \<Longrightarrow>
        length (dt_slots t') = length (dt_slots t)" for xs :: "(u32 \<times> u32 \<times> u64) list" and t t'
    proof (induction xs arbitrary: t)
      case (Cons x xs)
      then show ?case using mark hash by (cases x) (fastforce split: bind_splits)
    qed simp
    have g2: "fold_opt (\<lambda>(doc, status) docs. dt_set_status (unat doc) status docs) xs t = Some t' \<Longrightarrow>
        length (dt_slots t') = length (dt_slots t)" for xs :: "(u32 \<times> doc_status) list" and t t'
    proof (induction xs arbitrary: t)
      case (Cons x xs)
      then show ?case using status by (cases x) (fastforce split: bind_splits)
    qed simp
    have "apply_shard sh t = Some t' \<Longrightarrow> length (dt_slots t') = length (dt_slots t)" for sh t t'
      unfolding apply_shard_def Let_def by (auto dest!: g1 g2 simp: fh split: bind_splits)
    then have "fold_opt apply_shard xs t = Some t' \<Longrightarrow> length (dt_slots t') = length (dt_slots t)" for xs t t'
      by (induction xs arbitrary: t) (auto split: bind_splits)
    from this [OF t1(1)] show ?thesis using t0(2) by simp
  qed
  moreover have "plist_of (store_get (merge_shards ?shards) (utf8_encode t)) = postings_from U read t 0 files" if "scalars t" for t
    using build_store_get [OF assms that, of ?n hash] by simp
  ultimately show ?thesis using t0(1) t1 by (simp add: build_crawled_def Let_def)
qed

end
