(* ===== verification/Parser.thy ===== *)
theory Parser
  imports Tokenizer
begin

text \<open>
  The query language (\<open>src/query/parser.rs\<close>): lexer, recursive-descent parser, and the terms of a query
  (\<open>Query::highlight_terms\<close> of \<open>src/query/mod.rs\<close>).

  A \<open>Parser\<close> is its tokens and an index that only moves forward; the state of the model is the list of
  tokens from that index on. The mutually recursive functions take fuel, and \<open>None\<close> is running out of it:
  \<open>parse\<close> starts with \<open>length + 2\<close> units, which is enough for every input (\<open>parse_or_fuel\<close>).

  Main facts: the parser always answers (\<open>parse_returns_lemma\<close>); what it accepts is a well-formed tree, with
  a positive clause in every conjunction (\<open>parse_wf_lemma\<close>); every well-formed tree is the parse of its
  printed form (\<open>parse_or_print\<close>).
\<close>

section \<open>Trees and tokens\<close>

datatype node =
    Term ustr
  | Phrase "ustr list"
  | And "node list" "node list"     \<comment> \<open>must, must_not\<close>
  | Or "node list"

datatype tok = TWord ustr | TPhrase ustr | TAnd | TOr | TMinus | TLParen | TRParen

type_synonym toks = "(nat \<times> tok) list"

datatype query_error =
    QEmpty
  | Unexpected ustr nat             \<comment> \<open>found, at\<close>
  | UnterminatedPhrase nat
  | UnbalancedParen nat
  | OnlyNegation

fun describe :: "tok \<Rightarrow> ustr" where
  "describe (TWord w) = w"
| "describe (TPhrase p) = [34] @ p @ [34]"
| "describe TAnd = str ''AND''"
| "describe TOr = str ''OR''"
| "describe TMinus = str ''-''"
| "describe TLParen = str ''(''"
| "describe TRParen = str '')''"

section \<open>Lexer\<close>

definition word_end :: "unicode \<Rightarrow> uchar \<Rightarrow> bool" where
  "word_end U d \<longleftrightarrow> is_whitespace U d \<or> d \<in> {40, 41, 34}"

definition word_tok :: "ustr \<Rightarrow> tok" where
  "word_tok w = (if w = str ''AND'' then TAnd else if w = str ''OR'' then TOr else TWord w)"

text \<open>\<open>lex_from U i cs\<close>: the loop at byte offset \<open>i\<close>, with the characters \<open>cs\<close> left.\<close>

function lex_from :: "unicode \<Rightarrow> nat \<Rightarrow> ustr \<Rightarrow> query_error + toks" where
  "lex_from U i [] = Inr []"
| "lex_from U i (c # cs) =
     (if is_whitespace U c then lex_from U (i + utf8_width c) cs
      else if c = 40 then and_then (lex_from U (i + 1) cs) (\<lambda>ts. Inr ((i, TLParen) # ts))
      else if c = 41 then and_then (lex_from U (i + 1) cs) (\<lambda>ts. Inr ((i, TRParen) # ts))
      else if c = 34 then
        (let body = takeWhile (\<lambda>d. d \<noteq> 34) cs; rest = dropWhile (\<lambda>d. d \<noteq> 34) cs in
         if rest = [] then Inl (UnterminatedPhrase i)
         else and_then (lex_from U (i + 1 + utf8_len body + 1) (tl rest)) (\<lambda>ts. Inr ((i, TPhrase body) # ts)))
      else if c = 45 then
        (if cs \<noteq> [] \<and> \<not> is_whitespace U (hd cs)
         then and_then (lex_from U (i + 1) cs) (\<lambda>ts. Inr ((i, TMinus) # ts))
         else lex_from U (i + 1) cs)
      else let word = c # takeWhile (\<lambda>d. \<not> word_end U d) cs; rest = dropWhile (\<lambda>d. \<not> word_end U d) cs
           in and_then (lex_from U (i + utf8_len word) rest) (\<lambda>ts. Inr ((i, word_tok word) # ts)))"
  by pat_completeness auto
termination
proof (relation "measure (\<lambda>(U, i, cs). length cs)", goal_cases)
  case (5 U i c cs body rest)
  then show ?case using dropWhile_shorter [of "\<lambda>d. d \<noteq> 34" cs] by (cases rest) auto
qed (auto simp: le_imp_less_Suc dropWhile_shorter)

declare lex_from.simps(2) [simp del]

definition lex :: "unicode \<Rightarrow> ustr \<Rightarrow> query_error + toks" where
  "lex U src = lex_from U 0 src"

section \<open>Parser\<close>

type_synonym 'a presult = "(query_error + 'a \<times> toks) option"

definition bindP :: "'a presult \<Rightarrow> ('a \<Rightarrow> toks \<Rightarrow> 'b presult) \<Rightarrow> 'b presult" where
  "bindP r f = (case r of None \<Rightarrow> None | Some (Inl e) \<Rightarrow> Some (Inl e) | Some (Inr (x, ts)) \<Rightarrow> f x ts)"

lemma bindP_simps [simp]:
  "bindP None f = None"
  "bindP (Some (Inl e)) f = Some (Inl e)"
  "bindP (Some (Inr (x, ts))) f = f x ts"
  by (simp_all add: bindP_def)

definition starts_operand :: "toks \<Rightarrow> bool" where
  "starts_operand ts =
     (case ts of [] \<Rightarrow> False
      | (_, t) # _ \<Rightarrow> (case t of TWord _ \<Rightarrow> True | TPhrase _ \<Rightarrow> True | TMinus \<Rightarrow> True | TLParen \<Rightarrow> True | _ \<Rightarrow> False))"

definition text_to_node :: "unicode \<Rightarrow> ustr \<Rightarrow> node option" where
  "text_to_node U text =
     (case map tok_term (atoms U text) of [] \<Rightarrow> None | [t] \<Rightarrow> Some (Term t) | ts \<Rightarrow> Some (Phrase ts))"

definition finish_and :: "node list \<Rightarrow> node list \<Rightarrow> toks \<Rightarrow> node presult" where
  "finish_and must must_not ts =
     (if must = [] then
        (if must_not \<noteq> [] then Some (Inl OnlyNegation)
         else case ts of (at, t) # _ \<Rightarrow> Some (Inl (Unexpected (describe t) at)) | [] \<Rightarrow> Some (Inl QEmpty))
      else if length must = 1 \<and> must_not = [] then Some (Inr (hd must, ts))
      else Some (Inr (And must must_not, ts)))"

text \<open>
  \<open>parse_atom\<close> recurses into \<open>parse_or\<close>, which is its argument \<open>or_call\<close>; the two loops take fuel of
  their own, and \<open>parse_or\<close> with \<open>Suc n\<close> units gives \<open>n\<close> to everything below it.
\<close>

type_synonym or_call = "toks \<Rightarrow> node presult"

definition parse_atom :: "unicode \<Rightarrow> or_call \<Rightarrow> toks \<Rightarrow> node option presult" where
  "parse_atom U or_call ts =
     (case ts of
        [] \<Rightarrow> Some (Inl QEmpty)
      | (at, t) # ts' \<Rightarrow>
          (case t of
             TLParen \<Rightarrow> bindP (or_call ts') (\<lambda>nd ts.
               case ts of (_, TRParen) # ts'' \<Rightarrow> Some (Inr (Some nd, ts'')) | _ \<Rightarrow> Some (Inl (UnbalancedParen at)))
           | TWord w \<Rightarrow> Some (Inr (text_to_node U w, ts'))
           | TPhrase p \<Rightarrow> Some (Inr (text_to_node U p, ts'))
           | other \<Rightarrow> Some (Inl (Unexpected (describe other) at))))"

definition next_is :: "tok \<Rightarrow> toks \<Rightarrow> bool" where
  "next_is t ts = (case ts of [] \<Rightarrow> False | (_, u) # _ \<Rightarrow> u = t)"

definition parse_unary :: "unicode \<Rightarrow> or_call \<Rightarrow> toks \<Rightarrow> (node \<times> bool) option presult" where
  "parse_unary U or_call ts =
     (let negated = next_is TMinus ts
      in bindP (parse_atom U or_call (if negated then tl ts else ts))
           (\<lambda>r ts. Some (Inr (map_option (\<lambda>nd. (nd, negated)) r, ts))))"

primrec parse_and :: "unicode \<Rightarrow> or_call \<Rightarrow> nat \<Rightarrow> node list \<Rightarrow> node list \<Rightarrow> toks \<Rightarrow> node presult" where
  "parse_and U or_call 0 must must_not ts = None"
| "parse_and U or_call (Suc n) must must_not ts =
     (if ts = [] \<or> next_is TOr ts \<or> next_is TRParen ts then finish_and must must_not ts
      else if next_is TAnd ts then
        (if must = [] \<and> must_not = [] \<or> \<not> starts_operand (tl ts)
         then Some (Inl (Unexpected (str ''AND'') (fst (hd ts))))
         else parse_and U or_call n must must_not (tl ts))
      else bindP (parse_unary U or_call ts) (\<lambda>r ts.
        case r of
          None \<Rightarrow> parse_and U or_call n must must_not ts
        | Some (nd, negated) \<Rightarrow>
            if negated then parse_and U or_call n must (must_not @ [nd]) ts
            else parse_and U or_call n (must @ [nd]) must_not ts))"

primrec or_loop :: "unicode \<Rightarrow> or_call \<Rightarrow> nat \<Rightarrow> node list \<Rightarrow> toks \<Rightarrow> node presult" where
  "or_loop U or_call 0 children ts = None"
| "or_loop U or_call (Suc n) children ts =
     (if next_is TOr ts then
        (if \<not> starts_operand (tl ts) then Some (Inl (Unexpected (str ''OR'') (fst (hd ts))))
         else bindP (parse_and U or_call n [] [] (tl ts)) (\<lambda>c ts. or_loop U or_call n (children @ [c]) ts))
      else Some (Inr (if length children = 1 then hd children else Or children, ts)))"

primrec parse_or :: "unicode \<Rightarrow> nat \<Rightarrow> toks \<Rightarrow> node presult" where
  "parse_or U 0 ts = None"
| "parse_or U (Suc n) ts =
     bindP (parse_and U (parse_or U n) n [] [] ts) (\<lambda>c ts. or_loop U (parse_or U n) n [c] ts)"

definition parse_fuel :: "toks \<Rightarrow> nat" where
  "parse_fuel toks = length toks + 2"

definition parse_toks :: "unicode \<Rightarrow> toks \<Rightarrow> (query_error + node) option" where
  "parse_toks U toks =
     (case parse_or U (parse_fuel toks) toks of
        None \<Rightarrow> None
      | Some (Inl e) \<Rightarrow> Some (Inl e)
      | Some (Inr (nd, [])) \<Rightarrow> Some (Inr nd)
      | Some (Inr (nd, (at, t) # _)) \<Rightarrow>
          Some (Inl (if t = TRParen then UnbalancedParen at else Unexpected (describe t) at)))"

definition parse :: "unicode \<Rightarrow> ustr \<Rightarrow> (query_error + node) option" where
  "parse U input =
     (case lex U input of
        Inl e \<Rightarrow> Some (Inl e)
      | Inr toks \<Rightarrow> if toks = [] then Some (Inl QEmpty) else parse_toks U toks)"

section \<open>The terms of a query\<close>

definition add_term :: "ustr \<Rightarrow> ustr list \<Rightarrow> ustr list" where
  "add_term t out = (if t \<in> set out then out else out @ [t])"

fun highlight_walk :: "node \<Rightarrow> ustr list \<Rightarrow> ustr list" where
  "highlight_walk (Term t) out = add_term t out"
| "highlight_walk (Phrase ts) out = fold add_term ts out"
| "highlight_walk (And must must_not) out = fold highlight_walk must out"
| "highlight_walk (Or cs) out = fold highlight_walk cs out"

definition highlight_terms :: "node \<Rightarrow> ustr list" where
  "highlight_terms root = highlight_walk root []"

section \<open>The parser always answers\<close>

lemma presult_cases:
  obtains "r = None" | e where "r = Some (Inl e)" | x ts where "r = Some (Inr (x, ts))"
  by (cases r; cases "the r"; cases "projr (the r)") auto

definition answers :: "'a presult \<Rightarrow> nat \<Rightarrow> bool" where
  "answers r k \<longleftrightarrow> (case r of None \<Rightarrow> False | Some (Inl e) \<Rightarrow> True | Some (Inr (x, ts)) \<Rightarrow> length ts \<le> k)"

lemma answers_simps [simp]:
  "\<not> answers None k"
  "answers (Some (Inl e)) k"
  "answers (Some (Inr (x, ts))) k \<longleftrightarrow> length ts \<le> k"
  by (simp_all add: answers_def)

lemma answers_bind:
  "answers r k \<Longrightarrow> (\<And>x ts. length ts \<le> k \<Longrightarrow> answers (f x ts) k') \<Longrightarrow> answers (bindP r f) k'"
  by (cases r rule: presult_cases) simp_all

lemma answers_mono: "answers r k \<Longrightarrow> k \<le> k' \<Longrightarrow> answers r k'"
  by (auto simp: answers_def split: option.splits sum.splits)

lemma finish_and_answers: "answers (finish_and must must_not ts) (length ts)"
  by (auto simp: finish_and_def split: list.splits)

lemma parse_atom_answers:
  assumes "\<And>ts. length ts < l \<Longrightarrow> answers (or_call ts) (length ts)" and "length ts \<le> l"
  shows "answers (parse_atom U or_call ts) (length ts - 1)"
proof (cases ts)
  case (Cons p ts')
  obtain at t where p: "p = (at, t)" by force
  have "answers (bindP (or_call ts') (\<lambda>nd ts. case ts of (_, TRParen) # ts'' \<Rightarrow> Some (Inr (Some nd, ts''))
      | _ \<Rightarrow> Some (Inl (UnbalancedParen at)))) (length ts')"
    using assms Cons by (intro answers_bind [OF assms(1)]) (auto split: list.splits tok.splits)
  then show ?thesis using Cons p by (cases t) (simp_all add: parse_atom_def)
qed (simp add: parse_atom_def)

lemma parse_unary_answers:
  assumes "\<And>ts. length ts < l \<Longrightarrow> answers (or_call ts) (length ts)" and "length ts \<le> l"
  shows "answers (parse_unary U or_call ts) (length ts - 1)"
  unfolding parse_unary_def Let_def
  by (rule answers_bind [OF answers_mono [OF parse_atom_answers [OF assms(1)]]]) (use assms(2) in auto)

lemma parse_and_answers:
  assumes "\<And>ts. length ts < l \<Longrightarrow> answers (or_call ts) (length ts)"
  shows "length ts < n \<Longrightarrow> length ts \<le> l \<Longrightarrow> answers (parse_and U or_call n must must_not ts) (length ts)"
proof (induction n arbitrary: must must_not ts)
  case (Suc n)
  show ?case
  proof (cases "ts = []")
    case False
    have step: "answers (parse_and U or_call n m mn ts') (length ts)" if "length ts' \<le> length ts - 1" for m mn ts'
    proof -
      have "length ts' < length ts" using that False by (cases ts) simp_all
      then show ?thesis using Suc.prems by (intro answers_mono [OF Suc.IH]) simp_all
    qed
    have "answers (bindP (parse_unary U or_call ts) (\<lambda>r ts.
        case r of None \<Rightarrow> parse_and U or_call n must must_not ts
        | Some (nd, negated) \<Rightarrow> if negated then parse_and U or_call n must (must_not @ [nd]) ts
            else parse_and U or_call n (must @ [nd]) must_not ts)) (length ts)"
      by (rule answers_bind [OF parse_unary_answers [OF assms Suc.prems(2)]]) (auto intro: step split: option.splits)
    then show ?thesis using finish_and_answers [of must must_not ts] step [of "tl ts"] by (simp del: diff_le_self)
  qed (use finish_and_answers [of must must_not ts] in simp)
qed simp

lemma or_loop_answers:
  assumes "\<And>ts. length ts < l \<Longrightarrow> answers (or_call ts) (length ts)"
  shows "length ts < n \<Longrightarrow> length ts \<le> l \<Longrightarrow> answers (or_loop U or_call n children ts) (length ts)"
proof (induction n arbitrary: children ts)
  case (Suc n)
  have "answers (bindP (parse_and U or_call n [] [] (tl ts)) (\<lambda>c ts. or_loop U or_call n (children @ [c]) ts)) (length ts)"
    if "next_is TOr ts"
  proof -
    have ts: "length (tl ts) < length ts" using that by (cases ts) (simp_all add: next_is_def)
    have a: "answers (parse_and U or_call n [] [] (tl ts)) (length (tl ts))"
      by (rule parse_and_answers [where l = l]) (use assms Suc.prems ts in linarith | use assms in blast)+
    show ?thesis
    proof (rule answers_bind [OF a])
      show "answers (or_loop U or_call n (children @ [x]) ts') (length ts)" if "length ts' \<le> length (tl ts)" for x ts'
        using Suc.prems ts that by (intro answers_mono [OF Suc.IH]) linarith+
    qed
  qed
  then show ?case by simp
qed simp

lemma parse_or_fuel: "length ts + 2 \<le> n \<Longrightarrow> answers (parse_or U n ts) (length ts)"
proof (induction n arbitrary: ts)
  case (Suc n)
  note oc = Suc.IH
  have c: "answers (parse_or U n ts') (length ts')" if "length ts' < length ts" for ts' using Suc that by simp
  have a: "answers (parse_and U (parse_or U n) n [] [] ts) (length ts)"
    by (rule parse_and_answers [where l = "length ts"]) (use c Suc.prems in simp_all)
  show ?case unfolding parse_or.simps
  proof (rule answers_bind [OF a])
    fix x and ts' :: toks assume ts': "length ts' \<le> length ts"
    have "answers (or_loop U (parse_or U n) n [x] ts') (length ts')"
      by (rule or_loop_answers [where l = "length ts"]) (use c ts' Suc.prems in simp_all)
    then show "answers (or_loop U (parse_or U n) n [x] ts') (length ts)" using ts' by (rule answers_mono)
  qed
qed simp

lemma parse_returns_lemma: "parse U input \<noteq> None"
proof -
  have "parse_toks U toks \<noteq> None" for toks
    using parse_or_fuel [of toks "parse_fuel toks" U, unfolded parse_fuel_def, OF order_refl]
    unfolding parse_toks_def parse_fuel_def by (cases "parse_or U (length toks + 2) toks" rule: presult_cases) (auto split: list.splits)
  then show ?thesis by (simp add: parse_def split: sum.splits)
qed

section \<open>What it accepts is well formed\<close>

fun wf_node :: "node \<Rightarrow> bool" where
  "wf_node (Term t) = True"
| "wf_node (Phrase ts) = (2 \<le> length ts)"
| "wf_node (And must must_not) =
     (must \<noteq> [] \<and> (length must = 1 \<longrightarrow> must_not \<noteq> []) \<and> list_all wf_node must \<and> list_all wf_node must_not)"
| "wf_node (Or cs) = (2 \<le> length cs \<and> list_all wf_node cs)"

definition yields :: "('a \<Rightarrow> bool) \<Rightarrow> 'a presult \<Rightarrow> bool" where
  "yields P r \<longleftrightarrow> (\<forall>x ts. r = Some (Inr (x, ts)) \<longrightarrow> P x)"

lemma yields_simps [simp]:
  "yields P None"
  "yields P (Some (Inl e))"
  "yields P (Some (Inr (x, ts))) \<longleftrightarrow> P x"
  by (simp_all add: yields_def)

lemma yields_bind: "yields P r \<Longrightarrow> (\<And>x ts. P x \<Longrightarrow> yields Q (f x ts)) \<Longrightarrow> yields Q (bindP r f)"
  by (cases r rule: presult_cases) simp_all

lemma text_to_node_wf: "text_to_node U w = Some nd \<Longrightarrow> wf_node nd"
  by (auto simp: text_to_node_def split: list.splits)

lemma finish_and_wf:
  "list_all wf_node must \<Longrightarrow> list_all wf_node must_not \<Longrightarrow> yields wf_node (finish_and must must_not ts)"
  by (cases must) (auto simp: finish_and_def split: list.splits)

lemma parse_atom_wf:
  assumes "\<And>ts. yields wf_node (or_call ts)"
  shows "yields (pred_option wf_node) (parse_atom U or_call ts)"
proof -
  have "yields (pred_option wf_node) (bindP (or_call ts') (\<lambda>nd ts. case ts of (_, TRParen) # ts'' \<Rightarrow> Some (Inr (Some nd, ts''))
      | _ \<Rightarrow> Some (Inl (UnbalancedParen at))))" for ts' at
    by (rule yields_bind [OF assms]) (auto split: list.splits tok.splits)
  moreover have "pred_option wf_node (text_to_node U w)" for w
    using text_to_node_wf by (auto simp: pred_option_def)
  ultimately show ?thesis by (auto simp: parse_atom_def split: list.splits tok.splits)
qed

lemma parse_and_wf:
  assumes "\<And>ts. yields wf_node (or_call ts)"
  shows "list_all wf_node must \<Longrightarrow> list_all wf_node must_not \<Longrightarrow> yields wf_node (parse_and U or_call n must must_not ts)"
proof (induction n arbitrary: must must_not ts)
  case (Suc n)
  have u: "yields (pred_option (wf_node \<circ> fst)) (parse_unary U or_call ts)"
    unfolding parse_unary_def Let_def
    by (rule yields_bind [OF parse_atom_wf [OF assms]]) (auto simp: pred_option_def)
  have "yields wf_node (bindP (parse_unary U or_call ts) (\<lambda>r ts.
        case r of None \<Rightarrow> parse_and U or_call n must must_not ts
        | Some (nd, negated) \<Rightarrow> if negated then parse_and U or_call n must (must_not @ [nd]) ts
            else parse_and U or_call n (must @ [nd]) must_not ts))"
    by (rule yields_bind [OF u]) (use Suc in \<open>auto simp: pred_option_def split: option.splits\<close>)
  then show ?case using Suc finish_and_wf by simp
qed simp

lemma or_loop_wf:
  assumes "\<And>ts. yields wf_node (or_call ts)"
  shows "list_all wf_node children \<Longrightarrow> children \<noteq> [] \<Longrightarrow> yields wf_node (or_loop U or_call n children ts)"
proof (induction n arbitrary: children ts)
  case (Suc n)
  have "yields wf_node (bindP (parse_and U or_call n [] [] (tl ts)) (\<lambda>c ts. or_loop U or_call n (children @ [c]) ts))"
    by (rule yields_bind [OF parse_and_wf [OF assms]]) (use Suc in auto)
  moreover have "yields wf_node (Some (Inr (if length children = 1 then hd children else Or children, ts)))"
    using Suc.prems by (cases children) (auto simp: Suc_le_eq)
  ultimately show ?case by simp
qed simp

lemma parse_or_wf: "yields wf_node (parse_or U n ts)"
proof (induction n arbitrary: ts)
  case (Suc n)
  show ?case unfolding parse_or.simps
    by (rule yields_bind [OF parse_and_wf [OF Suc]]) (auto intro: or_loop_wf [OF Suc])
qed simp

lemma parse_wf_lemma: "parse U input = Some (Inr nd) \<Longrightarrow> wf_node nd"
proof -
  assume "parse U input = Some (Inr nd)"
  then obtain toks where "parse_toks U toks = Some (Inr nd)" by (auto simp: parse_def split: sum.splits if_splits)
  then have "parse_or U (parse_fuel toks) toks = Some (Inr (nd, []))"
    by (auto simp: parse_toks_def split: option.splits sum.splits list.splits)
  then show "wf_node nd" using parse_or_wf [of U "parse_fuel toks" toks] by simp
qed

section \<open>Every well-formed tree is a parse\<close>

text \<open>
  A printed form: leaves are quoted, inner nodes parenthesised. \<open>r\<close> gives the text of a leaf.
\<close>

fun print_toks :: "(node \<Rightarrow> ustr) \<Rightarrow> node \<Rightarrow> tok list" where
  "print_toks r (Term t) = [TPhrase (r (Term t))]"
| "print_toks r (Phrase ts) = [TPhrase (r (Phrase ts))]"
| "print_toks r (And must must_not) =
     TLParen # concat (map (print_toks r) must) @ concat (map (\<lambda>n. TMinus # print_toks r n) must_not) @ [TRParen]"
| "print_toks r (Or cs) = TLParen # tl (concat (map (\<lambda>c. TOr # print_toks r c) cs)) @ [TRParen]"

definition show_tok :: "tok \<Rightarrow> ustr" where
  "show_tok t = (if t = TOr then str '' OR '' else describe t)"

definition show_node :: "(node \<Rightarrow> ustr) \<Rightarrow> node \<Rightarrow> ustr" where
  "show_node r nd = concat (map show_tok (print_toks r nd))"

fun leaves :: "node \<Rightarrow> node list" where
  "leaves (Term t) = [Term t]"
| "leaves (Phrase ts) = [Phrase ts]"
| "leaves (And must must_not) = concat (map leaves must) @ concat (map leaves must_not)"
| "leaves (Or cs) = concat (map leaves cs)"

definition renders :: "unicode \<Rightarrow> (node \<Rightarrow> ustr) \<Rightarrow> node \<Rightarrow> bool" where
  "renders U r nd \<longleftrightarrow> (\<forall>l \<in> set (leaves nd). text_to_node U (r l) = Some l \<and> 34 \<notin> set (r l))"

text \<open>\<open>gives r x rest\<close>: the call ran out of fuel, or returned \<open>x\<close> and left \<open>rest\<close>.\<close>

definition gives :: "'a presult \<Rightarrow> 'a \<Rightarrow> toks \<Rightarrow> bool" where
  "gives r x rest \<longleftrightarrow> r = None \<or> r = Some (Inr (x, rest))"

lemma gives_simps [simp]:
  "gives None x rest"
  "gives (Some (Inr (x, rest))) x rest"
  by (simp_all add: gives_def)

lemma gives_bind: "gives r x rest \<Longrightarrow> gives (f x rest) y rest' \<Longrightarrow> gives (bindP r f) y rest'"
  by (auto simp: gives_def)

lemma print_toks_hd: "\<exists>t ts. print_toks r nd = t # ts \<and> (t = TLParen \<or> (\<exists>w. t = TPhrase w))"
  by (cases nd) simp_all

definition closes :: "toks \<Rightarrow> bool" where
  "closes ts \<longleftrightarrow> ts = [] \<or> next_is TOr ts \<or> next_is TRParen ts"

definition atom_ok :: "unicode \<Rightarrow> (node \<Rightarrow> ustr) \<Rightarrow> node \<Rightarrow> bool" where
  "atom_ok U r nd \<longleftrightarrow> (\<forall>n xs rest. map snd xs = print_toks r nd \<longrightarrow> gives (parse_atom U (parse_or U n) (xs @ rest)) (Some nd) rest)"

lemma unary_positive:
  assumes "atom_ok U r nd" and "map snd xs = print_toks r nd"
  shows "gives (parse_unary U (parse_or U n) (xs @ rest)) (Some (nd, False)) rest"
proof -
  obtain t ts where "print_toks r nd = t # ts" "t \<noteq> TMinus" using print_toks_hd [of r nd] by fastforce
  then have "\<not> next_is TMinus (xs @ rest)" using assms(2) by (cases xs) (auto simp: next_is_def)
  then show ?thesis using assms by (auto simp: parse_unary_def atom_ok_def intro!: gives_bind [where x = "Some nd"])
qed

lemma unary_negative:
  assumes "atom_ok U r nd" and "map snd xs = TMinus # print_toks r nd"
  shows "gives (parse_unary U (parse_or U n) (xs @ rest)) (Some (nd, True)) rest"
proof -
  obtain at ys where "xs = (at, TMinus) # ys" "map snd ys = print_toks r nd" using assms(2) by (cases xs) auto
  then show ?thesis using assms(1)
    by (auto simp: parse_unary_def next_is_def atom_ok_def intro!: gives_bind [where x = "Some nd"])
qed

lemma not_closing:
  assumes "map snd xs = print_toks r nd"
  shows "\<not> closes (xs @ rest)" and "\<not> next_is TAnd (xs @ rest)" and "starts_operand (xs @ rest)"
    and "map snd ys = TMinus # print_toks r nd \<Longrightarrow> \<not> closes (ys @ rest) \<and> \<not> next_is TAnd (ys @ rest)"
proof -
  obtain t ts where "print_toks r nd = t # ts" "t = TLParen \<or> (\<exists>w. t = TPhrase w)" using print_toks_hd by blast
  then show "\<not> closes (xs @ rest)" "\<not> next_is TAnd (xs @ rest)" "starts_operand (xs @ rest)"
    using assms by (cases xs; auto simp: closes_def next_is_def starts_operand_def)+
  show "map snd ys = TMinus # print_toks r nd \<Longrightarrow> \<not> closes (ys @ rest) \<and> \<not> next_is TAnd (ys @ rest)"
    by (cases ys) (auto simp: closes_def next_is_def)
qed

lemma parse_and_close:
  "closes rest \<Longrightarrow> must \<noteq> [] \<Longrightarrow>
     gives (parse_and U oc n must must_not rest) (if length must = 1 \<and> must_not = [] then hd must else And must must_not) rest"
  by (cases n) (auto simp: closes_def finish_and_def)

lemma parse_and_step:
  assumes "\<not> closes ts" and "\<not> next_is TAnd ts" and "gives (parse_unary U oc ts) (Some (nd, neg)) rest"
    and "gives (if neg then parse_and U oc m must (must_not @ [nd]) rest
      else parse_and U oc m (must @ [nd]) must_not rest) y rest'"
  shows "gives (parse_and U oc (Suc m) must must_not ts) y rest'"
  using assms by (auto simp: closes_def intro!: gives_bind [OF assms(3)] split: if_splits)

text \<open>The loop of a conjunction over printed operands, positive ones first.\<close>

lemma parse_and_negatives:
  assumes "\<And>nd. nd \<in> set nots \<Longrightarrow> atom_ok U r nd" and "closes rest" and "must \<noteq> []"
    and "map snd xs = concat (map (\<lambda>n. TMinus # print_toks r n) nots)"
  shows "gives (parse_and U (parse_or U k) n must acc (xs @ rest))
    (if length must = 1 \<and> acc @ nots = [] then hd must else And must (acc @ nots)) rest"
  using assms
proof (induction nots arbitrary: n acc xs)
  case Nil
  then show ?case using parse_and_close [of rest must U "parse_or U k" n acc] by (auto split: if_splits)
next
  case (Cons nd nots)
  define a b where "a = take (Suc (length (print_toks r nd))) xs" and "b = drop (Suc (length (print_toks r nd))) xs"
  have xs: "xs = a @ b" by (simp add: a_def b_def)
  have a: "map snd a = TMinus # print_toks r nd" and b: "map snd b = concat (map (\<lambda>n. TMinus # print_toks r n) nots)"
    using Cons.prems(4) by (simp_all add: a_def b_def take_map [symmetric] drop_map [symmetric])
  have ok: "atom_ok U r nd" by (rule Cons.prems(1)) simp
  show ?case
  proof (cases n)
    case (Suc m)
    have "map snd (tl a) = print_toks r nd" using a by (cases a) auto
    from not_closing(4) [OF this a, of "b @ rest"]
    have nc: "\<not> closes (a @ b @ rest)" "\<not> next_is TAnd (a @ b @ rest)" by simp_all
    have "gives (parse_and U (parse_or U k) m must (acc @ [nd]) (b @ rest))
      (if length must = 1 \<and> (acc @ [nd]) @ nots = [] then hd must else And must ((acc @ [nd]) @ nots)) rest"
      by (rule Cons.IH [OF Cons.prems(1) Cons.prems(2,3) b]) simp
    then show ?thesis unfolding Suc xs append_assoc
      by (intro parse_and_step [OF nc unary_negative [OF ok a]]) simp
  qed simp
qed

lemma parse_and_items:
  assumes "\<And>nd. nd \<in> set must \<union> set nots \<Longrightarrow> atom_ok U r nd" and "closes rest" and "acc @ must \<noteq> []"
    and "map snd xs = concat (map (print_toks r) must) @ concat (map (\<lambda>n. TMinus # print_toks r n) nots)"
  shows "gives (parse_and U (parse_or U k) n acc [] (xs @ rest))
    (if length (acc @ must) = 1 \<and> nots = [] then hd (acc @ must) else And (acc @ must) nots) rest"
  using assms
proof (induction must arbitrary: n acc xs)
  case Nil
  then show ?case using parse_and_negatives [of nots U r rest acc xs k n "[]"] by (auto split: if_splits)
next
  case (Cons nd must)
  define a b where "a = take (length (print_toks r nd)) xs" and "b = drop (length (print_toks r nd)) xs"
  have xs: "xs = a @ b" by (simp add: a_def b_def)
  have a: "map snd a = print_toks r nd"
    and b: "map snd b = concat (map (print_toks r) must) @ concat (map (\<lambda>n. TMinus # print_toks r n) nots)"
    using Cons.prems(4) by (simp_all add: a_def b_def take_map [symmetric] drop_map [symmetric])
  have ok: "atom_ok U r nd" by (rule Cons.prems(1)) simp
  show ?case
  proof (cases n)
    case (Suc m)
    note nc = not_closing(1,2) [OF a, of "b @ rest"]
    have "gives (parse_and U (parse_or U k) m (acc @ [nd]) [] (b @ rest))
      (if length ((acc @ [nd]) @ must) = 1 \<and> nots = [] then hd ((acc @ [nd]) @ must) else And ((acc @ [nd]) @ must) nots) rest"
      by (rule Cons.IH [OF Cons.prems(1) Cons.prems(2) _ b]) simp_all
    then show ?thesis unfolding Suc xs append_assoc
      by (intro parse_and_step [OF nc unary_positive [OF ok a]]) (auto split: if_splits)
  qed simp
qed

lemma or_loop_items:
  assumes "\<And>nd. nd \<in> set cs \<Longrightarrow> atom_ok U r nd" and "next_is TRParen rest" and "2 \<le> length (acc @ cs)"
    and "map snd xs = concat (map (\<lambda>c. TOr # print_toks r c) cs)"
  shows "gives (or_loop U (parse_or U k) n acc (xs @ rest)) (Or (acc @ cs)) rest"
  using assms
proof (induction cs arbitrary: n acc xs)
  case Nil
  then show ?case by (cases n; cases rest) (auto simp: next_is_def)
next
  case (Cons c cs)
  define a b where "a = take (Suc (length (print_toks r c))) xs" and "b = drop (Suc (length (print_toks r c))) xs"
  have xs: "xs = a @ b" by (simp add: a_def b_def)
  have "map snd a = TOr # print_toks r c" and b: "map snd b = concat (map (\<lambda>c. TOr # print_toks r c) cs)"
    using Cons.prems(4) by (simp_all add: a_def b_def take_map [symmetric] drop_map [symmetric])
  then obtain at a' where a: "a = (at, TOr) # a'" "map snd a' = print_toks r c" by (cases a) auto
  have ok: "atom_ok U r c" by (rule Cons.prems(1)) simp
  show ?case
  proof (cases n)
    case (Suc m)
    have cl: "closes (b @ rest)" using b Cons.prems(2) by (cases b; cases cs) (auto simp: closes_def next_is_def)
    have "gives (parse_and U (parse_or U k) m [] [] (a' @ b @ rest)) c (b @ rest)"
      using parse_and_items [of "[c]" "[]" U r "b @ rest" "[]" a' k m] ok cl a(2) by simp
    moreover have "gives (or_loop U (parse_or U k) m (acc @ [c]) (b @ rest)) (Or ((acc @ [c]) @ cs)) rest"
      by (rule Cons.IH [OF Cons.prems(1) Cons.prems(2) _ b]) (use Cons.prems(3) in simp_all)
    ultimately have "gives (bindP (parse_and U (parse_or U k) m [] [] (a' @ b @ rest))
        (\<lambda>c ts. or_loop U (parse_or U k) m (acc @ [c]) ts)) (Or (acc @ c # cs)) rest"
      by (simp add: gives_bind)
    then show ?thesis using not_closing(3) [OF a(2), of "b @ rest"] unfolding Suc xs a(1) or_loop.simps
      by (simp add: next_is_def)
  qed simp
qed

lemma atom_ok_group:
  assumes "\<And>n xs at rest. map snd xs = body \<Longrightarrow> gives (parse_or U n (xs @ (at, TRParen) # rest)) nd ((at, TRParen) # rest)"
    and "print_toks r nd = TLParen # body @ [TRParen]"
  shows "atom_ok U r nd"
  unfolding atom_ok_def
proof (intro allI impI)
  fix n and xs rest :: toks assume "map snd xs = print_toks r nd"
  then obtain at zs where xs: "xs = (at, TLParen) # zs" "map snd zs = body @ [TRParen]" unfolding assms(2) by (cases xs) auto
  obtain ys at' where "zs = ys @ [(at', TRParen)]" "map snd ys = body"
    using xs(2) by (cases zs rule: rev_cases) auto
  then show "gives (parse_atom U (parse_or U n) (xs @ rest)) (Some nd) rest"
    unfolding xs(1) by (auto simp: parse_atom_def intro!: gives_bind [OF assms(1)])
qed

lemma parse_or_single:
  assumes "atom_ok U r nd" and "map snd xs = print_toks r nd" and "rest = [] \<or> next_is TRParen rest"
  shows "gives (parse_or U n (xs @ rest)) nd rest"
proof (cases n)
  case (Suc m)
  have "gives (parse_and U (parse_or U m) m [] [] (xs @ rest)) nd rest"
    using parse_and_items [of "[nd]" "[]" U r rest "[]" xs m m] assms by (auto simp: closes_def)
  moreover have "gives (or_loop U (parse_or U m) m [nd] rest) nd rest"
    using assms(3) by (cases m; cases rest) (auto simp: next_is_def)
  ultimately show ?thesis unfolding Suc parse_or.simps by (rule gives_bind)
qed simp

lemma print_toks_atom_ok: "wf_node nd \<Longrightarrow> renders U r nd \<Longrightarrow> atom_ok U r nd"
proof (induction nd rule: wf_node.induct)
  case (3 must nots)
  let ?body = "concat (map (print_toks r) must) @ concat (map (\<lambda>n. TMinus # print_toks r n) nots)"
  have ok: "atom_ok U r x" if "x \<in> set must \<union> set nots" for x
  proof -
    have "renders U r x" using "3.prems"(2) that by (auto simp: renders_def)
    moreover have "wf_node x" using "3.prems"(1) that by (auto simp: list_all_iff)
    ultimately show ?thesis using "3.IH" that by auto
  qed
  have "gives (parse_or U n (xs @ (at, TRParen) # rest)) (And must nots) ((at, TRParen) # rest)"
    if xs: "map snd xs = ?body" for n xs at rest
  proof (cases n)
    case (Suc m)
    have r: "closes ((at, TRParen) # rest)" by (simp add: closes_def next_is_def)
    have "gives (parse_and U (parse_or U m) m [] [] (xs @ (at, TRParen) # rest)) (And must nots) ((at, TRParen) # rest)"
      using parse_and_items [of must nots U r _ "[]", OF ok r _ xs] "3.prems"(1) by (auto split: if_splits)
    moreover have "gives (or_loop U (parse_or U m) m [And must nots] ((at, TRParen) # rest)) (And must nots) ((at, TRParen) # rest)"
      by (cases m) (simp_all add: next_is_def)
    ultimately show ?thesis unfolding Suc parse_or.simps by (rule gives_bind)
  qed simp
  moreover have "print_toks r (And must nots) = TLParen # ?body @ [TRParen]" by simp
  ultimately show ?case by (rule atom_ok_group)
next
  case (4 cs)
  then obtain c d ds where cs: "cs = c # d # ds" by (cases cs; cases "tl cs") auto
  have ok: "atom_ok U r x" if "x \<in> set cs" for x
    using "4" that by (auto simp: renders_def list_all_iff)
  let ?tail = "concat (map (\<lambda>c. TOr # print_toks r c) (d # ds))"
  have body: "tl (concat (map (\<lambda>c. TOr # print_toks r c) cs)) = print_toks r c @ ?tail" by (simp add: cs)
  have "gives (parse_or U n (xs @ (at, TRParen) # rest)) (Or cs) ((at, TRParen) # rest)"
    if xs: "map snd xs = print_toks r c @ ?tail" for n xs at rest
  proof (cases n)
    case (Suc m)
    define a b where "a = take (length (print_toks r c)) xs" and "b = drop (length (print_toks r c)) xs"
    have ab: "xs = a @ b" by (simp add: a_def b_def)
    have a: "map snd a = print_toks r c" and b: "map snd b = ?tail"
      using xs by (simp_all add: a_def b_def take_map [symmetric] drop_map [symmetric])
    have cl: "closes (b @ (at, TRParen) # rest)" using b by (cases b) (auto simp: closes_def next_is_def)
    have "gives (parse_and U (parse_or U m) m [] [] (a @ b @ (at, TRParen) # rest)) c (b @ (at, TRParen) # rest)"
      using parse_and_items [of "[c]" "[]" U r "b @ (at, TRParen) # rest" "[]" a m m] ok cl a by (simp add: cs)
    moreover have "gives (or_loop U (parse_or U m) m [c] (b @ (at, TRParen) # rest)) (Or ([c] @ d # ds)) ((at, TRParen) # rest)"
      by (rule or_loop_items [OF ok _ _ b]) (auto simp: cs next_is_def)
    ultimately show ?thesis unfolding Suc parse_or.simps ab append_assoc by (simp add: cs gives_bind)
  qed simp
  moreover have "print_toks r (Or cs) = TLParen # (print_toks r c @ ?tail) @ [TRParen]" unfolding print_toks.simps body ..
  ultimately show ?case by (rule atom_ok_group)
qed (auto simp: atom_ok_def parse_atom_def renders_def)

lemma parse_or_print:
  assumes "wf_node nd" and "renders U r nd" and "map snd toks = print_toks r nd"
  shows "parse_toks U toks = Some (Inr nd)"
proof -
  have "gives (parse_or U (parse_fuel toks) (toks @ [])) nd []"
    by (rule parse_or_single [OF print_toks_atom_ok [OF assms(1,2)] assms(3)]) simp
  moreover have "parse_or U (parse_fuel toks) toks \<noteq> None"
    using parse_or_fuel [of toks "parse_fuel toks" U, unfolded parse_fuel_def, OF order_refl]
    unfolding parse_fuel_def answers_def by (simp split: option.splits del: parse_or.simps add_2_eq_Suc')
  ultimately have "parse_or U (parse_fuel toks) toks = Some (Inr (nd, []))" by (auto simp: gives_def)
  then show ?thesis by (simp add: parse_toks_def)
qed

text \<open>The lexer reads the printed tokens back.\<close>

fun lexable :: "tok list \<Rightarrow> bool" where
  "lexable [] = True"
| "lexable (t # ts) = (lexable ts \<and>
     (case t of TPhrase p \<Rightarrow> 34 \<notin> set p | TLParen \<Rightarrow> True | TRParen \<Rightarrow> True | TOr \<Rightarrow> True
      | TMinus \<Rightarrow> (case ts of TPhrase _ # _ \<Rightarrow> True | TLParen # _ \<Rightarrow> True | _ \<Rightarrow> False) | _ \<Rightarrow> False))"

lemma lex_blank: "lex_from U i (32 # cs) = lex_from U (i + 1) cs"
  by (simp add: lex_from.simps(2) is_whitespace_def is_ascii_def utf8_width_def)

lemma lex_or: "lex_from U i (str '' OR '' @ cs) = and_then (lex_from U (i + 4) cs) (\<lambda>ts. Inr ((i + 1, TOr) # ts))"
proof -
  have c: "str '' OR '' @ cs = 32 # 79 # 82 # 32 # cs" by (simp add: str_def)
  have e: "\<not> word_end U 82" "word_end U 32" by (simp_all add: word_end_def is_whitespace_def is_ascii_def)
  have w: "lex_from U (i + 1) (79 # 82 # 32 # cs) = and_then (lex_from U (Suc (Suc (Suc i))) (32 # cs)) (\<lambda>ts. Inr ((i + 1, TOr) # ts))"
    using e by (simp add: lex_from.simps(2) [of U "Suc i"] is_whitespace_def is_ascii_def utf8_width_def word_tok_def str_def
        add.assoc)
  show ?thesis unfolding c lex_blank w by (simp add: eval_nat_numeral)
qed

lemma show_tok_simps:
  "show_tok (TPhrase p) = [34] @ p @ [34]"
  "show_tok TMinus = [45]"
  "show_tok TLParen = [40]"
  "show_tok TRParen = [41]"
  by (simp_all add: show_tok_def str_def)

lemma lex_shown: "lexable ts \<Longrightarrow> \<exists>toks. lex_from U i (concat (map show_tok ts)) = Inr toks \<and> map snd toks = ts"
proof (induction ts arbitrary: i)
  case (Cons t ts)
  have ih: "\<exists>toks. lex_from U j (concat (map show_tok ts)) = Inr toks \<and> map snd toks = ts" for j
    by (rule Cons.IH) (use Cons.prems in simp)
  let ?rest = "concat (map show_tok ts)"
  have nows: "\<not> is_whitespace U 40" "\<not> is_whitespace U 41" "\<not> is_whitespace U 34" "\<not> is_whitespace U 45"
    by (simp_all add: is_whitespace_def is_ascii_def)
  have put: "\<exists>toks. and_then (lex_from U j ?rest) (\<lambda>ts. Inr ((k, t) # ts)) = Inr toks \<and> map snd toks = t # ts" for j k
    using ih [of j] by auto
  show ?case
  proof (cases t)
    case (TPhrase p)
    have q: "34 \<notin> set p" using Cons.prems TPhrase by simp
    then have "takeWhile (\<lambda>d. d \<noteq> 34) (p @ 34 # ?rest) = p" "dropWhile (\<lambda>d. d \<noteq> 34) (p @ 34 # ?rest) = 34 # ?rest"
      by (induction p) simp_all
    then have "lex_from U i (show_tok t @ ?rest) = and_then (lex_from U (i + 1 + utf8_len p + 1) ?rest) (\<lambda>ts. Inr ((i, t) # ts))"
      using nows by (simp add: TPhrase show_tok_simps lex_from.simps(2) [of U i] Let_def)
    then show ?thesis using put by simp
  next
    case TOr
    then have "show_tok t = str '' OR ''" by (simp add: show_tok_def)
    then have "concat (map show_tok (t # ts)) = str '' OR '' @ ?rest" by simp
    moreover have "lex_from U i (str '' OR '' @ ?rest) = and_then (lex_from U (i + 4) ?rest) (\<lambda>ts. Inr ((i + 1, t) # ts))"
      unfolding TOr by (rule lex_or)
    ultimately show ?thesis using put [of "i + 4" "i + 1"] by (simp only:)
  next
    case TMinus
    then have m: "case ts of TPhrase _ # _ \<Rightarrow> True | TLParen # _ \<Rightarrow> True | _ \<Rightarrow> False"
      using Cons.prems by (simp only: lexable.simps(2) tok.case)
    then obtain u us where ts: "ts = u # us" by (cases ts) simp_all
    moreover have "u = TLParen \<or> (\<exists>p. u = TPhrase p)" using m unfolding ts by (cases u) simp_all
    ultimately have ts: "ts = u # us" "u = TLParen \<or> (\<exists>p. u = TPhrase p)" .
    then have "?rest \<noteq> [] \<and> \<not> is_whitespace U (hd ?rest)" using nows by (auto simp: show_tok_simps)
    then have "lex_from U i (show_tok t @ ?rest) = and_then (lex_from U (i + 1) ?rest) (\<lambda>ts. Inr ((i, t) # ts))"
      using nows by (simp add: TMinus show_tok_simps lex_from.simps(2) [of U i])
    then show ?thesis using put by simp
  next
    case TLParen
    then have "lex_from U i (show_tok t @ ?rest) = and_then (lex_from U (i + 1) ?rest) (\<lambda>ts. Inr ((i, t) # ts))"
      using nows by (simp add: show_tok_simps lex_from.simps(2) [of U i])
    then show ?thesis using put by simp
  next
    case TRParen
    then have "lex_from U i (show_tok t @ ?rest) = and_then (lex_from U (i + 1) ?rest) (\<lambda>ts. Inr ((i, t) # ts))"
      using nows by (simp add: show_tok_simps lex_from.simps(2) [of U i])
    then show ?thesis using put by simp
  qed (use Cons.prems in simp_all)
qed simp

lemma print_toks_lexable: "renders U r nd \<Longrightarrow> lexable ts \<Longrightarrow> lexable (print_toks r nd @ ts)"
proof (induction nd arbitrary: ts)
  case (And must nots)
  have r: "renders U r x" if "x \<in> set must \<union> set nots" for x using And.prems(1) that by (auto simp: renders_def)
  have n: "set ns \<subseteq> set nots \<Longrightarrow> lexable ts \<Longrightarrow> lexable (concat (map (\<lambda>n. TMinus # print_toks r n) ns) @ ts)" for ns ts
  proof (induction ns)
    case (Cons x ns)
    then have l: "lexable (print_toks r x @ concat (map (\<lambda>n. TMinus # print_toks r n) ns) @ ts)"
      using And.IH(2) [of x] r [of x] by simp
    obtain t us where "print_toks r x = t # us" "t = TLParen \<or> (\<exists>w. t = TPhrase w)" using print_toks_hd by blast
    then show ?case using l by auto
  qed simp
  have "set ms \<subseteq> set must \<Longrightarrow> lexable ts \<Longrightarrow> lexable (concat (map (print_toks r) ms) @ ts)" for ms ts
    by (induction ms) (use And.IH(1) r in auto)
  then show ?case using n And.prems(2) by simp
next
  case (Or cs)
  have r: "renders U r x" if "x \<in> set cs" for x using Or.prems(1) that by (auto simp: renders_def)
  have "set xs \<subseteq> set cs \<Longrightarrow> lexable ts \<Longrightarrow> lexable (concat (map (\<lambda>c. TOr # print_toks r c) xs) @ ts)" for xs ts
    by (induction xs) (use Or.IH r in auto)
  from this [of cs "TRParen # ts"] have "lexable (concat (map (\<lambda>c. TOr # print_toks r c) cs) @ TRParen # ts)"
    using Or.prems(2) by simp
  then have "lexable (tl (concat (map (\<lambda>c. TOr # print_toks r c) cs)) @ TRParen # ts)" by (cases cs) auto
  then show ?case by simp
qed (auto simp: renders_def)

lemma parse_show:
  assumes "wf_node nd" and "renders U r nd"
  shows "parse U (show_node r nd) = Some (Inr nd)"
proof -
  have "lexable (print_toks r nd)" using print_toks_lexable [OF assms(2), of "[]"] by simp
  from lex_shown [OF this, of U 0] obtain toks where
    l: "lex U (show_node r nd) = Inr toks" "map snd toks = print_toks r nd" by (auto simp: lex_def show_node_def)
  have "toks \<noteq> []" using l(2) print_toks_hd [of r nd] by auto
  then show ?thesis using l(1) parse_or_print [OF assms l(2)] by (simp add: parse_def)
qed

end
