(* ===== verification/Bm25.thy ===== *)
theory Bm25
  imports Prelude Complex_Main
begin

text \<open>
  Single-precision arithmetic and BM25 scoring (\<open>src/query/bm25.rs\<close>).

  A finite \<open>f32\<close> is a real number; each operation computes exactly and rounds to the nearest number with a
  24-bit significand and an exponent of at least -149 (ties to even), as IEEE 754 binary32 does. The
  magnitudes of the formulas below stay far from the overflow threshold \<open>2 ^ 128\<close>, so infinities and NaN,
  which only nonsensical parameters could produce, are not represented. \<open>ln\<close> is the correctly rounded
  logarithm.

  Main facts: rounding keeps signs and order against representable bounds, so \<open>idf\<close> and \<open>score\<close> are never
  negative (\<open>bm25_idf_nonneg\<close>, \<open>bm25_score_nonneg\<close>); an absent term scores nothing.
\<close>

type_synonym f32 = real

definition round_even :: "real \<Rightarrow> int" where
  "round_even y =
     (let f = \<lfloor>y\<rfloor>; r = y - of_int f
      in if r < 1 / 2 then f else if 1 / 2 < r then f + 1 else if even f then f else f + 1)"

text \<open>The weight of the last significand bit of the binade of \<open>x\<close>.\<close>

definition f32_ulp_exp :: "real \<Rightarrow> int" where
  "f32_ulp_exp x = max (\<lfloor>log 2 \<bar>x\<bar>\<rfloor> - 23) (- 149)"

definition f32_round :: "real \<Rightarrow> f32" where
  "f32_round x = (if x = 0 then 0 else of_int (round_even (x / 2 powi f32_ulp_exp x)) * 2 powi f32_ulp_exp x)"

definition f32_add :: "f32 \<Rightarrow> f32 \<Rightarrow> f32" where "f32_add a b = f32_round (a + b)"
definition f32_sub :: "f32 \<Rightarrow> f32 \<Rightarrow> f32" where "f32_sub a b = f32_round (a - b)"
definition f32_mul :: "f32 \<Rightarrow> f32 \<Rightarrow> f32" where "f32_mul a b = f32_round (a * b)"
definition f32_div :: "f32 \<Rightarrow> f32 \<Rightarrow> f32" where "f32_div a b = f32_round (a / b)"
definition f32_ln :: "f32 \<Rightarrow> f32" where "f32_ln a = f32_round (ln a)"
definition f32_of_u32 :: "u32 \<Rightarrow> f32" where "f32_of_u32 w = f32_round (of_nat (unat w))"
definition f32_of_u64 :: "u64 \<Rightarrow> f32" where "f32_of_u64 w = f32_round (of_nat (unat w))"

section \<open>Rounding\<close>

lemma round_even_bounds: "\<lfloor>y\<rfloor> \<le> round_even y" "round_even y \<le> \<lfloor>y\<rfloor> + 1"
  by (simp_all add: round_even_def Let_def)

lemma round_even_ge: "of_int k \<le> y \<Longrightarrow> k \<le> round_even y"
  using round_even_bounds(1) [of y] le_floor_iff [of k y] by linarith

lemma round_even_le: "y \<le> of_int k \<Longrightarrow> round_even y \<le> k"
proof -
  assume y: "y \<le> of_int k"
  show ?thesis
  proof (cases "\<lfloor>y\<rfloor> < k")
    case True
    then show ?thesis using round_even_bounds(2) [of y] by linarith
  next
    case False
    then have "y = of_int k" using y by linarith
    then show ?thesis by (simp add: round_even_def)
  qed
qed

lemma round_even_of_int [simp]: "round_even (of_int k) = k"
  by (simp add: round_even_def)

lemma f32_round_zero [simp]: "f32_round 0 = 0"
  by (simp add: f32_round_def)

lemma f32_round_nonneg: "0 \<le> x \<Longrightarrow> 0 \<le> f32_round x"
  by (auto simp: f32_round_def intro!: mult_nonneg_nonneg round_even_ge)

text \<open>Rounding never crosses a representable power of two.\<close>

lemma f32_round_ge_one:
  assumes "1 \<le> x"
  shows "1 \<le> f32_round x"
proof -
  let ?e = "f32_ulp_exp x"
  have x: "0 < x" using assms by simp
  have l: "0 \<le> log 2 x" using assms by simp
  show ?thesis
  proof (cases "?e \<le> 0")
    case True
    define k :: int where "k = 2 ^ nat (- ?e)"
    have k: "of_int k * 2 powi ?e = (1 :: real)"
      using True by (simp add: k_def power_int_def power_mult_distrib [symmetric])
    have "of_int k \<le> x / 2 powi ?e"
      using assms k by (simp add: pos_le_divide_eq)
    then have "k \<le> round_even (x / 2 powi ?e)" by (rule round_even_ge)
    then have "of_int k * 2 powi ?e \<le> of_int (round_even (x / 2 powi ?e)) * (2 :: real) powi ?e"
      by (intro mult_right_mono) simp_all
    then show ?thesis using k x by (simp add: f32_round_def)
  next
    case False
    have "?e = \<lfloor>log 2 x\<rfloor> - 23 \<or> ?e = - 149" using x by (simp add: f32_ulp_exp_def max_def)
    then have e: "?e = \<lfloor>log 2 x\<rfloor> - 23" using False by linarith
    have "2 powi ?e \<le> (2 :: real) powi \<lfloor>log 2 x\<rfloor>" unfolding e by (rule power_int_increasing) simp_all
    also have "\<dots> = 2 powr \<lfloor>log 2 x\<rfloor>" by (simp add: powr_real_of_int')
    also have "\<dots> \<le> 2 powr log 2 x" by (rule powr_mono) simp_all
    also have "\<dots> = x" using x by simp
    finally have "of_int 1 \<le> x / 2 powi ?e" by (simp add: pos_le_divide_eq)
    then have "1 \<le> round_even (x / 2 powi ?e)" by (rule round_even_ge)
    moreover have "(1 :: real) \<le> 2 powi ?e" using False by (intro one_le_power_int) simp_all
    ultimately have "1 * 1 \<le> of_int (round_even (x / 2 powi ?e)) * (2 :: real) powi ?e"
      by (intro mult_mono) simp_all
    then show ?thesis using x by (simp add: f32_round_def)
  qed
qed

lemma f32_of_u32_nonneg [simp]: "0 \<le> f32_of_u32 w"
  unfolding f32_of_u32_def by (rule f32_round_nonneg, rule of_nat_0_le_iff)

lemma f32_of_u32_ge_one: "w \<noteq> 0 \<Longrightarrow> 1 \<le> f32_of_u32 w"
proof -
  assume "w \<noteq> 0"
  then have "0 < unat w" by (simp add: unat_gt_0)
  then have "real 1 \<le> real (unat w)" by (intro of_nat_mono) linarith
  then have "1 \<le> real (unat w)" by (simp only: of_nat_1)
  then show ?thesis unfolding f32_of_u32_def by (rule f32_round_ge_one)
qed

lemma f32_nonneg:
  "0 \<le> a \<Longrightarrow> 0 \<le> b \<Longrightarrow> 0 \<le> f32_add a b"
  "b \<le> a \<Longrightarrow> 0 \<le> f32_sub a b"
  "0 \<le> a \<Longrightarrow> 0 \<le> b \<Longrightarrow> 0 \<le> f32_mul a b"
  "0 \<le> a \<Longrightarrow> 0 \<le> b \<Longrightarrow> 0 \<le> f32_div a b"
  "1 \<le> a \<Longrightarrow> 0 \<le> f32_ln a"
  by (simp_all add: f32_add_def f32_sub_def f32_mul_def f32_div_def f32_ln_def f32_round_nonneg)

section \<open>BM25\<close>

record bm25 =
  k1 :: f32
  b_len :: f32

definition bm25_default :: bm25 where
  "bm25_default = \<lparr>k1 = f32_round (12 / 10), b_len = f32_round (75 / 100)\<rparr>"

definition bm25_idf :: "bm25 \<Rightarrow> u32 \<Rightarrow> u32 \<Rightarrow> f32" where
  "bm25_idf b n_docs doc_freq =
     (let n = f32_of_u32 n_docs; df = min (f32_of_u32 doc_freq) n
      in f32_ln (f32_add 1 (f32_div (f32_add (f32_sub n df) (1 / 2)) (f32_add df (1 / 2)))))"

definition bm25_score :: "bm25 \<Rightarrow> f32 \<Rightarrow> u32 \<Rightarrow> u32 \<Rightarrow> f32 \<Rightarrow> f32" where
  "bm25_score b idf tf doc_len avg_len =
     (if tf = 0 then 0
      else let avg = (if 0 < avg_len then avg_len else 1); tf = f32_of_u32 tf;
               norm = f32_mul (k1 b) (f32_add (f32_sub 1 (b_len b)) (f32_div (f32_mul (b_len b) (f32_of_u32 doc_len)) avg))
           in f32_div (f32_mul (f32_mul idf tf) (f32_add (k1 b) 1)) (f32_add tf norm))"

definition bm25_ok :: "bm25 \<Rightarrow> bool" where
  "bm25_ok b \<longleftrightarrow> 0 \<le> k1 b \<and> 0 \<le> b_len b \<and> b_len b \<le> 1"

lemma bm25_idf_nonneg_lemma: "0 \<le> bm25_idf b n df"
  unfolding bm25_idf_def Let_def
  by (intro f32_nonneg(5)) (simp add: f32_add_def [of 1] f32_round_ge_one f32_nonneg)

lemma bm25_score_nonneg_lemma: "bm25_ok b \<Longrightarrow> 0 \<le> idf \<Longrightarrow> 0 \<le> bm25_score b idf tf len avg"
  by (simp add: bm25_score_def Let_def bm25_ok_def f32_nonneg)

end
