(* ===== verification/Hits.thy ===== *)
theory Hits
  imports Postings Bm25
begin

text \<open>
  Sorted lists of hits and the operations of \<open>src/query/exec.rs\<close> that combine them: \<open>intersect\<close>, \<open>union\<close> and
  \<open>difference\<close>. Each loop over an index \<open>j\<close> into the other list is written with that index.

  Main facts: on lists sorted by document the operations compute intersection, union and difference of the sets
  of documents and keep the order (\<open>intersect_lists\<close>, \<open>union_lists\<close>, \<open>difference_lists\<close>).
\<close>

section \<open>Hits\<close>

record hit =
  h_doc :: u32
  h_score :: f32

abbreviation docs_of :: "hit list \<Rightarrow> u32 list" where "docs_of hs \<equiv> map h_doc hs"

definition hits_sorted :: "hit list \<Rightarrow> bool" where
  "hits_sorted hs \<longleftrightarrow> sorted_wrt (<) (docs_of hs)"

text \<open>The loop of \<open>intersect\<close> over \<open>result.retain_mut\<close>, at index \<open>j\<close> of the other list.\<close>

fun retain_common :: "hit list \<Rightarrow> nat \<Rightarrow> hit list \<Rightarrow> hit list" where
  "retain_common other j [] = []"
| "retain_common other j (h # hs) =
     (let j = j + partition_point (\<lambda>x. h_doc x < h_doc h) (drop j other)
      in if j < length other \<and> h_doc (other ! j) = h_doc h
         then h\<lparr>h_score := f32_add (h_score h) (h_score (other ! j))\<rparr> # retain_common other j hs
         else retain_common other j hs)"

fun intersect_loop :: "hit list \<Rightarrow> hit list list \<Rightarrow> hit list" where
  "intersect_loop result [] = result"
| "intersect_loop result (other # ls) =
     (let result = retain_common other 0 result in if result = [] then result else intersect_loop result ls)"

definition intersect :: "hit list list \<Rightarrow> hit list" where
  "intersect ls =
     (if ls = [] \<or> list_ex (\<lambda>l. l = []) ls then []
      else case sort_key length ls of [] \<Rightarrow> [] | result # ls \<Rightarrow> intersect_loop result ls)"

text \<open>The loop of \<open>merge_sum\<close>, on what is left of both ls.\<close>

fun merge_loop :: "hit list \<Rightarrow> hit list \<Rightarrow> hit list" where
  "merge_loop [] b = b"
| "merge_loop a [] = a"
| "merge_loop (x # a) (y # b) =
     (if h_doc x < h_doc y then x # merge_loop a (y # b)
      else if h_doc y < h_doc x then y # merge_loop (x # a) b
      else \<lparr>h_doc = h_doc x, h_score = f32_add (h_score x) (h_score y)\<rparr> # merge_loop a b)"

definition merge_sum :: "hit list \<Rightarrow> hit list \<Rightarrow> hit list" where
  "merge_sum a b = (if a = [] then b else if b = [] then a else merge_loop a b)"

definition union_hits :: "hit list list \<Rightarrow> hit list" where
  "union_hits ls = foldl merge_sum [] ls"

fun retain_absent :: "hit list \<Rightarrow> nat \<Rightarrow> hit list \<Rightarrow> hit list" where
  "retain_absent excluded j [] = []"
| "retain_absent excluded j (h # hs) =
     (let j = j + partition_point (\<lambda>x. h_doc x < h_doc h) (drop j excluded)
      in if \<not> (j < length excluded \<and> h_doc (excluded ! j) = h_doc h)
         then h # retain_absent excluded j hs else retain_absent excluded j hs)"

definition difference :: "hit list \<Rightarrow> hit list \<Rightarrow> hit list" where
  "difference base excluded = (if excluded = [] then base else retain_absent excluded 0 base)"

section \<open>What the list operations compute\<close>

text \<open>
  After the step for \<open>h\<close> the index is where the entries below \<open>h\<close> end, as long as it was not past that
  point before.
\<close>

lemma sorted_index:
  assumes "hits_sorted other" and "j \<le> length (takeWhile (\<lambda>x. h_doc x < d) other)"
  shows "j + partition_point (\<lambda>x. h_doc x < d) (drop j other) = length (takeWhile (\<lambda>x. h_doc x < d) other)"
proof -
  let ?P = "\<lambda>x. h_doc x < d"
  have "takeWhile ?P other = take j other @ takeWhile ?P (drop j other)"
  proof -
    have "\<forall>x \<in> set (take j other). ?P x"
    proof
      fix x assume "x \<in> set (take j other)"
      then have "x \<in> set (takeWhile ?P other)"
        using set_take_subset_set_take [OF assms(2), of other] takeWhile_eq_take [of ?P other] by auto
      then show "?P x" by (auto dest: set_takeWhileD)
    qed
    then show ?thesis using takeWhile_append2 [of "take j other" ?P "drop j other"] by simp
  qed
  moreover have "j \<le> length other" using assms(2) length_takeWhile_le [of ?P other] by linarith
  ultimately show ?thesis by (simp add: partition_point_def)
qed

lemma found_at:
  assumes "hits_sorted other" and "i = length (takeWhile (\<lambda>x. h_doc x < d) other)"
  shows "i < length other \<and> h_doc (other ! i) = d \<longleftrightarrow> d \<in> set (docs_of other)"
proof
  assume "d \<in> set (docs_of other)"
  then obtain k where k: "k < length other" "h_doc (other ! k) = d" by (auto simp: in_set_conv_nth)
  have lt: "h_doc (other ! m) < d" if "m < k" for m
    using assms(1) that k sorted_wrt_nth_less [of "(<)" "docs_of other" m k] by (simp add: hits_sorted_def)
  have "takeWhile (\<lambda>x. h_doc x < d) other = take k other" by (rule takeWhile_eq_take_P_nth) (use k lt in auto)
  then have "i = k" using k(1) by (simp add: assms(2))
  then show "i < length other \<and> h_doc (other ! i) = d" using k by simp
next
  assume "i < length other \<and> h_doc (other ! i) = d"
  then show "d \<in> set (docs_of other)" using nth_mem [of i other] by auto
qed

lemma takeWhile_mono_length:
  "(\<And>x. P x \<Longrightarrow> Q x) \<Longrightarrow> length (takeWhile P xs) \<le> length (takeWhile Q xs)"
  by (induction xs) auto

lemma hits_sorted_Cons: "hits_sorted (h # hs) \<longleftrightarrow> (\<forall>x \<in> set hs. h_doc h < h_doc x) \<and> hits_sorted hs"
  by (auto simp: hits_sorted_def)

lemma retain_common_docs:
  assumes "hits_sorted other" and "hits_sorted hs"
    and "\<forall>h \<in> set hs. j \<le> length (takeWhile (\<lambda>x. h_doc x < h_doc h) other)"
  shows "docs_of (retain_common other j hs) = filter (\<lambda>d. d \<in> set (docs_of other)) (docs_of hs)"
  using assms(2,3)
proof (induction hs arbitrary: j)
  case (Cons h hs)
  let ?n = "length (takeWhile (\<lambda>x. h_doc x < h_doc h) other)"
  have j: "j + partition_point (\<lambda>x. h_doc x < h_doc h) (drop j other) = ?n"
    using sorted_index [OF assms(1)] Cons.prems(2) by simp
  have "\<forall>x \<in> set hs. ?n \<le> length (takeWhile (\<lambda>y. h_doc y < h_doc x) other)"
    using Cons.prems(1) by (intro ballI takeWhile_mono_length) (auto simp: hits_sorted_Cons)
  then have ih: "docs_of (retain_common other ?n hs) = filter (\<lambda>d. d \<in> set (docs_of other)) (docs_of hs)"
    using Cons.prems(1) by (intro Cons.IH) (simp_all add: hits_sorted_Cons)
  show ?case using found_at [OF assms(1) refl, of "h_doc h"] ih by (simp add: j Let_def del: set_map)
qed simp

lemma retain_absent_docs:
  assumes "hits_sorted other" and "hits_sorted hs"
    and "\<forall>h \<in> set hs. j \<le> length (takeWhile (\<lambda>x. h_doc x < h_doc h) other)"
  shows "docs_of (retain_absent other j hs) = filter (\<lambda>d. d \<notin> set (docs_of other)) (docs_of hs)"
  using assms(2,3)
proof (induction hs arbitrary: j)
  case (Cons h hs)
  let ?n = "length (takeWhile (\<lambda>x. h_doc x < h_doc h) other)"
  have j: "j + partition_point (\<lambda>x. h_doc x < h_doc h) (drop j other) = ?n"
    using sorted_index [OF assms(1)] Cons.prems(2) by simp
  have "\<forall>x \<in> set hs. ?n \<le> length (takeWhile (\<lambda>y. h_doc y < h_doc x) other)"
    using Cons.prems(1) by (intro ballI takeWhile_mono_length) (auto simp: hits_sorted_Cons)
  then have ih: "docs_of (retain_absent other ?n hs) = filter (\<lambda>d. d \<notin> set (docs_of other)) (docs_of hs)"
    using Cons.prems(1) by (intro Cons.IH) (simp_all add: hits_sorted_Cons)
  show ?case using found_at [OF assms(1) refl, of "h_doc h"] ih by (auto simp: j Let_def simp del: set_map)
qed simp

text \<open>What a list of hits lists: the documents, ascending.\<close>

definition lists_docs :: "hit list \<Rightarrow> u32 set \<Rightarrow> bool" where
  "lists_docs hs D \<longleftrightarrow> hits_sorted hs \<and> set (docs_of hs) = D"

lemma lists_docs_Nil [simp]: "lists_docs [] D \<longleftrightarrow> D = {}" "lists_docs hs {} \<longleftrightarrow> hs = []"
  by (auto simp: lists_docs_def hits_sorted_def)

lemma sorted_filter_docs: "docs_of hs' = filter P (docs_of hs) \<Longrightarrow> hits_sorted hs \<Longrightarrow> hits_sorted hs'"
  by (simp add: hits_sorted_def sorted_wrt_filter)

lemma retain_common_lists: "lists_docs hs D \<Longrightarrow> lists_docs other E \<Longrightarrow> lists_docs (retain_common other 0 hs) (D \<inter> E)"
  using retain_common_docs [of other hs 0] sorted_filter_docs [of "retain_common other 0 hs" _ hs]
  by (auto simp: lists_docs_def simp del: set_map)

lemma difference_lists: "lists_docs hs D \<Longrightarrow> lists_docs other E \<Longrightarrow> lists_docs (difference hs other) (D - E)"
  using retain_absent_docs [of other hs 0] sorted_filter_docs [of "retain_absent other 0 hs" _ hs]
  by (auto simp: lists_docs_def difference_def simp del: set_map)

lemma intersect_loop_lists:
  "lists_docs r D \<Longrightarrow> list_all2 lists_docs ls Es \<Longrightarrow> lists_docs (intersect_loop r ls) (D \<inter> \<Inter> (set Es))"
proof (induction ls arbitrary: r D Es)
  case (Cons l ls)
  then obtain E Es' where Es: "Es = E # Es'" "lists_docs l E" "list_all2 lists_docs ls Es'" by (cases Es) auto
  note c = retain_common_lists [OF Cons.prems(1) Es(2)]
  show ?case
  proof (cases "retain_common l 0 r = []")
    case True
    then have "D \<inter> E = {}" using c by simp
    then show ?thesis using True by (auto simp: Es(1) Let_def)
  next
    case False
    then show ?thesis using Cons.IH [OF c Es(3)] by (simp add: Es(1) Let_def Int_assoc)
  qed
qed simp

lemma lists_docs_set: "lists_docs hs D \<Longrightarrow> set (docs_of hs) = D"
  by (simp add: lists_docs_def)

lemma intersect_lists:
  assumes "list_all2 lists_docs ls Ds" and "ls \<noteq> []"
  shows "lists_docs (intersect ls) (\<Inter> (set Ds))"
proof (cases "list_ex (\<lambda>l. l = []) ls")
  case True
  then obtain i where i: "i < length ls" "ls ! i = []" by (auto simp: list_ex_iff in_set_conv_nth)
  then have "i < length Ds" "Ds ! i = {}" using assms(1) by (auto simp: list_all2_conv_all_nth)
  then have "\<Inter> (set Ds) = {}" by (metis Inter_lower nth_mem subset_empty)
  then show ?thesis using True by (simp add: intersect_def)
next
  case False
  have all: "\<forall>l \<in> set ls. lists_docs l (set (docs_of l))"
  proof
    fix l assume "l \<in> set ls"
    then obtain i where "i < length ls" "l = ls ! i" by (auto simp: in_set_conv_nth)
    then show "lists_docs l (set (docs_of l))" using assms(1) by (auto simp: list_all2_conv_all_nth lists_docs_def)
  qed
  have Ds: "Ds = map (\<lambda>l. set (docs_of l)) ls"
    using assms(1) by (auto simp: list_all2_conv_all_nth lists_docs_def list_eq_iff_nth_eq simp del: set_map)
  obtain r rest where s: "sort_key length ls = r # rest"
    using assms(2) by (metis list.exhaust set_empty set_sort)
  have set: "set ls = insert r (set rest)" using s by (metis list.simps(15) set_sort)
  have "list_all2 lists_docs rest (map (\<lambda>l. set (docs_of l)) rest)"
    using all set by (auto simp: list_all2_conv_all_nth)
  from intersect_loop_lists [OF _ this, of r "set (docs_of r)"]
  have "lists_docs (intersect_loop r rest) (set (docs_of r) \<inter> \<Inter> ((\<lambda>l. set (docs_of l)) ` set rest))"
    using all set by simp
  moreover have "\<Inter> (set Ds) = set (docs_of r) \<inter> \<Inter> ((\<lambda>l. set (docs_of l)) ` set rest)" unfolding Ds by (simp add: set)
  ultimately show ?thesis using False assms(2) s by (simp add: intersect_def)
qed

lemma merge_loop_docs: "set (docs_of (merge_loop a b)) = set (docs_of a) \<union> set (docs_of b)"
  by (induction a b rule: merge_loop.induct) (auto simp: not_less)

lemma merge_loop_sorted: "hits_sorted a \<Longrightarrow> hits_sorted b \<Longrightarrow> hits_sorted (merge_loop a b)"
proof (induction a b rule: merge_loop.induct)
  case (3 x a y b)
  have d: "h \<in> set (merge_loop a' b') \<Longrightarrow> h_doc h \<in> h_doc ` set a' \<union> h_doc ` set b'" for h a' b'
    using merge_loop_docs [of a' b'] by (metis imageI set_map)
  consider "h_doc x < h_doc y" | "h_doc y < h_doc x" | "h_doc x = h_doc y" by fastforce
  then show ?case
  proof cases
    case 1
    then have "hits_sorted (merge_loop a (y # b))" using 3 by (simp add: hits_sorted_Cons)
    moreover have "\<forall>h \<in> set (merge_loop a (y # b)). h_doc x < h_doc h"
      using 3(4,5) 1 d [of _ a "y # b"] by (fastforce simp: hits_sorted_Cons)
    ultimately show ?thesis using 1 by (simp add: hits_sorted_Cons)
  next
    case 2
    then have "hits_sorted (merge_loop (x # a) b)" using 3 by (simp add: hits_sorted_Cons)
    moreover have "\<forall>h \<in> set (merge_loop (x # a) b). h_doc y < h_doc h"
      using 3(4,5) 2 d [of _ "x # a" b] by (fastforce simp: hits_sorted_Cons)
    ultimately show ?thesis using 2 less_not_sym [OF 2] by (simp add: hits_sorted_Cons)
  next
    case eq: 3
    then have "hits_sorted (merge_loop a b)" using 3 by (simp add: hits_sorted_Cons)
    moreover have "\<forall>h \<in> set (merge_loop a b). h_doc x < h_doc h"
      using 3(4,5) eq d [of _ a b] by (fastforce simp: hits_sorted_Cons)
    ultimately show ?thesis using eq by (simp add: hits_sorted_Cons)
  qed
qed simp_all

lemma merge_sum_lists: "lists_docs a D \<Longrightarrow> lists_docs b E \<Longrightarrow> lists_docs (merge_sum a b) (D \<union> E)"
  using merge_loop_docs [of a b] merge_loop_sorted [of a b] by (auto simp: lists_docs_def merge_sum_def)

lemma union_lists:
  assumes "list_all2 lists_docs ls Ds"
  shows "lists_docs (union_hits ls) (\<Union> (set Ds))"
proof -
  have "lists_docs acc D \<Longrightarrow> list_all2 lists_docs ls Ds \<Longrightarrow> lists_docs (foldl merge_sum acc ls) (D \<union> \<Union> (set Ds))"
    for acc D ls Ds
  proof (induction ls arbitrary: acc D Ds)
    case (Cons l ls)
    then obtain E Es where "Ds = E # Es" "lists_docs l E" "list_all2 lists_docs ls Es" by (cases Ds) auto
    then show ?case using Cons.IH [OF merge_sum_lists [OF Cons.prems(1)]] by (auto simp: Un_assoc)
  qed simp
  from this [of "[]" "{}", OF _ assms] show ?thesis by (simp add: union_hits_def)
qed

end
