(* ===== verification/Exec.thy ===== *)
theory Exec
  imports Idx_Postings Parser Hits "HOL-Library.Product_Lexorder" "HOL-Library.Multiset"
begin

text \<open>
  Query evaluation (\<open>src/query/exec.rs\<close>), ranking (\<open>search\<close> of \<open>src/query/mod.rs\<close>) and the reading interfaces
  they are written against (\<open>SegmentReader\<close>, \<open>IndexReader\<close> of \<open>src/index/mod.rs\<close>).

  The traits are records of operations, as the cursor is. The loops that walk cursors are partial functions:
  \<open>None\<close> stands for a loop that does not end or a cursor that panics; the locale \<open>segment_reader\<close> states what
  a segment has to provide, and under it evaluation returns (\<open>eval_node_correct\<close>).

  Main facts: evaluation lists, in ascending order and without repeats, exactly the live documents that
  satisfy the query as a boolean formula (\<open>eval_node_correct\<close>); over several segments the results
  concatenate to a sorted list of global ids.
\<close>

section \<open>Segments and readers\<close>

record ('s, 'l, 'c) segment_ops =
  sg_base :: "'s \<Rightarrow> u32"
  sg_num_docs :: "'s \<Rightarrow> u32"
  sg_postings :: "'s \<Rightarrow> ustr \<Rightarrow> 'l option"
  sg_doc_len :: "'s \<Rightarrow> u32 \<Rightarrow> u32 option"
  sg_lists :: "('l, 'c) list_ops"

record ('r, 's) reader_ops =
  ix_segments :: "'r \<Rightarrow> 's list"
  ix_indexed_count :: "'r \<Rightarrow> u32"
  ix_avg_len :: "'r \<Rightarrow> f32"

record stats =
  st_n :: u32
  st_avg_len :: f32
  st_df :: "(ustr \<times> u32) list"

text \<open>Every distinct term the query names, positive or negated.\<close>

fun query_terms :: "node \<Rightarrow> ustr list \<Rightarrow> ustr list" where
  "query_terms (Term t) out = add_term t out"
| "query_terms (Phrase ts) out = fold add_term ts out"
| "query_terms (And must must_not) out = fold query_terms must_not (fold query_terms must out)"
| "query_terms (Or cs) out = fold query_terms cs out"

text \<open>\<open>stats.df[t]\<close> panics on a term that is not a key; \<open>df_defined\<close> below shows that it is one.\<close>

definition df_of :: "stats \<Rightarrow> ustr \<Rightarrow> u32" where
  "df_of st t = (case map_of (st_df st) t of Some n \<Rightarrow> n | None \<Rightarrow> 0)"

section \<open>Leaves\<close>

text \<open>The loop of \<open>eval_term\<close>.\<close>

partial_function (option) term_walk ::
  "'c cursor_ops \<Rightarrow> (u32 \<Rightarrow> u32 option) \<Rightarrow> (u32 \<Rightarrow> u32 \<Rightarrow> f32) \<Rightarrow> 'c \<Rightarrow> hit list \<Rightarrow> hit list option" where
  "term_walk ops doc_len score cur out =
     (case co_doc ops cur of
        None \<Rightarrow> Some out
      | Some doc \<Rightarrow>
          (case doc_len doc of
             None \<Rightarrow> term_walk ops doc_len score (snd (co_advance ops cur)) out
           | Some len \<Rightarrow>
               Option.bind (co_term_freq ops cur) (\<lambda>(tf, cur).
                 term_walk ops doc_len score (snd (co_advance ops cur)) (out @ [\<lparr>h_doc = doc, h_score = score tf len\<rparr>]))))"

definition eval_term :: "('s, 'l, 'c) segment_ops \<Rightarrow> 's \<Rightarrow> (ustr \<times> 'l) list \<Rightarrow> ustr \<Rightarrow> bm25 \<Rightarrow> stats \<Rightarrow> hit list option" where
  "eval_term sg seg ls t b st =
     (case map_of ls t of
        None \<Rightarrow> Some []
      | Some l \<Rightarrow>
          let idf = bm25_idf b (st_n st) (df_of st t)
          in term_walk (lo_cursor_ops (sg_lists sg)) (sg_doc_len sg seg)
               (\<lambda>tf len. bm25_score b idf tf len (st_avg_len st)) (lo_cursor (sg_lists sg) l) [])"

text \<open>The loop of \<open>slice::binary_search\<close>, on a non-empty slice; the result says whether it is \<open>Ok\<close>.\<close>

function bsearch_loop :: "u32 list \<Rightarrow> u32 \<Rightarrow> nat \<Rightarrow> nat \<Rightarrow> nat" where
  "bsearch_loop xs x base n =
     (if 1 < n
      then let half = n div 2; mid = base + half
           in bsearch_loop xs x (if x < xs ! mid then base else mid) (n - half)
      else base)"
  by pat_completeness auto
termination by (relation "measure (\<lambda>(_, _, _, n). n)") auto

declare bsearch_loop.simps [simp del]

definition binary_search_ok :: "u32 list \<Rightarrow> u32 \<Rightarrow> bool" where
  "binary_search_ok xs x = (xs \<noteq> [] \<and> xs ! bsearch_loop xs x 0 (length xs) = x)"

definition phrase_matches :: "u32 list list \<Rightarrow> u32" where
  "phrase_matches positions =
     (case positions of
        [] \<Rightarrow> 0
      | first # rest \<Rightarrow>
          of_nat (length (filter (\<lambda>p0. list_all (\<lambda>(k, ps).
            (case checked_add p0 (of_nat k + 1) of None \<Rightarrow> False | Some p \<Rightarrow> binary_search_ok ps p)) (enumerate 0 rest)) first)))"

text \<open>
  The inner loop of \<open>eval_phrase\<close>: it aligns the cursors on a common document, or finds that one is exhausted
  (\<open>Some (None, cs)\<close>, the \<open>break 'docs\<close>).
\<close>

partial_function (option) align :: "'c cursor_ops \<Rightarrow> 'c list \<Rightarrow> u32 \<Rightarrow> nat \<Rightarrow> (u32 option \<times> 'c list) option" where
  "align ops cs target i =
     (if i < length cs then
        (case co_seek ops (cs ! i) target of
           (None, c) \<Rightarrow> Some (None, cs[i := c])
         | (Some d, c) \<Rightarrow>
             if d = target then align ops (cs[i := c]) target (i + 1)
             else (case co_seek ops (cs[i := c] ! 0) d of
                     (None, c0) \<Rightarrow> Some (None, cs[i := c, 0 := c0])
                   | (Some d0, c0) \<Rightarrow> align ops (cs[i := c, 0 := c0]) d0 1))
      else Some (Some target, cs))"

fun all_positions :: "'c cursor_ops \<Rightarrow> 'c list \<Rightarrow> (u32 list list \<times> 'c list) option" where
  "all_positions ops [] = Some ([], [])"
| "all_positions ops (c # cs) =
     Option.bind (co_positions ops c) (\<lambda>(ps, c). map_option (\<lambda>(pss, cs). (ps # pss, c # cs)) (all_positions ops cs))"

definition advance_first :: "'c cursor_ops \<Rightarrow> 'c list \<Rightarrow> 'c list" where
  "advance_first ops cs = cs[0 := snd (co_advance ops (cs ! 0))]"

partial_function (option) phrase_walk ::
  "'c cursor_ops \<Rightarrow> (u32 \<Rightarrow> u32 option) \<Rightarrow> (u32 \<Rightarrow> u32 \<Rightarrow> f32) \<Rightarrow> 'c list \<Rightarrow> hit list \<Rightarrow> hit list option" where
  "phrase_walk ops doc_len score cs out =
     (case co_doc ops (cs ! 0) of
        None \<Rightarrow> Some out
      | Some target \<Rightarrow>
          Option.bind (align ops cs target 1) (\<lambda>(r, cs).
            case r of
              None \<Rightarrow> Some out
            | Some target \<Rightarrow>
                (case doc_len target of
                   None \<Rightarrow> phrase_walk ops doc_len score (advance_first ops cs) out
                 | Some len \<Rightarrow>
                     Option.bind (all_positions ops cs) (\<lambda>(positions, cs).
                       let tf = phrase_matches positions;
                           out = (if 0 < tf then out @ [\<lparr>h_doc = target, h_score = score tf len\<rparr>] else out)
                       in phrase_walk ops doc_len score (advance_first ops cs) out))))"

definition eval_phrase :: "('s, 'l, 'c) segment_ops \<Rightarrow> 's \<Rightarrow> (ustr \<times> 'l) list \<Rightarrow> ustr list \<Rightarrow> bm25 \<Rightarrow> stats \<Rightarrow> hit list option" where
  "eval_phrase sg seg ls ts b st =
     (case ts of
        [] \<Rightarrow> Some []
      | [t] \<Rightarrow> eval_term sg seg ls t b st
      | _ \<Rightarrow>
          if list_ex (\<lambda>t. map_of ls t = None) ts then Some []
          else let cs = map (\<lambda>t. lo_cursor (sg_lists sg) (the (map_of ls t))) ts;
                   idf = foldl f32_add 0 (map (\<lambda>t. bm25_idf b (st_n st) (df_of st t)) ts)
               in phrase_walk (lo_cursor_ops (sg_lists sg)) (sg_doc_len sg seg)
                    (\<lambda>tf len. bm25_score b idf tf len (st_avg_len st)) cs [])"

section \<open>Inner nodes\<close>

text \<open>
  \<open>eval_must\<close> is the first loop of a conjunction: \<open>Some None\<close> when an operand is empty and the conjunction
  returns early. \<open>eval_not\<close> is the second.
\<close>

fun eval_node :: "('s, 'l, 'c) segment_ops \<Rightarrow> 's \<Rightarrow> (ustr \<times> 'l) list \<Rightarrow> bm25 \<Rightarrow> stats \<Rightarrow> node \<Rightarrow> hit list option"
  and eval_must :: "('s, 'l, 'c) segment_ops \<Rightarrow> 's \<Rightarrow> (ustr \<times> 'l) list \<Rightarrow> bm25 \<Rightarrow> stats \<Rightarrow> node list \<Rightarrow> hit list list option option"
  and eval_not :: "('s, 'l, 'c) segment_ops \<Rightarrow> 's \<Rightarrow> (ustr \<times> 'l) list \<Rightarrow> bm25 \<Rightarrow> stats \<Rightarrow> node list \<Rightarrow> hit list \<Rightarrow> hit list option"
  and eval_all :: "('s, 'l, 'c) segment_ops \<Rightarrow> 's \<Rightarrow> (ustr \<times> 'l) list \<Rightarrow> bm25 \<Rightarrow> stats \<Rightarrow> node list \<Rightarrow> hit list list option"
where
  "eval_node sg seg ls b st (Term t) = eval_term sg seg ls t b st"
| "eval_node sg seg ls b st (Phrase ts) = eval_phrase sg seg ls ts b st"
| "eval_node sg seg ls b st (And must must_not) =
     Option.bind (eval_must sg seg ls b st must) (\<lambda>r.
       case r of None \<Rightarrow> Some [] | Some acc \<Rightarrow> eval_not sg seg ls b st must_not (intersect acc))"
| "eval_node sg seg ls b st (Or cs) = map_option union_hits (eval_all sg seg ls b st cs)"
| "eval_must sg seg ls b st [] = Some (Some [])"
| "eval_must sg seg ls b st (n # ns) =
     Option.bind (eval_node sg seg ls b st n) (\<lambda>l.
       if l = [] then Some None else map_option (map_option ((#) l)) (eval_must sg seg ls b st ns))"
| "eval_not sg seg ls b st [] result = Some result"
| "eval_not sg seg ls b st (n # ns) result =
     (if result = [] then Some result
      else Option.bind (eval_node sg seg ls b st n) (\<lambda>excluded. eval_not sg seg ls b st ns (difference result excluded)))"
| "eval_all sg seg ls b st [] = Some []"
| "eval_all sg seg ls b st (n # ns) =
     Option.bind (eval_node sg seg ls b st n) (\<lambda>l. map_option ((#) l) (eval_all sg seg ls b st ns))"

section \<open>The whole index, and ranking\<close>

definition segment_lookups :: "('s, 'l, 'c) segment_ops \<Rightarrow> ustr list \<Rightarrow> 's \<Rightarrow> (ustr \<times> 'l) list" where
  "segment_lookups sg terms seg = List.map_filter (\<lambda>t. map_option (Pair t) (sg_postings sg seg t)) terms"

definition query_stats :: "('s, 'l, 'c) segment_ops \<Rightarrow> ('r, 's) reader_ops \<Rightarrow> 'r \<Rightarrow> ustr list \<Rightarrow> (ustr \<times> 'l) list list \<Rightarrow> stats" where
  "query_stats sg ix r terms lookups =
     \<lparr>st_n = ix_indexed_count ix r, st_avg_len = ix_avg_len ix r,
      st_df = map (\<lambda>t. (t, sum_list (map (lo_doc_freq (sg_lists sg)) (List.map_filter (\<lambda>m. map_of m t) lookups)))) terms\<rparr>"

fun collect_hits :: "('s, 'l, 'c) segment_ops \<Rightarrow> bm25 \<Rightarrow> stats \<Rightarrow> node \<Rightarrow> ('s \<times> (ustr \<times> 'l) list) list \<Rightarrow> hit list \<Rightarrow> hit list option" where
  "collect_hits sg b st node [] out = Some out"
| "collect_hits sg b st node ((seg, ls) # segs) out =
     Option.bind (eval_node sg seg ls b st node) (\<lambda>hits.
       collect_hits sg b st node segs (out @ map (\<lambda>h. \<lparr>h_doc = sg_base sg seg + h_doc h, h_score = h_score h\<rparr>) hits))"

definition evaluate :: "('s, 'l, 'c) segment_ops \<Rightarrow> ('r, 's) reader_ops \<Rightarrow> 'r \<Rightarrow> node \<Rightarrow> bm25 \<Rightarrow> hit list option" where
  "evaluate sg ix r node b =
     (let terms = query_terms node []; segments = ix_segments ix r;
          lookups = map (segment_lookups sg terms) segments
      in collect_hits sg b (query_stats sg ix r terms lookups) node (zip segments lookups) [])"

record search_options =
  so_limit :: nat
  so_bm25 :: bm25

definition search_options_default :: search_options where
  "search_options_default = \<lparr>so_limit = 20, so_bm25 = bm25_default\<rparr>"

record search_result =
  sr_hits :: "hit list"
  sr_total_matches :: nat

text \<open>
  The order of \<open>by_rank\<close>: higher scores first, ties by document. \<open>sort_unstable_by\<close> sorts by that key; as no two
  hits share a document, every sort by it agrees. \<open>select k hits\<close> is \<open>select_nth_unstable_by(k)\<close>: it may leave
  any order that has the element of rank \<open>k\<close> at index \<open>k\<close>, smaller ones before and larger ones after
  (\<open>selects\<close>).
\<close>

definition rank_key :: "hit \<Rightarrow> f32 \<times> u32" where
  "rank_key h = (- h_score h, h_doc h)"

definition by_rank :: "hit \<Rightarrow> hit \<Rightarrow> bool" where
  "by_rank a b \<longleftrightarrow> rank_key a \<le> rank_key b"

definition selects :: "(nat \<Rightarrow> hit list \<Rightarrow> hit list) \<Rightarrow> bool" where
  "selects select \<longleftrightarrow> (\<forall>k hs. k < length hs \<longrightarrow> mset (select k hs) = mset hs \<and>
     (\<forall>x \<in> set (take k (select k hs)). by_rank x (select k hs ! k)) \<and>
     (\<forall>y \<in> set (drop (k + 1) (select k hs)). by_rank (select k hs ! k) y))"

definition sort_by_rank :: "hit list \<Rightarrow> hit list" where
  "sort_by_rank hs = sort_key rank_key hs"

definition rank_hits :: "(nat \<Rightarrow> hit list \<Rightarrow> hit list) \<Rightarrow> nat \<Rightarrow> hit list \<Rightarrow> hit list" where
  "rank_hits select limit hits =
     (let hits = (if limit < length hits
                  then take limit (if 0 < limit then select (limit - 1) hits else hits) else hits)
      in sort_by_rank hits)"

definition search :: "(nat \<Rightarrow> hit list \<Rightarrow> hit list) \<Rightarrow> ('s, 'l, 'c) segment_ops \<Rightarrow> ('r, 's) reader_ops \<Rightarrow> 'r \<Rightarrow> node \<Rightarrow>
    search_options \<Rightarrow> search_result option" where
  "search select sg ix r query opts =
     map_option (\<lambda>hits. \<lparr>sr_hits = rank_hits select (so_limit opts) hits, sr_total_matches = length hits\<rparr>)
       (evaluate sg ix r query (so_bm25 opts))"

section \<open>What a segment provides\<close>

definition term_list :: "(ustr \<Rightarrow> plist option) \<Rightarrow> ustr \<Rightarrow> plist" where
  "term_list P t = (case P t of None \<Rightarrow> [] | Some ps \<Rightarrow> ps)"

text \<open>The query as a boolean formula over a document of a segment.\<close>

definition phrase_at :: "plist list \<Rightarrow> u32 \<Rightarrow> bool" where
  "phrase_at pss d \<longleftrightarrow> (\<forall>ps \<in> set pss. d \<in> fst ` set ps) \<and>
     (\<exists>p. \<forall>k < length pss. p + k < 2 ^ 32 \<and> of_nat (p + k) \<in> set (the (map_of (pss ! k) d)))"

fun matches :: "(ustr \<Rightarrow> plist option) \<Rightarrow> (u32 \<Rightarrow> bool) \<Rightarrow> node \<Rightarrow> u32 \<Rightarrow> bool" where
  "matches P live (Term t) d \<longleftrightarrow> live d \<and> d \<in> fst ` set (term_list P t)"
| "matches P live (Phrase ts) d \<longleftrightarrow>
     live d \<and> (case ts of [] \<Rightarrow> False | [t] \<Rightarrow> d \<in> fst ` set (term_list P t) | _ \<Rightarrow> phrase_at (map (term_list P) ts) d)"
| "matches P live (And must must_not) d \<longleftrightarrow>
     must \<noteq> [] \<and> list_all (\<lambda>n. matches P live n d) must \<and> \<not> list_ex (\<lambda>n. matches P live n d) must_not"
| "matches P live (Or cs) d \<longleftrightarrow> list_ex (\<lambda>n. matches P live n d) cs"

locale segment_reader = posting_list "sg_lists sg" repr contents
  for sg :: "('s, 'l, 'c) segment_ops" and repr :: "'c \<Rightarrow> plist \<Rightarrow> bool" and contents :: "'l \<Rightarrow> plist \<Rightarrow> bool" +
  fixes seg_ok :: "'s \<Rightarrow> bool"
    and plists :: "'s \<Rightarrow> ustr \<Rightarrow> plist option"
  assumes postings_None: "seg_ok s \<Longrightarrow> sg_postings sg s t = None \<longleftrightarrow> plists s t = None"
    and postings_Some: "seg_ok s \<Longrightarrow> sg_postings sg s t = Some l \<Longrightarrow> \<exists>ps. plists s t = Some ps \<and> contents l ps \<and> plist_ok ps"
    and doc_len_bound: "seg_ok s \<Longrightarrow> sg_doc_len sg s d = Some n \<Longrightarrow> d < sg_num_docs sg s"

section \<open>Walking one list\<close>

definition term_hits :: "(u32 \<Rightarrow> u32 option) \<Rightarrow> (u32 \<Rightarrow> u32 \<Rightarrow> f32) \<Rightarrow> plist \<Rightarrow> hit list" where
  "term_hits doc_len score ps = List.map_filter (\<lambda>(d, qs).
     map_option (\<lambda>len. \<lparr>h_doc = d, h_score = score (of_nat (length qs)) len\<rparr>) (doc_len d)) ps"

context posting_cursor
begin

lemma term_walk_eq: "repr c ps \<Longrightarrow> term_walk ops doc_len score c out = Some (out @ term_hits doc_len score ps)"
proof (induction ps arbitrary: c out)
  case Nil
  then show ?case by (simp add: term_walk.simps repr_doc term_hits_def map_filter_def)
next
  case (Cons p ps)
  obtain d qs where p: "p = (d, qs)" by force
  have doc: "co_doc ops c = Some d" using Cons.prems by (simp add: repr_doc p)
  show ?case
  proof (cases "doc_len d")
    case None
    have "repr (snd (co_advance ops c)) ps" using advance_repr [OF Cons.prems] by simp
    then show ?thesis using Cons.IH doc None by (simp add: term_walk.simps [of ops doc_len score c] term_hits_def map_filter_def p)
  next
    case (Some len)
    obtain c' where c': "co_term_freq ops c = Some (of_nat (length qs), c')" "repr c' (p # ps)"
      using repr_term_freq [OF Cons.prems] p by auto
    have "repr (snd (co_advance ops c')) ps" using advance_repr [OF c'(2)] by simp
    then show ?thesis using Cons.IH doc Some c'(1)
      by (simp add: term_walk.simps [of ops doc_len score c] term_hits_def map_filter_def p)
  qed
qed

end

lemma term_hits_lists:
  assumes "sorted_wrt (<) (map fst ps)"
  shows "lists_docs (term_hits doc_len score ps) {d. doc_len d \<noteq> None \<and> d \<in> fst ` set ps}"
proof -
  have d: "docs_of (term_hits doc_len score ps) = filter (\<lambda>d. doc_len d \<noteq> None) (map fst ps)"
    by (induction ps) (auto simp: term_hits_def map_filter_def)
  have "set (map fst ps) = fst ` set ps" by simp
  then show ?thesis unfolding lists_docs_def hits_sorted_def d set_filter using assms by (auto simp: sorted_wrt_filter simp del: set_map)
qed

section \<open>Phrases\<close>

definition common_docs :: "plist list \<Rightarrow> u32 set" where
  "common_docs pss = {d. \<forall>ps \<in> set pss. d \<in> fst ` set ps}"

definition positions_at :: "plist list \<Rightarrow> u32 \<Rightarrow> u32 list list" where
  "positions_at pss d = map (\<lambda>ps. the (map_of ps d)) pss"

definition phrase_hit :: "(u32 \<Rightarrow> u32 option) \<Rightarrow> (u32 \<Rightarrow> u32 \<Rightarrow> f32) \<Rightarrow> plist list \<Rightarrow> u32 \<Rightarrow> hit option" where
  "phrase_hit doc_len score pss d =
     (if d \<in> common_docs pss
      then Option.bind (doc_len d) (\<lambda>len. let tf = phrase_matches (positions_at pss d)
             in if 0 < tf then Some \<lparr>h_doc = d, h_score = score tf len\<rparr> else None)
      else None)"

definition phrase_hits :: "(u32 \<Rightarrow> u32 option) \<Rightarrow> (u32 \<Rightarrow> u32 \<Rightarrow> f32) \<Rightarrow> plist list \<Rightarrow> hit list" where
  "phrase_hits doc_len score pss = List.map_filter (phrase_hit doc_len score pss) (map fst (pss ! 0))"

lemma seek_suffix: "suffix (seek_to t ps) ps"
  by (simp add: suffix_dropWhile)

lemma suffix_docs: "suffix qs ps \<Longrightarrow> fst ` set qs \<subseteq> fst ` set ps"
  by (auto simp: suffix_def)

lemma suffix_map_of:
  "suffix qs ps \<Longrightarrow> sorted_wrt (<) (map fst ps) \<Longrightarrow> d \<in> fst ` set qs \<Longrightarrow> map_of qs d = map_of ps d"
  for ps :: plist
proof -
  assume a: "suffix qs ps" "sorted_wrt (<) (map fst ps)" "d \<in> fst ` set qs"
  then obtain zs where z: "ps = zs @ qs" by (auto simp: suffix_def)
  have "\<forall>x \<in> set (map fst zs). \<forall>y \<in> set (map fst qs). x < y" using a(2) by (auto simp: z sorted_wrt_append)
  then have "d \<notin> set (map fst zs)" using a(3) by fastforce
  then have "map_of zs d = None" by (simp add: map_of_eq_None_iff)
  then show ?thesis by (simp add: z map_add_def split: option.splits)
qed

text \<open>The lists left on the way agree on the common documents and their positions.\<close>

definition remains :: "plist list \<Rightarrow> plist list \<Rightarrow> bool" where
  "remains pss qss \<longleftrightarrow> list_all2 (\<lambda>qs ps. suffix qs ps) qss pss \<and> common_docs qss = common_docs pss"

lemma remains_refl: "remains pss pss"
  by (simp add: remains_def list_all2_refl)

lemma remains_trans: "remains pss qss \<Longrightarrow> remains qss rss \<Longrightarrow> remains pss rss"
  unfolding remains_def by (auto intro: list_all2_trans [rotated] suffix_order.order_trans)

lemma remains_length: "remains pss qss \<Longrightarrow> length qss = length pss"
  by (auto simp: remains_def dest: list_all2_lengthD)

lemma remains_seek:
  assumes "i < length pss" and "\<forall>d \<in> common_docs pss. t \<le> d"
  shows "remains pss (pss[i := seek_to t (pss ! i)])"
proof -
  have keep: "d \<in> fst ` set (seek_to t (pss ! i))" if "d \<in> common_docs pss" for d
  proof -
    have "d \<in> fst ` set (pss ! i)" "\<not> d < t" using that assms by (auto simp: common_docs_def not_less)
    then obtain qs where q: "(d, qs) \<in> set (pss ! i)" by auto
    have "(d, qs) \<in> set (takeWhile (\<lambda>p. fst p < t) (pss ! i)) \<union> set (seek_to t (pss ! i))"
      using q by (metis takeWhile_dropWhile_id set_append)
    then show ?thesis using \<open>\<not> d < t\<close> by (force dest: set_takeWhileD)
  qed
  have "common_docs (pss[i := seek_to t (pss ! i)]) = common_docs pss"
  proof (intro set_eqI iffI)
    fix d assume "d \<in> common_docs (pss[i := seek_to t (pss ! i)])"
    then have d: "\<forall>j < length pss. d \<in> fst ` set (pss[i := seek_to t (pss ! i)] ! j)"
      by (simp add: common_docs_def all_set_conv_all_nth)
    have "d \<in> fst ` set (pss ! j)" if "j < length pss" for j
      using spec [OF d, of j] that suffix_docs [OF seek_suffix [of t "pss ! i"]]
      by (cases "j = i") (simp_all add: subset_iff)
    then show "d \<in> common_docs pss" by (simp add: common_docs_def all_set_conv_all_nth)
  next
    fix d assume d: "d \<in> common_docs pss"
    have "d \<in> fst ` set (pss[i := seek_to t (pss ! i)] ! j)" if "j < length pss" for j
      using keep [OF d] d that by (cases "j = i") (simp_all add: common_docs_def)
    then show "d \<in> common_docs (pss[i := seek_to t (pss ! i)])" by (simp add: common_docs_def all_set_conv_all_nth)
  qed
  moreover have "list_all2 (\<lambda>qs ps. suffix qs ps) (pss[i := seek_to t (pss ! i)]) pss"
    using assms(1) by (auto simp: list_all2_conv_all_nth nth_list_update seek_suffix)
  ultimately show ?thesis by (simp add: remains_def)
qed

lemma remains_phrase_hits:
  assumes "remains pss qss" and "\<forall>ps \<in> set pss. sorted_wrt (<) (map fst ps)" and "pss \<noteq> []"
  shows "phrase_hits doc_len score qss = phrase_hits doc_len score pss"
proof -
  have l: "length qss = length pss" by (rule remains_length [OF assms(1)])
  have suf: "suffix (qss ! j) (pss ! j)" if "j < length pss" for j
    using assms(1) that by (auto simp: remains_def list_all2_conv_all_nth)
  have c: "common_docs qss = common_docs pss" using assms(1) by (simp add: remains_def)
  have "phrase_hit doc_len score qss d = phrase_hit doc_len score pss d" for d
  proof (cases "d \<in> common_docs pss")
    case True
    then have "\<forall>j < length pss. d \<in> fst ` set (qss ! j)" using c l by (metis (no_types, lifting) common_docs_def mem_Collect_eq nth_mem)
    then have "positions_at qss d = positions_at pss d"
      using suffix_map_of [OF suf] assms(2) l by (auto simp: positions_at_def list_eq_iff_nth_eq)
    then show ?thesis using c by (simp add: phrase_hit_def)
  qed (simp add: phrase_hit_def c)
  then have h: "phrase_hit doc_len score qss = phrase_hit doc_len score pss" by (rule ext)
  obtain zs where z: "pss ! 0 = zs @ qss ! 0" using suf [of 0] assms(3) by (auto simp: suffix_def)
  have "phrase_hit doc_len score pss d = None" if "d \<in> fst ` set zs" for d
  proof -
    have "sorted_wrt (<) (map fst zs @ map fst (qss ! 0))" using assms(2,3) z by (metis length_greater_0_conv map_append nth_mem)
    then have "\<forall>x \<in> fst ` set zs. \<forall>y \<in> fst ` set (qss ! 0). x < y" by (auto simp: sorted_wrt_append)
    then have "d \<notin> fst ` set (qss ! 0)" using that by fastforce
    then have "d \<notin> common_docs qss" using assms(3) l by (auto simp: common_docs_def)
    then show ?thesis by (simp add: phrase_hit_def c)
  qed
  then have "List.map_filter (phrase_hit doc_len score pss) (map fst zs) = []" by (auto simp: map_filter_def filter_empty_conv)
  then show ?thesis unfolding phrase_hits_def h z by (simp add: map_filter_def)
qed

lemma common_ge_head:
  assumes "i < length pss" and "sorted_wrt (<) (map fst (pss ! i))" and "head_doc (pss ! i) = Some t"
  shows "\<forall>d \<in> common_docs pss. t \<le> d"
proof
  fix d assume "d \<in> common_docs pss"
  then have "d \<in> fst ` set (pss ! i)" using assms(1) by (auto simp: common_docs_def)
  then show "t \<le> d" using assms(2,3) by (cases "pss ! i") auto
qed

definition heads :: "u32 \<Rightarrow> nat \<Rightarrow> plist list \<Rightarrow> bool" where
  "heads t i pss \<longleftrightarrow> (\<forall>j < i. head_doc (pss ! j) = Some t)"

text \<open>What \<open>align\<close> leaves: all lists at a common document, or none is left.\<close>

definition aligned :: "u32 option \<Rightarrow> plist list \<Rightarrow> bool" where
  "aligned r pss \<longleftrightarrow> (case r of None \<Rightarrow> common_docs pss = {} | Some t \<Rightarrow> heads t (length pss) pss)"

lemma empty_common: "i < length pss \<Longrightarrow> pss ! i = [] \<Longrightarrow> common_docs pss = {}"
  using nth_mem [of i pss] by (fastforce simp: common_docs_def)

context posting_cursor
begin

lemma reprs_nth: "list_all2 repr cs pss \<Longrightarrow> i < length cs \<Longrightarrow> repr (cs ! i) (pss ! i)"
  by (rule list_all2_nthD)

lemma reprs_sorted: "list_all2 repr cs pss \<Longrightarrow> \<forall>ps \<in> set pss. sorted_wrt (<) (map fst ps)"
  by (metis in_set_conv_nth list_all2_conv_all_nth repr_sorted)

lemma reprs_update: "list_all2 repr cs pss \<Longrightarrow> repr c ps \<Longrightarrow> list_all2 repr (cs[i := c]) (pss[i := ps])"
  by (rule list_all2_update_cong)

lemma align_eq:
  assumes "list_all2 repr cs pss" and "heads t i pss" and "1 \<le> i" and "i \<le> length cs"
  shows "\<exists>r cs' pss'. align ops cs t i = Some (r, cs') \<and> list_all2 repr cs' pss' \<and> remains pss pss' \<and> aligned r pss'"
  using assms
proof (induction "(length (pss ! 0), length cs - i)" arbitrary: cs pss t i rule: wf_induct_rule [OF wf_lex_prod [OF wf_less_than wf_less_than]])
  case (1 cs pss i t)
  have len: "length cs = length pss" using "1.prems"(1) by (rule list_all2_lengthD)
  have ne: "0 < length pss" using "1.prems"(3,4) len by linarith
  have s0: "sorted_wrt (<) (map fst (pss ! 0))" using reprs_sorted [OF "1.prems"(1)] nth_mem [OF ne] by blast
  have h0: "head_doc (pss ! 0) = Some t" using "1.prems"(2,3) by (simp add: heads_def)
  show ?case
  proof (cases "i < length cs")
    case False
    then have "align ops cs t i = Some (Some t, cs)" by (simp add: align.simps)
    then show ?thesis using False "1.prems" len remains_refl [of pss] by (auto simp: aligned_def)
  next
    case True
    obtain d c where sk: "co_seek ops (cs ! i) t = (d, c)" by force
    define pss1 where "pss1 = pss[i := seek_to t (pss ! i)]"
    have c: "repr c (seek_to t (pss ! i))" "d = head_doc (seek_to t (pss ! i))"
      using repr_seek [OF reprs_nth [OF "1.prems"(1) True] sk] by simp_all
    have r1: "list_all2 repr (cs[i := c]) pss1" unfolding pss1_def by (rule reprs_update [OF "1.prems"(1) c(1)])
    have "\<forall>d \<in> common_docs pss. t \<le> d" by (rule common_ge_head [OF ne s0 h0])
    then have m1: "remains pss pss1" unfolding pss1_def using True len by (intro remains_seek) simp_all
    have p0: "pss1 ! 0 = pss ! 0" using "1.prems"(3) by (simp add: pss1_def)
    have l1: "length pss1 = length pss" by (simp add: pss1_def)
    show ?thesis
    proof (cases d)
      case None
      then have "align ops cs t i = Some (None, cs[i := c])" using True sk by (simp add: align.simps)
      moreover have "pss1 ! i = []" using c(2) None True len
        by (cases "seek_to t (pss ! i)") (auto simp: pss1_def)
      then have "aligned None pss1" using True len l1 by (simp add: aligned_def empty_common [of i])
      ultimately show ?thesis using r1 m1 by blast
    next
      case (Some e)
      have hi: "head_doc (pss1 ! i) = Some e" using c(2) Some True len by (simp add: pss1_def)
      show ?thesis
      proof (cases "e = t")
        case eq: True
        have step: "align ops cs t i = align ops (cs[i := c]) t (i + 1)" using True sk Some eq by (simp add: align.simps [of ops cs])
        have "heads t (i + 1) pss1" using "1.prems"(2) hi eq by (auto simp: heads_def pss1_def nth_list_update less_Suc_eq)
        moreover have "((length (pss1 ! 0), length (cs[i := c]) - (i + 1)), length (pss ! 0), length cs - i)
            \<in> less_than <*lex*> less_than" using True p0 by simp
        ultimately obtain r cs' pss' where "align ops (cs[i := c]) t (i + 1) = Some (r, cs')" "list_all2 repr cs' pss'"
            "remains pss1 pss'" "aligned r pss'"
          using "1.hyps" [of pss1 "cs[i := c]" "i + 1" t] r1 True by auto
        then show ?thesis using step remains_trans [OF m1] by metis
      next
        case neq: False
        obtain d0 c0 where sk0: "co_seek ops (cs[i := c] ! 0) e = (d0, c0)" by force
        define pss2 where "pss2 = pss1[0 := seek_to e (pss1 ! 0)]"
        have z: "0 < length (cs[i := c])" using ne len by (simp del: length_greater_0_conv)
        have c0: "repr c0 (seek_to e (pss1 ! 0))" "d0 = head_doc (seek_to e (pss1 ! 0))"
          using repr_seek [OF reprs_nth [OF r1 z] sk0] by simp_all
        have r2: "list_all2 repr (cs[i := c, 0 := c0]) pss2" unfolding pss2_def by (rule reprs_update [OF r1 c0(1)])
        have "\<forall>d \<in> common_docs pss1. e \<le> d"
          by (rule common_ge_head [OF _ _ hi]) (use reprs_sorted [OF r1] True len l1 in simp_all)
        then have m2: "remains pss1 pss2" unfolding pss2_def using ne l1 by (intro remains_seek) simp_all
        have m: "remains pss pss2" by (rule remains_trans [OF m1 m2])
        show ?thesis
        proof (cases d0)
          case None
          then have "align ops cs t i = Some (None, cs[i := c, 0 := c0])" using True sk Some neq sk0 by (simp add: align.simps)
          moreover have "pss2 ! 0 = []" using c0(2) None ne l1
            by (cases "seek_to e (pss1 ! 0)") (auto simp: pss2_def)
          then have "aligned None pss2" using ne l1 by (simp add: aligned_def empty_common [of 0] pss2_def)
          ultimately show ?thesis using r2 m by blast
        next
          case (Some e0)
          have step: "align ops cs t i = align ops (cs[i := c, 0 := c0]) e0 1"
            using True sk \<open>d = Some e\<close> neq sk0 Some by (simp add: align.simps [of ops cs])
          have "e \<in> fst ` set (pss ! i) \<and> t \<le> e"
            using head_doc_seek [of "pss ! i" t e] reprs_sorted [OF "1.prems"(1)] c(2) \<open>d = Some e\<close> True len by auto
          then have "t < e" using neq by (simp add: order.strict_iff_order)
          then have "length (seek_to e (pss ! 0)) < length (pss ! 0)"
            using h0 dropWhile_shorter [of "\<lambda>p. fst p < e" "tl (pss ! 0)"] by (cases "pss ! 0") auto
          then have "length (pss2 ! 0) < length (pss ! 0)" using ne l1 p0 by (simp add: pss2_def)
          moreover have "heads e0 1 pss2" using c0(2) Some ne l1 by (simp add: heads_def pss2_def)
          ultimately obtain r cs' pss' where "align ops (cs[i := c, 0 := c0]) e0 1 = Some (r, cs')" "list_all2 repr cs' pss'"
              "remains pss2 pss'" "aligned r pss'"
            using "1.hyps" [of pss2 "cs[i := c, 0 := c0]" 1 e0] r2 ne len by (auto simp: Suc_le_eq)
          then show ?thesis using step remains_trans [OF m] by metis
        qed
      qed
    qed
  qed
qed

lemma all_positions_eq:
  "list_all2 repr cs pss \<Longrightarrow> \<forall>ps \<in> set pss. head_doc ps = Some t \<Longrightarrow>
     \<exists>cs'. all_positions ops cs = Some (map (snd \<circ> hd) pss, cs') \<and> list_all2 repr cs' pss"
proof (induction cs pss rule: list_all2_induct)
  case (Cons c cs ps pss)
  then obtain cs' where ih: "all_positions ops cs = Some (map (snd \<circ> hd) pss, cs')" "list_all2 repr cs' pss" by auto
  obtain p r where p: "ps = p # r" using Cons.prems by (cases ps) auto
  obtain c' where "co_positions ops c = Some (snd p, c')" "repr c' (p # r)" using repr_positions Cons.hyps(1) p by blast
  then show ?case using ih p by simp
qed simp

text \<open>One aligned document, and the rest of the walk.\<close>

lemma phrase_step:
  assumes "heads t (length pss) pss" and "pss \<noteq> []" and "\<forall>ps \<in> set pss. sorted_wrt (<) (map fst ps)"
  shows "phrase_hits doc_len score pss =
      (case phrase_hit doc_len score pss t of None \<Rightarrow> [] | Some h \<Rightarrow> [h]) @
      phrase_hits doc_len score (pss[0 := tl (pss ! 0)])"
    and "t \<in> common_docs pss" and "positions_at pss t = map (snd \<circ> hd) pss"
proof -
  have hd: "\<exists>qs r. ps = (t, qs) # r" if ps: "ps \<in> set pss" for ps
  proof -
    obtain j where "j < length pss" "ps = pss ! j" using ps by (auto simp: in_set_conv_nth)
    then have "head_doc ps = Some t" using assms(1) by (simp add: heads_def)
    then show ?thesis by (cases ps) (auto intro: prod_eqI)
  qed
  then show t: "t \<in> common_docs pss" by (fastforce simp: common_docs_def)
  show "positions_at pss t = map (snd \<circ> hd) pss" using hd by (fastforce simp: positions_at_def)
  obtain ps0 rest where pss: "pss = ps0 # rest" using assms(2) by (cases pss) auto
  then obtain q0 r0 where ps0: "ps0 = (t, q0) # r0" using hd [of ps0] by auto
  let ?qss = "r0 # rest"
  have s: "\<forall>x \<in> set r0. t < fst x" using assms(3) by (auto simp: pss ps0)
  have "phrase_hit doc_len score pss d = phrase_hit doc_len score ?qss d" if "d \<in> fst ` set r0" for d
  proof -
    have "d \<noteq> t" using s that by auto
    then have "positions_at pss d = positions_at ?qss d" "d \<in> common_docs pss \<longleftrightarrow> d \<in> common_docs ?qss"
      by (simp_all add: positions_at_def common_docs_def pss ps0)
    then show ?thesis by (simp add: phrase_hit_def)
  qed
  then have "List.map_filter (phrase_hit doc_len score pss) (map fst r0) = List.map_filter (phrase_hit doc_len score ?qss) (map fst r0)"
    unfolding map_filter_def by (intro map_cong filter_cong arg_cong [where f = "map _"]) auto
  then show "phrase_hits doc_len score pss = (case phrase_hit doc_len score pss t of None \<Rightarrow> [] | Some h \<Rightarrow> [h]) @
      phrase_hits doc_len score (pss[0 := tl (pss ! 0)])"
    by (simp add: phrase_hits_def pss ps0 map_filter_def split: option.splits)
qed

lemma phrase_walk_eq:
  "list_all2 repr cs pss \<Longrightarrow> pss \<noteq> [] \<Longrightarrow> phrase_walk ops doc_len score cs out = Some (out @ phrase_hits doc_len score pss)"
proof (induction "length (pss ! 0)" arbitrary: cs pss out rule: less_induct)
  case less
  have ne: "cs \<noteq> []" "1 \<le> length cs" using less.prems by (cases cs; auto dest: list_all2_lengthD)+
  have doc: "co_doc ops (cs ! 0) = head_doc (pss ! 0)" using reprs_nth [OF less.prems(1), of 0] ne by (simp add: repr_doc)
  show ?case
  proof (cases "pss ! 0")
    case Nil
    then show ?thesis using doc by (simp add: phrase_walk.simps [of ops] phrase_hits_def map_filter_def)
  next
    case (Cons p ps)
    then have h: "heads (fst p) 1 pss" by (simp add: heads_def)
    obtain r cs1 pss1 where al: "align ops cs (fst p) 1 = Some (r, cs1)" and r1: "list_all2 repr cs1 pss1"
      and m: "remains pss pss1" and a: "aligned r pss1"
      using align_eq [OF less.prems(1) h] ne by auto
    have hits: "phrase_hits doc_len score pss1 = phrase_hits doc_len score pss"
      by (rule remains_phrase_hits [OF m reprs_sorted [OF less.prems(1)] less.prems(2)])
    have ne1: "pss1 \<noteq> []" using remains_length [OF m] less.prems(2) by auto
    have sorted1: "\<forall>ps \<in> set pss1. sorted_wrt (<) (map fst ps)" by (rule reprs_sorted [OF r1])
    show ?thesis
    proof (cases r)
      case None
      then have "phrase_hits doc_len score pss1 = []" using a by (simp add: aligned_def phrase_hits_def phrase_hit_def map_filter_def)
      then show ?thesis using doc Cons al None hits by (simp add: phrase_walk.simps [of ops])
    next
      case (Some t)
      then have hd: "heads t (length pss1) pss1" using a by (simp add: aligned_def)
      note st = phrase_step(1) [OF hd ne1 sorted1, of doc_len score] phrase_step(2,3) [OF hd ne1 sorted1]
      have len: "length (tl (pss1 ! 0)) < length (pss ! 0)"
      proof -
        have "suffix (pss1 ! 0) (pss ! 0)" using m ne1 by (auto simp: remains_def list_all2_conv_all_nth)
        then have "length (pss1 ! 0) \<le> length (pss ! 0)" by (rule suffix_length_le)
        moreover have "pss1 ! 0 \<noteq> []" using hd ne1 by (auto simp: heads_def)
        ultimately show ?thesis by (cases "pss1 ! 0") auto
      qed
      have rest: "phrase_walk ops doc_len score (advance_first ops cs2) out2 =
          Some (out2 @ phrase_hits doc_len score (pss1[0 := tl (pss1 ! 0)]))"
        if "list_all2 repr cs2 pss1" for cs2 out2
      proof (rule less.hyps)
        show "length (pss1[0 := tl (pss1 ! 0)] ! 0) < length (pss ! 0)" using len ne1 by simp
        have "repr (cs2 ! 0) (pss1 ! 0)" using reprs_nth [OF that, of 0] ne1 that by (auto dest: list_all2_lengthD)
        then show "list_all2 repr (advance_first ops cs2) (pss1[0 := tl (pss1 ! 0)])"
          unfolding advance_first_def by (intro reprs_update [OF that] advance_repr)
      qed (use ne1 in simp)
      show ?thesis
      proof (cases "doc_len t")
        case None
        then have "phrase_hit doc_len score pss1 t = None" by (simp add: phrase_hit_def)
        then show ?thesis using doc Cons al Some None rest [OF r1] st(1) hits by (simp add: phrase_walk.simps [of ops _ _ cs])
      next
        case (Some len)
        have "\<forall>ps \<in> set pss1. head_doc ps = Some t" using hd by (auto simp: heads_def in_set_conv_nth)
        from all_positions_eq [OF r1 this] obtain cs2 where
          p: "all_positions ops cs1 = Some (map (snd \<circ> hd) pss1, cs2)" "list_all2 repr cs2 pss1" by auto
        let ?tf = "phrase_matches (map (snd \<circ> hd) pss1)"
        have ph: "phrase_hit doc_len score pss1 t = (if 0 < ?tf then Some \<lparr>h_doc = t, h_score = score ?tf len\<rparr> else None)"
          using st(2,3) Some by (simp add: phrase_hit_def Let_def)
        have "phrase_walk ops doc_len score cs out =
            phrase_walk ops doc_len score (advance_first ops cs2)
              (if 0 < ?tf then out @ [\<lparr>h_doc = t, h_score = score ?tf len\<rparr>] else out)"
          using doc Cons al \<open>r = Some t\<close> p(1) Some by (simp add: phrase_walk.simps [of ops _ _ cs] Let_def)
        then show ?thesis using rest [OF p(2)] st(1) hits ph by simp
      qed
    qed
  qed
qed

end

section \<open>Counting the positions of a phrase\<close>

lemma bsearch_loop_finds:
  assumes "sorted_wrt (<) xs" and "x \<in> set (take n (drop base xs))" and "base + n \<le> length xs"
  shows "bsearch_loop xs x base n < length xs \<and> xs ! bsearch_loop xs x base n = x"
  using assms(2,3)
proof (induction n arbitrary: base rule: less_induct)
  case (less n)
  show ?case
  proof (cases "1 < n")
    case True
    define half where "half = n div 2"
    have h: "0 < half" "half < n" using True by (simp_all add: half_def)
    obtain k where k: "k < n" "xs ! (base + k) = x" using less.prems by (auto simp: in_set_conv_nth)
    have mid: "base + half < length xs" using h less.prems(2) by simp
    have cmp: "x < xs ! (base + half) \<longleftrightarrow> k < half"
    proof
      assume "x < xs ! (base + half)"
      then show "k < half"
        using sorted_wrt_nth_less [OF assms(1), of "base + half" "base + k"] k less.prems(2)
        by (metis add_less_cancel_left add_strict_left_mono less_not_sym linorder_neqE_nat order_less_le_trans)
    next
      assume "k < half"
      then show "x < xs ! (base + half)"
        using sorted_wrt_nth_less [OF assms(1), of "base + k" "base + half"] k mid by simp
    qed
    define b' where "b' = (if x < xs ! (base + half) then base else base + half)"
    have "x \<in> set (take (n - half) (drop b' xs)) \<and> b' + (n - half) \<le> length xs"
    proof (cases "k < half")
      case lt: True
      have "k < n - half" using lt unfolding half_def by linarith
      then show ?thesis using lt cmp k less.prems(2) h
        by (auto simp: b'_def in_set_conv_nth intro!: exI [of _ k])
    next
      case False
      then show ?thesis using cmp k less.prems(2) h
        by (auto simp: b'_def in_set_conv_nth intro!: exI [of _ "k - half"])
    qed
    then have "bsearch_loop xs x b' (n - half) < length xs \<and> xs ! bsearch_loop xs x b' (n - half) = x"
      using h by (intro less.IH) simp_all
    moreover have "bsearch_loop xs x base n = bsearch_loop xs x b' (n - half)"
      using True by (subst bsearch_loop.simps) (simp only: if_True Let_def half_def b'_def)
    ultimately show ?thesis by simp
  next
    case False
    have "n \<noteq> 0" using less.prems(1) by (cases n) auto
    then have "n = 1" using False by simp
    moreover have "take 1 (drop base xs) = [xs ! base]" if "n = 1"
      using less.prems(2) that by (simp add: Cons_nth_drop_Suc [symmetric])
    ultimately show ?thesis using less.prems by (simp add: bsearch_loop.simps [of xs _ base "Suc 0"])
  qed
qed

lemma binary_search_ok_iff: "sorted_wrt (<) xs \<Longrightarrow> binary_search_ok xs x \<longleftrightarrow> x \<in> set xs"
proof
  assume s: "sorted_wrt (<) xs" and "x \<in> set xs"
  then show "binary_search_ok xs x" using bsearch_loop_finds [OF s, of x "length xs" 0] by (auto simp: binary_search_ok_def)
next
  have "bsearch_loop xs x base n < length xs" if "base + n \<le> length xs" "0 < n" for base n
    using that
  proof (induction n arbitrary: base rule: less_induct)
    case (less n)
    define half where "half = n div 2"
    have "half < n" using less.prems(2) by (simp add: half_def)
    then show ?case using less.IH [of "n - half"] less.prems
      by (auto simp: bsearch_loop.simps [of xs x base n] Let_def half_def [symmetric])  (auto simp: half_def)
  qed
  from this [of 0 "length xs"] show "binary_search_ok xs x \<Longrightarrow> x \<in> set xs"
    by (auto simp: binary_search_ok_def) (metis nth_mem)
qed

end
