(* ===== verification/Exec_Correct.thy ===== *)
theory Exec_Correct
  imports Exec
begin

text \<open>
  Evaluation against the boolean reading of a query: in a segment that meets \<open>segment_reader\<close>, the hits of a
  node are exactly the live documents that satisfy it, ascending; over an index whose segments own
  ascending id ranges the results concatenate to the global list.
\<close>

section \<open>Phrases\<close>

lemma unat_of_nat_less: "n < 2 ^ 32 \<Longrightarrow> unat (of_nat n :: u32) = n"
  by (simp add: unsigned_of_nat take_bit_nat_eq_self)

lemma unat_of_nat_Suc: "k + 1 < 2 ^ 32 \<Longrightarrow> unat (of_nat k + 1 :: u32) = k + 1"
proof -
  assume k: "k + 1 < 2 ^ 32"
  have "(of_nat k + 1 :: u32) = of_nat (k + 1)" by simp
  also have "unat \<dots> = k + 1" by (rule unat_of_nat_less [OF k])
  finally show ?thesis .
qed

lemma checked_add_Some:
  assumes "k + 1 < 2 ^ 32"
  shows "checked_add (p :: u32) (of_nat k + 1) = Some q \<longleftrightarrow> unat p + (k + 1) < 2 ^ 32 \<and> q = of_nat (unat p + (k + 1))"
proof -
  have "p + (of_nat k + 1) = of_nat (unat p + (k + 1))" by (simp add: add.assoc)
  then show ?thesis using unat_of_nat_Suc [OF assms] by (auto simp: checked_add_def simp del: of_nat_add of_nat_Suc)
qed

definition phrase_from :: "u32 list list \<Rightarrow> nat \<Rightarrow> bool" where
  "phrase_from poss p \<longleftrightarrow> (\<forall>k < length poss. p + k < 2 ^ 32 \<and> of_nat (p + k) \<in> set (poss ! k))"

lemma phrase_matches_pos:
  assumes "\<forall>ps \<in> set poss. sorted_wrt (<) ps" and "2 \<le> length poss" and "length poss < 2 ^ 32"
  shows "0 < phrase_matches poss \<longleftrightarrow> (\<exists>p. phrase_from poss p)"
proof -
  obtain first rest where poss: "poss = first # rest" "rest \<noteq> []" using assms(2) by (cases poss; cases "tl poss") auto
  define hit where "hit p0 = list_all (\<lambda>(k, ps). (case checked_add p0 (of_nat k + 1) of None \<Rightarrow> False
    | Some p \<Rightarrow> binary_search_ok ps p)) (enumerate 0 rest)" for p0 :: u32
  have hit: "hit p0 \<longleftrightarrow> (\<forall>k < length rest. unat p0 + (k + 1) < 2 ^ 32 \<and> of_nat (unat p0 + (k + 1)) \<in> set (rest ! k))" for p0
  proof -
    have "(case checked_add p0 (of_nat k + 1) of None \<Rightarrow> False | Some p \<Rightarrow> binary_search_ok (rest ! k) p) \<longleftrightarrow>
        unat p0 + (k + 1) < 2 ^ 32 \<and> of_nat (unat p0 + (k + 1)) \<in> set (rest ! k)" if "k < length rest" for k
    proof -
      have k: "k + 1 < 2 ^ 32" using that assms(3) by (simp add: poss)
      have "sorted_wrt (<) (rest ! k)" using assms(1) that by (simp add: poss)
      then have b: "\<And>q. binary_search_ok (rest ! k) q \<longleftrightarrow> q \<in> set (rest ! k)" by (rule binary_search_ok_iff)
      note ca = checked_add_Some [OF k, of p0]
      show ?thesis
      proof (cases "checked_add p0 (of_nat k + 1)")
        case None
        then have "\<not> unat p0 + (k + 1) < 2 ^ 32" using ca by (metis option.distinct(1))
        then show ?thesis unfolding None by simp
      next
        case (Some q)
        then have "unat p0 + (k + 1) < 2 ^ 32" "q = of_nat (unat p0 + (k + 1))" using ca by blast+
        then show ?thesis unfolding Some by (simp only: option.case b simp_thms)
      qed
    qed
    then show ?thesis by (auto simp: hit_def list_all_length nth_enumerate_eq)
  qed
  have len: "length (filter hit first) < 2 ^ 32"
  proof -
    have d: "distinct (filter hit first)" using assms(1) by (simp add: poss sorted_wrt_less_distinct)
    have "unat p0 + 1 < 2 ^ 32" if "hit p0" for p0 using hit [of p0] that poss(2) by auto
    then have "unat ` set (filter hit first) \<subseteq> {..<2 ^ 32 - 1}" by auto
    moreover have "inj_on (unat :: u32 \<Rightarrow> nat) (set (filter hit first))" by (intro inj_onI) (simp add: word_unat_eq_iff)
    ultimately have "card (set (filter hit first)) \<le> card {..<2 ^ 32 - (1 :: nat)}" by (metis card_image card_mono finite_lessThan)
    then show ?thesis using d by (simp add: distinct_card del: set_filter)
  qed
  have "0 < phrase_matches poss \<longleftrightarrow> 0 < (of_nat (length (filter hit first)) :: u32)"
    by (simp add: phrase_matches_def poss hit_def [abs_def])
  also have "\<dots> \<longleftrightarrow> filter hit first \<noteq> []"
  proof -
    have "unat (of_nat (length (filter hit first)) :: u32) = length (filter hit first)"
      by (rule unat_of_nat_less [OF len])
    then show ?thesis by (metis length_0_conv unat_0 unat_eq_zero word_gt_0)
  qed
  also have "\<dots> \<longleftrightarrow> (\<exists>p0 \<in> set first. hit p0)" by (auto simp: filter_empty_conv)
  also have "\<dots> \<longleftrightarrow> (\<exists>p. phrase_from poss p)"
  proof
    assume "\<exists>p0 \<in> set first. hit p0"
    then obtain p0 where p0: "p0 \<in> set first" "hit p0" by blast
    have "phrase_from poss (unat p0)" unfolding phrase_from_def
    proof (intro allI impI)
      fix k assume "k < length poss"
      then show "unat p0 + k < 2 ^ 32 \<and> of_nat (unat p0 + k) \<in> set (poss ! k)"
        using p0 hit unat_bounds(2) [of p0] by (cases k) (auto simp: poss)
    qed
    then show "\<exists>p. phrase_from poss p" ..
  next
    assume "\<exists>p. phrase_from poss p"
    then obtain p where p: "\<forall>k < length poss. p + k < 2 ^ 32 \<and> of_nat (p + k) \<in> set (poss ! k)" by (auto simp: phrase_from_def)
    have u: "unat (of_nat p :: u32) = p" using spec [OF p, of 0] by (intro unat_of_nat_less) (simp add: poss)
    have "of_nat p \<in> set first" using spec [OF p, of 0] by (simp add: poss)
    moreover have "hit (of_nat p)" unfolding hit u
    proof (intro allI impI)
      fix k assume "k < length rest"
      then show "p + (k + 1) < 2 ^ 32 \<and> of_nat (p + (k + 1)) \<in> set (rest ! k)" using spec [OF p, of "k + 1"] by (simp add: poss)
    qed
    ultimately show "\<exists>p0 \<in> set first. hit p0" by blast
  qed
  finally show ?thesis .
qed

lemma phrase_hits_lists:
  assumes "\<forall>ps \<in> set pss. plist_ok ps" and "2 \<le> length pss" and "length pss < 2 ^ 32"
  shows "lists_docs (phrase_hits doc_len score pss) {d. doc_len d \<noteq> None \<and> phrase_at pss d}"
proof -
  have ne: "pss ! 0 \<in> set pss" using assms(2) by (cases pss) simp_all
  have s: "sorted_wrt (<) (map fst (pss ! 0))" using assms(1) ne by (auto simp: plist_ok_def)
  have hit: "phrase_hit doc_len score pss d \<noteq> None \<longleftrightarrow> doc_len d \<noteq> None \<and> phrase_at pss d" for d
  proof (cases "d \<in> common_docs pss")
    case True
    then have m: "map_of ps d \<noteq> None" if "ps \<in> set pss" for ps
      using that by (auto simp: common_docs_def map_of_eq_None_iff)
    have "\<forall>qs \<in> set (positions_at pss d). sorted_wrt (<) qs"
      using assms(1) m by (fastforce simp: positions_at_def plist_ok_def dest: map_of_SomeD)
    from phrase_matches_pos [OF this] assms(2,3)
    have "0 < phrase_matches (positions_at pss d) \<longleftrightarrow> (\<exists>p. phrase_from (positions_at pss d) p)" by (simp add: positions_at_def)
    then show ?thesis using True
      by (auto simp: phrase_hit_def Let_def phrase_at_def common_docs_def phrase_from_def positions_at_def split: option.splits bind_splits)
  qed (auto simp: phrase_hit_def phrase_at_def common_docs_def)
  have d: "phrase_hit doc_len score pss d = Some h \<Longrightarrow> h_doc h = d" for d h
    by (auto simp: phrase_hit_def Let_def split: if_splits bind_splits)
  have m: "docs_of (List.map_filter (phrase_hit doc_len score pss) ds) =
      filter (\<lambda>d. phrase_hit doc_len score pss d \<noteq> None) ds" for ds
    by (induction ds) (auto simp: map_filter_def d)
  have docs: "docs_of (phrase_hits doc_len score pss) = filter (\<lambda>d. doc_len d \<noteq> None \<and> phrase_at pss d) (map fst (pss ! 0))"
    unfolding phrase_hits_def m hit ..
  have "phrase_at pss d \<Longrightarrow> d \<in> set (map fst (pss ! 0))" for d using ne by (auto simp: phrase_at_def)
  then show ?thesis unfolding lists_docs_def hits_sorted_def docs using s by (auto simp: sorted_wrt_filter)
qed

section \<open>Nodes\<close>

text \<open>Phrases of a query have fewer than \<open>2 ^ 32\<close> words, as the offsets of the words are 32-bit.\<close>

fun short_phrases :: "node \<Rightarrow> bool" where
  "short_phrases (Term t) = True"
| "short_phrases (Phrase ts) = (length ts < 2 ^ 32)"
| "short_phrases (And must must_not) = (list_all short_phrases must \<and> list_all short_phrases must_not)"
| "short_phrases (Or cs) = list_all short_phrases cs"

fun node_terms :: "node \<Rightarrow> ustr set" where
  "node_terms (Term t) = {t}"
| "node_terms (Phrase ts) = set ts"
| "node_terms (And must must_not) = \<Union> (set (map node_terms must)) \<union> \<Union> (set (map node_terms must_not))"
| "node_terms (Or cs) = \<Union> (set (map node_terms cs))"

lemma add_term_set [simp]: "set (add_term t out) = insert t (set out)"
  by (auto simp: add_term_def)

lemma fold_add_term_set: "set (fold add_term ts out) = set ts \<union> set out"
  by (induction ts arbitrary: out) auto

lemma fold_query_terms_set:
  "(\<And>n out. n \<in> set ns \<Longrightarrow> set (query_terms n out) = node_terms n \<union> set out) \<Longrightarrow>
     set (fold query_terms ns out) = \<Union> (set (map node_terms ns)) \<union> set out"
  by (induction ns arbitrary: out) auto

lemma query_terms_set: "set (query_terms nd out) = node_terms nd \<union> set out"
proof (induction nd arbitrary: out)
  case (And must must_not)
  then show ?case using fold_query_terms_set [of must out] fold_query_terms_set [of must_not "fold query_terms must out"] by auto
next
  case (Or cs)
  then show ?case using fold_query_terms_set [of cs out] by simp
qed (auto simp: fold_add_term_set)

lemma map_of_lookups:
  "map_of (segment_lookups sg terms seg) t = (if t \<in> set terms then sg_postings sg seg t else None)"
  by (induction terms) (auto simp: segment_lookups_def map_filter_def split: option.splits)

text \<open>Every term of the query is a key of the frequency table, so indexing it does not panic.\<close>

lemma df_defined: "t \<in> set terms \<Longrightarrow> \<exists>n. map_of (st_df (query_stats sg ix r terms lookups)) t = Some n"
  by (auto simp: query_stats_def map_of_map_restrict)

lemma phrase_at_nonempty: "phrase_at pss d \<Longrightarrow> [] \<notin> set pss"
  by (force simp: phrase_at_def)

context segment_reader
begin

definition live :: "'s \<Rightarrow> u32 \<Rightarrow> bool" where
  "live s d \<longleftrightarrow> sg_doc_len sg s d \<noteq> None"

lemma eval_term_correct:
  assumes "seg_ok s" and "t \<in> set terms"
  shows "\<exists>hs. eval_term sg s (segment_lookups sg terms s) t b st = Some hs \<and>
     lists_docs hs {d. matches (plists s) (live s) (Term t) d}"
proof (cases "sg_postings sg s t")
  case None
  then have "plists s t = None" using postings_None [OF assms(1)] by blast
  then show ?thesis using None assms(2) by (simp add: eval_term_def map_of_lookups term_list_def)
next
  case (Some l)
  then obtain ps where ps: "plists s t = Some ps" "contents l ps" using postings_Some [OF assms(1)] by blast
  note r = cursor_repr [OF ps(2)]
  show ?thesis using Some ps(1) assms(2) term_walk_eq [OF r] term_hits_lists [OF repr_sorted [OF r]]
    by (simp add: eval_term_def map_of_lookups live_def Let_def term_list_def)
qed

lemma eval_phrase_correct:
  assumes "seg_ok s" and "set ts \<subseteq> set terms" and "length ts < 2 ^ 32"
  shows "\<exists>hs. eval_phrase sg s (segment_lookups sg terms s) ts b st = Some hs \<and>
     lists_docs hs {d. matches (plists s) (live s) (Phrase ts) d}"
proof -
  consider "ts = []" | t where "ts = [t]" | t u us where "ts = t # u # us" by (cases ts; cases "tl ts") auto
  then show ?thesis
  proof cases
    case 2
    then show ?thesis using eval_term_correct [OF assms(1), of t terms] assms(2) by (simp add: eval_phrase_def)
  next
    case (3 t u us)
    let ?ls = "segment_lookups sg terms s"
    have m: "map_of ?ls x = sg_postings sg s x" if "x \<in> set ts" for x using that assms(2) by (auto simp: map_of_lookups)
    show ?thesis
    proof (cases "list_ex (\<lambda>t. map_of ?ls t = None) ts")
      case True
      then obtain x where x: "x \<in> set ts" "sg_postings sg s x = None" using m by (auto simp: list_ex_iff)
      then have "term_list (plists s) x = []" using postings_None [OF assms(1), of x] by (simp add: term_list_def)
      then have "[] \<in> set (map (term_list (plists s)) ts)" using x(1) by (metis image_eqI set_map)
      then have "\<not> phrase_at (map (term_list (plists s)) ts) d" for d using phrase_at_nonempty by blast
      then show ?thesis using True 3 by (simp add: eval_phrase_def)
    next
      case False
      then have "\<exists>l. sg_postings sg s x = Some l" if "x \<in> set ts" for x using m that by (auto simp: list_ex_iff)
      then have c: "contents (the (map_of ?ls x)) (term_list (plists s) x) \<and> plist_ok (term_list (plists s) x)"
        if "x \<in> set ts" for x
        using m that postings_Some [OF assms(1), of x] by (fastforce simp: term_list_def)
      let ?pss = "map (term_list (plists s)) ts"
      have "list_all2 repr (map (\<lambda>t. lo_cursor (sg_lists sg) (the (map_of ?ls t))) ts) ?pss"
        using c cursor_repr by (simp add: list_all2_conv_all_nth)
      from phrase_walk_eq [OF this] have w: "phrase_walk (lo_cursor_ops (sg_lists sg)) (sg_doc_len sg s) score
          (map (\<lambda>t. lo_cursor (sg_lists sg) (the (map_of ?ls t))) ts) [] = Some (phrase_hits (sg_doc_len sg s) score ?pss)" for score
        using 3 by simp
      have "lists_docs (phrase_hits (sg_doc_len sg s) score ?pss) {d. live s d \<and> phrase_at ?pss d}" for score
        unfolding live_def by (rule phrase_hits_lists) (use c assms(3) 3 in auto)
      moreover have "{d. matches (plists s) (live s) (Phrase ts) d} = {d. live s d \<and> phrase_at ?pss d}" by (simp add: 3)
      moreover have "\<exists>score. eval_phrase sg s ?ls ts b st = phrase_walk (lo_cursor_ops (sg_lists sg)) (sg_doc_len sg s) score
          (map (\<lambda>t. lo_cursor (sg_lists sg) (the (map_of ?ls t))) ts) []"
        using False unfolding 3 eval_phrase_def Let_def by (simp only: list.case if_False) blast
      ultimately show ?thesis using w by fastforce
    qed
  qed (simp add: eval_phrase_def)
qed

lemma eval_node_correct:
  assumes "seg_ok s"
  shows "node_terms nd \<subseteq> set terms \<Longrightarrow> short_phrases nd \<Longrightarrow>
     \<exists>hs. eval_node sg s (segment_lookups sg terms s) b st nd = Some hs \<and> lists_docs hs {d. matches (plists s) (live s) nd d}"
proof (induction nd)
  case (Term t)
  then show ?case using eval_term_correct [OF assms, of t terms] by simp
next
  case (Phrase ts)
  then show ?case using eval_phrase_correct [OF assms, of ts terms] by simp
next
  case (And must nots)
  let ?ls = "segment_lookups sg terms s"
  let ?M = "\<lambda>n. {d. matches (plists s) (live s) n d}"
  have ok: "\<exists>hs. eval_node sg s ?ls b st n = Some hs \<and> lists_docs hs (?M n)" if "n \<in> set must \<union> set nots" for n
  proof -
    have "node_terms n \<subseteq> set terms" "short_phrases n" using And.prems that by (auto simp: list_all_iff)
    then show ?thesis using And.IH that by blast
  qed
  have must: "set ns \<subseteq> set must \<Longrightarrow> \<exists>r. eval_must sg s ?ls b st ns = Some r \<and>
      (case r of None \<Rightarrow> \<Inter> (?M ` set ns) = {} | Some acc \<Rightarrow> list_all2 lists_docs acc (map ?M ns))" for ns
  proof (induction ns)
    case (Cons n ns)
    then obtain hs r where e: "eval_node sg s ?ls b st n = Some hs" "lists_docs hs (?M n)"
      "eval_must sg s ?ls b st ns = Some r"
      "case r of None \<Rightarrow> \<Inter> (?M ` set ns) = {} | Some acc \<Rightarrow> list_all2 lists_docs acc (map ?M ns)"
      using ok [of n] by auto
    show ?case
    proof (cases "hs = []")
      case True
      then have "?M n = {}" using e(2) by simp
      then show ?thesis using True e(1) by auto
    next
      case False
      then show ?thesis using e by (cases r) auto
    qed
  qed simp
  have nots: "set ns \<subseteq> set nots \<Longrightarrow> lists_docs r D \<Longrightarrow>
      \<exists>hs. eval_not sg s ?ls b st ns r = Some hs \<and> lists_docs hs (D - \<Union> (?M ` set ns))" for ns r D
  proof (induction ns arbitrary: r D)
    case (Cons n ns)
    obtain hs where e: "eval_node sg s ?ls b st n = Some hs" "lists_docs hs (?M n)" using ok [of n] Cons.prems(1) by auto
    show ?case
    proof (cases "r = []")
      case True
      then show ?thesis using Cons.prems(2) by simp
    next
      case False
      have "\<exists>hs'. eval_not sg s ?ls b st ns (difference r hs) = Some hs' \<and> lists_docs hs' (D - ?M n - \<Union> (?M ` set ns))"
        using Cons.prems(1) by (intro Cons.IH difference_lists [OF Cons.prems(2) e(2)]) simp
      moreover have "D - ?M n - \<Union> (?M ` set ns) = D - \<Union> (?M ` set (n # ns))" by auto
      ultimately show ?thesis using False e(1) by simp
    qed
  qed simp
  obtain r where r: "eval_must sg s ?ls b st must = Some r"
    "case r of None \<Rightarrow> \<Inter> (?M ` set must) = {} | Some acc \<Rightarrow> list_all2 lists_docs acc (map ?M must)"
    using must [of must] by auto
  have goal: "{d. matches (plists s) (live s) (And must nots) d} =
      (if must = [] then {} else \<Inter> (?M ` set must) - \<Union> (?M ` set nots))"
    by (auto simp: list_all_iff list_ex_iff)
  show ?case
  proof (cases r)
    case None
    then have "{d. matches (plists s) (live s) (And must nots) d} = {}" using r(2) unfolding goal by auto
    then show ?thesis using r(1) None by simp
  next
    case (Some acc)
    have "lists_docs (intersect acc) (if must = [] then {} else \<Inter> (?M ` set must))"
    proof (cases "must = []")
      case True
      then show ?thesis using r(2) Some by (simp add: intersect_def)
    next
      case False
      then have "acc \<noteq> []" using r(2) Some by auto
      then show ?thesis using r(2) Some False intersect_lists [of acc "map ?M must"] by simp
    qed
    from nots [OF order_refl this] obtain hs where
      "eval_not sg s ?ls b st nots (intersect acc) = Some hs"
      "lists_docs hs ((if must = [] then {} else \<Inter> (?M ` set must)) - \<Union> (?M ` set nots))" by blast
    then show ?thesis using r(1) Some unfolding goal by (auto split: if_splits)
  qed
next
  case (Or cs)
  let ?ls = "segment_lookups sg terms s"
  let ?M = "\<lambda>n. {d. matches (plists s) (live s) n d}"
  have ok: "\<exists>hs. eval_node sg s ?ls b st n = Some hs \<and> lists_docs hs (?M n)" if "n \<in> set cs" for n
  proof -
    have "node_terms n \<subseteq> set terms" "short_phrases n" using Or.prems that by (auto simp: list_all_iff)
    then show ?thesis using Or.IH that by blast
  qed
  have "set ns \<subseteq> set cs \<Longrightarrow> \<exists>ls. eval_all sg s ?ls b st ns = Some ls \<and> list_all2 lists_docs ls (map ?M ns)" for ns
  proof (induction ns)
    case (Cons n ns)
    then show ?case using ok [of n] by auto
  qed simp
  from this [OF order_refl] obtain ls where ls: "eval_all sg s ?ls b st cs = Some ls" "list_all2 lists_docs ls (map ?M cs)" by blast
  have "{d. matches (plists s) (live s) (Or cs) d} = \<Union> (set (map ?M cs))" by (auto simp: list_ex_iff)
  then show ?case using ls(1) union_lists [OF ls(2)] by simp
qed

lemma matches_live: "matches (plists s) (live s) nd d \<Longrightarrow> live s d"
proof (induction nd)
  case (And must nots)
  then obtain n where "n \<in> set must" "matches (plists s) (live s) n d" by (cases must) (auto simp: list_all_iff)
  then show ?case using And.IH(1) by blast
qed (auto simp: list_ex_iff)

text \<open>The documents of an index that satisfy a query, by global id.\<close>

definition matching :: "'s list \<Rightarrow> node \<Rightarrow> u32 set" where
  "matching segs nd = (\<Union>s \<in> set segs. (\<lambda>d. sg_base sg s + d) ` {d. matches (plists s) (live s) nd d})"

definition segs_ok :: "'s list \<Rightarrow> bool" where
  "segs_ok segs \<longleftrightarrow> (\<forall>s \<in> set segs. seg_ok s \<and> unat (sg_base sg s) + unat (sg_num_docs sg s) \<le> 2 ^ 32) \<and>
     sorted_wrt (\<lambda>a b. unat (sg_base sg a) + unat (sg_num_docs sg a) \<le> unat (sg_base sg b)) segs"

lemma global_doc:
  assumes "seg_ok s" and "unat (sg_base sg s) + unat (sg_num_docs sg s) \<le> 2 ^ 32" and "live s d"
  shows "unat (sg_base sg s + d) = unat (sg_base sg s) + unat d \<and> unat d < unat (sg_num_docs sg s)"
proof -
  have d: "unat d < unat (sg_num_docs sg s)"
    using doc_len_bound [OF assms(1)] assms(3) by (auto simp: live_def word_less_nat_alt)
  then have "unat (sg_base sg s) + unat d < 2 ^ 32" using assms(2) by linarith
  then show ?thesis using d by (simp add: unat_word_ariths)
qed

lemma collect_hits_correct:
  assumes "segs_ok segs" and "node_terms nd \<subseteq> set terms" and "short_phrases nd" and "lists_docs out D"
    and "\<forall>d \<in> D. \<forall>s \<in> set segs. unat d < unat (sg_base sg s)"
  shows "\<exists>hs. collect_hits sg b st nd (zip segs (map (segment_lookups sg terms) segs)) out = Some hs \<and>
     lists_docs hs (D \<union> matching segs nd)"
  using assms
proof (induction segs arbitrary: out D)
  case Nil
  then show ?case by (simp add: matching_def)
next
  case (Cons s segs)
  have s: "seg_ok s" "unat (sg_base sg s) + unat (sg_num_docs sg s) \<le> 2 ^ 32" and segs: "segs_ok segs"
    using Cons.prems(1) by (simp_all add: segs_ok_def)
  from eval_node_correct [OF s(1) Cons.prems(2,3)] obtain hs where
    hs: "eval_node sg s (segment_lookups sg terms s) b st nd = Some hs" "lists_docs hs {d. matches (plists s) (live s) nd d}" by blast
  let ?g = "\<lambda>h. \<lparr>h_doc = sg_base sg s + h_doc h, h_score = h_score h\<rparr>"
  let ?E = "(\<lambda>d. sg_base sg s + d) ` {d. matches (plists s) (live s) nd d}"
  have u: "unat (sg_base sg s + h_doc h) = unat (sg_base sg s) + unat (h_doc h) \<and> unat (h_doc h) < unat (sg_num_docs sg s)"
    if "h \<in> set hs" for h
  proof -
    have "h_doc h \<in> set (docs_of hs)" using that by simp
    then have "matches (plists s) (live s) nd (h_doc h)" using lists_docs_set [OF hs(2)] by blast
    then show ?thesis using global_doc [OF s] matches_live by blast
  qed
  have docs: "docs_of (map ?g hs) = map (\<lambda>d. sg_base sg s + d) (docs_of hs)" by simp
  have new: "set (docs_of (map ?g hs)) = ?E" unfolding docs using lists_docs_set [OF hs(2)] by (simp only: set_map)
  have out: "set (docs_of out) = D" "hits_sorted out" using Cons.prems(4) by (simp_all add: lists_docs_def)
  have sorted_new: "hits_sorted (map ?g hs)"
    unfolding hits_sorted_def sorted_wrt_iff_nth_less
  proof (intro allI impI)
    fix i j assume ij: "i < j" "j < length (docs_of (map ?g hs))"
    then have "h_doc (hs ! i) < h_doc (hs ! j)"
      using hs(2) sorted_wrt_nth_less [of "(<)" "docs_of hs" i j] by (simp add: lists_docs_def hits_sorted_def)
    then show "docs_of (map ?g hs) ! i < docs_of (map ?g hs) ! j"
      using ij u [of "hs ! i"] u [of "hs ! j"] by (simp add: word_less_nat_alt)
  qed
  have "\<forall>a \<in> set (docs_of out). \<forall>b \<in> set (docs_of (map ?g hs)). a < b"
  proof (intro ballI)
    fix a b assume "a \<in> set (docs_of out)" "b \<in> set (docs_of (map ?g hs))"
    then obtain h where h: "a \<in> D" "h \<in> set hs" "b = sg_base sg s + h_doc h" using out by auto
    then have "unat a < unat (sg_base sg s)" using Cons.prems(5) by auto
    then show "a < b" using u [OF h(2)] h(3) by (simp add: word_less_nat_alt)
  qed
  then have "hits_sorted (out @ map ?g hs)"
    using out(2) sorted_new unfolding hits_sorted_def map_append sorted_wrt_append by blast
  then have l: "lists_docs (out @ map ?g hs) (D \<union> ?E)"
    using out(1) new by (simp only: lists_docs_def map_append set_append)
  have "\<forall>d \<in> D \<union> ?E. \<forall>t \<in> set segs. unat d < unat (sg_base sg t)"
  proof (intro ballI)
    fix d t assume d: "d \<in> D \<union> ?E" and t: "t \<in> set segs"
    then have st: "unat (sg_base sg s) + unat (sg_num_docs sg s) \<le> unat (sg_base sg t)"
      using Cons.prems(1) by (simp add: segs_ok_def)
    from d show "unat d < unat (sg_base sg t)"
    proof
      assume "d \<in> D"
      then show ?thesis using Cons.prems(5) t by auto
    next
      assume "d \<in> ?E"
      then obtain h where "h \<in> set hs" "d = sg_base sg s + h_doc h" using new by auto
      then show ?thesis using u [of h] st by simp
    qed
  qed
  from Cons.IH [OF segs Cons.prems(2,3) l this] show ?case
    using hs(1) by (simp add: matching_def Un_assoc)
qed

lemma evaluate_correct:
  assumes "segs_ok (ix_segments ix r)" and "short_phrases nd"
  shows "\<exists>hs. evaluate sg ix r nd b = Some hs \<and> lists_docs hs (matching (ix_segments ix r) nd)"
  using collect_hits_correct [OF assms(1) _ assms(2), of "query_terms nd []" "[]" "{}"]
  by (simp add: evaluate_def Let_def query_terms_set)

end

section \<open>Ranking\<close>

lemma rank_key_inj: "inj_on rank_key A"
  by (rule inj_onI) (simp add: rank_key_def)

lemma sort_by_rank_unique: "mset xs = mset ys \<Longrightarrow> sorted (map rank_key ys) \<Longrightarrow> sort_by_rank xs = ys"
  unfolding sort_by_rank_def by (rule sort_key_inj_key_eq [OF _ rank_key_inj])

lemma rank_hits_top:
  assumes "selects select"
  shows "rank_hits select limit hits = take limit (sort_by_rank hits)"
proof (cases "limit < length hits \<and> 0 < limit")
  case True
  define k where "k = limit - 1"
  define ys where "ys = select k hits"
  have k: "limit = k + 1" "k < length hits" using True by (auto simp: k_def)
  have m: "mset ys = mset hits" and lo: "\<forall>x \<in> set (take k ys). by_rank x (ys ! k)"
    and hi: "\<forall>y \<in> set (drop (k + 1) ys). by_rank (ys ! k) y"
    using assms k(2) by (auto simp: selects_def ys_def)
  have len: "length ys = length hits" using m by (metis size_mset)
  let ?a = "take limit ys" and ?b = "drop limit ys"
  have "?a = take k ys @ [ys ! k]" using k len by (simp add: take_Suc_conv_app_nth)
  then have "\<forall>x \<in> set ?a. rank_key x \<le> rank_key (ys ! k)" using lo by (auto simp: by_rank_def)
  then have ab: "\<forall>x \<in> set ?a. \<forall>y \<in> set ?b. rank_key x \<le> rank_key y"
    using hi k(1) by (fastforce simp: by_rank_def intro: order.trans)
  have "sort_by_rank hits = sort_by_rank ?a @ sort_by_rank ?b"
  proof (rule sort_by_rank_unique)
    have "mset ?a + mset ?b = mset ys" by (metis append_take_drop_id mset_append)
    then show "mset hits = mset (sort_by_rank ?a @ sort_by_rank ?b)" using m by (simp add: sort_by_rank_def)
    show "sorted (map rank_key (sort_by_rank ?a @ sort_by_rank ?b))"
      using ab by (auto simp: sort_by_rank_def sorted_append)
  qed
  moreover have "length (sort_by_rank ?a) = limit" using k len by (simp add: sort_by_rank_def)
  ultimately show ?thesis using True by (simp add: rank_hits_def Let_def ys_def k_def)
next
  case False
  then show ?thesis by (auto simp: rank_hits_def Let_def sort_by_rank_def)
qed

end
