(* ===== verification/Mem_Index.thy ===== *)
theory Mem_Index
  imports Builder Exec_Correct
begin

text \<open>
  The in-memory index as the query engine reads it (\<open>MemIndex\<close> of \<open>src/index/mod.rs\<close>, \<open>avg_len\<close> of
  \<open>src/index/doc_table.rs\<close>), and what a search over a freshly built index finds.

  Main facts: the built index meets the interface of the engine (\<open>interpretation mem_segment\<close>), and a
  document satisfies a query in it exactly when the text of its file does (\<open>matches_text\<close>).
\<close>

definition dt_avg_len :: "doc_table \<Rightarrow> f32" where
  "dt_avg_len t = (if dt_indexed t = 0 then 0 else f32_div (f32_of_u64 (dt_total_len t)) (f32_of_u32 (dt_indexed t)))"

definition mi_postings :: "mem_index \<Rightarrow> ustr \<Rightarrow> plist option" where
  "mi_postings s t = store_get (mi_terms s) (utf8_encode t)"

definition mi_doc_len :: "mem_index \<Rightarrow> u32 \<Rightarrow> u32 option" where
  "mi_doc_len s d = Option.bind (dt_get (mi_docs s) (unat d)) (\<lambda>m. if dm_status m = Indexed then Some (dm_len m) else None)"

definition mem_segment_ops :: "(mem_index, plist, mem_cursor) segment_ops" where
  "mem_segment_ops = \<lparr>sg_base = \<lambda>_. 0, sg_num_docs = \<lambda>s. dt_id_bound (mi_docs s), sg_postings = mi_postings,
     sg_doc_len = mi_doc_len, sg_lists = mem_list_ops\<rparr>"

definition mem_reader_ops :: "(mem_index, mem_index) reader_ops" where
  "mem_reader_ops = \<lparr>ix_segments = \<lambda>r. [r], ix_indexed_count = \<lambda>r. dt_indexed_count (mi_docs r),
     ix_avg_len = \<lambda>r. dt_avg_len (mi_docs r)\<rparr>"

definition mem_index_ok :: "mem_index \<Rightarrow> bool" where
  "mem_index_ok s \<longleftrightarrow> length (dt_slots (mi_docs s)) < 2 ^ 32 \<and> (\<forall>t ps. mi_postings s t = Some ps \<longrightarrow> plist_ok ps)"

interpretation mem_segment: segment_reader mem_segment_ops mem_repr "\<lambda>l ps. l = ps \<and> sorted_wrt (<) (map fst ps)"
  mem_index_ok mi_postings
proof -
  have l: "sg_lists mem_segment_ops = mem_list_ops" by (simp add: mem_segment_ops_def)
  have "segment_reader_axioms mem_segment_ops (\<lambda>l ps. l = ps \<and> sorted_wrt (<) (map fst ps)) mem_index_ok mi_postings"
  proof
    fix s t l assume "mem_index_ok s" "sg_postings mem_segment_ops s t = Some l"
    then show "\<exists>ps. mi_postings s t = Some ps \<and> (l = ps \<and> sorted_wrt (<) (map fst ps)) \<and> plist_ok ps"
      by (auto simp: mem_segment_ops_def mem_index_ok_def plist_ok_def)
  next
    fix s d n assume "mem_index_ok s" "sg_doc_len mem_segment_ops s d = Some n"
    then have "unat d < length (dt_slots (mi_docs s))" "length (dt_slots (mi_docs s)) < 2 ^ 32"
      by (auto simp: mem_segment_ops_def mi_doc_len_def dt_get_def mem_index_ok_def split: bind_splits if_splits)
    then show "d < sg_num_docs mem_segment_ops s"
      by (simp add: mem_segment_ops_def dt_id_bound_def word_less_nat_alt unat_of_nat_less)
  qed (simp add: mem_segment_ops_def)
  then show "segment_reader mem_segment_ops mem_repr (\<lambda>l ps. l = ps \<and> sorted_wrt (<) (map fst ps)) mem_index_ok mi_postings"
    using mem_list.posting_list_axioms by (simp add: segment_reader_def l)
qed

section \<open>The keys of a built store\<close>

definition keys_ok :: "mem_store \<Rightarrow> bool" where
  "keys_ok s \<longleftrightarrow> (\<forall>k \<in> fst ` set s. \<exists>t. scalars t \<and> k = utf8_encode t)"

lemma keys_update: "keys_ok s \<Longrightarrow> scalars t \<Longrightarrow> keys_ok (AList.update (utf8_encode t) v s)"
  by (auto simp: keys_ok_def dom_update)

lemma keys_add_tokens: "keys_ok s \<Longrightarrow> \<forall>tok \<in> set toks. scalars (tok_term tok) \<Longrightarrow> keys_ok (fold (add_token d) toks s)"
  by (induction toks arbitrary: s) (auto simp: add_token_def Let_def keys_update split: option.splits)

lemma keys_index_file:
  "keys_ok (sh_terms sh) \<Longrightarrow> \<forall>text. doc_text read cf = Some text \<longrightarrow> text_fits U text \<Longrightarrow>
     keys_ok (sh_terms (index_file U read hash d cf sh))"
  by (auto simp: index_file_def doc_text_def index_document_eq text_fits_def keys_add_tokens split: file_kind.splits option.splits)

lemma in_set_enumerate_snd: "(i, x) \<in> set (enumerate n xs) \<Longrightarrow> x \<in> set xs"
  by (auto simp: in_set_enumerate_eq)

lemma keys_index_shard:
  assumes "\<forall>cf \<in> set files. \<forall>text. doc_text read cf = Some text \<longrightarrow> text_fits U text"
  shows "keys_ok (sh_terms (index_shard U read hash d files))"
proof -
  have "\<forall>(i, cf) \<in> set xs. \<forall>text. doc_text read cf = Some text \<longrightarrow> text_fits U text \<Longrightarrow> keys_ok (sh_terms sh) \<Longrightarrow>
      keys_ok (sh_terms (fold (\<lambda>(i, cf) sh. index_file U read hash (d + of_nat i) cf sh) xs sh))" for xs sh
    by (induction xs arbitrary: sh) (auto simp: keys_index_file)
  moreover have "\<forall>(i, cf) \<in> set (enumerate 0 files). \<forall>text. doc_text read cf = Some text \<longrightarrow> text_fits U text"
    using assms by (auto simp: in_set_enumerate_eq)
  moreover have "keys_ok (sh_terms \<lparr>sh_first_doc = d, sh_terms = [], sh_doc_lens = [], sh_skipped = [], sh_non_text = [], sh_tokens = 0\<rparr>)" by (simp add: keys_ok_def)
  ultimately show ?thesis unfolding index_shard_def by blast
qed

lemma keys_merge: "keys_ok s \<Longrightarrow> keys_ok sh \<Longrightarrow> keys_ok (merge_shard s sh)"
proof -
  have "keys_ok ts \<Longrightarrow> keys_ok xs \<Longrightarrow> keys_ok (foldl (\<lambda>ts (term, list). case map_of ts term of
      Some l \<Rightarrow> AList.update term (mem_append l list) ts | None \<Rightarrow> AList.update term list ts) ts xs)" for ts xs
  proof (induction xs arbitrary: ts)
    case (Cons x xs)
    obtain k l where x: "x = (k, l)" by force
    obtain t where "scalars t" "k = utf8_encode t" using Cons.prems(2) x by (auto simp: keys_ok_def)
    then have "keys_ok (case map_of ts k of Some l' \<Rightarrow> AList.update k (mem_append l' l) ts | None \<Rightarrow> AList.update k l ts)"
      using Cons.prems(1) keys_update by (auto split: option.splits)
    then show ?case using Cons.IH Cons.prems(2) x by (simp add: keys_ok_def)
  qed simp
  then show "keys_ok s \<Longrightarrow> keys_ok sh \<Longrightarrow> keys_ok (merge_shard s sh)" by (simp add: merge_shard_def)
qed

lemma keys_merge_shards: "\<forall>sh \<in> set shards. keys_ok (sh_terms sh) \<Longrightarrow> keys_ok (merge_shards shards)"
proof -
  have "\<forall>sh \<in> set shards. keys_ok (sh_terms sh) \<Longrightarrow> keys_ok s \<Longrightarrow> keys_ok (fold (\<lambda>sh store. merge_shard store (sh_terms sh)) shards s)" for s
    by (induction shards arbitrary: s) (auto simp: keys_merge)
  moreover have "keys_ok []" by (simp add: keys_ok_def)
  ultimately show "\<forall>sh \<in> set shards. keys_ok (sh_terms sh) \<Longrightarrow> keys_ok (merge_shards shards)" by (simp add: merge_shards_def)
qed

section \<open>A query over the texts\<close>

fun text_matches :: "unicode \<Rightarrow> node \<Rightarrow> ustr \<Rightarrow> bool" where
  "text_matches U (Term t) text \<longleftrightarrow> positions_of U t text \<noteq> []"
| "text_matches U (Phrase ts) text \<longleftrightarrow>
     (case ts of [] \<Rightarrow> False | _ \<Rightarrow> \<exists>p. \<forall>k < length ts. p + k < 2 ^ 32 \<and> of_nat (p + k) \<in> set (positions_of U (ts ! k) text))"
| "text_matches U (And must must_not) text \<longleftrightarrow>
     must \<noteq> [] \<and> list_all (\<lambda>n. text_matches U n text) must \<and> \<not> list_ex (\<lambda>n. text_matches U n text) must_not"
| "text_matches U (Or cs) text \<longleftrightarrow> list_ex (\<lambda>n. text_matches U n text) cs"

definition file_matches :: "unicode \<Rightarrow> (bytes \<Rightarrow> bytes option) \<Rightarrow> node \<Rightarrow> file_entry \<Rightarrow> bool" where
  "file_matches U read nd cf = (case doc_text read cf of None \<Rightarrow> False | Some text \<Rightarrow> text_matches U nd text)"

lemma postings_from_sorted:
  "n + length files \<le> 2 ^ 32 \<Longrightarrow> \<forall>cf \<in> set files. \<forall>text. doc_text read cf = Some text \<longrightarrow> text_fits U text \<Longrightarrow>
     plist_ok (postings_from U read t n files)"
proof (induction files arbitrary: n)
  case (Cons cf files)
  have ih: "plist_ok (postings_from U read t (n + 1) files)" using Cons by simp
  have n: "unat (of_nat n :: u32) = n" using Cons.prems(1) by (simp add: unsigned_of_nat take_bit_nat_eq_self)
  have "of_nat n < e" if e: "e \<in> fst ` set (postings_from U read t (n + 1) files)" for e
  proof -
    obtain i where i: "i < length files" "e = of_nat (n + 1 + i)" using postings_from_docs [OF e] by auto
    have "unat (of_nat (n + 1 + i) :: u32) = n + 1 + i"
      using i(1) Cons.prems(1) by (intro unat_of_nat_less) simp
    then show ?thesis using n i(2) by (simp add: word_less_nat_alt del: of_nat_add of_nat_Suc)
  qed
  moreover have "positions_of U t w \<noteq> [] \<Longrightarrow> sorted_wrt (<) (positions_of U t w)" if "doc_text read cf = Some w" for w
    using positions_sorted Cons.prems(2) that by (auto simp: text_fits_def)
  ultimately show ?case using ih by (auto simp: plist_ok_def split: option.splits)
qed (simp add: plist_ok_def)

lemma postings_from_at:
  assumes "n + length files \<le> 2 ^ 32" and "i < length files"
  shows "map_of (postings_from U read t n files) (of_nat (n + i)) =
     (case doc_text read (files ! i) of None \<Rightarrow> None
      | Some text \<Rightarrow> if positions_of U t text = [] then None else Some (positions_of U t text))"
  using assms
proof (induction files arbitrary: n i)
  case (Cons cf files)
  have other: "map_of (postings_from U read t (n + 1) files) (of_nat n) = None"
  proof -
    have "of_nat n \<noteq> e" if e: "e \<in> fst ` set (postings_from U read t (n + 1) files)" for e
    proof -
      obtain j where "j < length files" "e = of_nat (n + 1 + j)" using postings_from_docs [OF e] by auto
      then show ?thesis using of_nat_inj32 [of n "n + 1 + j"] Cons.prems(1) by simp
    qed
    then show ?thesis by (auto simp: map_of_eq_None_iff)
  qed
  show ?case
  proof (cases i)
    case 0
    then show ?thesis using other by (auto simp: map_add_def split: option.splits)
  next
    case (Suc j)
    have "(of_nat (n + i) :: u32) \<noteq> of_nat n" using of_nat_inj32 [of "n + i" n] Cons.prems Suc by simp
    then have "map_of (postings_from U read t n (cf # files)) (of_nat (n + i)) =
        map_of (postings_from U read t (n + 1) files) (of_nat (n + i))"
      by (auto simp: map_add_def split: option.splits)
    also have "\<dots> = map_of (postings_from U read t (n + 1) files) (of_nat (n + 1 + j))" using Suc by simp
    also have "\<dots> = (case doc_text read (files ! j) of None \<Rightarrow> None
      | Some text \<Rightarrow> if positions_of U t text = [] then None else Some (positions_of U t text))"
      using Cons.prems Suc by (intro Cons.IH) simp_all
    finally show ?thesis using Suc by simp
  qed
qed simp

text \<open>The terms of a query are scalar values.\<close>

definition query_ok :: "node \<Rightarrow> bool" where
  "query_ok nd \<longleftrightarrow> (\<forall>t \<in> node_terms nd. scalars t) \<and> short_phrases nd"

text \<open>What the builder promises of the index of \<open>files\<close>.\<close>

definition built :: "unicode \<Rightarrow> (bytes \<Rightarrow> bytes option) \<Rightarrow> file_entry list \<Rightarrow> mem_index \<Rightarrow> bool" where
  "built U read files idx \<longleftrightarrow> files_fit U read files \<and>
     (\<forall>t. scalars t \<longrightarrow> plist_of (store_get (mi_terms idx) (utf8_encode t)) = postings_from U read t 0 files) \<and>
     (\<forall>i. doc_state (mi_docs idx) i = (if i < length files then Some (file_len U read (files ! i)) else None))"

lemma built_doc_len:
  "built U read files idx \<Longrightarrow> i < 2 ^ 32 \<Longrightarrow> mem_segment.live idx (of_nat i) \<longleftrightarrow> i < length files \<and> doc_text read (files ! i) \<noteq> None"
proof -
  assume b: "built U read files idx" and i: "i < 2 ^ 32"
  have "mem_segment.live idx (of_nat i) \<longleftrightarrow> mi_doc_len idx (of_nat i) \<noteq> None"
    unfolding mem_segment.live_def by (simp add: mem_segment_ops_def)
  also have "\<dots> \<longleftrightarrow> (\<exists>n. doc_state (mi_docs idx) i = Some (Some n))"
    using unat_of_nat_less [OF i]
    by (cases "dt_get (mi_docs idx) i") (auto simp: mi_doc_len_def doc_state_def)
  finally have "mem_segment.live idx (of_nat i) \<longleftrightarrow> (\<exists>n. doc_state (mi_docs idx) i = Some (Some n))" .
  then show "mem_segment.live idx (of_nat i) \<longleftrightarrow> i < length files \<and> doc_text read (files ! i) \<noteq> None"
    using b by (auto simp: built_def file_len_def)
qed

lemma built_term: "built U read files idx \<Longrightarrow> scalars t \<Longrightarrow> term_list (mi_postings idx) t = postings_from U read t 0 files"
  by (simp add: built_def term_list_def mi_postings_def plist_of_def)

lemma matches_files:
  assumes lists: "\<And>t. S t \<Longrightarrow> term_list P t = postings_from U read t 0 files" and terms: "\<forall>t \<in> node_terms nd. S t"
    and live: "L (of_nat i) \<longleftrightarrow> doc_text read (files ! i) \<noteq> None" and only: "\<And>d. matches P L nd d \<Longrightarrow> L d"
    and n: "length files < 2 ^ 32" and i: "i < length files"
  shows "matches P L nd (of_nat i) \<longleftrightarrow> file_matches U read nd (files ! i)"
proof -
  note at = postings_from_at [of 0 files i U read, OF _ i, simplified]
  show ?thesis
  proof (cases "doc_text read (files ! i)")
    case None
    then have "\<not> L (of_nat i)" using live by simp
    then show ?thesis using only None by (auto simp: file_matches_def)
  next
    case (Some w)
    have l: "L (of_nat i)" using live Some by simp
    have m: "map_of (term_list P t) (of_nat i) = (if positions_of U t w = [] then None else Some (positions_of U t w))"
      if "S t" for t
      using at [of t] Some n that by (simp add: lists)
    have mem: "of_nat i \<in> fst ` set (term_list P t) \<longleftrightarrow> positions_of U t w \<noteq> []" if "S t" for t
      using m [OF that] by (metis map_of_eq_None_iff option.distinct(1))
    have "(\<forall>t \<in> node_terms nd. S t) \<Longrightarrow> matches P L nd (of_nat i) \<longleftrightarrow> text_matches U nd w"
    proof (induction nd)
      case (Term t)
      then show ?case using l mem by simp
    next
      case (Phrase ts)
      consider "ts = []" | t where "ts = [t]" | t u us where "ts = t # u # us" by (cases ts; cases "tl ts") auto
      then show ?case
      proof cases
        case (2 t)
        then have "matches P L (Phrase ts) (of_nat i) \<longleftrightarrow> positions_of U t w \<noteq> []"
          using l mem Phrase by simp
        also have "\<dots> \<longleftrightarrow> text_matches U (Phrase ts) w"
        proof
          assume "positions_of U t w \<noteq> []"
          then obtain p where "p \<in> set (positions_of U t w)" by (cases "positions_of U t w") auto
          then have "unat p + 0 < 2 ^ 32 \<and> of_nat (unat p + 0) \<in> set (positions_of U t w)" using unat_bounds(2) [of p] by simp
          then show "text_matches U (Phrase ts) w" unfolding 2 text_matches.simps by (auto intro!: exI [of _ "unat p"])
        qed (auto simp: 2)
        finally show ?thesis .
      next
        case (3 t u us)
        let ?pss = "map (term_list P) ts"
        have sc: "S (ts ! k)" if "k < length ts" for k using Phrase that by simp
        have "phrase_at ?pss (of_nat i) \<longleftrightarrow> (\<exists>p. \<forall>k < length ts. p + k < 2 ^ 32 \<and> of_nat (p + k) \<in> set (positions_of U (ts ! k) w))"
        proof
          assume ph: "phrase_at ?pss (of_nat i)"
          then obtain p where p: "\<forall>k < length ts. p + k < 2 ^ 32 \<and> of_nat (p + k) \<in> set (the (map_of (?pss ! k) (of_nat i)))"
            by (auto simp: phrase_at_def)
          have "set (the (map_of (?pss ! k) (of_nat i))) = set (positions_of U (ts ! k) w)" if "k < length ts" for k
          proof -
            have "of_nat i \<in> fst ` set (?pss ! k)" using ph that by (simp add: phrase_at_def)
            then have "positions_of U (ts ! k) w \<noteq> []" using mem [OF sc [OF that]] that by simp
            then show ?thesis using m [OF sc [OF that]] that by simp
          qed
          then show "\<exists>p. \<forall>k < length ts. p + k < 2 ^ 32 \<and> of_nat (p + k) \<in> set (positions_of U (ts ! k) w)" using p by blast
        next
          assume "\<exists>p. \<forall>k < length ts. p + k < 2 ^ 32 \<and> of_nat (p + k) \<in> set (positions_of U (ts ! k) w)"
          then obtain p where p: "\<forall>k < length ts. p + k < 2 ^ 32 \<and> of_nat (p + k) \<in> set (positions_of U (ts ! k) w)" by blast
          have ne: "positions_of U (ts ! k) w \<noteq> []" if "k < length ts" for k using p that by fastforce
          have "of_nat i \<in> fst ` set ps" if "ps \<in> set ?pss" for ps
          proof -
            obtain k where "k < length ts" "ps = term_list P (ts ! k)" using \<open>ps \<in> set ?pss\<close> by (auto simp: in_set_conv_nth)
            then show ?thesis using mem [OF sc] ne by simp
          qed
          moreover have "\<forall>k < length ?pss. p + k < 2 ^ 32 \<and> of_nat (p + k) \<in> set (the (map_of (?pss ! k) (of_nat i)))"
            using p m sc ne by simp
          ultimately show "phrase_at ?pss (of_nat i)" by (auto simp: phrase_at_def)
        qed
        moreover have "matches P L (Phrase ts) (of_nat i) \<longleftrightarrow> phrase_at ?pss (of_nat i)"
          using l 3 by simp
        moreover have "text_matches U (Phrase ts) w \<longleftrightarrow>
            (\<exists>p. \<forall>k < length ts. p + k < 2 ^ 32 \<and> of_nat (p + k) \<in> set (positions_of U (ts ! k) w))"
          using 3 by simp
        ultimately show ?thesis by blast
      qed simp
    next
      case (And must nots)
      have "matches P L n (of_nat i) = text_matches U n w" if "n \<in> set must" for n
        by (rule And.IH(1) [OF that]) (use And.prems that in auto)
      moreover have "matches P L n (of_nat i) = text_matches U n w" if "n \<in> set nots" for n
        by (rule And.IH(2) [OF that]) (use And.prems that in auto)
      ultimately have "\<forall>n \<in> set must \<union> set nots. matches P L n (of_nat i) = text_matches U n w"
        by blast
      then show ?case using l by (simp add: list_all_iff list_ex_iff)
    next
      case (Or cs)
      have "\<forall>n \<in> set cs. matches P L n (of_nat i) = text_matches U n w"
        using Or by auto
      then show ?case by (simp add: list_ex_iff)
    qed
    then show ?thesis using terms Some by (simp add: file_matches_def)
  qed
qed

lemma matches_text:
  assumes b: "built U read files idx" and "query_ok nd" and "i < length files"
  shows "matches (mi_postings idx) (mem_segment.live idx) nd (of_nat i) \<longleftrightarrow> file_matches U read nd (files ! i)"
proof (rule matches_files [of scalars])
  have n: "length files < 2 ^ 32" using b by (simp add: built_def files_fit_def)
  then show "mem_segment.live idx (of_nat i) \<longleftrightarrow> doc_text read (files ! i) \<noteq> None" using built_doc_len [OF b, of i] assms(3) by simp
qed (use assms mem_segment.matches_live built_term [OF b] in \<open>auto simp: built_def files_fit_def query_ok_def\<close>)

section \<open>The index of a list of files\<close>

lemma build_built:
  assumes "files_fit U read files"
  shows "\<exists>idx. build_crawled U read hash n files = Some idx \<and> built U read files idx \<and> mem_index_ok idx \<and>
     length (dt_slots (mi_docs idx)) = length files"
proof -
  obtain idx where idx: "build_crawled U read hash n files = Some idx" "built U read files idx"
    "length (dt_slots (mi_docs idx)) = length files"
    using build_correct [OF assms, of hash n] assms by (auto simp: built_def)
  have fit: "\<forall>cf \<in> set files. \<forall>text. doc_text read cf = Some text \<longrightarrow> text_fits U text"
    and n: "length files < 2 ^ 32" using assms by (auto simp: files_fit_def)
  have "keys_ok (mi_terms idx)"
  proof -
    have "mi_terms idx = merge_shards (map (\<lambda>(i, c). index_shard U read hash (of_nat (i * max n 1)) c) (enumerate 0 (chunks (max n 1) files)))"
      using idx(1) by (auto simp: build_crawled_def Let_def split: option.splits bind_splits)
    moreover have "\<forall>cf \<in> set c. \<forall>text. doc_text read cf = Some text \<longrightarrow> text_fits U text" if "c \<in> set (chunks (max n 1) files)" for c
    proof -
      have "concat (chunks (max n 1) files) = files" by (rule chunks_concat) simp
      then have "set c \<subseteq> set files" using that by (metis UN_upper set_concat)
      then show ?thesis using fit by blast
    qed
    then have "\<forall>sh \<in> set (map (\<lambda>(i, c). index_shard U read hash (of_nat (i * max n 1)) c) (enumerate 0 (chunks (max n 1) files))). keys_ok (sh_terms sh)"
      by (force intro: keys_index_shard dest: in_set_enumerate_snd simp del: of_nat_mult)
    then have "keys_ok (merge_shards (map (\<lambda>(i, c). index_shard U read hash (of_nat (i * max n 1)) c) (enumerate 0 (chunks (max n 1) files))))"
      by (rule keys_merge_shards)
    ultimately show ?thesis by (simp only:)
  qed
  then have "plist_ok ps" if p: "mi_postings idx t = Some ps" for t ps
  proof -
    have "utf8_encode t \<in> fst ` set (mi_terms idx)"
      using p by (auto simp: mi_postings_def store_get_def map_of_eq_None_iff split: option.splits dest: map_of_SomeD intro: rev_image_eqI)
    then obtain t' where t': "scalars t'" "utf8_encode t = utf8_encode t'" using \<open>keys_ok (mi_terms idx)\<close> by (auto simp: keys_ok_def)
    have "ps = postings_from U read t' 0 files" using idx(2) p t' by (auto simp: built_def mi_postings_def plist_of_def)
    then show ?thesis using postings_from_sorted fit n by simp
  qed
  then have "mem_index_ok idx" using idx(3) n by (simp add: mem_index_ok_def)
  then show ?thesis using idx by blast
qed

lemma built_matching:
  assumes b: "built U read files idx" and q: "query_ok nd"
  shows "mem_segment.matching [idx] nd = of_nat ` {i. i < length files \<and> file_matches U read nd (files ! i)}"
proof -
  have n: "length files < 2 ^ 32" using b by (simp add: built_def files_fit_def)
  have "d \<in> of_nat ` {i. i < length files \<and> file_matches U read nd (files ! i)}"
    if m: "matches (mi_postings idx) (mem_segment.live idx) nd d" for d
  proof -
    have d: "of_nat (unat d) = d" "unat d < 2 ^ 32" using unat_bounds(2) [of d] by simp_all
    have "mem_segment.live idx d" using m by (rule mem_segment.matches_live)
    then have "unat d < length files" using built_doc_len [OF b d(2)] d(1) by simp
    then show ?thesis using matches_text [OF b q, of "unat d"] m d(1) by (auto intro!: rev_image_eqI [of "unat d"])
  qed
  moreover have "sg_base mem_segment_ops idx = 0" by (simp add: mem_segment_ops_def)
  ultimately show ?thesis using matches_text [OF b q] by (auto simp: mem_segment.matching_def)
qed

text \<open>A search of a built index finds exactly the files whose text matches, each once, and keeps the best.\<close>

lemma search_built_lemma:
  assumes "files_fit U read files" and "query_ok nd" and "selects select"
  shows "\<exists>idx hits. build_crawled U read hash n files = Some idx \<and>
     evaluate mem_segment_ops mem_reader_ops idx nd (so_bm25 opts) = Some hits \<and>
     map h_doc hits = map of_nat (filter (\<lambda>i. file_matches U read nd (files ! i)) [0..<length files]) \<and>
     search select mem_segment_ops mem_reader_ops idx nd opts =
       Some \<lparr>sr_hits = take (so_limit opts) (sort_by_rank hits), sr_total_matches = length hits\<rparr>"
proof -
  obtain idx where idx: "build_crawled U read hash n files = Some idx" "built U read files idx" "mem_index_ok idx"
    "length (dt_slots (mi_docs idx)) = length files" using build_built [OF assms(1)] by blast
  have n: "length files < 2 ^ 32" using assms(1) by (simp add: files_fit_def)
  have "mem_segment.segs_ok (ix_segments mem_reader_ops idx)"
    using idx(3) unat_bounds(2) [of "dt_id_bound (mi_docs idx)"]
    unfolding mem_segment.segs_ok_def by (simp add: mem_reader_ops_def mem_segment_ops_def)
  then obtain hs where hs: "evaluate mem_segment_ops mem_reader_ops idx nd (so_bm25 opts) = Some hs"
    "lists_docs hs (mem_segment.matching (ix_segments mem_reader_ops idx) nd)"
    using mem_segment.evaluate_correct [of mem_reader_ops idx nd "so_bm25 opts"] assms(2) by (auto simp: query_ok_def)
  let ?ds = "filter (\<lambda>i. file_matches U read nd (files ! i)) [0..<length files]"
  have "sorted_wrt (<) (map of_nat ?ds :: u32 list)"
    unfolding sorted_wrt_map
  proof (rule sorted_wrt_mono_rel [of ?ds "(<)"])
    show "sorted_wrt (<) ?ds" by (simp add: sorted_wrt_filter)
    fix x y assume "x \<in> set ?ds" "y \<in> set ?ds" "x < y"
    then show "(of_nat x :: u32) < of_nat y" using n by (simp add: word_less_nat_alt unat_of_nat_less)
  qed
  moreover have "mem_segment.matching (ix_segments mem_reader_ops idx) nd = set (map of_nat ?ds)"
    using built_matching [OF idx(2) assms(2)] by (simp add: mem_reader_ops_def)
  moreover have "sorted_wrt (<) (docs_of hs)" "set (docs_of hs) = mem_segment.matching (ix_segments mem_reader_ops idx) nd"
    using hs(2) by (simp_all add: lists_docs_def hits_sorted_def)
  ultimately have docs: "docs_of hs = map of_nat ?ds" using strict_sorted_equal by metis
  have "search select mem_segment_ops mem_reader_ops idx nd opts =
      Some \<lparr>sr_hits = take (so_limit opts) (sort_by_rank hs), sr_total_matches = length hs\<rparr>"
    using hs(1) rank_hits_top [OF assms(3)] by (simp add: search_def)
  then show ?thesis using idx(1) hs(1) docs by blast
qed

end
