(* ===== verification/Query_Properties.thy ===== *)
theory Query_Properties
  imports Mem_Index
begin

text \<open>
  The properties of the query side: tokens, query language, ranking, index building and search, each with an
  application to concrete inputs. \<open>sample_unicode\<close> segments at blanks.
\<close>

section \<open>Sample inputs\<close>

fun blank_words :: "nat \<Rightarrow> ustr \<Rightarrow> ustr \<Rightarrow> (nat \<times> ustr) list" where
  "blank_words b cur [] = (if cur = [] then [] else [(b, cur)])"
| "blank_words b cur (c # cs) =
     (if c = 32
      then (if cur = [] then [] else [(b, cur)]) @ (b + utf8_len cur, [c]) # blank_words (b + utf8_len cur + 1) [] cs
      else blank_words b (cur @ [c]) cs)"

definition sample_unicode :: unicode where
  "sample_unicode = \<lparr>uc_alphabetic = \<lambda>_. False, uc_numeric = \<lambda>_. False, uc_uppercase = \<lambda>_. False,
     uc_whitespace = \<lambda>_. False, uc_to_lowercase = \<lambda>s. s, uc_words = blank_words 0 []\<rparr>"

lemma blank_words_segments: "segments_of b (blank_words b cur text) (cur @ text)"
proof (induction b cur "text" rule: blank_words.induct)
  case (2 b cur c cs)
  show ?case
  proof (cases "c = 32")
    case True
    have w: "utf8_width 32 = 1" by (simp add: utf8_width_def)
    show ?thesis using 2(1) [OF True] True w by (auto simp: utf8_len_def)
  qed (use 2 in simp)
qed (auto simp: utf8_len_def)

lemma sample_segments: "segments_of 0 (uc_words sample_unicode s) s"
  using blank_words_segments [of 0 "[]" s] by (simp add: sample_unicode_def)

section \<open>Tokens\<close>


text \<open>
  C25: the atoms of a text, which is what a query is parsed with, are numbered from 0 in their order, and each is
  a stretch of the text: its byte span cuts the text at character boundaries, and its term is that stretch folded.
  The segmentation is only relied on to cut the text into consecutive pieces.
\<close>

theorem atoms_cut_the_text:
  assumes "segments_of 0 (uc_words U w) w" and "i < length (atoms U w)"
  shows "\<exists>pre mid post. w = pre @ mid @ post \<and> tok_term (atoms U w ! i) = fold_case U mid \<and>
     tok_position (atoms U w ! i) = of_nat i \<and> tok_start (atoms U w ! i) = utf8_len pre \<and>
     tok_end (atoms U w ! i) = utf8_len (pre @ mid)"
proof -
  have "length (text_atoms U w) = length (atoms U w)" and
    t: "atoms U w ! i = hd (atom_tokens U False (of_nat i) (text_atoms U w ! i))"
    using assms(2) by (simp_all add: tokens_list_eq number_atoms_single)
  then have "text_atoms U w ! i \<in> set (text_atoms U w)" using assms(2) by simp
  from atom_spans [OF assms(1) this] obtain pre post where
    "w = pre @ snd (text_atoms U w ! i) @ post" "fst (text_atoms U w ! i) = utf8_len pre" by blast
  then show ?thesis using t
    by (intro exI [of _ pre] exI [of _ "snd (text_atoms U w ! i)"] exI [of _ post]) (simp add: atom_tokens_def)
qed

lemma atoms_cut_the_text_witness:
  "atoms sample_unicode (str ''Foo +bar'') ! 1 = \<lparr>tok_term = str ''bar'', tok_position = 1, tok_start = 5, tok_end = 8\<rparr> \<and>
   (\<exists>pre mid post. str ''Foo +bar'' = pre @ mid @ post \<and> str ''bar'' = fold_case sample_unicode mid \<and> 5 = utf8_len pre)"
proof -
  have a: "atoms sample_unicode (str ''Foo +bar'') ! 1 = \<lparr>tok_term = str ''bar'', tok_position = 1, tok_start = 5, tok_end = 8\<rparr>"
    and l: "1 < length (atoms sample_unicode (str ''Foo +bar''))"
    unfolding tokens_list_eq by code_simp+
  show ?thesis using atoms_cut_the_text [OF sample_segments l] unfolding a by auto
qed


text \<open>
  C27: an identifier is split without loss: the parts of an atom, when there are any, concatenate to the atom
  without its underscores, and none is empty.
\<close>

theorem identifier_parts_concat:
  "identifier_parts U a = [] \<or> concat (identifier_parts U a) = filter (\<lambda>c. c \<noteq> 95) a \<and> [] \<notin> set (identifier_parts U a)"
  using identifier_parts_concat_lemma by blast

section \<open>The query language\<close>

text \<open>
  C23: the parser answers every input, whatever its brackets, and an accepted query is a well-formed tree: every
  conjunction has a positive clause, and a conjunction, disjunction or phrase is never a wrapper of one operand.
\<close>

theorem parse_total_wf:
  "case parse U input of None \<Rightarrow> False | Some (Inl e) \<Rightarrow> True | Some (Inr nd) \<Rightarrow> wf_node nd"
  using parse_returns_lemma [of U input] parse_wf_lemma [of U input] by (auto split: option.splits sum.splits)

text \<open>
  C24: every well-formed tree is the parse of its printed form: leaves quoted, groups in parentheses, excluded
  clauses behind a minus sign.
\<close>

theorem parse_print_roundtrip:
  assumes "wf_node nd" and "renders U r nd"
  shows "parse U (show_node r nd) = Some (Inr nd)"
  using parse_show [OF assms] .

definition sample_leaf :: "node \<Rightarrow> ustr" where
  "sample_leaf nd = (case nd of Term t \<Rightarrow> t | Phrase ts \<Rightarrow> concat (map (\<lambda>t. t @ [32]) ts) | _ \<Rightarrow> [])"

definition sample_node :: node where
  "sample_node = And [Or [Term (str ''foo''), Phrase [str ''foo'', str ''bar'']]] [Term (str ''baz'')]"

lemma parse_print_roundtrip_witness:
  "show_node sample_leaf sample_node = str ''((\"foo\" OR \"foo bar \")-\"baz\")'' \<and>
   parse sample_unicode (str ''((\"foo\" OR \"foo bar \")-\"baz\")'') = Some (Inr sample_node)"
proof -
  have s: "show_node sample_leaf sample_node = str ''((\"foo\" OR \"foo bar \")-\"baz\")''" by code_simp
  have w: "wf_node sample_node" by code_simp
  have r: "renders sample_unicode sample_leaf sample_node"
    unfolding renders_def text_to_node_def tokens_list_eq by code_simp
  from parse_print_roundtrip [OF w r] s show ?thesis by simp
qed

section \<open>Ranking and hit lists\<close>

text \<open>
  C28: a BM25 contribution is never negative: the inverse document frequency is not, for any document counts (the
  smoothing keeps its logarithm's argument at least 1, after rounding too), and the saturated term frequency is not.
\<close>

theorem bm25_contribution_nonneg:
  assumes "bm25_ok b"
  shows "0 \<le> bm25_score b (bm25_idf b n df) tf len avg"
  using bm25_score_nonneg_lemma [OF assms bm25_idf_nonneg_lemma] .

lemma bm25_contribution_nonneg_witness:
  "0 \<le> bm25_score \<lparr>k1 = 1, b_len = 0\<rparr> (bm25_idf \<lparr>k1 = 1, b_len = 0\<rparr> 3 7) 2 9 4"
  by (rule bm25_contribution_nonneg) (simp add: bm25_ok_def)

text \<open>
  C21: the hit lists are a boolean algebra on documents. On ascending lists, \<open>intersect\<close> (smallest list first, with
  its forward cursor into the others), \<open>union\<close> (pairwise merges) and \<open>difference\<close> give the ascending list of
  exactly the intersection, the union and the difference.
\<close>

theorem hit_list_algebra:
  assumes "list_all2 lists_docs ls Ds" and "ls \<noteq> []" and "lists_docs a A" and "lists_docs b B"
  shows "lists_docs (intersect ls) (\<Inter> (set Ds)) \<and> lists_docs (union_hits ls) (\<Union> (set Ds)) \<and> lists_docs (difference a b) (A - B)"
  using intersect_lists [OF assms(1,2)] union_lists [OF assms(1)] difference_lists [OF assms(3,4)] by simp

lemma hit_list_algebra_witness:
  defines "h \<equiv> \<lambda>d. \<lparr>h_doc = d, h_score = 1\<rparr>"
  shows "lists_docs (intersect [[h 1, h 4, h 6], [h 4, h 9]]) {4} \<and> lists_docs (difference [h 1, h 4] [h 4]) {1}"
proof -
  have "list_all2 lists_docs [[h 1, h 4, h 6], [h 4, h 9]] [{1, 4, 6}, {4, 9}]" "lists_docs [h 1, h 4] {1, 4}" "lists_docs [h 4] {4}"
    by (auto simp: lists_docs_def hits_sorted_def h_def)
  moreover have "\<Inter> (set [{1, 4, 6}, {4, 9 :: u32}]) = {4}" "{1, 4} - {4 :: u32} = {1}" by auto
  ultimately show ?thesis using hit_list_algebra by (metis list.distinct(1))
qed



section \<open>Building and searching\<close>

text \<open>
  C20: building an index of crawled files succeeds, whatever the size of the shards the files are split into: the
  postings of every term list exactly the readable text files that have it, in the order of the files, with the
  positions the tokenizer gives; every file has a slot, and exactly the readable text files are indexed, with their
  number of atoms as their length.
\<close>

theorem build_lists_every_term:
  assumes "files_fit U read files"
  shows "\<exists>idx. build_crawled U read hash n files = Some idx \<and>
     (\<forall>t. plist_of (mi_postings idx t) = postings_from U read t 0 files \<or> \<not> scalars t) \<and>
     (\<forall>i. doc_state (mi_docs idx) i = (if i < length files then Some (file_len U read (files ! i)) else None))"
  using build_correct [OF assms, of hash n] unfolding mi_postings_def by blast

definition sample_file :: "string \<Rightarrow> file_kind \<Rightarrow> file_entry" where
  "sample_file p k = \<lparr>fe_path = utf8_encode (str p), fe_inode = 1, fe_mtime = 0, fe_size = 9, fe_kind = k\<rparr>"

definition sample_files :: "file_entry list" where
  "sample_files = [sample_file ''a'' FText, sample_file ''b'' FBinary, sample_file ''c'' FText]"

definition sample_read :: "bytes \<Rightarrow> bytes option" where
  "sample_read p = (if p = utf8_encode (str ''a'') then Some (utf8_encode (str ''Foo bar foo'')) else if p = utf8_encode (str ''c'') then Some (utf8_encode (str ''bar baz'')) else None)"

lemma scalars_ascii: "list_all is_ascii s \<Longrightarrow> scalars s"
  by (auto simp: list_all_iff is_ascii_def scalar_def)

lemma sample_scalars:
  "scalars (str ''a'')" "scalars (str ''b'')" "scalars (str ''c'')" "scalars (str ''foo'')" "scalars (str ''bar'')" "scalars (str ''baz'')"
  "scalars (str ''Foo bar foo'')" "scalars (str ''bar baz'')"
  by (rule scalars_ascii; code_simp)+

lemma decode_text_encode: "scalars s \<Longrightarrow> list_all is_ascii s \<Longrightarrow> decode_text (utf8_encode s) = Some s"
  using utf8_valid_encode [of s] chars_encode [of s] by (cases s) (auto simp: decode_text_def Let_def is_ascii_def simp del: utf8_encode_simps)

lemma sample_texts:
  "doc_text sample_read (sample_file ''a'' FText) = Some (str ''Foo bar foo'')"
  "doc_text sample_read (sample_file ''b'' FBinary) = None"
  "doc_text sample_read (sample_file ''c'' FText) = Some (str ''bar baz'')"
proof -
  have a: "list_all is_ascii (str ''Foo bar foo'')" "list_all is_ascii (str ''bar baz'')" "str ''c'' \<noteq> str ''a''" by code_simp+
  show "doc_text sample_read (sample_file ''a'' FText) = Some (str ''Foo bar foo'')"
    "doc_text sample_read (sample_file ''b'' FBinary) = None"
    "doc_text sample_read (sample_file ''c'' FText) = Some (str ''bar baz'')"
    using a by (simp_all add: doc_text_def sample_file_def sample_read_def decode_text_encode sample_scalars utf8_encode_inject)
qed

lemma sample_tokens:
  "map tok_term (tokenize sample_unicode (str ''Foo bar foo'')) = [str ''foo'', str ''bar'', str ''foo'']"
  "map tok_term (tokenize sample_unicode (str ''bar baz'')) = [str ''bar'', str ''baz'']"
  "length (text_atoms sample_unicode (str ''Foo bar foo'')) = 3" "length (text_atoms sample_unicode (str ''bar baz'')) = 2"
  unfolding tokens_list_eq by code_simp+

lemma sample_positions:
  "positions_of sample_unicode (str ''bar'') (str ''Foo bar foo'') = [1]"
  "positions_of sample_unicode (str ''bar'') (str ''bar baz'') = [0]"
  "positions_of sample_unicode (str ''foo'') (str ''Foo bar foo'') = [0, 2]"
  "positions_of sample_unicode (str ''foo'') (str ''bar baz'') = []"
  unfolding positions_of_def tokens_list_eq by code_simp+

lemma sample_files_fit: "files_fit sample_unicode sample_read sample_files"
proof -
  have "\<forall>t \<in> tok_term ` set (tokenize sample_unicode w). scalars t" if "w = str ''Foo bar foo'' \<or> w = str ''bar baz''" for w
    using that sample_tokens(1,2) sample_scalars by (auto simp flip: set_map)
  then have "text_fits sample_unicode w" if "w = str ''Foo bar foo'' \<or> w = str ''bar baz''" for w
    using that sample_tokens(3,4) by (auto simp: text_fits_def)
  then show ?thesis by (simp add: files_fit_def sample_files_def sample_texts)
qed

lemma build_lists_every_term_witness:
  "\<exists>idx. build_crawled sample_unicode sample_read (\<lambda>_. 0) 2 sample_files = Some idx \<and>
     plist_of (mi_postings idx (str ''bar'')) = [(0, [1]), (2, [0])] \<and> doc_state (mi_docs idx) 1 = Some None \<and>
     doc_state (mi_docs idx) 2 = Some (Some 2)"
proof -
  note p = sample_positions sample_tokens(4) sample_scalars
  obtain idx where idx: "build_crawled sample_unicode sample_read (\<lambda>_. 0) 2 sample_files = Some idx"
    "\<forall>t. plist_of (mi_postings idx t) = postings_from sample_unicode sample_read t 0 sample_files \<or> \<not> scalars t"
    "\<forall>i. doc_state (mi_docs idx) i = (if i < length sample_files then Some (file_len sample_unicode sample_read (sample_files ! i)) else None)"
    using build_lists_every_term [OF sample_files_fit, of "\<lambda>_. 0" 2] by blast
  have "plist_of (mi_postings idx (str ''bar'')) = postings_from sample_unicode sample_read (str ''bar'') 0 sample_files"
    using idx(2) p by blast
  then have "plist_of (mi_postings idx (str ''bar'')) = [(0, [1]), (2, [0])]"
    by (simp add: sample_files_def sample_texts p)
  moreover have "doc_state (mi_docs idx) 1 = Some None" "doc_state (mi_docs idx) 2 = Some (Some 2)"
    using idx(3) by (simp_all add: sample_files_def sample_texts file_len_def p)
  ultimately show ?thesis using idx(1) by blast
qed

text \<open>
  C19: a search over a freshly built index is a search over the files. For a query of scalar terms it returns: the
  matches are exactly the files whose text satisfies the query (terms by their tokens, phrases by consecutive
  positions, exclusion and disjunction as written), each once; the total counts them; and the hits are the best
  \<open>limit\<close> of them by score and then by document, however the selection orders the rest.
\<close>

theorem search_finds_matching_files:
  assumes "files_fit U read files" and "query_ok nd" and "selects select"
  shows "\<exists>idx hits. build_crawled U read hash n files = Some idx \<and>
     evaluate mem_segment_ops mem_reader_ops idx nd (so_bm25 opts) = Some hits \<and>
     map h_doc hits = map of_nat (filter (\<lambda>i. file_matches U read nd (files ! i)) [0..<length files]) \<and>
     search select mem_segment_ops mem_reader_ops idx nd opts =
       Some \<lparr>sr_hits = take (so_limit opts) (sort_by_rank hits), sr_total_matches = length hits\<rparr>"
  using search_built_lemma [OF assms] .

lemma sort_selects: "selects (\<lambda>_. sort_by_rank)"
  unfolding selects_def
proof (intro allI impI conjI ballI)
  fix k and hs :: "hit list"
  assume k: "k < length hs"
  have s: "sorted (map rank_key (sort_by_rank hs))" and l: "length (sort_by_rank hs) = length hs" by (simp_all add: sort_by_rank_def)
  show "mset (sort_by_rank hs) = mset hs" by (simp add: sort_by_rank_def)
  show "by_rank x (sort_by_rank hs ! k)" if "x \<in> set (take k (sort_by_rank hs))" for x
    using that sorted_nth_mono [OF s, of _ k] k l by (auto simp: by_rank_def in_set_conv_nth)
  show "by_rank (sort_by_rank hs ! k) y" if "y \<in> set (drop (k + 1) (sort_by_rank hs))" for y
    using that sorted_nth_mono [OF s, of k] k l by (auto simp: by_rank_def in_set_conv_nth)
qed

definition sample_query :: node where
  "sample_query = And [Term (str ''bar'')] [Phrase [str ''bar'', str ''foo'']]"

lemma sample_matches:
  "filter (\<lambda>i. file_matches sample_unicode sample_read sample_query (sample_files ! i)) [0..<length sample_files] = [2]"
proof -
  note p = sample_positions
  have two: "k < Suc (Suc 0) \<longleftrightarrow> k = 0 \<or> k = 1" for k by auto
  have m: "file_matches sample_unicode sample_read sample_query (sample_file ''c'' FText)"
    "\<not> file_matches sample_unicode sample_read sample_query (sample_file ''b'' FBinary)"
    by (auto simp: file_matches_def sample_texts sample_query_def p two)
  have n: "\<not> file_matches sample_unicode sample_read sample_query (sample_file ''a'' FText)"
    by (auto simp: file_matches_def sample_texts sample_query_def p two intro!: exI [of _ "1 :: nat"])
  show ?thesis using m n by (simp add: sample_files_def upt_rec)
qed

lemma search_finds_matching_files_witness:
  "\<exists>idx r. build_crawled sample_unicode sample_read (\<lambda>_. 0) 1 sample_files = Some idx \<and>
     search (\<lambda>_. sort_by_rank) mem_segment_ops mem_reader_ops idx sample_query search_options_default = Some r \<and>
     map h_doc (sr_hits r) = [2] \<and> sr_total_matches r = 1"
proof -
  have q: "query_ok sample_query" by (simp add: query_ok_def sample_query_def sample_scalars)
  obtain idx hits where r: "build_crawled sample_unicode sample_read (\<lambda>_. 0) 1 sample_files = Some idx"
    "map h_doc hits = map of_nat (filter (\<lambda>i. file_matches sample_unicode sample_read sample_query (sample_files ! i)) [0..<length sample_files])"
    "search (\<lambda>_. sort_by_rank) mem_segment_ops mem_reader_ops idx sample_query search_options_default =
       Some \<lparr>sr_hits = take (so_limit search_options_default) (sort_by_rank hits), sr_total_matches = length hits\<rparr>"
    using search_finds_matching_files [OF sample_files_fit q sort_selects, of "\<lambda>_. 0" 1 search_options_default] by blast
  have "map h_doc hits = [2]" using r(2) by (simp add: sample_matches)
  then obtain h where "hits = [h]" "h_doc h = 2" by (cases hits) auto
  then show ?thesis using r by (auto simp: sort_by_rank_def search_options_default_def)
qed

end
