(* ===== verification/Paths.thy ===== *)
theory Paths
  imports Doc_Table
begin

text \<open>
  Paths and times as the store keeps them: \<open>relative_path\<close> of \<open>src/store/writer.rs\<close>, the resolution of a stored
  path under the root (\<open>src/store/segment.rs\<close>, \<open>src/store/reader.rs\<close>, \<open>src/store/update.rs\<close>), and the conversions
  between times and nanoseconds of \<open>src/store/segment.rs\<close>. A path is its bytes; the standard library's component
  iterator is written out for Unix. \<open>lossy\<close> is \<open>to_string_lossy\<close>, which only changes a component that is not UTF-8.

  Main facts: a stored path resolves under the root to a path whose relative form is the stored path
  (\<open>relative_resolve\<close>), and a representable time survives its two conversions.
\<close>

section \<open>Components\<close>

fun split_bytes :: "u8 \<Rightarrow> bytes \<Rightarrow> bytes list" where
  "split_bytes sep [] = [[]]"
| "split_bytes sep (c # s) =
     (if c = sep then [] # split_bytes sep s
      else case split_bytes sep s of [] \<Rightarrow> [[c]] | p # ps \<Rightarrow> (c # p) # ps)"

datatype component = RootDir | CurDir | ParentDir | Normal bytes

definition piece_component :: "nat \<times> bytes \<Rightarrow> component option" where
  "piece_component = (\<lambda>(i, s). if s = [] then None else if s = [46] then (if i = 0 then Some CurDir else None)
     else if s = [46, 46] then Some ParentDir else Some (Normal s))"

definition components :: "bytes \<Rightarrow> component list" where
  "components p = (if p \<noteq> [] \<and> hd p = 47 then [RootDir] else []) @
     List.map_filter piece_component (enumerate 0 (split_bytes 47 p))"

fun join_slash :: "bytes list \<Rightarrow> bytes" where
  "join_slash [] = []"
| "join_slash [p] = p"
| "join_slash (p # ps) = p @ 47 # join_slash ps"

definition normal_part :: "(bytes \<Rightarrow> bytes) \<Rightarrow> component \<Rightarrow> bytes option" where
  "normal_part lossy c = (case c of Normal s \<Rightarrow> Some (lossy s) | _ \<Rightarrow> None)"

definition relative_path :: "(bytes \<Rightarrow> bytes) \<Rightarrow> bytes \<Rightarrow> bytes \<Rightarrow> bytes" where
  "relative_path lossy root path =
     (let cs = components path; pre = components root;
          rel = (if take (length pre) cs = pre then drop (length pre) cs else cs)
      in join_slash (List.map_filter (normal_part lossy) rel))"

definition push_path :: "bytes \<Rightarrow> bytes \<Rightarrow> bytes" where
  "push_path p c = (if p \<noteq> [] \<and> last p \<noteq> 47 then p @ [47] @ c else p @ c)"

text \<open>\<open>path.extend(rel.split('/').filter(|c| !c.is_empty()))\<close>.\<close>

definition resolve :: "bytes \<Rightarrow> bytes \<Rightarrow> bytes" where
  "resolve root rel = foldl push_path root (filter (\<lambda>c. c \<noteq> []) (split_bytes 47 rel))"

section \<open>Times\<close>

definition I64_MAX :: int where "I64_MAX = 2 ^ 63 - 1"
definition I64_MIN :: int where "I64_MIN = - (2 ^ 63)"

definition time_to_nanos :: "int \<Rightarrow> i64" where
  "time_to_nanos t = word_of_int
     (if 0 \<le> t then (if t \<le> I64_MAX then t else I64_MAX) else if - t \<le> I64_MAX then - (- t) else I64_MIN)"

text \<open>\<open>unsigned_abs\<close> of the stored value; the clock's range (64-bit seconds) holds both results.\<close>

definition nanos_to_time :: "i64 \<Rightarrow> int" where
  "nanos_to_time n = (let d = \<bar>sint n\<bar> in if 0 \<le> sint n then 0 + d else 0 - d)"

lemma nanos_roundtrip:
  "I64_MIN \<le> t \<Longrightarrow> t \<le> I64_MAX \<Longrightarrow> nanos_to_time (time_to_nanos t) = t"
  "time_to_nanos (nanos_to_time n) = n"
proof -
  have s: "sint (word_of_int t :: i64) = t" if "- (2 ^ 63) \<le> t" "t < 2 ^ 63" for t
    using that by (simp add: int_word_sint)
  show "I64_MIN \<le> t \<Longrightarrow> t \<le> I64_MAX \<Longrightarrow> nanos_to_time (time_to_nanos t) = t"
    using s [of t] by (auto simp: nanos_to_time_def time_to_nanos_def I64_MIN_def I64_MAX_def)
  have b: "- (2 ^ 63) \<le> sint n" "sint n < 2 ^ 63" using sint_ge [of n] sint_lt [of n] by simp_all
  have "n = word_of_int (sint n)" by simp
  then have "n = - 9223372036854775808" if "sint n = - 9223372036854775808"
    using that by (metis of_int_minus of_int_numeral)
  then show "time_to_nanos (nanos_to_time n) = n"
    using b by (auto simp: nanos_to_time_def time_to_nanos_def I64_MIN_def I64_MAX_def Let_def)
qed

section \<open>Resolving and relativising\<close>

definition plain_part :: "(bytes \<Rightarrow> bytes) \<Rightarrow> bytes \<Rightarrow> bool" where
  "plain_part lossy c \<longleftrightarrow> c \<noteq> [] \<and> c \<noteq> [46] \<and> c \<noteq> [46, 46] \<and> 47 \<notin> set c \<and> lossy c = c"

lemma split_bytes_nonempty [simp]: "split_bytes sep s \<noteq> []"
  by (induction s) (auto split: list.splits)

lemma split_bytes_plain: "sep \<notin> set c \<Longrightarrow> split_bytes sep c = [c]"
  by (induction c) auto

lemma split_bytes_append: "split_bytes sep (s @ sep # t) = split_bytes sep s @ split_bytes sep t"
proof (induction s)
  case (Cons c s)
  obtain p ps where "split_bytes sep s = p # ps" by (cases "split_bytes sep s") auto
  then show ?case using Cons by simp
qed simp

lemma split_join: "cs \<noteq> [] \<Longrightarrow> \<forall>c \<in> set cs. 47 \<notin> set c \<Longrightarrow> split_bytes 47 (join_slash cs) = cs"
  by (induction cs rule: join_slash.induct) (auto simp: split_bytes_plain split_bytes_append)

lemma components_push:
  assumes "p \<noteq> []" and "plain_part lossy c"
  shows "components (push_path p c) = components p @ [Normal c]"
proof -
  have c: "47 \<notin> set c" "c \<noteq> []" "c \<noteq> [46]" "c \<noteq> [46, 46]" using assms(2) by (auto simp: plain_part_def)
  have piece: "piece_component (n, c) = Some (Normal c)" "piece_component (n, []) = None" for n
    using c by (auto simp: piece_component_def)
  show ?thesis
  proof (cases "last p = 47")
    case True
    then obtain q where q: "p = q @ [47]" using assms(1) by (metis append_butlast_last_id)
    have "split_bytes 47 p = split_bytes 47 q @ [[]]" "split_bytes 47 (p @ c) = split_bytes 47 q @ [c]"
      using q c(1) split_bytes_append [of 47 q "[]"] split_bytes_append [of 47 q c] by (simp_all add: split_bytes_plain)
    then show ?thesis using assms(1) True piece q
      by (simp add: components_def push_path_def enumerate_append_eq map_filter_append map_filter_simps hd_append)
  next
    case False
    have "split_bytes 47 (p @ [47] @ c) = split_bytes 47 p @ [c]"
      using c(1) split_bytes_append [of 47 p c] by (simp add: split_bytes_plain)
    then show ?thesis using assms(1) False piece
      by (simp add: components_def push_path_def enumerate_append_eq map_filter_append map_filter_simps hd_append)
  qed
qed

lemma components_pushes:
  "p \<noteq> [] \<Longrightarrow> \<forall>c \<in> set cs. plain_part lossy c \<Longrightarrow> components (foldl push_path p cs) = components p @ map Normal cs"
proof (induction cs arbitrary: p)
  case (Cons c cs)
  have "push_path p c \<noteq> []" using Cons.prems by (auto simp: push_path_def)
  then show ?case using Cons by (simp add: components_push [of p lossy])
qed simp

lemma relative_resolve:
  assumes "root \<noteq> []" and "cs \<noteq> []" and "\<forall>c \<in> set cs. plain_part lossy c"
  shows "relative_path lossy root (resolve root (join_slash cs)) = join_slash cs"
proof -
  have "split_bytes 47 (join_slash cs) = cs" using assms(2,3) by (intro split_join) (auto simp: plain_part_def)
  moreover have "filter (\<lambda>c. c \<noteq> []) cs = cs" using assms(3) by (auto simp: plain_part_def filter_id_conv)
  ultimately have "components (resolve root (join_slash cs)) = components root @ map Normal cs"
    using components_pushes [OF assms(1,3)] by (simp add: resolve_def)
  moreover have "List.map_filter (normal_part lossy) (map Normal cs) = cs"
    using assms(3) by (induction cs) (auto simp: map_filter_simps normal_part_def plain_part_def)
  ultimately show ?thesis by (simp add: relative_path_def Let_def)
qed

end
