(* ===== verification/Reconcile.thy ===== *)
theory Reconcile
  imports Paths "HOL-Library.AList" "HOL-Library.Multiset"
begin

text \<open>
  Change detection (\<open>src/store/state.rs\<close>) and how the incremental writer reads a plan (\<open>src/store/update.rs\<close>).
  \<open>read\<close> is \<open>std::fs::read\<close> at the time of the reconcile, \<open>hash\<close> is xxh3-64, \<open>lossy\<close> is \<open>to_string_lossy\<close>.
  A \<open>HashMap\<close> is an association list, whose order stands for the order of iteration. The counters of a
  plan are words.

  Main facts: an unchanged tree gives the empty plan without reading a file (\<open>reconcile_unchanged\<close>); carrying out
  the plan of a tree in which no rename candidate's old path exists leaves exactly the crawled files, each once
  (\<open>reconcile_converges\<close>).
\<close>

section \<open>State\<close>

record file_state =
  fs_doc_id :: u32
  fs_inode :: u64
  fs_mtime_nanos :: i64
  fs_size :: u64
  fs_content_hash :: u64
  fs_status :: doc_status

record state_index =
  si_by_path :: "(bytes \<times> file_state) list"
  si_by_inode :: "(u64 \<times> bytes) list"

definition from_docs :: "(bytes \<Rightarrow> bytes) \<Rightarrow> bytes \<Rightarrow> (u32 \<times> doc_meta) list \<Rightarrow> state_index" where
  "from_docs lossy root docs = fold (\<lambda>(i, m) s.
     let rel = relative_path lossy root (dm_path m) in
     \<lparr>si_by_path = AList.update rel \<lparr>fs_doc_id = i, fs_inode = dm_inode m, fs_mtime_nanos = time_to_nanos (dm_mtime m),
          fs_size = dm_size m, fs_content_hash = dm_content_hash m, fs_status = dm_status m\<rparr> (si_by_path s),
      si_by_inode = (if dm_inode m \<noteq> 0 then AList.update (dm_inode m) rel (si_by_inode s) else si_by_inode s)\<rparr>)
     docs \<lparr>si_by_path = [], si_by_inode = []\<rparr>"

definition si_get :: "state_index \<Rightarrow> bytes \<Rightarrow> file_state option" where
  "si_get s rel = map_of (si_by_path s) rel"

datatype change =
    Delete u32
  | Patch u32 u64 i64 u64 bytes                             \<comment> \<open>doc, inode, mtime, size, path\<close>
  | Reindex bytes file_kind u64 i64 u64 "bytes option"      \<comment> \<open>path, kind, inode, mtime, size, bytes\<close>

record plan =
  pl_changes :: "change list"
  pl_files_examined :: u64
  pl_bytes_read :: u64

definition plan_empty :: plan where
  "plan_empty = \<lparr>pl_changes = [], pl_files_examined = 0, pl_bytes_read = 0\<rparr>"

section \<open>Reconciling\<close>

definition read_and_hash :: "(bytes \<Rightarrow> bytes option) \<Rightarrow> (bytes \<Rightarrow> u64) \<Rightarrow> bytes \<Rightarrow> (bytes \<times> u64) option" where
  "read_and_hash read hash path = map_option (\<lambda>bs. (bs, hash bs)) (read path)"

definition patch_of :: "file_state \<Rightarrow> file_entry \<Rightarrow> bytes \<Rightarrow> change" where
  "patch_of prior e rel = Patch (fs_doc_id prior) (fe_inode e) (time_to_nanos (fe_mtime e)) (fe_size e) rel"

definition reindex_of :: "file_entry \<Rightarrow> bytes \<Rightarrow> bytes option \<Rightarrow> change" where
  "reindex_of e rel bs = Reindex rel (fe_kind e) (fe_inode e) (time_to_nanos (fe_mtime e)) (fe_size e) bs"

text \<open>The local state of the loop: the plan, the paths seen, and the old paths consumed as rename sources.\<close>

record recon =
  rc_plan :: plan
  rc_seen :: "bytes set"
  rc_consumed :: "bytes set"

definition push_changes :: "change list \<Rightarrow> recon \<Rightarrow> recon" where
  "push_changes cs s = s\<lparr>rc_plan := (rc_plan s)\<lparr>pl_changes := pl_changes (rc_plan s) @ cs\<rparr>\<rparr>"

definition count_read :: "bytes \<Rightarrow> recon \<Rightarrow> recon" where
  "count_read bs s = s\<lparr>rc_plan := (rc_plan s)\<lparr>pl_bytes_read := pl_bytes_read (rc_plan s) + of_nat (length bs)\<rparr>\<rparr>"

definition see :: "bytes \<Rightarrow> recon \<Rightarrow> recon" where
  "see rel s = s\<lparr>rc_seen := insert rel (rc_seen s)\<rparr>"

definition consume :: "bytes \<Rightarrow> recon \<Rightarrow> recon" where
  "consume p s = s\<lparr>rc_consumed := insert p (rc_consumed s)\<rparr>"

text \<open>After the hash: the same content is a patch, another one a new record.\<close>

definition by_hash :: "file_state \<Rightarrow> file_entry \<Rightarrow> bytes \<Rightarrow> bytes \<Rightarrow> u64 \<Rightarrow> change list" where
  "by_hash prior e rel bs h =
     (if h = fs_content_hash prior then [patch_of prior e rel]
      else [Delete (fs_doc_id prior), reindex_of e rel (Some bs)])"

text \<open>A path with a prior state.\<close>

definition known_file :: "(bytes \<Rightarrow> bytes option) \<Rightarrow> (bytes \<Rightarrow> u64) \<Rightarrow> file_state \<Rightarrow> file_entry \<Rightarrow> bytes \<Rightarrow> recon \<Rightarrow> recon" where
  "known_file read hash prior e rel s =
     (if fs_inode prior = fe_inode e \<and> fs_mtime_nanos prior = time_to_nanos (fe_mtime e) \<and> fs_size prior = fe_size e
      then see rel s
      else if fe_kind e = FText \<and> was_read (fs_status prior)
      then see rel (case read_and_hash read hash (fe_path e) of
             Some (bs, h) \<Rightarrow> push_changes (by_hash prior e rel bs h) (count_read bs s)
           | None \<Rightarrow> push_changes [Delete (fs_doc_id prior)] s)
      else see rel (push_changes [Delete (fs_doc_id prior), reindex_of e rel None] s))"

text \<open>A path without one. The result says whether the file is dealt with (\<open>continue\<close>).\<close>

definition renamed_file :: "(bytes \<Rightarrow> bytes option) \<Rightarrow> (bytes \<Rightarrow> u64) \<Rightarrow> state_index \<Rightarrow> file_entry \<Rightarrow> bytes \<Rightarrow> recon \<Rightarrow> recon \<times> bool" where
  "renamed_file read hash prev e rel s =
     (if fe_inode e = 0 then (s, False)
      else case map_of (si_by_inode prev) (fe_inode e) of
        None \<Rightarrow> (s, False)
      | Some old \<Rightarrow>
          if old \<in> rc_consumed s then (s, False)
          else case si_get prev old of
            None \<Rightarrow> (s, False)
          | Some prior \<Rightarrow>
              if fs_mtime_nanos prior = time_to_nanos (fe_mtime e) \<and> fs_size prior = fe_size e
              then (see rel (consume old (push_changes [patch_of prior e rel] s)), True)
              else if fe_kind e = FText \<and> was_read (fs_status prior)
              then (case read_and_hash read hash (fe_path e) of
                  Some (bs, h) \<Rightarrow> (see rel (push_changes (by_hash prior e rel bs h) (consume old (count_read bs s))), True)
                | None \<Rightarrow> (s, False))
              else (consume old (push_changes [Delete (fs_doc_id prior)] s), False))"

definition reconcile_file :: "(bytes \<Rightarrow> bytes) \<Rightarrow> (bytes \<Rightarrow> bytes option) \<Rightarrow> (bytes \<Rightarrow> u64) \<Rightarrow> state_index \<Rightarrow> bytes \<Rightarrow>
    file_entry \<Rightarrow> recon \<Rightarrow> recon" where
  "reconcile_file lossy read hash prev root cf s =
     (let s = s\<lparr>rc_plan := (rc_plan s)\<lparr>pl_files_examined := pl_files_examined (rc_plan s) + 1\<rparr>\<rparr>;
          rel = relative_path lossy root (fe_path cf)
      in case si_get prev rel of
           Some prior \<Rightarrow> known_file read hash prior cf rel s
         | None \<Rightarrow> (case renamed_file read hash prev cf rel s of
             (s, True) \<Rightarrow> s
           | (s, False) \<Rightarrow> see rel (push_changes [reindex_of cf rel None] s)))"

definition gone :: "state_index \<Rightarrow> bytes set \<Rightarrow> bytes set \<Rightarrow> change list" where
  "gone prev seen consumed = List.map_filter (\<lambda>(path, st).
     if path \<notin> seen \<and> path \<notin> consumed then Some (Delete (fs_doc_id st)) else None) (si_by_path prev)"

definition reconcile :: "(bytes \<Rightarrow> bytes) \<Rightarrow> (bytes \<Rightarrow> bytes option) \<Rightarrow> (bytes \<Rightarrow> u64) \<Rightarrow> state_index \<Rightarrow> bytes \<Rightarrow> file_entry list \<Rightarrow> plan" where
  "reconcile lossy read hash prev root crawled =
     (let s = fold (reconcile_file lossy read hash prev root) crawled \<lparr>rc_plan = plan_empty, rc_seen = {}, rc_consumed = {}\<rparr>
      in rc_plan (push_changes (gone prev (rc_seen s) (rc_consumed s)) s))"

section \<open>Carrying out a plan\<close>

text \<open>The loop of \<open>update_index\<close> over the changes: deletes, new patches, and files to index.\<close>

type_synonym patch_row = "u32 \<times> u64 \<times> i64 \<times> u64 \<times> bytes"

fun sort_changes :: "bytes \<Rightarrow> change list \<Rightarrow> u32 list \<Rightarrow> patch_row list \<Rightarrow> file_entry list \<Rightarrow>
    u32 list \<times> patch_row list \<times> file_entry list" where
  "sort_changes root [] ds ps rs = (ds, ps, rs)"
| "sort_changes root (c # cs) ds ps rs =
     (case c of
        Delete i \<Rightarrow> sort_changes root cs (ds @ [i]) ps rs
      | Patch i inode mtime sz path \<Rightarrow> sort_changes root cs ds (ps @ [(i, inode, mtime, sz, path)]) rs
      | Reindex path kind inode mtime sz _ \<Rightarrow> sort_changes root cs ds ps
          (rs @ [\<lparr>fe_path = resolve root path, fe_inode = inode, fe_mtime = nanos_to_time mtime, fe_size = sz, fe_kind = kind\<rparr>]))"

text \<open>The overlay after the update, as a \<open>BTreeMap\<close> by document.\<close>

definition merge_overlay :: "patch_row list \<Rightarrow> patch_row list \<Rightarrow> u32 list \<Rightarrow> (u32 \<rightharpoonup> u64 \<times> i64 \<times> u64 \<times> bytes)" where
  "merge_overlay old new deleted =
     fold (\<lambda>i m. m(i := None)) deleted (fold (\<lambda>(i, row) m. m(i \<mapsto> row)) new (fold (\<lambda>(i, row) m. m(i \<mapsto> row)) old Map.empty))"

text \<open>
  What the index holds after the update, as rows (path, inode, time, size): the records of the documents that
  were not deleted, with their patches, and the records of the files that were indexed.
\<close>

type_synonym row = "bytes \<times> u64 \<times> i64 \<times> u64"

definition kept_row :: "u32 set \<Rightarrow> (u32 \<rightharpoonup> u64 \<times> i64 \<times> u64 \<times> bytes) \<Rightarrow> bytes \<times> file_state \<Rightarrow> row option" where
  "kept_row ds ov = (\<lambda>(path, st).
     if fs_doc_id st \<in> ds then None
     else Some (case ov (fs_doc_id st) of
         Some (inode, mtime, sz, path') \<Rightarrow> (path', inode, mtime, sz)
       | None \<Rightarrow> (path, fs_inode st, fs_mtime_nanos st, fs_size st)))"

definition file_row :: "(bytes \<Rightarrow> bytes) \<Rightarrow> bytes \<Rightarrow> file_entry \<Rightarrow> row" where
  "file_row lossy root e = (relative_path lossy root (fe_path e), fe_inode e, time_to_nanos (fe_mtime e), fe_size e)"

definition rows_after :: "(bytes \<Rightarrow> bytes) \<Rightarrow> bytes \<Rightarrow> state_index \<Rightarrow> change list \<Rightarrow> row multiset" where
  "rows_after lossy root prev cs =
     (case sort_changes root cs [] [] [] of (ds, ps, rs) \<Rightarrow>
        mset (List.map_filter (kept_row (set ds) (merge_overlay [] ps ds)) (si_by_path prev)) +
        mset (map (file_row lossy root) rs))"

section \<open>The effect of a list of changes\<close>

definition deleted :: "change list \<Rightarrow> u32 set" where
  "deleted cs = {i. Delete i \<in> set cs}"

fun patch_row_of :: "change \<Rightarrow> patch_row option" where
  "patch_row_of (Patch i inode mtime sz path) = Some (i, inode, mtime, sz, path)"
| "patch_row_of _ = None"

fun new_row_of :: "change \<Rightarrow> row option" where
  "new_row_of (Reindex path kind inode mtime sz _) = Some (path, inode, mtime, sz)"
| "new_row_of _ = None"

definition patched :: "change list \<Rightarrow> u32 \<rightharpoonup> u64 \<times> i64 \<times> u64 \<times> bytes" where
  "patched cs = map_of (rev (List.map_filter patch_row_of cs))"

definition new_rows :: "change list \<Rightarrow> row list" where
  "new_rows cs = List.map_filter new_row_of cs"

definition touched :: "change list \<Rightarrow> u32 set" where
  "touched cs = deleted cs \<union> dom (patched cs)"

definition row_after :: "change list \<Rightarrow> bytes \<Rightarrow> file_state \<Rightarrow> row multiset" where
  "row_after cs path st = (case kept_row (deleted cs) (patched cs) (path, st) of None \<Rightarrow> {#} | Some r \<Rightarrow> {#r#})"

lemma changes_append:
  "deleted (cs @ ds) = deleted cs \<union> deleted ds"
  "patched (cs @ ds) = patched cs ++ patched ds"
  "new_rows (cs @ ds) = new_rows cs @ new_rows ds"
  "touched (cs @ ds) = touched cs \<union> touched ds"
  by (auto simp: deleted_def patched_def new_rows_def touched_def List.map_filter_def)

lemma changes_simps [simp]:
  "deleted [] = {}" "patched [] = Map.empty" "new_rows [] = []" "touched [] = {}"
  "deleted [Delete i] = {i}" "deleted [Reindex path kind inode mtime sz bs] = {}" "deleted [Patch i inode mtime sz path] = {}"
  "patched [Delete i] = Map.empty" "patched [Reindex path kind inode mtime sz bs] = Map.empty"
  "patched [Patch i inode mtime sz path] = [i \<mapsto> (inode, mtime, sz, path)]"
  "new_rows [Delete i] = []" "new_rows [Patch i inode mtime sz path] = []"
  "new_rows [Reindex path kind inode mtime sz bs] = [(path, inode, mtime, sz)]"
  by (auto simp: deleted_def patched_def new_rows_def touched_def map_filter_simps)

lemma changes_pair:
  "deleted [a, b] = deleted [a] \<union> deleted [b]"
  "patched [a, b] = patched [a] ++ patched [b]"
  "new_rows [a, b] = new_rows [a] @ new_rows [b]"
  using changes_append(1-3) [of "[a]" "[b]"] by simp_all

lemma row_after_untouched:
  "fs_doc_id st \<notin> touched ds \<Longrightarrow> row_after (cs @ ds) path st = row_after cs path st"
  "fs_doc_id st \<notin> touched cs \<Longrightarrow> row_after (cs @ ds) path st = row_after ds path st"
  by (auto simp: row_after_def kept_row_def changes_append touched_def map_add_def dom_def split: option.splits)

lemma sort_changes_eq:
  "sort_changes root cs ds ps rs =
     (ds @ List.map_filter (\<lambda>c. case c of Delete i \<Rightarrow> Some i | _ \<Rightarrow> None) cs, ps @ List.map_filter patch_row_of cs,
      rs @ map (\<lambda>c. case c of Reindex path kind inode mtime sz _ \<Rightarrow>
        \<lparr>fe_path = resolve root path, fe_inode = inode, fe_mtime = nanos_to_time mtime, fe_size = sz, fe_kind = kind\<rparr>)
       (filter (\<lambda>c. new_row_of c \<noteq> None) cs))"
  by (induction root cs ds ps rs rule: sort_changes.induct) (simp_all add: map_filter_simps split: change.splits)

lemma fold_upd: "fold (\<lambda>(i, row) m. m(i \<mapsto> row)) xs m = m ++ map_of (rev xs)"
  by (induction xs arbitrary: m) (auto simp: map_add_assoc)

lemma fold_remove: "fold (\<lambda>i m. m(i := None)) is m = m |` (- set is)"
  by (induction "is" arbitrary: m) (auto simp: restrict_map_def fun_eq_iff)

lemma merge_overlay_eq: "merge_overlay old new ds = (map_of (rev old) ++ map_of (rev new)) |` (- set ds)"
  by (simp add: merge_overlay_def fold_upd fold_remove)

definition plain_rel :: "(bytes \<Rightarrow> bytes) \<Rightarrow> bytes \<Rightarrow> bool" where
  "plain_rel lossy rel \<longleftrightarrow> (\<exists>cs. cs \<noteq> [] \<and> (\<forall>c \<in> set cs. plain_part lossy c) \<and> rel = join_slash cs)"

lemma rows_after_eq:
  assumes "root \<noteq> []" and "\<forall>r \<in> set (new_rows cs). plain_rel lossy (fst r)"
  shows "rows_after lossy root prev cs = (\<Sum>(path, st) \<in># mset (si_by_path prev). row_after cs path st) + mset (new_rows cs)"
proof -
  let ?ds = "List.map_filter (\<lambda>c. case c of Delete i \<Rightarrow> Some i | _ \<Rightarrow> None) cs"
  have d: "set ?ds = deleted cs" by (induction cs) (auto simp: map_filter_simps deleted_def split: change.splits)
  have k: "kept_row (set ?ds) (merge_overlay [] (List.map_filter patch_row_of cs) ?ds) = kept_row (deleted cs) (patched cs)"
    using d by (auto simp: kept_row_def merge_overlay_eq patched_def restrict_map_def fun_eq_iff)
  have "mset (List.map_filter (kept_row (deleted cs) (patched cs)) xs) = (\<Sum>(path, st) \<in># mset xs. row_after cs path st)" for xs
    by (induction xs) (auto simp: map_filter_simps row_after_def split: option.splits)
  moreover have "map (file_row lossy root) (map (\<lambda>c. case c of Reindex path kind inode mtime sz _ \<Rightarrow>
        \<lparr>fe_path = resolve root path, fe_inode = inode, fe_mtime = nanos_to_time mtime, fe_size = sz, fe_kind = kind\<rparr>)
       (filter (\<lambda>c. new_row_of c \<noteq> None) xs)) = new_rows xs"
    if "\<forall>r \<in> set (new_rows xs). plain_rel lossy (fst r)" for xs
    using that
  proof (induction xs)
    case (Cons c xs)
    then show ?case using relative_resolve [OF assms(1), of _ lossy] nanos_roundtrip(2)
      by (cases c) (auto simp: new_rows_def map_filter_simps file_row_def plain_rel_def)
  qed (simp add: new_rows_def)
  ultimately show ?thesis using assms(2) unfolding rows_after_def sort_changes_eq by (simp add: k del: map_map mset_map not_None_eq)
qed

section \<open>Convergence\<close>

text \<open>
  What the crawl and the state must satisfy: the paths of the crawl are distinct and every file in it can be read;
  the state has one entry per path and per document; and where a file of the crawl is at an unknown path but
  has the inode of a known one, that known path is not in the crawl any more.
\<close>

definition rel_of :: "(bytes \<Rightarrow> bytes) \<Rightarrow> bytes \<Rightarrow> file_entry \<Rightarrow> bytes" where
  "rel_of lossy root e = relative_path lossy root (fe_path e)"

definition state_ok :: "state_index \<Rightarrow> bool" where
  "state_ok prev \<longleftrightarrow> distinct (map fst (si_by_path prev)) \<and> distinct (map (fs_doc_id \<circ> snd) (si_by_path prev))"

definition old_paths_gone :: "(bytes \<Rightarrow> bytes) \<Rightarrow> bytes \<Rightarrow> state_index \<Rightarrow> file_entry list \<Rightarrow> bool" where
  "old_paths_gone lossy root prev crawled \<longleftrightarrow> (\<forall>e \<in> set crawled. si_get prev (rel_of lossy root e) = None \<longrightarrow>
     (case map_of (si_by_inode prev) (fe_inode e) of None \<Rightarrow> True | Some old \<Rightarrow> old \<notin> rel_of lossy root ` set crawled))"

definition crawl_ok :: "(bytes \<Rightarrow> bytes) \<Rightarrow> (bytes \<Rightarrow> bytes option) \<Rightarrow> bytes \<Rightarrow> state_index \<Rightarrow> file_entry list \<Rightarrow> bool" where
  "crawl_ok lossy read root prev crawled \<longleftrightarrow> distinct (map (rel_of lossy root) crawled) \<and>
     (\<forall>e \<in> set crawled. read (fe_path e) \<noteq> None \<and> plain_rel lossy (rel_of lossy root e)) \<and>
     old_paths_gone lossy root prev crawled"

definition handled :: "state_index \<Rightarrow> recon \<Rightarrow> bytes set" where
  "handled prev s = (rc_seen s \<inter> dom (si_get prev)) \<union> rc_consumed s"

definition id_of :: "state_index \<Rightarrow> bytes \<Rightarrow> u32" where
  "id_of prev p = fs_doc_id (the (si_get prev p))"

definition effect :: "state_index \<Rightarrow> change list \<Rightarrow> bytes \<Rightarrow> row multiset" where
  "effect prev cs p = row_after cs p (the (si_get prev p))"

abbreviation changes_of :: "recon \<Rightarrow> change list" where "changes_of s \<equiv> pl_changes (rc_plan s)"

lemma ids_distinct:
  "state_ok prev \<Longrightarrow> p \<in> dom (si_get prev) \<Longrightarrow> q \<in> dom (si_get prev) \<Longrightarrow> id_of prev p = id_of prev q \<Longrightarrow> p = q"
proof -
  assume ok: "state_ok prev" and "p \<in> dom (si_get prev)" "q \<in> dom (si_get prev)" and e: "id_of prev p = id_of prev q"
  then obtain st st' where st: "(p, st) \<in> set (si_by_path prev)" "(q, st') \<in> set (si_by_path prev)"
    "si_get prev p = Some st" "si_get prev q = Some st'" unfolding si_get_def by (blast dest: map_of_SomeD)
  have "inj_on (fs_doc_id \<circ> snd) (set (si_by_path prev))" using ok by (simp add: state_ok_def distinct_map)
  then have "(p, st) = (q, st')" by (rule inj_onD) (use st e in \<open>simp_all add: id_of_def\<close>)
  then show "p = q" by simp
qed

text \<open>What is true after every prefix \<open>es\<close> of the crawl.\<close>

definition recon_inv :: "(bytes \<Rightarrow> bytes) \<Rightarrow> bytes \<Rightarrow> state_index \<Rightarrow> file_entry list \<Rightarrow> file_entry list \<Rightarrow> recon \<Rightarrow> bool" where
  "recon_inv lossy root prev crawled es s \<longleftrightarrow>
     rc_seen s = rel_of lossy root ` set es \<and>
     rc_consumed s \<subseteq> dom (si_get prev) \<and> rc_consumed s \<inter> rel_of lossy root ` set crawled = {} \<and>
     touched (changes_of s) \<subseteq> id_of prev ` handled prev s \<and>
     (\<Sum>p \<in> handled prev s. effect prev (changes_of s) p) + mset (new_rows (changes_of s)) = mset (map (file_row lossy root) es) \<and>
     (\<forall>r \<in> set (new_rows (changes_of s)). fst r \<in> rc_seen s)"

lemma handled_finite: "recon_inv lossy root prev crawled es s \<Longrightarrow> finite (handled prev s)"
  by (rule finite_subset [of _ "dom (si_get prev)"]) (auto simp: recon_inv_def handled_def si_get_def [abs_def] finite_dom_map_of)

lemma effect_others:
  assumes "state_ok prev" and "H \<subseteq> dom (si_get prev)" and "p \<in> dom (si_get prev)" "p \<notin> H" and "touched ds \<subseteq> {id_of prev p}"
  shows "(\<Sum>q \<in> H. effect prev (cs @ ds) q) = (\<Sum>q \<in> H. effect prev cs q)"
proof (rule sum.cong [OF refl])
  fix q assume q: "q \<in> H"
  have "id_of prev q \<noteq> id_of prev p" using ids_distinct [OF assms(1), of q p] q assms(2-4) by auto
  then have "id_of prev q \<notin> touched ds" using assms(5) by auto
  then show "effect prev (cs @ ds) q = effect prev cs q" by (simp add: effect_def id_of_def row_after_untouched)
qed

text \<open>One file, with the entry it deals with (if any) not dealt with before.\<close>

lemma recon_step:
  assumes inv: "recon_inv lossy root prev crawled es s" and ok: "state_ok prev"
    and cs: "changes_of s' = changes_of s @ cs"
    and seen: "rc_seen s' = insert (rel_of lossy root e) (rc_seen s)"
    and consumed: "rc_consumed s' \<subseteq> dom (si_get prev)" "rc_consumed s' \<inter> rel_of lossy root ` set crawled = {}"
    and h: "handled prev s' = handled prev s \<union> P"
    and P: "P = {} \<and> touched cs = {} \<and> new_rows cs = [file_row lossy root e] \<or>
      (\<exists>p. P = {p} \<and> p \<in> dom (si_get prev) \<and> p \<notin> handled prev s \<and> touched cs \<subseteq> {id_of prev p} \<and>
        effect prev cs p + mset (new_rows cs) = {#file_row lossy root e#} \<and> set (new_rows cs) \<subseteq> {file_row lossy root e})"
  shows "recon_inv lossy root prev crawled (es @ [e]) s'"
proof -
  let ?H = "handled prev s"
  note i = inv [unfolded recon_inv_def]
  have fin: "finite ?H" by (rule handled_finite [OF inv])
  have H: "?H \<subseteq> dom (si_get prev)" using i by (auto simp: handled_def)
  have sum: "(\<Sum>q \<in> handled prev s'. effect prev (changes_of s') q) + mset (new_rows cs) =
      (\<Sum>q \<in> ?H. effect prev (changes_of s) q) + {#file_row lossy root e#}"
    using P
  proof
    assume p: "P = {} \<and> touched cs = {} \<and> new_rows cs = [file_row lossy root e]"
    have "(\<Sum>q \<in> ?H. effect prev (changes_of s @ cs) q) = (\<Sum>q \<in> ?H. effect prev (changes_of s) q)"
      using p by (intro sum.cong refl) (simp add: effect_def row_after_untouched)
    then show ?thesis using p h cs by simp
  next
    assume "\<exists>p. P = {p} \<and> p \<in> dom (si_get prev) \<and> p \<notin> handled prev s \<and> touched cs \<subseteq> {id_of prev p} \<and>
        effect prev cs p + mset (new_rows cs) = {#file_row lossy root e#} \<and> set (new_rows cs) \<subseteq> {file_row lossy root e}"
    then obtain p where p: "P = {p}" "p \<in> dom (si_get prev)" "p \<notin> ?H" "touched cs \<subseteq> {id_of prev p}"
      "effect prev cs p + mset (new_rows cs) = {#file_row lossy root e#}" by blast
    have "id_of prev p \<notin> touched (changes_of s)"
    proof
      assume "id_of prev p \<in> touched (changes_of s)"
      then obtain q where "q \<in> ?H" "id_of prev p = id_of prev q" using i by blast
      then show False using ids_distinct [OF ok p(2), of q] H p(3) by auto
    qed
    then have e: "effect prev (changes_of s @ cs) p = effect prev cs p"
      by (simp add: effect_def id_of_def row_after_untouched)
    have "(\<Sum>q \<in> insert p ?H. effect prev (changes_of s') q) = effect prev cs p + (\<Sum>q \<in> ?H. effect prev (changes_of s) q)"
      using fin p(3) e effect_others [OF ok H p(2,3,4)] cs by simp
    then show ?thesis using p(1,5) h by (simp add: ac_simps)
  qed
  have "fst (file_row lossy root e) = rel_of lossy root e" by (simp add: file_row_def rel_of_def)
  then have rows: "\<forall>r \<in> set (new_rows (changes_of s')). fst r \<in> rc_seen s'"
    using P cs seen i by (auto simp: changes_append)
  have "touched (changes_of s') \<subseteq> id_of prev ` handled prev s'" using P cs h i by (auto simp: changes_append)
  moreover have "(\<Sum>q \<in> handled prev s'. effect prev (changes_of s') q) + mset (new_rows (changes_of s')) =
      (\<Sum>q \<in> ?H. effect prev (changes_of s) q) + mset (new_rows (changes_of s)) + {#file_row lossy root e#}"
  proof -
    have "mset (new_rows (changes_of s')) = mset (new_rows cs) + mset (new_rows (changes_of s))"
      by (simp add: cs changes_append)
    then show ?thesis using sum by (simp only: add.assoc [symmetric]) (simp only: ac_simps)
  qed
  then have "(\<Sum>q \<in> handled prev s'. effect prev (changes_of s') q) + mset (new_rows (changes_of s')) =
      mset (map (file_row lossy root) (es @ [e]))" using i by simp
  ultimately show ?thesis unfolding recon_inv_def using i seen consumed rows by simp
qed

lemma by_hash_effect:
  assumes "cs = by_hash prior e (rel_of lossy root e) bs h" and "si_get prev p = Some prior"
  shows "touched cs \<subseteq> {id_of prev p}"
    "effect prev cs p + mset (new_rows cs) = {#file_row lossy root e#} \<and> set (new_rows cs) \<subseteq> {file_row lossy root e}"
  using assms by (auto simp: by_hash_def touched_def changes_pair patch_of_def reindex_of_def id_of_def
      effect_def row_after_def kept_row_def file_row_def rel_of_def)

lemma known_step:
  assumes inv: "recon_inv lossy root prev crawled es s" and ok: "state_ok prev" and "crawl_ok lossy read root prev crawled"
    and crawled: "crawled = es @ e # rest" and prior: "si_get prev (rel_of lossy root e) = Some prior"
  shows "recon_inv lossy root prev crawled (es @ [e]) (known_file read hash prior e (rel_of lossy root e) s)"
proof -
  let ?rel = "rel_of lossy root e" and ?s' = "known_file read hash prior e (rel_of lossy root e) s"
  have d: "distinct (map (rel_of lossy root) crawled)" and rd: "read (fe_path e) \<noteq> None"
    using assms(3) crawled by (auto simp: crawl_ok_def)
  have i: "rc_seen s = rel_of lossy root ` set es" "rc_consumed s \<subseteq> dom (si_get prev)"
    "rc_consumed s \<inter> rel_of lossy root ` set crawled = {}" using inv by (simp_all add: recon_inv_def)
  have new: "?rel \<notin> handled prev s" using i d crawled by (auto simp: handled_def)
  have "\<exists>cs. changes_of ?s' = changes_of s @ cs \<and> touched cs \<subseteq> {id_of prev ?rel} \<and>
      effect prev cs ?rel + mset (new_rows cs) = {#file_row lossy root e#} \<and> set (new_rows cs) \<subseteq> {file_row lossy root e}"
  proof -
    consider "fs_inode prior = fe_inode e \<and> fs_mtime_nanos prior = time_to_nanos (fe_mtime e) \<and> fs_size prior = fe_size e"
      | bs where "\<not> (fs_inode prior = fe_inode e \<and> fs_mtime_nanos prior = time_to_nanos (fe_mtime e) \<and> fs_size prior = fe_size e)"
        "fe_kind e = FText" "was_read (fs_status prior)" "read (fe_path e) = Some bs"
      | "\<not> (fs_inode prior = fe_inode e \<and> fs_mtime_nanos prior = time_to_nanos (fe_mtime e) \<and> fs_size prior = fe_size e)"
        "\<not> (fe_kind e = FText \<and> was_read (fs_status prior))" using rd by blast
    then show ?thesis
    proof cases
      case 1
      then show ?thesis using prior
        by (intro exI [of _ "[]"]) (simp add: known_file_def see_def effect_def row_after_def kept_row_def file_row_def rel_of_def)
    next
      case (2 bs)
      then have "changes_of ?s' = changes_of s @ by_hash prior e ?rel bs (hash bs)"
        unfolding known_file_def if_not_P [OF 2(1)] by (simp add: see_def read_and_hash_def push_changes_def count_read_def)
      then show ?thesis using by_hash_effect [OF refl prior] by blast
    next
      case 3
      then have "changes_of ?s' = changes_of s @ [Delete (fs_doc_id prior), reindex_of e ?rel None]"
        unfolding known_file_def by (auto simp: see_def push_changes_def)
      then show ?thesis using prior
        by (intro exI [of _ "[Delete (fs_doc_id prior), reindex_of e ?rel None]"])
          (simp add: touched_def changes_pair reindex_of_def id_of_def effect_def row_after_def
            kept_row_def file_row_def rel_of_def)
    qed
  qed
  then obtain cs where cs: "changes_of ?s' = changes_of s @ cs" "touched cs \<subseteq> {id_of prev ?rel}"
    "effect prev cs ?rel + mset (new_rows cs) = {#file_row lossy root e#} \<and> set (new_rows cs) \<subseteq> {file_row lossy root e}" by blast
  have seen: "rc_seen ?s' = insert ?rel (rc_seen s)" and con: "rc_consumed ?s' = rc_consumed s"
    by (auto simp: known_file_def see_def push_changes_def count_read_def split: option.splits)
  show ?thesis
  proof (rule recon_step [OF inv ok cs(1) seen])
    show "handled prev ?s' = handled prev s \<union> {?rel}" using seen con prior by (auto simp: handled_def)
    show "{?rel} = {} \<and> touched cs = {} \<and> new_rows cs = [file_row lossy root e] \<or>
      (\<exists>p. {?rel} = {p} \<and> p \<in> dom (si_get prev) \<and> p \<notin> handled prev s \<and> touched cs \<subseteq> {id_of prev p} \<and>
        effect prev cs p + mset (new_rows cs) = {#file_row lossy root e#} \<and> set (new_rows cs) \<subseteq> {file_row lossy root e})"
      using cs new prior by blast
  qed (use con i in simp_all)
qed

lemma new_step:
  assumes inv: "recon_inv lossy root prev crawled es s" and ok: "state_ok prev" and crawl: "crawl_ok lossy read root prev crawled"
    and crawled: "crawled = es @ e # rest" and none: "si_get prev (rel_of lossy root e) = None"
    and t: "t = (case renamed_file read hash prev e (rel_of lossy root e) s of (s, True) \<Rightarrow> s
      | (s, False) \<Rightarrow> see (rel_of lossy root e) (push_changes [reindex_of e (rel_of lossy root e) None] s))"
  shows "recon_inv lossy root prev crawled (es @ [e]) t"
proof -
  let ?rel = "rel_of lossy root e" and ?old = "map_of (si_by_inode prev) (fe_inode e)"
  have i: "rc_seen s = rel_of lossy root ` set es" "rc_consumed s \<subseteq> dom (si_get prev)"
    "rc_consumed s \<inter> rel_of lossy root ` set crawled = {}" using inv by (simp_all add: recon_inv_def)
  have rd: "read (fe_path e) \<noteq> None" using crawl crawled by (auto simp: crawl_ok_def)
  have re: "touched [reindex_of e ?rel None] = {}" "new_rows [reindex_of e ?rel None] = [file_row lossy root e]"
    by (simp_all add: touched_def reindex_of_def file_row_def rel_of_def)
  consider (plain) "t = see ?rel (push_changes [reindex_of e ?rel None] s)"
    | (moved) old prior cs where "?old = Some old" "old \<notin> rc_consumed s" "si_get prev old = Some prior"
      "changes_of t = changes_of s @ cs" "rc_seen t = insert ?rel (rc_seen s)" "rc_consumed t = insert old (rc_consumed s)"
      "touched cs \<subseteq> {id_of prev old}"
      "effect prev cs old + mset (new_rows cs) = {#file_row lossy root e#} \<and> set (new_rows cs) \<subseteq> {file_row lossy root e}"
  proof -
    consider "fe_inode e = 0 \<or> ?old = None \<or> (\<exists>old. ?old = Some old \<and> (old \<in> rc_consumed s \<or> si_get prev old = None))"
      | old prior where "fe_inode e \<noteq> 0" "?old = Some old" "old \<notin> rc_consumed s" "si_get prev old = Some prior"
      by (cases ?old) auto
    then show ?thesis
    proof cases
      case 1
      then have "t = see ?rel (push_changes [reindex_of e ?rel None] s)" unfolding t by (auto simp: renamed_file_def)
      then show ?thesis by (rule plain)
    next
      case (2 old prior)
      have del: "touched [Delete (fs_doc_id prior), reindex_of e ?rel None] \<subseteq> {id_of prev old}"
        "effect prev [Delete (fs_doc_id prior), reindex_of e ?rel None] old +
           mset (new_rows [Delete (fs_doc_id prior), reindex_of e ?rel None]) = {#file_row lossy root e#} \<and>
         set (new_rows [Delete (fs_doc_id prior), reindex_of e ?rel None]) \<subseteq> {file_row lossy root e}"
        using 2(4) by (simp_all add: touched_def changes_pair reindex_of_def id_of_def effect_def row_after_def kept_row_def
            file_row_def rel_of_def)
      consider "fs_mtime_nanos prior = time_to_nanos (fe_mtime e) \<and> fs_size prior = fe_size e"
        | bs where "\<not> (fs_mtime_nanos prior = time_to_nanos (fe_mtime e) \<and> fs_size prior = fe_size e)"
          "fe_kind e = FText \<and> was_read (fs_status prior)" "read (fe_path e) = Some bs"
        | "\<not> (fs_mtime_nanos prior = time_to_nanos (fe_mtime e) \<and> fs_size prior = fe_size e)"
          "\<not> (fe_kind e = FText \<and> was_read (fs_status prior))" using rd by blast
      then show ?thesis
      proof cases
        case 1
        have "t = see ?rel (consume old (push_changes [patch_of prior e ?rel] s))"
          unfolding t using 1 2 by (simp add: renamed_file_def)
        then show ?thesis using 2 by (intro moved [of old prior "[patch_of prior e ?rel]"])
            (simp_all add: see_def consume_def push_changes_def touched_def patch_of_def id_of_def effect_def row_after_def
              kept_row_def file_row_def rel_of_def)
      next
        case (2 bs)
        note c = \<open>fe_inode e \<noteq> 0\<close> \<open>?old = Some old\<close> \<open>old \<notin> rc_consumed s\<close> \<open>si_get prev old = Some prior\<close>
        have "t = see ?rel (push_changes (by_hash prior e ?rel bs (hash bs)) (consume old (count_read bs s)))"
          unfolding t renamed_file_def using c 2 by (simp add: read_and_hash_def if_not_P [OF 2(1)])
        then show ?thesis using c by_hash_effect [OF refl c(4), of e lossy root bs "hash bs"]
          by (intro moved [of old prior "by_hash prior e ?rel bs (hash bs)"])
            (simp_all add: see_def consume_def push_changes_def count_read_def)
      next
        case 3
        have "t = see ?rel (push_changes [reindex_of e ?rel None] (consume old (push_changes [Delete (fs_doc_id prior)] s)))"
          unfolding t renamed_file_def using 2 3(2) by (simp add: if_not_P [OF 3(1)] if_not_P [OF 3(2)])
        then show ?thesis using 2 del
          by (intro moved [of old prior "[Delete (fs_doc_id prior), reindex_of e ?rel None]"])
            (simp_all add: see_def consume_def push_changes_def)
      qed
    qed
  qed
  then show ?thesis
  proof cases
    case plain
    then show ?thesis using none i re
      by (intro recon_step [OF inv ok, of t "[reindex_of e ?rel None]" e "{}"])
        (simp_all add: see_def push_changes_def handled_def domIff)
  next
    case (moved old prior cs)
    have old: "old \<notin> rel_of lossy root ` set crawled"
      using crawl none crawled moved(1) by (auto simp: crawl_ok_def old_paths_gone_def)
    then have "old \<notin> rc_seen s" using i(1) crawled by auto
    then have new: "old \<notin> handled prev s" using moved(2) by (simp add: handled_def)
    show ?thesis
    proof (rule recon_step [OF inv ok moved(4,5)])
      show "rc_consumed t \<subseteq> dom (si_get prev)" "rc_consumed t \<inter> rel_of lossy root ` set crawled = {}"
        using moved(3,6) i old by auto
      show "handled prev t = handled prev s \<union> {old}" using moved(5,6) none by (auto simp: handled_def)
      show "{old} = {} \<and> touched cs = {} \<and> new_rows cs = [file_row lossy root e] \<or>
        (\<exists>p. {old} = {p} \<and> p \<in> dom (si_get prev) \<and> p \<notin> handled prev s \<and> touched cs \<subseteq> {id_of prev p} \<and>
          effect prev cs p + mset (new_rows cs) = {#file_row lossy root e#} \<and> set (new_rows cs) \<subseteq> {file_row lossy root e})"
        using moved(3,7,8) new by blast
    qed
  qed
qed

lemma recon_fold:
  assumes "state_ok prev" and "crawl_ok lossy read root prev crawled" and "crawled = es @ rest"
    and "recon_inv lossy root prev crawled es s"
  shows "recon_inv lossy root prev crawled crawled (fold (reconcile_file lossy read hash prev root) rest s)"
  using assms(3,4)
proof (induction rest arbitrary: es s)
  case (Cons e rest)
  define s1 where "s1 = s\<lparr>rc_plan := (rc_plan s)\<lparr>pl_files_examined := pl_files_examined (rc_plan s) + 1\<rparr>\<rparr>"
  have inv: "recon_inv lossy root prev crawled es s1" using Cons.prems(2) unfolding recon_inv_def handled_def by (auto simp: s1_def)
  have "recon_inv lossy root prev crawled (es @ [e]) (reconcile_file lossy read hash prev root e s)"
  proof (cases "si_get prev (rel_of lossy root e)")
    case None
    then show ?thesis using new_step [OF inv assms(1,2) Cons.prems(1) None refl]
      by (simp add: reconcile_file_def s1_def Let_def flip: rel_of_def)
  next
    case (Some prior)
    then show ?thesis using known_step [OF inv assms(1,2) Cons.prems(1) Some]
      by (simp add: reconcile_file_def s1_def Let_def flip: rel_of_def)
  qed
  then show ?case using Cons.IH [of "es @ [e]"] Cons.prems(1) by simp
qed simp

lemma reconcile_converges_lemma:
  assumes ok: "state_ok prev" and crawl: "crawl_ok lossy read root prev crawled" and root: "root \<noteq> []"
  shows "rows_after lossy root prev (pl_changes (reconcile lossy read hash prev root crawled)) = mset (map (file_row lossy root) crawled)"
proof -
  define s where "s = fold (reconcile_file lossy read hash prev root) crawled \<lparr>rc_plan = plan_empty, rc_seen = {}, rc_consumed = {}\<rparr>"
  define g where "g = gone prev (rc_seen s) (rc_consumed s)"
  have "recon_inv lossy root prev crawled [] \<lparr>rc_plan = plan_empty, rc_seen = {}, rc_consumed = {}\<rparr>"
    by (simp add: recon_inv_def plan_empty_def handled_def)
  then have inv: "recon_inv lossy root prev crawled crawled s"
    unfolding s_def by (intro recon_fold [OF ok crawl]) simp_all
  note i = inv [unfolded recon_inv_def]
  let ?H = "handled prev s" and ?D = "dom (si_get prev)" and ?cs = "changes_of s @ g"
  have keys: "distinct (map fst (si_by_path prev))" using ok by (simp add: state_ok_def)
  have H: "?H \<subseteq> ?D" using i by (auto simp: handled_def)
  have g: "touched g = id_of prev ` (?D - ?H)" "new_rows g = []" "deleted g = id_of prev ` (?D - ?H)"
  proof -
    have "set g = Delete ` id_of prev ` (?D - ?H)"
      unfolding g_def gone_def using keys
      by (force simp: List.map_filter_def handled_def id_of_def si_get_def image_iff split: if_splits)
    then have g: "\<forall>c \<in> set g. \<exists>i \<in> id_of prev ` (?D - ?H). c = Delete i" "deleted g = id_of prev ` (?D - ?H)"
      by (auto simp: deleted_def)
    then have "List.map_filter patch_row_of g = []" "List.map_filter new_row_of g = []"
      by (auto simp: List.map_filter_def filter_empty_conv)
    then show "touched g = id_of prev ` (?D - ?H)" "new_rows g = []" "deleted g = id_of prev ` (?D - ?H)"
      using g(2) by (simp_all add: touched_def patched_def new_rows_def)
  qed
  have fin: "finite ?D" by (simp add: si_get_def [abs_def] finite_dom_map_of)
  have in_H: "effect prev ?cs p = effect prev (changes_of s) p" if "p \<in> ?H" for p
  proof -
    have "id_of prev p \<notin> touched g" using g(1) that ids_distinct [OF ok, of p] H by blast
    then show ?thesis by (simp add: effect_def id_of_def row_after_untouched)
  qed
  have out_H: "effect prev ?cs p = {#}" if "p \<in> ?D - ?H" for p
    using g(3) that by (auto simp: effect_def row_after_def kept_row_def changes_append id_of_def)
  have "(\<Sum>(path, st) \<in># mset (si_by_path prev). row_after ?cs path st) = (\<Sum>p \<in> ?D. effect prev ?cs p)"
  proof -
    have "(\<Sum>(path, st) \<in># mset xs. row_after ?cs path st) = (\<Sum>p \<in> fst ` set xs. row_after ?cs p (the (map_of xs p)))"
      if "distinct (map fst xs)" for xs
      using that
    proof (induction xs)
      case (Cons x xs)
      obtain p st where x: "x = (p, st)" by force
      have "(\<Sum>q \<in> fst ` set xs. row_after ?cs q (the (map_of (x # xs) q))) = (\<Sum>q \<in> fst ` set xs. row_after ?cs q (the (map_of xs q)))"
        using Cons.prems x by (intro sum.cong refl) auto
      then show ?case using Cons x by (simp del: map_of.simps) simp
    qed simp
    from this [OF keys] show ?thesis by (simp add: effect_def si_get_def [abs_def] dom_map_of_conv_image_fst)
  qed
  also have "\<dots> = (\<Sum>p \<in> ?H. effect prev (changes_of s) p)"
    using sum.mono_neutral_right [OF fin H, of "effect prev ?cs"] out_H in_H by simp
  finally have "(\<Sum>(path, st) \<in># mset (si_by_path prev). row_after ?cs path st) + mset (new_rows ?cs) = mset (map (file_row lossy root) crawled)"
    using i g(2) by (simp add: changes_append)
  moreover have "\<forall>r \<in> set (new_rows ?cs). plain_rel lossy (fst r)"
  proof
    fix r assume "r \<in> set (new_rows ?cs)"
    then have "fst r \<in> rel_of lossy root ` set crawled" using i g(2) by (auto simp: changes_append)
    then show "plain_rel lossy (fst r)" using crawl by (auto simp: crawl_ok_def)
  qed
  moreover have "pl_changes (reconcile lossy read hash prev root crawled) = ?cs"
    by (simp add: reconcile_def Let_def push_changes_def s_def g_def)
  ultimately show ?thesis using rows_after_eq [OF root] by simp
qed

section \<open>Nothing changed\<close>

definition same_meta :: "file_state \<Rightarrow> file_entry \<Rightarrow> bool" where
  "same_meta st e \<longleftrightarrow> fs_inode st = fe_inode e \<and> fs_mtime_nanos st = time_to_nanos (fe_mtime e) \<and> fs_size st = fe_size e"

lemma reconcile_unchanged_lemma:
  assumes "\<forall>e \<in> set crawled. \<exists>st. si_get prev (rel_of lossy root e) = Some st \<and> same_meta st e"
    and "fst ` set (si_by_path prev) \<subseteq> rel_of lossy root ` set crawled"
  shows "reconcile lossy read hash prev root crawled = \<lparr>pl_changes = [], pl_files_examined = of_nat (length crawled), pl_bytes_read = 0\<rparr>"
proof -
  have "fold (reconcile_file lossy read hash prev root) es s =
      s\<lparr>rc_plan := (rc_plan s)\<lparr>pl_files_examined := pl_files_examined (rc_plan s) + of_nat (length es)\<rparr>,
        rc_seen := rc_seen s \<union> rel_of lossy root ` set es\<rparr>"
    if "\<forall>e \<in> set es. \<exists>st. si_get prev (rel_of lossy root e) = Some st \<and> same_meta st e" for es s
    using that
  proof (induction es arbitrary: s)
    case (Cons e es)
    then show ?case by (auto simp: reconcile_file_def known_file_def see_def same_meta_def rel_of_def Let_def ac_simps)
  qed simp
  from this [OF assms(1)] have f: "fold (reconcile_file lossy read hash prev root) crawled \<lparr>rc_plan = plan_empty, rc_seen = {}, rc_consumed = {}\<rparr> =
      \<lparr>rc_plan = \<lparr>pl_changes = [], pl_files_examined = of_nat (length crawled), pl_bytes_read = 0\<rparr>,
       rc_seen = rel_of lossy root ` set crawled, rc_consumed = {}\<rparr>" by (simp add: plan_empty_def)
  have "gone prev (rel_of lossy root ` set crawled) {} = []"
    using assms(2) by (auto simp: gone_def List.map_filter_def filter_empty_conv)
  then show ?thesis by (simp add: reconcile_def f push_changes_def Let_def)
qed

section \<open>The state of a list of documents\<close>

lemma from_docs_keys: "distinct (map fst (si_by_path (from_docs lossy root docs)))"
proof -
  have "distinct (map fst (si_by_path s)) \<Longrightarrow> distinct (map fst (si_by_path (fold (\<lambda>(i, m) s.
     let rel = relative_path lossy root (dm_path m) in
     \<lparr>si_by_path = AList.update rel \<lparr>fs_doc_id = i, fs_inode = dm_inode m, fs_mtime_nanos = time_to_nanos (dm_mtime m),
          fs_size = dm_size m, fs_content_hash = dm_content_hash m, fs_status = dm_status m\<rparr> (si_by_path s),
      si_by_inode = (if dm_inode m \<noteq> 0 then AList.update (dm_inode m) rel (si_by_inode s) else si_by_inode s)\<rparr>) docs s)))" for s
    by (induction docs arbitrary: s) (auto simp: Let_def distinct_update)
  then show ?thesis by (simp add: from_docs_def)
qed

end
