(* ===== verification/Store_Properties.thy ===== *)
theory Store_Properties
  imports Reconcile
begin

text \<open>
  The properties of the store: change detection and incremental updates.
\<close>

section \<open>Sample inputs\<close>

definition bytes_of :: "string \<Rightarrow> bytes" where "bytes_of s = map of_char s"

definition sample_state :: "u32 \<Rightarrow> u64 \<Rightarrow> u64 \<Rightarrow> u64 \<Rightarrow> file_state" where
  "sample_state i inode sz h = \<lparr>fs_doc_id = i, fs_inode = inode, fs_mtime_nanos = 5, fs_size = sz, fs_content_hash = h, fs_status = Indexed\<rparr>"

definition sample_entry :: "string \<Rightarrow> u64 \<Rightarrow> u64 \<Rightarrow> file_entry" where
  "sample_entry p inode sz = \<lparr>fe_path = bytes_of (''r/'' @ p), fe_inode = inode, fe_mtime = 5, fe_size = sz, fe_kind = FText\<rparr>"


section \<open>Change detection\<close>




lemma sample_rels:
  "rel_of (\<lambda>s. s) (bytes_of ''r'') (sample_entry ''b'' 2 9) = bytes_of ''b''"
  "rel_of (\<lambda>s. s) (bytes_of ''r'') (sample_entry ''d'' 1 3) = bytes_of ''d''"
  "rel_of (\<lambda>s. s) (bytes_of ''r'') (sample_entry ''e'' 8 8) = bytes_of ''e''"
  by code_simp+


text \<open>
  C30: an unchanged tree costs nothing: if every crawled file has the recorded inode, time and size and no recorded
  path is missing, the plan is empty and no byte is read; only the number of examined files is counted.
\<close>

theorem reconcile_unchanged:
  assumes "\<forall>e \<in> set crawled. \<exists>st. si_get prev (rel_of lossy root e) = Some st \<and> same_meta st e"
    and "fst ` set (si_by_path prev) \<subseteq> rel_of lossy root ` set crawled"
  shows "reconcile lossy read hash prev root crawled = \<lparr>pl_changes = [], pl_files_examined = of_nat (length crawled), pl_bytes_read = 0\<rparr>"
  by (rule reconcile_unchanged_lemma [OF assms])

lemma reconcile_unchanged_witness:
  "reconcile (\<lambda>s. s) (\<lambda>_. None) (\<lambda>_. 6) \<lparr>si_by_path = [(bytes_of ''b'', sample_state 1 2 9 7)], si_by_inode = []\<rparr> (bytes_of ''r'') [sample_entry ''b'' 2 9] =
     \<lparr>pl_changes = [], pl_files_examined = 1, pl_bytes_read = 0\<rparr>"
proof -
  have "same_meta (sample_state 1 2 9 7) (sample_entry ''b'' 2 9)" by code_simp
  then show ?thesis using reconcile_unchanged [of "[sample_entry ''b'' 2 9]" "\<lparr>si_by_path = [(bytes_of ''b'', sample_state 1 2 9 7)], si_by_inode = []\<rparr>"
        "\<lambda>s. s" "bytes_of ''r''" "\<lambda>_. None" "\<lambda>_. 6"] by (simp add: sample_rels si_get_def)
qed


end
