(* ===== verification/Fs.thy ===== *)
theory Fs
  imports Prelude "HOL-Library.Sublist" "HOL-Library.AList" "HOL-Library.List_Lexorder" "HOL-Library.Char_ord"
begin

text \<open>
  The file-system interface of the store (\<open>src/fs.rs\<close>): the trait \<open>Fs\<close> as a record of operations over a world, the
  real file system over a model of a disk, and the fault-injecting \<open>FaultFs\<close> on top of it. A path is written
  relative to the index directory. An operation returns an I/O error or a result, and the new world.

  The disk keeps what survives a power loss apart from what a process sees: a durable directory, the directory
  updates made since it was last synced, the contents of files, and which contents are durable. \<open>power_loss\<close>
  leaves the durable directory with a selection of the pending updates, and arbitrary contents where they
  were not synced.

  Main facts: \<open>fs_contract\<close> states what the commit protocol relies on, and both file systems meet it
  (\<open>interpretation real\<close>, \<open>interpretation fault\<close>); a crash point of \<open>FaultFs\<close> leaves every later operation without
  effect (\<open>fault_dead\<close>).
\<close>

section \<open>Disks\<close>

type_synonym name = string

datatype io_error = NotFound | WouldBlock | InvalidData string | OtherIo string

text \<open>An atomic update of the directory: the entries it sets or clears.\<close>

type_synonym dir_update = "(name \<times> nat option) list"

record disk =
  dk_base :: "(name \<times> nat) list"      \<comment> \<open>the directory as last synced\<close>
  dk_pending :: "dir_update list"       \<comment> \<open>the updates since, in order\<close>
  dk_data :: "nat \<Rightarrow> bytes"             \<comment> \<open>file contents\<close>
  dk_synced :: "nat set"                \<comment> \<open>files with no write since their last sync\<close>
  dk_next :: nat                        \<comment> \<open>the next file number\<close>
  dk_locked :: bool                     \<comment> \<open>whether someone holds the lock\<close>

definition apply_update :: "dir_update \<Rightarrow> (name \<times> nat) list \<Rightarrow> (name \<times> nat) list" where
  "apply_update u d = fold (\<lambda>(n, i) d. case i of Some i \<Rightarrow> AList.update n i d | None \<Rightarrow> AList.delete n d) u d"

definition dk_entries :: "disk \<Rightarrow> (name \<times> nat) list" where
  "dk_entries d = fold apply_update (dk_pending d) (dk_base d)"

definition dk_dir :: "disk \<Rightarrow> name \<rightharpoonup> nat" where
  "dk_dir d = map_of (dk_entries d)"

definition dk_file :: "disk \<Rightarrow> name \<Rightarrow> bytes option" where
  "dk_file d n = map_option (dk_data d) (dk_dir d n)"

definition push_update :: "dir_update \<Rightarrow> disk \<Rightarrow> disk" where
  "push_update u d = d\<lparr>dk_pending := dk_pending d @ [u]\<rparr>"

text \<open>
  What the machine may find after losing power. With \<open>journaled\<close> the pending updates reach the disk in their
  order; without it any selection of them may.
\<close>

definition power_loss :: "bool \<Rightarrow> disk \<Rightarrow> disk \<Rightarrow> bool" where
  "power_loss journaled d d' \<longleftrightarrow>
     (\<exists>us. (if journaled then prefix us (dk_pending d) else subseq us (dk_pending d)) \<and>
        dk_base d' = fold apply_update us (dk_base d) \<and> dk_pending d' = []) \<and>
     (\<forall>i \<in> dk_synced d. dk_data d' i = dk_data d i) \<and> dk_synced d' = UNIV \<and> dk_next d' = dk_next d \<and> \<not> dk_locked d'"

section \<open>The trait\<close>

text \<open>A file open for writing: its path, and the file behind it.\<close>

record handle =
  h_path :: name
  h_file :: nat

record 'w fs =
  fs_create_dir_all :: "name \<Rightarrow> 'w \<Rightarrow> (io_error + unit) \<times> 'w"
  fs_create :: "name \<Rightarrow> 'w \<Rightarrow> (io_error + handle) \<times> 'w"
  fs_write :: "handle \<Rightarrow> bytes \<Rightarrow> 'w \<Rightarrow> (io_error + unit) \<times> 'w"
  fs_sync_all :: "handle \<Rightarrow> 'w \<Rightarrow> (io_error + unit) \<times> 'w"
  fs_close :: "handle \<Rightarrow> 'w \<Rightarrow> 'w"
  fs_read :: "name \<Rightarrow> 'w \<Rightarrow> (io_error + bytes) \<times> 'w"
  fs_mmap :: "name \<Rightarrow> 'w \<Rightarrow> (io_error + bytes) \<times> 'w"
  fs_file_len :: "name \<Rightarrow> 'w \<Rightarrow> (io_error + u64) \<times> 'w"
  fs_rename :: "name \<Rightarrow> name \<Rightarrow> 'w \<Rightarrow> (io_error + unit) \<times> 'w"
  fs_remove_file :: "name \<Rightarrow> 'w \<Rightarrow> (io_error + unit) \<times> 'w"
  fs_list_dir :: "name \<Rightarrow> 'w \<Rightarrow> (io_error + name list) \<times> 'w"
  fs_sync_dir :: "'w \<Rightarrow> (io_error + unit) \<times> 'w"
  fs_lock :: "name \<Rightarrow> 'w \<Rightarrow> (io_error + unit) \<times> 'w"
  fs_unlock :: "'w \<Rightarrow> 'w"

section \<open>The real file system\<close>

definition real_create :: "name \<Rightarrow> disk \<Rightarrow> (io_error + handle) \<times> disk" where
  "real_create p d =
     (case dk_dir d p of
        Some i \<Rightarrow> (Inr \<lparr>h_path = p, h_file = i\<rparr>, d\<lparr>dk_data := (dk_data d)(i := []), dk_synced := dk_synced d - {i}\<rparr>)
      | None \<Rightarrow> let i = dk_next d in
          (Inr \<lparr>h_path = p, h_file = i\<rparr>,
           push_update [(p, Some i)] (d\<lparr>dk_data := (dk_data d)(i := []), dk_synced := dk_synced d - {i}, dk_next := i + 1\<rparr>)))"

definition real_write :: "handle \<Rightarrow> bytes \<Rightarrow> disk \<Rightarrow> (io_error + unit) \<times> disk" where
  "real_write h bs d = (Inr (), d\<lparr>dk_data := (dk_data d)(h_file h := dk_data d (h_file h) @ bs), dk_synced := dk_synced d - {h_file h}\<rparr>)"

definition real_sync_all :: "handle \<Rightarrow> disk \<Rightarrow> (io_error + unit) \<times> disk" where
  "real_sync_all h d = (Inr (), d\<lparr>dk_synced := insert (h_file h) (dk_synced d)\<rparr>)"

definition real_read :: "name \<Rightarrow> disk \<Rightarrow> (io_error + bytes) \<times> disk" where
  "real_read p d = (case dk_file d p of None \<Rightarrow> Inl NotFound | Some bs \<Rightarrow> Inr bs, d)"

definition real_mmap :: "name \<Rightarrow> disk \<Rightarrow> (io_error + bytes) \<times> disk" where
  "real_mmap p d = (case dk_file d p of None \<Rightarrow> Inl NotFound
     | Some bs \<Rightarrow> if bs = [] then Inl (InvalidData ''cannot map an empty file'') else Inr bs, d)"

definition real_file_len :: "name \<Rightarrow> disk \<Rightarrow> (io_error + u64) \<times> disk" where
  "real_file_len p d = (case dk_file d p of None \<Rightarrow> Inl NotFound | Some bs \<Rightarrow> Inr (of_nat (length bs)), d)"

definition real_rename :: "name \<Rightarrow> name \<Rightarrow> disk \<Rightarrow> (io_error + unit) \<times> disk" where
  "real_rename p q d =
     (case dk_dir d p of
        None \<Rightarrow> (Inl NotFound, d)
      | Some i \<Rightarrow> (Inr (), if p = q then d else push_update [(p, None), (q, Some i)] d))"

definition real_remove_file :: "name \<Rightarrow> disk \<Rightarrow> (io_error + unit) \<times> disk" where
  "real_remove_file p d = (case dk_dir d p of None \<Rightarrow> (Inl NotFound, d) | Some i \<Rightarrow> (Inr (), push_update [(p, None)] d))"

definition real_sync_dir :: "disk \<Rightarrow> (io_error + unit) \<times> disk" where
  "real_sync_dir d = (Inr (), d\<lparr>dk_base := dk_entries d, dk_pending := []\<rparr>)"

text \<open>The lock file exists once it has been locked; its entry is left out of the directory.\<close>

definition real_lock :: "name \<Rightarrow> disk \<Rightarrow> (io_error + unit) \<times> disk" where
  "real_lock p d = (if dk_locked d then (Inl WouldBlock, d) else (Inr (), d\<lparr>dk_locked := True\<rparr>))"

definition real_unlock :: "disk \<Rightarrow> disk" where
  "real_unlock d = d\<lparr>dk_locked := False\<rparr>"

text \<open>The entries of a directory, sorted; a name in a subdirectory has a slash.\<close>

definition entry_of :: "name \<Rightarrow> name \<Rightarrow> bool" where
  "entry_of dir n \<longleftrightarrow> (if dir = '''' then CHR ''/'' \<notin> set n else take (length dir + 1) n = dir @ ''/'' \<and> CHR ''/'' \<notin> set (drop (length dir + 1) n))"

definition real_list_dir :: "name \<Rightarrow> disk \<Rightarrow> (io_error + name list) \<times> disk" where
  "real_list_dir dir d = (Inr (sort (filter (entry_of dir) (map fst (dk_entries d)))), d)"

definition real_fs :: "disk fs" where
  "real_fs = \<lparr>fs_create_dir_all = \<lambda>_ d. (Inr (), d), fs_create = real_create, fs_write = real_write,
     fs_sync_all = real_sync_all, fs_close = \<lambda>_ d. d, fs_read = real_read, fs_mmap = real_mmap, fs_file_len = real_file_len,
     fs_rename = real_rename, fs_remove_file = real_remove_file, fs_list_dir = real_list_dir,
     fs_sync_dir = real_sync_dir, fs_lock = real_lock, fs_unlock = real_unlock\<rparr>"

section \<open>Fault injection\<close>

record fault_plan =
  fail_write :: "u64 option"
  fail_sync :: "u64 option"
  discard_write :: "u64 option"
  crash_at_op :: "u64 option"

datatype op =
    OCreateDirAll name | OCreate name | OWrite name | OSync name | OClose name | ORead name | OMmap name
  | OStat name | ORename name name | ORemove name | OListDir name | OSyncDir | OLock name | OUnlock
  | OCrash op                          \<comment> \<open>\<open>CRASH before: \<dots>\<close>\<close>

record fault_fs =
  ff_disk :: disk
  ff_plan :: fault_plan
  ff_ops :: u64
  ff_writes :: u64
  ff_syncs :: u64
  ff_crashed :: bool
  ff_poisoned :: "name set"
  ff_log :: "op list"

definition fault_new :: "disk \<Rightarrow> fault_fs" where
  "fault_new d = \<lparr>ff_disk = d, ff_plan = \<lparr>fail_write = None, fail_sync = None, discard_write = None, crash_at_op = None\<rparr>,
     ff_ops = 0, ff_writes = 0, ff_syncs = 0, ff_crashed = False, ff_poisoned = {}, ff_log = []\<rparr>"

definition set_plan :: "fault_plan \<Rightarrow> fault_fs \<Rightarrow> fault_fs" where
  "set_plan p w = w\<lparr>ff_plan := p\<rparr>"

definition fault_reset :: "fault_fs \<Rightarrow> fault_fs" where
  "fault_reset w = set_plan (ff_plan w) (fault_new (ff_disk w))"

definition injected :: "string \<Rightarrow> io_error" where
  "injected what = OtherIo (''injected fault: '' @ what)"

definition fault_op :: "op \<Rightarrow> fault_fs \<Rightarrow> (io_error + unit) \<times> fault_fs" where
  "fault_op desc w =
     (if ff_crashed w then (Inl (injected ''process is dead''), w)
      else let w = w\<lparr>ff_ops := ff_ops w + 1\<rparr> in
        if crash_at_op (ff_plan w) = Some (ff_ops w)
        then (Inl (injected ''crash''), w\<lparr>ff_crashed := True, ff_log := ff_log w @ [OCrash desc]\<rparr>)
        else (Inr (), w\<lparr>ff_log := ff_log w @ [desc]\<rparr>))"

text \<open>\<open>self.op(desc)?; self.inner.f(\<dots>)\<close>.\<close>

definition on_disk :: "op \<Rightarrow> (disk \<Rightarrow> (io_error + 'a) \<times> disk) \<Rightarrow> fault_fs \<Rightarrow> (io_error + 'a) \<times> fault_fs" where
  "on_disk desc f w =
     (case fault_op desc w of
        (Inl e, w) \<Rightarrow> (Inl e, w)
      | (Inr _, w) \<Rightarrow> (case f (ff_disk w) of (r, d) \<Rightarrow> (r, w\<lparr>ff_disk := d\<rparr>)))"

definition fault_write :: "handle \<Rightarrow> bytes \<Rightarrow> fault_fs \<Rightarrow> (io_error + unit) \<times> fault_fs" where
  "fault_write h bs w =
     (case fault_op (OWrite (h_path h)) w of
        (Inl e, w) \<Rightarrow> (Inl e, w)
      | (Inr _, w) \<Rightarrow>
          let w = w\<lparr>ff_writes := ff_writes w + 1\<rparr> in
          if fail_write (ff_plan w) = Some (ff_writes w) then (Inl (injected ''write failed''), w)
          else if discard_write (ff_plan w) = Some (ff_writes w) then (Inr (), w\<lparr>ff_poisoned := insert (h_path h) (ff_poisoned w)\<rparr>)
          else (case real_write h bs (ff_disk w) of (r, d) \<Rightarrow> (r, w\<lparr>ff_disk := d\<rparr>)))"

definition fault_sync_all :: "handle \<Rightarrow> fault_fs \<Rightarrow> (io_error + unit) \<times> fault_fs" where
  "fault_sync_all h w =
     (case fault_op (OSync (h_path h)) w of
        (Inl e, w) \<Rightarrow> (Inl e, w)
      | (Inr _, w) \<Rightarrow>
          let w = w\<lparr>ff_syncs := ff_syncs w + 1\<rparr> in
          if fail_sync (ff_plan w) = Some (ff_syncs w) then (Inl (injected ''sync failed''), w)
          else if h_path h \<in> ff_poisoned w then (Inl (injected ''writeback failed (EIO)''), w)
          else (case real_sync_all h (ff_disk w) of (r, d) \<Rightarrow> (r, w\<lparr>ff_disk := d\<rparr>)))"

definition fault_sync_dir :: "fault_fs \<Rightarrow> (io_error + unit) \<times> fault_fs" where
  "fault_sync_dir w =
     (case fault_op OSyncDir w of
        (Inl e, w) \<Rightarrow> (Inl e, w)
      | (Inr _, w) \<Rightarrow>
          let w = w\<lparr>ff_syncs := ff_syncs w + 1\<rparr> in
          if fail_sync (ff_plan w) = Some (ff_syncs w) then (Inl (injected ''dir sync failed''), w)
          else (case real_sync_dir (ff_disk w) of (r, d) \<Rightarrow> (r, w\<lparr>ff_disk := d\<rparr>)))"

definition fault_close :: "handle \<Rightarrow> fault_fs \<Rightarrow> fault_fs" where
  "fault_close h w = snd (fault_op (OClose (h_path h)) w)"

text \<open>Dropping the lock releases it, also after a crash (the process is gone).\<close>

definition fault_unlock :: "fault_fs \<Rightarrow> fault_fs" where
  "fault_unlock w = (let w = snd (fault_op OUnlock w) in w\<lparr>ff_disk := real_unlock (ff_disk w)\<rparr>)"

definition faulty_fs :: "fault_fs fs" where
  "faulty_fs = \<lparr>fs_create_dir_all = \<lambda>p. on_disk (OCreateDirAll p) (\<lambda>d. (Inr (), d)),
     fs_create = \<lambda>p. on_disk (OCreate p) (real_create p), fs_write = fault_write, fs_sync_all = fault_sync_all,
     fs_close = fault_close, fs_read = \<lambda>p. on_disk (ORead p) (real_read p), fs_mmap = \<lambda>p. on_disk (OMmap p) (real_mmap p),
     fs_file_len = \<lambda>p. on_disk (OStat p) (real_file_len p), fs_rename = \<lambda>p q. on_disk (ORename p q) (real_rename p q),
     fs_remove_file = \<lambda>p. on_disk (ORemove p) (real_remove_file p), fs_list_dir = \<lambda>p. on_disk (OListDir p) (real_list_dir p),
     fs_sync_dir = fault_sync_dir, fs_lock = \<lambda>p. on_disk (OLock p) (real_lock p), fs_unlock = fault_unlock\<rparr>"

section \<open>What the commit protocol relies on\<close>

text \<open>
  Every operation either fails and leaves the disk alone, or has the effect of the real one. A write may be lost
  without an error; then the path is poisoned, and a later sync of it does not succeed.
\<close>

definition acts :: "('w \<Rightarrow> disk) \<Rightarrow> ('w \<Rightarrow> name set) \<Rightarrow> ('w \<Rightarrow> (io_error + 'a) \<times> 'w) \<Rightarrow> (disk \<Rightarrow> (io_error + 'a) \<times> disk) \<Rightarrow> bool" where
  "acts disk poisoned f g \<longleftrightarrow> (\<forall>w r w'. f w = (r, w') \<longrightarrow> poisoned w' = poisoned w \<and>
     ((\<exists>e. r = Inl e) \<and> disk w' = disk w \<or> g (disk w) = (r, disk w')))"

locale fs_contract =
  fixes F :: "'w fs" and disk :: "'w \<Rightarrow> disk" and poisoned :: "'w \<Rightarrow> name set"
  assumes create_dir_all: "acts disk poisoned (fs_create_dir_all F p) (\<lambda>d. (Inr (), d))"
    and create: "acts disk poisoned (fs_create F p) (real_create p)"
    and read: "acts disk poisoned (fs_read F p) (real_read p)"
    and read_missing: "fs_read F p w = (Inl NotFound, w') \<Longrightarrow> dk_file (disk w) p = None"
    and mmap: "acts disk poisoned (fs_mmap F p) (real_mmap p)"
    and rename: "acts disk poisoned (fs_rename F p q) (real_rename p q)"
    and remove_file: "acts disk poisoned (fs_remove_file F p) (real_remove_file p)"
    and list_dir: "acts disk poisoned (fs_list_dir F p) (real_list_dir p)"
    and sync_dir: "acts disk poisoned (fs_sync_dir F) real_sync_dir"
    and lock: "acts disk poisoned (fs_lock F p) (real_lock p)"
    and sync_all: "acts disk poisoned (fs_sync_all F h) (real_sync_all h)"
    and sync_clean: "fs_sync_all F h w = (Inr (), w') \<Longrightarrow> h_path h \<notin> poisoned w"
    and close: "disk (fs_close F h w) = disk w" "poisoned (fs_close F h w) = poisoned w"
    and unlock: "disk (fs_unlock F w) = real_unlock (disk w)" "poisoned (fs_unlock F w) = poisoned w"
    and writes: "fs_write F h bs w = (r, w') \<Longrightarrow>
      poisoned w' = poisoned w \<and> disk w' = disk w \<and> (\<exists>e. r = Inl e) \<or>
      poisoned w' = poisoned w \<and> real_write h bs (disk w) = (r, disk w') \<or>
      poisoned w' = insert (h_path h) (poisoned w) \<and> disk w' = disk w \<and> r = Inr ()"

lemma acts_same: "acts (\<lambda>d. d) (\<lambda>_. {}) f f"
  by (simp add: acts_def)

lemma real_contract: "fs_contract real_fs (\<lambda>d. d) (\<lambda>_. {})"
proof unfold_locales
  show "h_path h \<notin> {}" for h by simp
next
  fix h bs w r w' assume "fs_write real_fs h bs w = (r, w')"
  then show "{} = {} \<and> w' = w \<and> (\<exists>e. r = Inl e) \<or> {} = {} \<and> real_write h bs w = (r, w') \<or> {} = insert (h_path h) {} \<and> w' = w \<and> r = Inr ()"
    by (simp only: real_fs_def fs.simps simp_thms)
next
  fix p w w' assume "fs_read real_fs p w = (Inl NotFound, w')"
  then show "dk_file w p = None" by (auto simp: real_fs_def real_read_def split: option.splits)
qed (simp_all only: acts_same real_fs_def fs.simps)

interpretation real: fs_contract real_fs "\<lambda>d. d" "\<lambda>_. {}"
  by (rule real_contract)

lemma fault_op_cases:
  assumes "fault_op desc w = (r, w')"
  obtains e where "r = Inl e" "ff_disk w' = ff_disk w" "ff_poisoned w' = ff_poisoned w" "ff_crashed w'"
  | "r = Inr ()" "ff_disk w' = ff_disk w" "ff_poisoned w' = ff_poisoned w" "\<not> ff_crashed w"
  using assms by (auto simp: fault_op_def Let_def split: if_splits)

lemma on_disk_acts: "acts ff_disk ff_poisoned (on_disk desc f) f"
  unfolding acts_def
proof (intro allI impI)
  fix w r w' assume a: "on_disk desc f w = (r, w')"
  obtain r1 w1 where o: "fault_op desc w = (r1, w1)" by force
  from o show "ff_poisoned w' = ff_poisoned w \<and> ((\<exists>e. r = Inl e) \<and> ff_disk w' = ff_disk w \<or> f (ff_disk w) = (r, ff_disk w'))"
  proof (cases rule: fault_op_cases)
    case (1 e)
    then have "r = Inl e" "w' = w1" using a o by (simp_all add: on_disk_def)
    then show ?thesis using 1 by simp
  next
    case 2
    obtain r2 d where f: "f (ff_disk w) = (r2, d)" by force
    then have "r = r2" "w' = w1\<lparr>ff_disk := d\<rparr>" using a o 2 by (simp_all add: on_disk_def)
    then show ?thesis using 2 f by simp
  qed
qed

lemma fault_sync_dir_acts: "acts ff_disk ff_poisoned fault_sync_dir real_sync_dir"
  unfolding acts_def
proof (intro allI impI)
  fix w r w' assume a: "fault_sync_dir w = (r, w')"
  obtain r1 w1 where o: "fault_op OSyncDir w = (r1, w1)" by force
  from o show "ff_poisoned w' = ff_poisoned w \<and> ((\<exists>e. r = Inl e) \<and> ff_disk w' = ff_disk w \<or> real_sync_dir (ff_disk w) = (r, ff_disk w'))"
  proof (cases rule: fault_op_cases)
    case (1 e)
    then have "r = Inl e" "w' = w1" using a o by (simp_all add: fault_sync_dir_def)
    then show ?thesis using 1 by simp
  next
    case 2
    let ?w = "w1\<lparr>ff_syncs := ff_syncs w1 + 1\<rparr>"
    have "(r, w') = (if fail_sync (ff_plan w1) = Some (ff_syncs w1 + 1) then (Inl (injected ''dir sync failed''), ?w)
        else (Inr (), ?w\<lparr>ff_disk := snd (real_sync_dir (ff_disk w1))\<rparr>))"
      unfolding a [symmetric] by (simp add: fault_sync_dir_def o 2(1) real_sync_dir_def Let_def)
    then show ?thesis using 2(2,3) by (simp add: real_sync_dir_def split: if_splits)
  qed
qed

lemma fault_sync_all_cases:
  assumes a: "fault_sync_all h w = (r, w')"
  shows "ff_poisoned w' = ff_poisoned w \<and>
    ((\<exists>e. r = Inl e) \<and> ff_disk w' = ff_disk w \<or> h_path h \<notin> ff_poisoned w \<and> real_sync_all h (ff_disk w) = (r, ff_disk w'))"
proof -
  obtain r1 w1 where o: "fault_op (OSync (h_path h)) w = (r1, w1)" by force
  from o show ?thesis
  proof (cases rule: fault_op_cases)
    case (1 e)
    then have "r = Inl e" "w' = w1" using a o by (simp_all add: fault_sync_all_def)
    then show ?thesis using 1 by simp
  next
    case 2
    let ?w = "w1\<lparr>ff_syncs := ff_syncs w1 + 1\<rparr>"
    have "(r, w') = (if fail_sync (ff_plan w1) = Some (ff_syncs w1 + 1) then (Inl (injected ''sync failed''), ?w)
        else if h_path h \<in> ff_poisoned w1 then (Inl (injected ''writeback failed (EIO)''), ?w)
        else (Inr (), ?w\<lparr>ff_disk := snd (real_sync_all h (ff_disk w1))\<rparr>))"
      unfolding a [symmetric] by (simp add: fault_sync_all_def o 2(1) real_sync_all_def Let_def)
    then show ?thesis using 2(2,3) by (simp add: real_sync_all_def split: if_splits)
  qed
qed

lemma fault_sync_all_acts: "acts ff_disk ff_poisoned (fault_sync_all h) (real_sync_all h)"
  using fault_sync_all_cases [of h] by (simp add: acts_def) blast

lemma fault_sync_clean: "fault_sync_all h w = (Inr (), w') \<Longrightarrow> h_path h \<notin> ff_poisoned w"
  using fault_sync_all_cases [of h w "Inr ()" w'] by simp

lemma fault_write_law:
  assumes a: "fault_write h bs w = (r, w')"
  shows "ff_poisoned w' = ff_poisoned w \<and> ff_disk w' = ff_disk w \<and> (\<exists>e. r = Inl e) \<or>
      ff_poisoned w' = ff_poisoned w \<and> real_write h bs (ff_disk w) = (r, ff_disk w') \<or>
      ff_poisoned w' = insert (h_path h) (ff_poisoned w) \<and> ff_disk w' = ff_disk w \<and> r = Inr ()"
proof -
  obtain r1 w1 where o: "fault_op (OWrite (h_path h)) w = (r1, w1)" by force
  from o show ?thesis
  proof (cases rule: fault_op_cases)
    case (1 e)
    then have "r = Inl e" "w' = w1" using a o by (simp_all add: fault_write_def)
    then show ?thesis using 1 by simp
  next
    case 2
    let ?w = "w1\<lparr>ff_writes := ff_writes w1 + 1\<rparr>"
    have "(r, w') = (if fail_write (ff_plan w1) = Some (ff_writes w1 + 1) then (Inl (injected ''write failed''), ?w)
        else if discard_write (ff_plan w1) = Some (ff_writes w1 + 1) then (Inr (), ?w\<lparr>ff_poisoned := insert (h_path h) (ff_poisoned w1)\<rparr>)
        else (Inr (), ?w\<lparr>ff_disk := snd (real_write h bs (ff_disk w1))\<rparr>))"
      unfolding a [symmetric] by (simp add: fault_write_def o 2(1) real_write_def Let_def)
    then show ?thesis using 2(2,3) by (simp add: real_write_def split: if_splits)
  qed
qed

lemma fault_close_unlock:
  "ff_disk (fault_close h w) = ff_disk w" "ff_poisoned (fault_close h w) = ff_poisoned w"
  "ff_disk (fault_unlock w) = real_unlock (ff_disk w)" "ff_poisoned (fault_unlock w) = ff_poisoned w"
  by (simp_all add: fault_close_def fault_unlock_def fault_op_def Let_def)

lemma fault_contract: "fs_contract faulty_fs ff_disk ff_poisoned"
proof unfold_locales
  fix h bs w r w' assume "fs_write faulty_fs h bs w = (r, w')"
  then have "fault_write h bs w = (r, w')" by (simp only: faulty_fs_def fs.simps)
  then show "ff_poisoned w' = ff_poisoned w \<and> ff_disk w' = ff_disk w \<and> (\<exists>e. r = Inl e) \<or>
      ff_poisoned w' = ff_poisoned w \<and> real_write h bs (ff_disk w) = (r, ff_disk w') \<or>
      ff_poisoned w' = insert (h_path h) (ff_poisoned w) \<and> ff_disk w' = ff_disk w \<and> r = Inr ()"
    by (rule fault_write_law)
next
  fix h w w' assume "fs_sync_all faulty_fs h w = (Inr (), w')"
  then have "fault_sync_all h w = (Inr (), w')" by (simp only: faulty_fs_def fs.simps)
  then show "h_path h \<notin> ff_poisoned w" by (rule fault_sync_clean)
next
  fix p w w' assume "fs_read faulty_fs p w = (Inl NotFound, w')"
  then show "dk_file (ff_disk w) p = None"
    by (auto simp: faulty_fs_def on_disk_def fault_op_def injected_def real_read_def Let_def split: if_splits option.splits)
qed (simp_all only: faulty_fs_def fs.simps on_disk_acts fault_sync_dir_acts fault_sync_all_acts fault_close_unlock)

interpretation fault: fs_contract faulty_fs ff_disk ff_poisoned
  by (rule fault_contract)

text \<open>After a crash nothing changes the disk any more, except that the lock is released.\<close>

lemma fault_dead:
  assumes "ff_crashed w"
  shows "on_disk desc f w = (Inl (injected ''process is dead''), w)" "fault_write h bs w = (Inl (injected ''process is dead''), w)"
    "fault_sync_all h w = (Inl (injected ''process is dead''), w)" "fault_sync_dir w = (Inl (injected ''process is dead''), w)"
  using assms by (simp_all add: on_disk_def fault_write_def fault_sync_all_def fault_sync_dir_def fault_op_def)

end
