(* ===== verification/Store_Names.thy ===== *)
theory Store_Names
  imports Manifest Fs
begin

text \<open>
  File names of an index and the files a manifest references (\<open>src/store/mod.rs\<close>). Names are relative to the index
  directory.

  Main facts: the names of different files differ (\<open>name_inject\<close>), no temporary name is the name of a
  committed file, and exactly the index's own kinds of file can be swept (\<open>cleanable_names\<close>).
\<close>

section \<open>Numbers\<close>

abbreviation dec :: "nat \<Rightarrow> string" where "dec \<equiv> show_nat"

text \<open>\<open>{:05}\<close>.\<close>

definition pad5 :: "u32 \<Rightarrow> string" where
  "pad5 w = (let s = dec (unat w) in replicate (5 - length s) (CHR ''0'') @ s)"

definition dec_value :: "string \<Rightarrow> nat" where
  "dec_value s = foldl (\<lambda>v c. 10 * v + (of_char c - 48)) 0 s"

definition digits :: "string \<Rightarrow> bool" where
  "digits s \<longleftrightarrow> (\<forall>c \<in> set s. 48 \<le> (of_char c :: nat) \<and> (of_char c :: nat) \<le> 57)"

lemma dec_value_dec: "dec_value (dec n) = n \<and> digits (dec n)"
proof (induction n rule: show_nat.induct)
  case (1 n)
  show ?case
  proof (cases "n < 10")
    case True
    then show ?thesis by (subst (1 2) show_nat.simps) (simp add: dec_value_def digits_def)
  next
    case False
    then show ?thesis using 1 by (subst (1 2) show_nat.simps) (simp add: dec_value_def digits_def)
  qed
qed

lemma pad5_value: "dec_value (pad5 w) = unat w" "digits (pad5 w)"
proof -
  have "foldl (\<lambda>v c. 10 * v + (of_char c - 48)) 0 (replicate k (CHR ''0'')) = (0 :: nat)" for k
    by (induction k) simp_all
  then show "dec_value (pad5 w) = unat w" using dec_value_dec [of "unat w"] by (simp add: pad5_def dec_value_def Let_def)
  show "digits (pad5 w)" using dec_value_dec [of "unat w"] by (auto simp: pad5_def digits_def Let_def)
qed

lemma pad5_inject [simp]: "pad5 a = pad5 b \<longleftrightarrow> a = b"
  using pad5_value(1) [of a] pad5_value(1) [of b] by (metis word_unat_eq_iff)

lemma pad5_no_dot: "CHR ''.'' \<notin> set (pad5 w)" "CHR ''/'' \<notin> set (pad5 w)"
  using pad5_value(2) [of w] by (auto simp: digits_def)

section \<open>Names\<close>

definition MANIFEST :: name where "MANIFEST = ''MANIFEST''"
definition MANIFEST_TMP :: name where "MANIFEST_TMP = ''MANIFEST.tmp''"
definition LOCK :: name where "LOCK = ''LOCK''"

definition idx_name :: "u32 \<Rightarrow> name" where
  "idx_name i = ''seg-'' @ pad5 i @ ''.idx''"

definition doc_name :: "u32 \<Rightarrow> name" where
  "doc_name i = ''seg-'' @ pad5 i @ ''.doc''"

definition del_name :: "u32 \<Rightarrow> u32 \<Rightarrow> name" where
  "del_name i g = ''seg-'' @ pad5 i @ ''.'' @ pad5 g @ ''.del''"

definition overlay_name :: "u32 \<Rightarrow> name" where
  "overlay_name g = ''state-'' @ pad5 g @ ''.ovl''"

definition STAGING :: name where "STAGING = ''staging''"

definition tmp_name :: "name \<Rightarrow> name" where
  "tmp_name n = n @ ''.tmp''"

definition segment_files :: "segment_entry \<Rightarrow> name list" where
  "segment_files e = [idx_name (segment_id e), doc_name (segment_id e)] @
     (if 0 < del_gen e then [del_name (segment_id e) (del_gen e)] else [])"

definition referenced_files :: "manifest \<Rightarrow> name set" where
  "referenced_files m = \<Union> (set (map (set \<circ> segment_files) (segments m))) \<union>
     (if 0 < state_gen m then {overlay_name (state_gen m)} else {})"

definition starts_with :: "name \<Rightarrow> name \<Rightarrow> bool" where
  "starts_with p n \<longleftrightarrow> take (length p) n = p"

definition ends_with :: "name \<Rightarrow> name \<Rightarrow> bool" where
  "ends_with s n \<longleftrightarrow> length s \<le> length n \<and> drop (length n - length s) n = s"

definition is_cleanable :: "name \<Rightarrow> bool" where
  "is_cleanable n \<longleftrightarrow> starts_with ''seg-'' n \<or> starts_with ''state-'' n \<or> ends_with ''.tmp'' n"

text \<open>\<open>clear_staging\<close>: removals that fail are ignored; a missing directory is fine.\<close>

definition clear_staging :: "'w fs \<Rightarrow> 'w \<Rightarrow> (io_error + unit) \<times> 'w" where
  "clear_staging F w =
     (case fs_list_dir F STAGING w of
        (Inr entries, w) \<Rightarrow> (Inr (), fold (\<lambda>p w. snd (fs_remove_file F p w)) entries w)
      | (Inl NotFound, w) \<Rightarrow> (Inr (), w)
      | (Inl e, w) \<Rightarrow> (Inl e, w))"

lemma tail_eq: "length s = length t \<Longrightarrow> a @ s = b @ t \<longleftrightarrow> a = b \<and> s = t"
  by (rule append_eq_append_conv) simp

lemma dot_split: "CHR ''.'' \<notin> set a \<Longrightarrow> CHR ''.'' \<notin> set b \<Longrightarrow> a @ ''.'' @ s = b @ ''.'' @ t \<longleftrightarrow> a = b \<and> s = t"
proof (induction a arbitrary: b)
  case (Cons c a)
  then show ?case by (cases b) auto
qed (auto simp: Cons_eq_append_conv)

lemma name_inject [simp]:
  "idx_name a = idx_name b \<longleftrightarrow> a = b" "doc_name a = doc_name b \<longleftrightarrow> a = b"
  "del_name a g = del_name b h \<longleftrightarrow> a = b \<and> g = h" "overlay_name g = overlay_name h \<longleftrightarrow> g = h"
  "tmp_name n = tmp_name k \<longleftrightarrow> n = k"
proof -
  have "pad5 a @ ''.'' @ (pad5 g @ ''.del'') = pad5 b @ ''.'' @ (pad5 h @ ''.del'') \<longleftrightarrow> a = b \<and> g = h"
    by (subst dot_split) (simp_all add: pad5_no_dot)
  then show "del_name a g = del_name b h \<longleftrightarrow> a = b \<and> g = h" by (simp add: del_name_def)
qed (simp_all add: idx_name_def doc_name_def overlay_name_def tmp_name_def)

lemma last3:
  "drop (length (a @ s) - length s) (a @ s) = s"
  by simp

definition ext :: "name \<Rightarrow> name" where "ext n = drop (length n - 4) n"

lemma ext_simps [simp]:
  "ext (idx_name i) = ''.idx''" "ext (doc_name i) = ''.doc''" "ext (del_name i g) = ''.del''" "ext (overlay_name g) = ''.ovl''"
  "ext (tmp_name n) = ''.tmp''" "ext MANIFEST = ''FEST''" "ext MANIFEST_TMP = ''.tmp''"
  by (simp_all add: ext_def idx_name_def doc_name_def del_name_def overlay_name_def tmp_name_def MANIFEST_def MANIFEST_TMP_def)

lemma names_differ:
  "ext n \<noteq> ext k \<Longrightarrow> n \<noteq> k"
  by auto

lemma names_distinct [simp]:
  "idx_name a \<noteq> doc_name b" "doc_name b \<noteq> idx_name a" "idx_name a \<noteq> del_name b g" "del_name b g \<noteq> idx_name a"
  "doc_name a \<noteq> del_name b g" "del_name b g \<noteq> doc_name a" "idx_name a \<noteq> overlay_name g" "overlay_name g \<noteq> idx_name a"
  "doc_name a \<noteq> overlay_name g" "overlay_name g \<noteq> doc_name a" "del_name a h \<noteq> overlay_name g" "overlay_name g \<noteq> del_name a h"
  "idx_name a \<noteq> MANIFEST" "doc_name a \<noteq> MANIFEST" "del_name a h \<noteq> MANIFEST" "overlay_name g \<noteq> MANIFEST" "MANIFEST_TMP \<noteq> MANIFEST"
  "tmp_name n \<noteq> MANIFEST"
  by (rule names_differ; simp)+

lemma referenced_ext: "n \<in> referenced_files m \<Longrightarrow> ext n \<in> {''.idx'', ''.doc'', ''.del'', ''.ovl''}"
  by (auto simp: referenced_files_def segment_files_def split: if_splits)

lemma referenced_not_tmp:
  assumes "n \<in> referenced_files m"
  shows "n \<noteq> tmp_name k" "n \<noteq> MANIFEST" "n \<noteq> MANIFEST_TMP"
  using referenced_ext [OF assms] by (auto dest: arg_cong [of _ _ ext])

lemma cleanable_names: "is_cleanable (idx_name i)" "is_cleanable (doc_name i)" "is_cleanable (del_name i g)"
  "is_cleanable (overlay_name g)" "is_cleanable (tmp_name n)" "\<not> is_cleanable MANIFEST" "\<not> is_cleanable LOCK"
  by (simp_all add: is_cleanable_def starts_with_def ends_with_def idx_name_def doc_name_def del_name_def overlay_name_def
      tmp_name_def MANIFEST_def LOCK_def)

end
