(* ===== verification/Commit.thy ===== *)
theory Commit
  imports Store_Names
begin

text \<open>
  The commit protocol (\<open>write_whole\<close>, \<open>commit\<close> and \<open>take_lock\<close> of \<open>src/store/writer.rs\<close>, the errors of
  \<open>src/error.rs\<close>), and what it leaves on the disk under any faults the file system may produce.

  A view gives for some names the required content, or requires a name to be absent. \<open>solid\<close> means that no loss of
  power can take a view away, \<open>visible\<close> that a process sees it and its contents are durable.

  Main facts: publishing a file keeps every solid view and makes the file visible (\<open>publish_keeps\<close>); a commit that
  fails leaves the old view solid, and after one that reports success, or that a crash cut short, the disk
  holds the old view or the new one, also after a loss of power (\<open>commit_safe\<close>).
\<close>

section \<open>Errors and sequencing\<close>

datatype store_error =
    NotADirectory
  | SIo io_error
  | SFormat format_error
  | SCorrupt name string
  | Incompatible name u32
  | NoIndex
  | Locked
  | Vanished name

type_synonym ('w, 'a) act = "'w \<Rightarrow> (store_error + 'a) \<times> 'w"

definition ok_with :: "'a \<Rightarrow> ('w, 'a) act" where "ok_with x w = (Inr x, w)"

definition and_do :: "('w, 'a) act \<Rightarrow> ('a \<Rightarrow> ('w, 'b) act) \<Rightarrow> ('w, 'b) act" where
  "and_do m f w = (case m w of (Inl e, w) \<Rightarrow> (Inl e, w) | (Inr x, w) \<Rightarrow> f x w)"

text \<open>\<open>?\<close> on an I/O result.\<close>

definition io :: "('w \<Rightarrow> (io_error + 'a) \<times> 'w) \<Rightarrow> ('w, 'a) act" where
  "io m w = (case m w of (Inl e, w) \<Rightarrow> (Inl (SIo e), w) | (Inr x, w) \<Rightarrow> (Inr x, w))"

lemma and_do_cases:
  assumes "and_do m f w = (r, w')"
  obtains e where "m w = (Inl e, w')" "r = Inl e" | x w1 where "m w = (Inr x, w1)" "f x w1 = (r, w')"
  using assms by (auto simp: and_do_def split: prod.splits sum.splits)

lemma io_cases:
  assumes "io m w = (r, w')"
  obtains e where "m w = (Inl e, w')" "r = Inl (SIo e)" | x where "m w = (Inr x, w')" "r = Inr x"
  using assms by (auto simp: io_def split: prod.splits sum.splits)

section \<open>The protocol\<close>

text \<open>\<open>write_all\<close>: nothing is written for an empty buffer.\<close>

definition write_all :: "'w fs \<Rightarrow> handle \<Rightarrow> bytes \<Rightarrow> 'w \<Rightarrow> (io_error + unit) \<times> 'w" where
  "write_all F h bs w = (if bs = [] then (Inr (), w) else fs_write F h bs w)"

text \<open>The handle is closed when it goes out of scope, also on an error.\<close>

definition write_whole :: "'w fs \<Rightarrow> name \<Rightarrow> bytes \<Rightarrow> ('w, unit) act" where
  "write_whole F path bs =
     and_do (io (fs_create F path)) (\<lambda>f w.
       case and_do (io (write_all F f bs)) (\<lambda>_. io (fs_sync_all F f)) w of (r, w) \<Rightarrow> (r, fs_close F f w))"

definition remove_quietly :: "'w fs \<Rightarrow> name list \<Rightarrow> 'w \<Rightarrow> 'w" where
  "remove_quietly F ps w = fold (\<lambda>p w. snd (fs_remove_file F p w)) ps w"

definition commit :: "'w fs \<Rightarrow> (bytes \<Rightarrow> u32) \<Rightarrow> manifest \<Rightarrow> name list \<Rightarrow> ('w, unit) act" where
  "commit F crc m retire =
     and_do (io (fs_sync_dir F)) (\<lambda>_.
     and_do (write_whole F MANIFEST_TMP (manifest_encode crc m)) (\<lambda>_.
     and_do (io (fs_rename F MANIFEST_TMP MANIFEST)) (\<lambda>_ w.
       (Inr (), remove_quietly F retire (snd (fs_sync_dir F w))))))"

text \<open>Temp file, sync, close, rename: how every new file of a commit gets its name.\<close>

definition publish :: "'w fs \<Rightarrow> name \<Rightarrow> bytes \<Rightarrow> ('w, unit) act" where
  "publish F n bs = and_do (write_whole F (tmp_name n) bs) (\<lambda>_. io (fs_rename F (tmp_name n) n))"

text \<open>
  The lock, tried until the deadline: at most \<open>n + 1\<close> times. \<open>pause\<close> is what the rest of the system does while
  the thread sleeps.
\<close>

fun take_lock :: "'w fs \<Rightarrow> ('w \<Rightarrow> 'w) \<Rightarrow> nat \<Rightarrow> ('w, unit) act" where
  "take_lock F pause n w =
     (case fs_lock F LOCK w of
        (Inr _, w) \<Rightarrow> (Inr (), w)
      | (Inl WouldBlock, w) \<Rightarrow> (case n of 0 \<Rightarrow> (Inl Locked, w) | Suc k \<Rightarrow> take_lock F pause k (pause w))
      | (Inl e, w) \<Rightarrow> (Inl (SIo e), w))"

declare take_lock.simps [simp del]

text \<open>The lock is reported as held by another exactly if it was held at every attempt.\<close>

lemma all_Suc_split: "(\<forall>k \<le> Suc n. P k) \<longleftrightarrow> P 0 \<and> (\<forall>k \<le> n. P (Suc k))"
  by (metis Suc_le_mono le0 not0_implies_Suc)

lemma take_lock_real:
  "fst (take_lock real_fs pause n d) = (if \<forall>k \<le> n. dk_locked ((pause ^^ k) d) then Inl Locked else Inr ())"
proof (induction n arbitrary: d)
  case 0
  then show ?case by (subst take_lock.simps) (simp add: real_fs_def real_lock_def)
next
  case (Suc n)
  have "(\<forall>k \<le> Suc n. dk_locked ((pause ^^ k) d)) \<longleftrightarrow> dk_locked d \<and> (\<forall>k \<le> n. dk_locked ((pause ^^ k) (pause d)))"
    by (subst all_Suc_split) (simp add: funpow_swap1)
  then show ?case using Suc by (subst take_lock.simps) (simp add: real_fs_def real_lock_def)
qed

section \<open>Views of a disk\<close>

type_synonym view = "name \<rightharpoonup> bytes option"

definition update_names :: "dir_update list \<Rightarrow> name set" where
  "update_names us = \<Union> (set (map (set \<circ> map fst) us))"

text \<open>
  A directory names each file once, and only files there are; a disk is well formed when every directory that a power
  loss may leave (a prefix of the pending updates) is.
\<close>

definition dir_ok :: "nat \<Rightarrow> (name \<rightharpoonup> nat) \<Rightarrow> bool" where
  "dir_ok k D \<longleftrightarrow> (\<forall>n l i. D n = Some i \<longrightarrow> D l = Some i \<longrightarrow> n = l) \<and> (\<forall>n i. D n = Some i \<longrightarrow> i < k)"

definition disk_wf :: "disk \<Rightarrow> bool" where
  "disk_wf d \<longleftrightarrow> (\<forall>us. prefix us (dk_pending d) \<longrightarrow> dir_ok (dk_next d) (map_of (fold apply_update us (dk_base d))))"

text \<open>The directory entry \<open>e\<close> shows what the view asks for, with durable contents.\<close>

definition shows_entry :: "disk \<Rightarrow> nat option \<Rightarrow> bytes option \<Rightarrow> bool" where
  "shows_entry d e b \<longleftrightarrow> (case b of None \<Rightarrow> e = None | Some bs \<Rightarrow> \<exists>i. e = Some i \<and> i \<in> dk_synced d \<and> dk_data d i = bs)"

definition visible :: "disk \<Rightarrow> view \<Rightarrow> bool" where
  "visible d S \<longleftrightarrow> (\<forall>n b. S n = Some b \<longrightarrow> shows_entry d (dk_dir d n) b)"

definition solid :: "disk \<Rightarrow> view \<Rightarrow> bool" where
  "solid d S \<longleftrightarrow> visible d S \<and> dom S \<inter> update_names (dk_pending d) = {}"

text \<open>What a process reads.\<close>

definition holds :: "disk \<Rightarrow> view \<Rightarrow> bool" where
  "holds d S \<longleftrightarrow> (\<forall>n b. S n = Some b \<longrightarrow> dk_file d n = b)"

definition settled :: "view \<Rightarrow> view \<Rightarrow> disk \<Rightarrow> bool" where
  "settled S N d \<longleftrightarrow> disk_wf d \<and> solid d S \<and> visible d N"

lemma map_of_apply_update:
  "n \<notin> fst ` set u \<Longrightarrow> map_of (apply_update u e) n = map_of e n"
  unfolding apply_update_def
  by (induction u arbitrary: e) (auto simp: update_conv' delete_conv' split: option.splits)

lemma map_of_fold_update: "n \<notin> update_names us \<Longrightarrow> map_of (fold apply_update us e) n = map_of e n"
  by (induction us arbitrary: e) (auto simp: update_names_def map_of_apply_update)

lemma update_names_simps [simp]:
  "update_names [] = {}" "update_names (us @ vs) = update_names us \<union> update_names vs"
  "update_names [u] = fst ` set u"
  by (auto simp: update_names_def)

lemma dk_dir_push: "dk_dir (push_update u d) = map_of (apply_update u (dk_entries d))"
  by (simp add: dk_dir_def dk_entries_def push_update_def)

lemma dk_dir_set: "dk_dir (push_update [(p, Some i)] d) = (dk_dir d)(p \<mapsto> i)"
  unfolding dk_dir_push by (simp add: apply_update_def update_conv' dk_dir_def)

lemma dk_dir_clear: "dk_dir (push_update [(p, None)] d) = (dk_dir d)(p := None)"
  unfolding dk_dir_push by (simp add: apply_update_def delete_conv' dk_dir_def)

lemma dk_dir_move: "dk_dir (push_update [(p, None), (q, Some i)] d) = (dk_dir d)(p := None, q \<mapsto> i)"
  unfolding dk_dir_push by (simp add: apply_update_def delete_conv' update_conv' dk_dir_def)

lemma dk_dir_data [simp]: "dk_dir (d\<lparr>dk_data := x, dk_synced := y\<rparr>) = dk_dir d" "dk_dir (d\<lparr>dk_synced := y\<rparr>) = dk_dir d" "dk_dir (d\<lparr>dk_data := x\<rparr>) = dk_dir d"
  "dk_dir (d\<lparr>dk_data := x, dk_synced := y, dk_next := k\<rparr>) = dk_dir d" "dk_dir (d\<lparr>dk_locked := b\<rparr>) = dk_dir d"
  by (simp_all add: dk_dir_def dk_entries_def)

lemma push_simps [simp]: "dk_data (push_update u d) = dk_data d" "dk_synced (push_update u d) = dk_synced d"
  "dk_next (push_update u d) = dk_next d" "dk_pending (push_update u d) = dk_pending d @ [u]" "dk_base (push_update u d) = dk_base d"
  by (simp_all add: push_update_def)

text \<open>A view that is solid survives a loss of power; one that is visible is what a process reads.\<close>

lemma visible_holds: "visible d S \<Longrightarrow> holds d S"
  by (force simp: visible_def holds_def shows_entry_def dk_file_def split: option.splits)

lemma subseq_set: "subseq us xs \<Longrightarrow> set us \<subseteq> set xs"
  by (induction rule: list_emb.induct) auto

lemma dk_dir_after_loss:
  assumes "dk_base d' = fold apply_update us (dk_base d)" "dk_pending d' = []"
  shows "dk_dir d' = map_of (fold apply_update us (dk_base d))"
  using assms by (simp add: dk_dir_def dk_entries_def)

lemma shown_file:
  assumes "shows_entry d e b" and "dk_dir d' n = e" and "\<forall>i \<in> dk_synced d. dk_data d' i = dk_data d i"
  shows "dk_file d' n = b"
  using assms by (auto simp: shows_entry_def dk_file_def split: option.splits)

lemma solid_survives:
  assumes "solid d S" and "power_loss j d d'"
  shows "holds d' S"
  unfolding holds_def
proof (intro allI impI)
  fix n b assume s: "S n = Some b"
  obtain us where us: "if j then prefix us (dk_pending d) else subseq us (dk_pending d)"
    "dk_base d' = fold apply_update us (dk_base d)" "dk_pending d' = []" using assms(2) by (auto simp: power_loss_def)
  have "set us \<subseteq> set (dk_pending d)" using us(1) by (auto split: if_splits dest: set_mono_prefix subseq_set)
  then have "n \<notin> update_names us" "n \<notin> update_names (dk_pending d)" using assms(1) s by (auto simp: solid_def update_names_def)
  then have "dk_dir d' n = dk_dir d n"
    unfolding dk_dir_after_loss [OF us(2,3)] by (simp add: dk_dir_def dk_entries_def map_of_fold_update)
  moreover have "shows_entry d (dk_dir d n) b" using assms(1) s by (simp add: solid_def visible_def)
  ultimately show "dk_file d' n = b" using assms(2) by (intro shown_file [of d "dk_dir d n"]) (simp_all add: power_loss_def)
qed

section \<open>Frames\<close>

text \<open>\<open>touches P d d'\<close>: going from \<open>d\<close> to \<open>d'\<close>, nothing changes that a name outside \<open>P\<close> can see.\<close>

definition same_at :: "disk \<Rightarrow> disk \<Rightarrow> name \<Rightarrow> bool" where
  "same_at d d' n \<longleftrightarrow> dk_dir d' n = dk_dir d n \<and>
     (\<forall>i. dk_dir d n = Some i \<longrightarrow> dk_data d' i = dk_data d i \<and> (i \<in> dk_synced d \<longrightarrow> i \<in> dk_synced d'))"

definition touches :: "name set \<Rightarrow> disk \<Rightarrow> disk \<Rightarrow> bool" where
  "touches P d d' \<longleftrightarrow> disk_wf d' \<and> (\<forall>n. n \<notin> P \<longrightarrow> same_at d d' n) \<and>
     update_names (dk_pending d') \<subseteq> update_names (dk_pending d) \<union> P"

lemma touches_refl: "disk_wf d \<Longrightarrow> touches P d d"
  by (simp add: touches_def same_at_def)

lemma touches_trans: "touches P d d1 \<Longrightarrow> touches P d1 d2 \<Longrightarrow> touches P d d2"
  by (simp add: touches_def same_at_def) blast

lemma touches_mono: "touches P d d' \<Longrightarrow> P \<subseteq> Q \<Longrightarrow> touches Q d d'"
  by (auto simp: touches_def)

lemma touches_wf: "touches P d d' \<Longrightarrow> disk_wf d'"
  by (simp add: touches_def)

lemma shows_same_at: "shows_entry d (dk_dir d n) b \<Longrightarrow> same_at d d' n \<Longrightarrow> shows_entry d' (dk_dir d' n) b"
  by (auto simp: shows_entry_def same_at_def split: option.splits)

lemma touches_visible: "touches P d d' \<Longrightarrow> dom S \<inter> P = {} \<Longrightarrow> visible d S \<Longrightarrow> visible d' S"
  unfolding visible_def touches_def by (blast intro: shows_same_at)

lemma touches_solid: "touches P d d' \<Longrightarrow> dom S \<inter> P = {} \<Longrightarrow> solid d S \<Longrightarrow> solid d' S"
  unfolding solid_def by (auto simp: touches_visible touches_def)

lemma touches_settled:
  assumes "touches P d d'" "settled S N d" "(dom S \<union> dom N) \<inter> P = {}"
  shows "settled S N d'"
  using assms touches_visible [OF assms(1), of N] touches_solid [OF assms(1), of S]
  by (auto simp: settled_def touches_wf Int_Un_distrib2)

section \<open>Frames of the operations\<close>

text \<open>The file behind a handle is the one its path names.\<close>

definition opened :: "handle \<Rightarrow> disk \<Rightarrow> bool" where
  "opened h d \<longleftrightarrow> dk_dir d (h_path h) = Some (h_file h)"

lemma disk_wf_now: "disk_wf d \<Longrightarrow> dir_ok (dk_next d) (dk_dir d)"
  by (simp add: disk_wf_def dk_dir_def dk_entries_def)

lemma disk_wf_inj: "disk_wf d \<Longrightarrow> dk_dir d n = Some i \<Longrightarrow> dk_dir d k = Some i \<Longrightarrow> n = k"
  using disk_wf_now by (fastforce simp: dir_ok_def)

lemma disk_wf_cong: "dk_base d' = dk_base d \<Longrightarrow> dk_pending d' = dk_pending d \<Longrightarrow> dk_next d' = dk_next d \<Longrightarrow> disk_wf d' = disk_wf d"
  by (simp add: disk_wf_def)

lemma disk_wf_push:
  assumes "disk_wf d" and "dk_base d' = dk_base d" "dk_pending d' = dk_pending d @ [u]" "dk_next d \<le> dk_next d'"
    and "dir_ok (dk_next d') (dk_dir d')"
  shows "disk_wf d'"
  unfolding disk_wf_def
proof (intro allI impI)
  fix us assume "prefix us (dk_pending d')"
  then consider "prefix us (dk_pending d)" | "us = dk_pending d'" unfolding assms(3) by auto
  then show "dir_ok (dk_next d') (map_of (fold apply_update us (dk_base d')))"
  proof cases
    case 1
    then have "dir_ok (dk_next d) (map_of (fold apply_update us (dk_base d)))" using assms(1) by (simp add: disk_wf_def)
    then show ?thesis using assms(4) unfolding assms(2) dir_ok_def by (meson less_le_trans)
  next
    case 2
    then show ?thesis using assms(5) by (simp add: dk_dir_def dk_entries_def)
  qed
qed

lemma disk_wf_sync: "disk_wf d \<Longrightarrow> disk_wf (d\<lparr>dk_base := dk_entries d, dk_pending := []\<rparr>)"
  by (simp add: disk_wf_def dk_entries_def)

lemma disk_wf_loss:
  assumes "disk_wf d" and "power_loss True d d'"
  shows "disk_wf d'"
proof -
  obtain us where "prefix us (dk_pending d)" "dk_base d' = fold apply_update us (dk_base d)" "dk_pending d' = []" "dk_next d' = dk_next d"
    using assms(2) by (auto simp: power_loss_def)
  then show ?thesis using assms(1) by (simp add: disk_wf_def)
qed

lemma real_create_frame:
  assumes c: "real_create p d = (Inr h, d')" and d: "disk_wf d"
  shows "touches {p} d d' \<and> opened h d' \<and> h_path h = p \<and> dk_data d' (h_file h) = []"
proof (cases "dk_dir d p")
  case None
  let ?i = "dk_next d"
  let ?d = "d\<lparr>dk_data := (dk_data d)(?i := []), dk_synced := dk_synced d - {?i}, dk_next := ?i + 1\<rparr>"
  have h: "h = \<lparr>h_path = p, h_file = ?i\<rparr>" "d' = push_update [(p, Some ?i)] ?d"
    using c None by (auto simp: real_create_def Let_def)
  have dir: "dk_dir d' = (dk_dir d)(p \<mapsto> ?i)" unfolding h dk_dir_set by simp
  note now = disk_wf_now [OF d, unfolded dir_ok_def]
  have old: "dk_dir d n = Some i \<Longrightarrow> i < ?i" for n i using now by blast
  have next': "dk_next d' = Suc ?i" by (simp add: h(2))
  have "disk_wf d'"
  proof (rule disk_wf_push [OF d])
    show "dir_ok (dk_next d') (dk_dir d')"
      using now old unfolding dir_ok_def dir next' by (auto simp: less_Suc_eq split: if_splits dest: old)
  qed (simp_all add: h(2))
  moreover have "n \<noteq> p \<Longrightarrow> same_at d d' n" for n using old [of n] by (simp add: same_at_def dir) (auto simp: h(2))
  ultimately show ?thesis by (simp add: touches_def opened_def dir) (simp add: h)
next
  case (Some i)
  then have h: "h = \<lparr>h_path = p, h_file = i\<rparr>" "d' = d\<lparr>dk_data := (dk_data d)(i := []), dk_synced := dk_synced d - {i}\<rparr>"
    using c by (auto simp: real_create_def)
  have dir: "dk_dir d' = dk_dir d" by (simp add: h)
  have "disk_wf d'" using d disk_wf_cong [of d' d] by (simp add: h)
  moreover have "n \<noteq> p \<Longrightarrow> same_at d d' n" for n
    using disk_wf_inj [OF d _ Some, of n] unfolding same_at_def dir h by auto
  ultimately show ?thesis using Some by (simp add: touches_def opened_def dir) (auto simp: h)
qed

text \<open>Writing to and syncing an open file.\<close>

lemma file_frame:
  assumes "disk_wf d" "opened h d" and d': "dk_dir d' = dk_dir d" "dk_next d' = dk_next d" "dk_pending d' = dk_pending d" "dk_base d' = dk_base d"
    and keep: "\<And>i. i \<noteq> h_file h \<Longrightarrow> dk_data d' i = dk_data d i \<and> (i \<in> dk_synced d \<longrightarrow> i \<in> dk_synced d')"
  shows "touches {h_path h} d d' \<and> opened h d'"
proof -
  have "n \<noteq> h_path h \<Longrightarrow> same_at d d' n" for n
    using keep disk_wf_inj [OF assms(1), of n "h_file h" "h_path h"] assms(2) unfolding same_at_def opened_def d' by metis
  then show ?thesis using assms(1,2) by (simp add: touches_def opened_def d' disk_wf_cong [OF d'(4,3,2)] subset_insertI)
qed

lemma real_write_frame:
  assumes "real_write h bs d = (r, d')" "disk_wf d" "opened h d"
  shows "touches {h_path h} d d' \<and> opened h d' \<and> dk_data d' (h_file h) = dk_data d (h_file h) @ bs"
proof -
  have d': "d' = d\<lparr>dk_data := (dk_data d)(h_file h := dk_data d (h_file h) @ bs), dk_synced := dk_synced d - {h_file h}\<rparr>"
    using assms(1) by (simp add: real_write_def)
  have "touches {h_path h} d d' \<and> opened h d'" by (rule file_frame [OF assms(2,3)]) (simp_all add: d')
  then show ?thesis by (simp add: d')
qed

lemma real_sync_all_frame:
  assumes "real_sync_all h d = (r, d')" "disk_wf d" "opened h d"
  shows "touches {h_path h} d d' \<and> opened h d' \<and> dk_data d' = dk_data d \<and> h_file h \<in> dk_synced d'"
proof -
  have d': "d' = d\<lparr>dk_synced := insert (h_file h) (dk_synced d)\<rparr>" using assms(1) by (simp add: real_sync_all_def)
  have "touches {h_path h} d d' \<and> opened h d'" by (rule file_frame [OF assms(2,3)]) (simp_all add: d')
  then show ?thesis by (simp add: d')
qed

lemma real_rename_frame:
  assumes "real_rename p q d = (Inr u, d')" "disk_wf d"
  shows "touches {p, q} d d' \<and> (shows_entry d (dk_dir d p) (Some bs) \<longrightarrow> shows_entry d' (dk_dir d' q) (Some bs))"
proof (cases "p = q")
  case True
  then have "d' = d" using assms(1) by (auto simp: real_rename_def split: option.splits)
  then show ?thesis using assms(2) True by (simp add: touches_refl)
next
  case False
  then obtain i where i: "dk_dir d p = Some i" "d' = push_update [(p, None), (q, Some i)] d"
    using assms(1) by (auto simp: real_rename_def split: option.splits)
  have dir: "dk_dir d' = (dk_dir d)(p := None, q \<mapsto> i)" by (simp add: i(2) dk_dir_move)
  have "disk_wf d'"
  proof (rule disk_wf_push [OF assms(2)])
    show "dir_ok (dk_next d') (dk_dir d')"
      using disk_wf_now [OF assms(2)] i(1) disk_wf_inj [OF assms(2) _ i(1)] unfolding dir_ok_def dir by (auto simp: i(2) split: if_splits)
  qed (simp_all add: i(2))
  moreover have "n \<noteq> p \<Longrightarrow> n \<noteq> q \<Longrightarrow> same_at d d' n" for n by (simp add: same_at_def dir) (simp add: i(2))
  ultimately have "touches {p, q} d d'" by (simp add: touches_def) (auto simp: i(2))
  then show ?thesis by (simp add: shows_entry_def dir i(1)) (simp add: i(2))
qed

lemma real_remove_frame:
  assumes "real_remove_file p d = (r, d')" "disk_wf d"
  shows "touches {p} d d'"
proof (cases "dk_dir d p")
  case None
  then show ?thesis using assms by (simp add: real_remove_file_def touches_refl)
next
  case (Some i)
  then have d': "d' = push_update [(p, None)] d" using assms(1) by (simp add: real_remove_file_def)
  have dir: "dk_dir d' = (dk_dir d)(p := None)" by (simp add: d' dk_dir_clear)
  have "disk_wf d'"
  proof (rule disk_wf_push [OF assms(2)])
    show "dir_ok (dk_next d') (dk_dir d')"
      using disk_wf_now [OF assms(2)] unfolding dir_ok_def dir by (auto simp: d' split: if_splits)
  qed (simp_all add: d')
  then show ?thesis by (simp add: touches_def same_at_def dir) (simp add: d')
qed

lemma real_sync_dir_frame:
  assumes "real_sync_dir d = (r, d')" "disk_wf d"
  shows "touches P d d' \<and> dk_pending d' = []"
proof -
  have d': "d' = d\<lparr>dk_base := dk_entries d, dk_pending := []\<rparr>" using assms(1) by (simp add: real_sync_dir_def)
  have dir: "dk_dir d' = dk_dir d" by (simp add: d' dk_dir_def dk_entries_def)
  show ?thesis using disk_wf_sync [OF assms(2)] by (simp add: touches_def same_at_def dir) (simp add: d')
qed

lemma lock_frame: "disk_wf d \<Longrightarrow> touches P d (real_unlock d)" "disk_wf d \<Longrightarrow> real_lock p d = (r, d') \<Longrightarrow> touches P d d'"
proof -
  have "disk_wf d \<Longrightarrow> touches P d (d\<lparr>dk_locked := b\<rparr>)" for b
    by (simp add: touches_def same_at_def disk_wf_def)
  then show "disk_wf d \<Longrightarrow> touches P d (real_unlock d)" "disk_wf d \<Longrightarrow> real_lock p d = (r, d') \<Longrightarrow> touches P d d'"
    by (auto simp: real_unlock_def real_lock_def touches_refl split: if_splits)
qed

text \<open>
  A loss of power while the rename of the manifest is pending: the updates before it do not concern the old view
  nor the new one, those after it not the new one.
\<close>

definition shows_base :: "disk \<Rightarrow> view \<Rightarrow> dir_update list \<Rightarrow> bool" where
  "shows_base d S us \<longleftrightarrow> (\<forall>n b. S n = Some b \<longrightarrow> n \<notin> update_names us \<and> shows_entry d (map_of (dk_base d) n) b)"

lemma solid_base: "solid d S \<Longrightarrow> shows_base d S (dk_pending d)"
  unfolding shows_base_def
proof (intro allI impI conjI)
  fix n b assume s: "solid d S" "S n = Some b"
  then show n: "n \<notin> update_names (dk_pending d)" by (auto simp: solid_def)
  then have "dk_dir d n = map_of (dk_base d) n" by (simp add: dk_dir_def dk_entries_def map_of_fold_update)
  moreover have "shows_entry d (dk_dir d n) b" using s by (simp add: solid_def visible_def)
  ultimately show "shows_entry d (map_of (dk_base d) n) b" by simp
qed

lemma subseq_names: "subseq us xs \<Longrightarrow> update_names us \<subseteq> update_names xs"
  unfolding update_names_def by (auto dest: subseq_set)

lemma shows_base_holds:
  assumes "shows_base d S us" "subseq vs us" "dk_base d' = fold apply_update vs (dk_base d)" "dk_pending d' = []"
    "\<forall>i \<in> dk_synced d. dk_data d' i = dk_data d i"
  shows "holds d' S"
  unfolding holds_def
proof (intro allI impI)
  fix n b assume "S n = Some b"
  then have "n \<notin> update_names vs" "shows_entry d (map_of (dk_base d) n) b"
    using assms(1) subseq_names [OF assms(2)] by (auto simp: shows_base_def)
  then show "dk_file d' n = b"
    by (intro shown_file [OF _ _ assms(5)]) (simp_all add: dk_dir_after_loss [OF assms(3,4)] map_of_fold_update)
qed

lemma cut_updates:
  assumes "if j then prefix us (A @ [mv] @ R) else subseq us (A @ [mv] @ R)" and "j \<or> R = []"
  shows "subseq us A \<or> (\<exists>a b. us = a @ [mv] @ b \<and> subseq a A \<and> subseq b R)"
proof (cases j)
  case True
  then have "prefix us A \<or> (\<exists>b. us = A @ [mv] @ b \<and> prefix b R)" using assms(1) by (auto simp: prefix_append prefix_Cons)
  then show ?thesis by (auto dest: prefix_imp_subseq)
next
  case False
  then have "subseq us (A @ [mv])" using assms by simp
  then obtain a c where "us = a @ c" "subseq a A" "subseq c [mv]" by (rule subseq_appendE)
  then have "c = [] \<or> c = [mv]" by (cases c) (auto split: if_splits)
  then show ?thesis using \<open>us = a @ c\<close> \<open>subseq a A\<close> by auto
qed

lemma map_of_move: "map_of (apply_update [(p, None), (q, Some i)] e) = (map_of e)(p := None, q \<mapsto> i)"
  by (simp add: apply_update_def update_conv' delete_conv')

lemma loss_at_switch:
  assumes pend: "dk_pending d = A @ [[(p, None), (q, Some i)]] @ R" and loss: "power_loss j d d'" "j \<or> R = []"
    and old: "shows_base d Old A" and new: "shows_base d N A" "(dom N \<union> {q}) \<inter> update_names R = {}" "p \<notin> dom N" "q \<notin> dom N"
    and q: "i \<in> dk_synced d" "dk_data d i = bs"
  shows "holds d' Old \<or> holds d' (N(q \<mapsto> Some bs))"
proof -
  let ?mv = "[(p, None), (q, Some i)]"
  obtain us where us: "if j then prefix us (A @ [?mv] @ R) else subseq us (A @ [?mv] @ R)"
    "dk_base d' = fold apply_update us (dk_base d)" "dk_pending d' = []" using loss(1) unfolding power_loss_def pend by blast
  have data: "\<forall>i \<in> dk_synced d. dk_data d' i = dk_data d i" using loss(1) by (simp add: power_loss_def)
  consider "subseq us A" | a b where "us = a @ [?mv] @ b" "subseq a A" "subseq b R" using cut_updates [OF us(1) loss(2)] by blast
  then show ?thesis
  proof cases
    case 1
    then show ?thesis using shows_base_holds [OF old _ us(2,3) data] by blast
  next
    case 2
    have b: "n \<notin> update_names R \<Longrightarrow> n \<notin> update_names b" for n using subseq_names [OF 2(3)] by auto
    have dir: "dk_dir d' = map_of (fold apply_update b (apply_update ?mv (fold apply_update a (dk_base d))))"
      unfolding dk_dir_after_loss [OF us(2,3)] by (simp add: 2(1))
    have "holds d' (N(q \<mapsto> Some bs))" unfolding holds_def
    proof (intro allI impI)
      fix n c assume n: "(N(q \<mapsto> Some bs)) n = Some c"
      show "dk_file d' n = c"
      proof (cases "n = q")
        case True
        then have "dk_dir d' n = Some i" using b [of q] new(2) unfolding dir by (subst map_of_fold_update) (auto simp: map_of_move)
        then show ?thesis using True n q data by (simp add: dk_file_def)
      next
        case False
        then have n': "N n = Some c" "n \<noteq> p" using n new(3) by auto
        then have "n \<notin> update_names A" "shows_entry d (map_of (dk_base d) n) c" "n \<notin> update_names R"
          using new(1,2) by (auto simp: shows_base_def)
        moreover from this have ab: "n \<notin> update_names a" "n \<notin> update_names b" using b subseq_names [OF 2(2)] by auto
        then have "dk_dir d' n = map_of (dk_base d) n"
          unfolding dir using False n' by (simp add: map_of_fold_update map_of_move)
        ultimately show ?thesis by (intro shown_file [OF _ _ data]) simp_all
      qed
    qed
    then show ?thesis ..
  qed
qed

section \<open>What the protocol does\<close>

context fs_contract
begin

lemma acts_cases:
  assumes "acts disk poisoned f g" "f w = (r, w')"
  obtains e where "r = Inl e" "disk w' = disk w" | "g (disk w) = (r, disk w')"
  using assms unfolding acts_def by blast

lemma acts_frame:
  assumes "acts disk poisoned f g" "f w = (r, w')" "disk_wf (disk w)" "\<And>r d'. g (disk w) = (r, d') \<Longrightarrow> touches P (disk w) d'"
  shows "touches P (disk w) (disk w')"
  using assms(1,2) by (cases rule: acts_cases) (simp_all add: assms(3,4) touches_refl)

lemma create_cases:
  assumes "fs_create F p w = (r, w')" "disk_wf (disk w)"
  obtains e where "r = Inl e" "disk w' = disk w"
  | h where "r = Inr h" "h_path h = p" "touches {p} (disk w) (disk w')" "opened h (disk w')" "dk_data (disk w') (h_file h) = []"
proof (cases r)
  case (Inl e)
  then show ?thesis using assms create [of p] that(1) by (auto simp: acts_def real_create_def Let_def split: option.splits)
next
  case (Inr h)
  then have "real_create p (disk w) = (Inr h, disk w')" using assms create [of p] by (auto simp: acts_def)
  then show ?thesis using real_create_frame assms(2) Inr that(2) by blast
qed

lemma write_all_frame:
  assumes "write_all F h bs w = (r, w')" "disk_wf (disk w)" "opened h (disk w)"
  shows "touches {h_path h} (disk w) (disk w') \<and> opened h (disk w') \<and>
    (h_path h \<notin> poisoned w' \<longrightarrow> r = Inr () \<longrightarrow> dk_data (disk w') (h_file h) = dk_data (disk w) (h_file h) @ bs)"
proof (cases "bs = []")
  case True
  then show ?thesis using assms by (simp add: write_all_def touches_refl)
next
  case False
  then have "fs_write F h bs w = (r, w')" using assms(1) by (simp add: write_all_def)
  from writes [OF this] show ?thesis
    using assms(2,3) real_write_frame [of h bs "disk w" r "disk w'"] by (auto intro: touches_refl)
qed

lemma sync_frame:
  assumes "fs_sync_all F h w = (r, w')" "disk_wf (disk w)" "opened h (disk w)"
  shows "touches {h_path h} (disk w) (disk w') \<and> opened h (disk w') \<and>
    (r = Inr () \<longrightarrow> h_path h \<notin> poisoned w \<and> dk_data (disk w') = dk_data (disk w) \<and> h_file h \<in> dk_synced (disk w'))"
proof (cases r)
  case (Inl e)
  then have "disk w' = disk w" using assms(1) sync_all [of h] by (auto simp: acts_def real_sync_all_def)
  then show ?thesis using assms Inl by (simp add: touches_refl)
next
  case (Inr u)
  then have "real_sync_all h (disk w) = (r, disk w')" using assms(1) sync_all [of h] by (auto simp: acts_def)
  then show ?thesis using real_sync_all_frame assms sync_clean [of h w w'] Inr by auto
qed

lemma write_whole_frame:
  assumes "write_whole F p bs w = (r, w')" "disk_wf (disk w)"
  shows "touches {p} (disk w) (disk w') \<and> (r = Inr () \<longrightarrow> shows_entry (disk w') (dk_dir (disk w') p) (Some bs))"
  using assms(1) unfolding write_whole_def
proof (cases rule: and_do_cases)
  case (1 e)
  from 1(1) have "disk w' = disk w" by (cases rule: io_cases) (auto elim: create_cases [OF _ assms(2)])
  then show ?thesis using assms(2) 1 by (simp add: touches_refl)
next
  case (2 h w1)
  from 2(1) obtain h0: "fs_create F p w = (Inr h, w1)" by (cases rule: io_cases) auto
  then obtain h1: "h_path h = p" "touches {p} (disk w) (disk w1)" "opened h (disk w1)" "dk_data (disk w1) (h_file h) = []"
    by (rule create_cases [OF _ assms(2)]) auto
  obtain w3 where w3: "and_do (io (write_all F h bs)) (\<lambda>_. io (fs_sync_all F h)) w1 = (r, w3)" "w' = fs_close F h w3"
    using 2(2) by (auto split: prod.splits)
  have d: "disk w' = disk w3" by (simp add: w3(2) close)
  note wf1 = touches_wf [OF h1(2)]
  from w3(1) show ?thesis
  proof (cases rule: and_do_cases)
    case (1 e)
    from 1(1) obtain e1 where "write_all F h bs w1 = (Inl e1, w3)" by (cases rule: io_cases) auto
    from write_all_frame [OF this wf1 h1(3)] show ?thesis using 1 h1(1,2) d by (auto intro: touches_trans)
  next
    case (2 u w2)
    from 2(1) have w: "write_all F h bs w1 = (Inr (), w2)" by (cases rule: io_cases) auto
    note f1 = write_all_frame [OF w wf1 h1(3)]
    from f1 have wf2: "disk_wf (disk w2)" "opened h (disk w2)" by (auto dest: touches_wf)
    from 2(2) obtain r1 where s: "fs_sync_all F h w2 = (r1, w3)" "r = Inr () \<longrightarrow> r1 = Inr ()" by (cases rule: io_cases) auto
    note f2 = sync_frame [OF s(1) wf2]
    have "touches {p} (disk w) (disk w3)" using f1 f2 h1(1,2) by (auto intro: touches_trans)
    moreover have "shows_entry (disk w3) (dk_dir (disk w3) p) (Some bs)" if "r = Inr ()"
      using f1 f2 s(2) that h1(1,4) by (auto simp: shows_entry_def opened_def)
    ultimately show ?thesis by (simp add: d)
  qed
qed

lemma remove_quietly_frame:
  assumes "disk_wf (disk w)"
  shows "touches (set ps) (disk w) (disk (remove_quietly F ps w))"
  using assms
proof (induction ps arbitrary: w)
  case Nil
  then show ?case by (simp add: remove_quietly_def touches_refl)
next
  case (Cons p ps)
  obtain r w1 where w1: "fs_remove_file F p w = (r, w1)" by force
  have t: "touches {p} (disk w) (disk w1)" by (rule acts_frame [OF remove_file w1 Cons.prems]) (rule real_remove_frame, assumption, rule Cons.prems)
  have "touches (set ps) (disk w1) (disk (remove_quietly F ps w1))" by (rule Cons.IH [OF touches_wf [OF t]])
  then have "touches (set (p # ps)) (disk w1) (disk (remove_quietly F ps w1))" by (rule touches_mono) auto
  moreover have "touches (set (p # ps)) (disk w) (disk w1)" by (rule touches_mono [OF t]) simp
  ultimately have "touches (set (p # ps)) (disk w) (disk (remove_quietly F ps w1))" by (rule touches_trans [rotated])
  then show ?case by (simp add: remove_quietly_def w1)
qed

lemma rename_frame:
  assumes "fs_rename F p q w = (r, w')" "disk_wf (disk w)"
  shows "touches {p, q} (disk w) (disk w') \<and> (r = Inr () \<longrightarrow> real_rename p q (disk w) = (Inr (), disk w')) \<and>
    ((\<exists>e. r = Inl e) \<longrightarrow> disk w' = disk w)"
  using rename assms(1)
proof (cases rule: acts_cases)
  case (1 e)
  then show ?thesis using assms by (simp add: touches_refl)
next
  case 2
  then show ?thesis
  proof (cases "dk_dir (disk w) p")
    case None
    then show ?thesis using 2 assms(2) by (auto simp: real_rename_def touches_refl)
  next
    case (Some i)
    then have "r = Inr ()" using 2 by (simp add: real_rename_def)
    then show ?thesis using 2 real_rename_frame assms(2) by auto
  qed
qed

lemma publish_frame:
  assumes "publish F n bs w = (r, w')" "disk_wf (disk w)"
  shows "touches {tmp_name n, n} (disk w) (disk w') \<and> (r = Inr () \<longrightarrow> shows_entry (disk w') (dk_dir (disk w') n) (Some bs))"
  using assms(1) unfolding publish_def
proof (cases rule: and_do_cases)
  case (1 e)
  show ?thesis using write_whole_frame [OF 1(1) assms(2)] 1(2) by (auto intro: touches_mono)
next
  case (2 u w1)
  note f1 = write_whole_frame [OF 2(1) assms(2)]
  then have wf: "disk_wf (disk w1)" by (auto dest: touches_wf)
  from 2(2) obtain r1 where r1: "fs_rename F (tmp_name n) n w1 = (r1, w')" "r = Inr () \<longrightarrow> r1 = Inr ()" by (cases rule: io_cases) auto
  note f2 = rename_frame [OF r1(1) wf]
  have "touches {tmp_name n, n} (disk w) (disk w')" using f1 f2 by (auto intro: touches_trans [OF touches_mono])
  moreover have "shows_entry (disk w') (dk_dir (disk w') n) (Some bs)" if "r = Inr ()"
    using f1 f2 r1(2) that 2(1) real_rename_frame [OF _ wf] by auto
  ultimately show ?thesis by simp
qed

lemma remove_quietly_pending:
  "\<exists>R. disk (remove_quietly F ps w) = (disk w)\<lparr>dk_pending := dk_pending (disk w) @ R\<rparr> \<and> update_names R \<subseteq> set ps \<and> (ps = [] \<longrightarrow> R = [])"
proof (induction ps arbitrary: w)
  case Nil
  then show ?case by (simp add: remove_quietly_def)
next
  case (Cons p ps)
  obtain r w1 where w1: "fs_remove_file F p w = (r, w1)" by force
  obtain R where R: "disk (remove_quietly F ps w1) = (disk w1)\<lparr>dk_pending := dk_pending (disk w1) @ R\<rparr>" "update_names R \<subseteq> set ps"
    using Cons.IH by blast
  obtain Q where Q: "disk w1 = (disk w)\<lparr>dk_pending := dk_pending (disk w) @ Q\<rparr>" "update_names Q \<subseteq> {p}"
    using remove_file w1
  proof (cases rule: acts_cases)
    case (1 e)
    then show ?thesis using that [of "[]"] by simp
  next
    case 2
    then show ?thesis using that [of "[]"] that [of "[[(p, None)]]"]
      by (cases "dk_dir (disk w) p") (simp_all add: real_remove_file_def push_update_def)
  qed
  have "remove_quietly F (p # ps) w = remove_quietly F ps w1" by (simp add: remove_quietly_def w1)
  then have "disk (remove_quietly F (p # ps) w) = (disk w)\<lparr>dk_pending := dk_pending (disk w) @ (Q @ R)\<rparr>" by (simp add: R(1) Q(1))
  moreover have "update_names (Q @ R) \<subseteq> set (p # ps)" using Q(2) R(2) by auto
  ultimately show ?case by blast
qed

lemma after_rename:
  assumes mv: "real_rename MANIFEST_TMP MANIFEST (disk w2) = (Inr (), disk w3)"
    and st: "settled Old N (disk w2)" "solid (disk w2) N"
    and sh: "shows_entry (disk w2) (dk_dir (disk w2) MANIFEST_TMP) (Some bs)"
    and tmp: "MANIFEST_TMP \<notin> dom Old \<union> dom N" and man: "MANIFEST \<notin> dom N" and ret: "set retire \<inter> insert MANIFEST (dom N) = {}"
    and w': "w' = remove_quietly F retire (snd (fs_sync_dir F w3))"
  shows "disk_wf (disk w') \<and> visible (disk w') (N(MANIFEST \<mapsto> Some bs)) \<and>
    (\<forall>j d'. (j \<or> retire = []) \<longrightarrow> power_loss j (disk w') d' \<longrightarrow> holds d' Old \<or> holds d' (N(MANIFEST \<mapsto> Some bs)))"
proof -
  let ?New = "N(MANIFEST \<mapsto> Some bs)"
  have wf2: "disk_wf (disk w2)" using st(1) by (simp add: settled_def)
  obtain i where i: "dk_dir (disk w2) MANIFEST_TMP = Some i" "i \<in> dk_synced (disk w2)" "dk_data (disk w2) i = bs"
    using sh by (auto simp: shows_entry_def)
  have d3: "disk w3 = push_update [(MANIFEST_TMP, None), (MANIFEST, Some i)] (disk w2)" using mv i(1) by (simp add: real_rename_def)
  note f3 = real_rename_frame [OF mv wf2, of bs]
  have "dom N \<inter> {MANIFEST_TMP, MANIFEST} = {}" using tmp man by blast
  then have "visible (disk w3) N" using touches_visible [OF conjunct1 [OF f3]] st(2) by (simp add: solid_def)
  then have v3: "visible (disk w3) ?New" using f3 sh by (auto simp: visible_def)
  have wf3: "disk_wf (disk w3)" using f3 touches_wf by blast
  obtain r4 w4 where w4: "fs_sync_dir F w3 = (r4, w4)" by force
  have t4: "touches {} (disk w3) (disk w4)"
    by (rule acts_frame [OF sync_dir w4 wf3]) (use real_sync_dir_frame wf3 in blast)
  have t5: "touches (set retire) (disk w4) (disk w')" using remove_quietly_frame [OF touches_wf [OF t4], of retire] by (simp add: w' w4)
  have v4: "visible (disk w4) ?New" using touches_visible [OF t4 _ v3] by simp
  have v5: "visible (disk w') ?New" using touches_visible [OF t5 _ v4] ret by auto
  have "holds d' Old \<or> holds d' ?New" if j: "j \<or> retire = []" and loss: "power_loss j (disk w') d'" for j d'
    using sync_dir w4
  proof (cases rule: acts_cases)
    case (1 e)
    obtain R where R: "disk w' = (disk w4)\<lparr>dk_pending := dk_pending (disk w4) @ R\<rparr>" "update_names R \<subseteq> set retire" "retire = [] \<longrightarrow> R = []"
      using remove_quietly_pending [of retire w4] by (auto simp: w' w4)
    have p: "dk_pending (disk w') = dk_pending (disk w2) @ [[(MANIFEST_TMP, None), (MANIFEST, Some i)]] @ R"
      by (simp add: R(1) 1 d3)
    have same: "dk_base (disk w') = dk_base (disk w2)" "dk_data (disk w') = dk_data (disk w2)" "dk_synced (disk w') = dk_synced (disk w2)"
      by (simp_all add: R(1) 1 d3)
    have "shows_base (disk w') S (dk_pending (disk w2))" if "solid (disk w2) S" for S
      using solid_base [OF that] unfolding shows_base_def shows_entry_def same .
    then have b: "shows_base (disk w') Old (dk_pending (disk w2))" "shows_base (disk w') N (dk_pending (disk w2))"
      using st by (auto simp: settled_def)
    show ?thesis
      by (rule loss_at_switch [OF p loss _ b]) (use j R(2,3) ret tmp man i(2,3) in \<open>auto simp: same\<close>)
  next
    case 2
    then have "dk_pending (disk w4) = []" using real_sync_dir_frame wf3 by blast
    then have "solid (disk w4) ?New" using v4 by (simp add: solid_def)
    moreover have "dom ?New \<inter> set retire = {}" using ret by auto
    ultimately have "solid (disk w') ?New" using touches_solid [OF t5] by blast
    then show ?thesis using solid_survives loss by blast
  qed
  then show ?thesis using touches_wf [OF t5] v5 by blast
qed

theorem commit_outcome:
  assumes c: "commit F crc m retire w = (r, w')" and st: "settled Old N (disk w)"
    and tmp: "MANIFEST_TMP \<notin> dom Old \<union> dom N" and man: "MANIFEST \<notin> dom N" and ret: "set retire \<inter> insert MANIFEST (dom N) = {}"
  shows "(\<exists>e. r = Inl e) \<and> settled Old N (disk w') \<or>
    r = Inr () \<and> disk_wf (disk w') \<and> visible (disk w') (N(MANIFEST \<mapsto> Some (manifest_encode crc m))) \<and>
    (\<forall>j d'. (j \<or> retire = []) \<longrightarrow> power_loss j (disk w') d' \<longrightarrow> holds d' Old \<or> holds d' (N(MANIFEST \<mapsto> Some (manifest_encode crc m))))"
    (is "?err \<or> ?done")
  using c unfolding commit_def
proof (cases rule: and_do_cases)
  case (1 e)
  from 1(1) obtain e1 where "fs_sync_dir F w = (Inl e1, w')" by (cases rule: io_cases) auto
  with sync_dir have "disk w' = disk w" by (cases rule: acts_cases) (auto simp: real_sync_dir_def)
  then show ?thesis using st 1 by simp
next
  case (2 u w1)
  let ?bs = "manifest_encode crc m" and ?New = "N(MANIFEST \<mapsto> Some (manifest_encode crc m))"
  have wf: "disk_wf (disk w)" using st by (simp add: settled_def)
  from 2(1) have "fs_sync_dir F w = (Inr (), w1)" by (cases rule: io_cases) auto
  with sync_dir have s1: "real_sync_dir (disk w) = (Inr (), disk w1)" by (cases rule: acts_cases) auto
  have t1: "touches {} (disk w) (disk w1)" "dk_pending (disk w1) = []" using real_sync_dir_frame [OF s1 wf] by auto
  have st1: "settled Old N (disk w1)" using touches_settled [OF t1(1) st] by simp
  then have sol1: "solid (disk w1) N" using t1(2) by (simp add: solid_def settled_def)
  note wf1 = touches_wf [OF t1(1)]
  have tmp': "(dom Old \<union> dom N) \<inter> {MANIFEST_TMP} = {}" using tmp by blast
  from 2(2) show ?thesis
  proof (cases rule: and_do_cases)
    case (1 e)
    have "touches {MANIFEST_TMP} (disk w1) (disk w')" using write_whole_frame [OF 1(1) wf1] by simp
    from touches_settled [OF this st1 tmp'] have "settled Old N (disk w')" .
    then show ?thesis using 1 by simp
  next
    case (2 u w2)
    have t2: "touches {MANIFEST_TMP} (disk w1) (disk w2)" "shows_entry (disk w2) (dk_dir (disk w2) MANIFEST_TMP) (Some ?bs)"
      using write_whole_frame [OF 2(1) wf1] by auto
    have st2: "settled Old N (disk w2)" "solid (disk w2) N"
      using touches_settled [OF t2(1) st1 tmp'] touches_solid [OF t2(1) _ sol1] tmp' by blast+
    note wf2 = touches_wf [OF t2(1)]
    from 2(2) show ?thesis
    proof (cases rule: and_do_cases)
      case (1 e)
      from 1(1) obtain e1 where "fs_rename F MANIFEST_TMP MANIFEST w2 = (Inl e1, w')" by (cases rule: io_cases) auto
      from rename_frame [OF this wf2] have "disk w' = disk w2" by simp
      then show ?thesis using 1 st2(1) by simp
    next
      case (2 u w3)
      from 2(1) have "fs_rename F MANIFEST_TMP MANIFEST w2 = (Inr (), w3)" by (cases rule: io_cases) auto
      note f3 = rename_frame [OF this wf2]
      have r': "r = Inr ()" "w' = remove_quietly F retire (snd (fs_sync_dir F w3))" using 2(2) by auto
      then show ?thesis using after_rename [OF _ st2 t2(2) tmp man ret r'(2)] f3 by simp
    qed
  qed
qed

end

text \<open>On a file system without faults a commit succeeds, and a loss of power afterwards cannot undo it.\<close>

lemma real_publish:
  assumes "disk_wf d"
  shows "\<exists>d'. write_whole real_fs p bs d = (Inr (), d')"
proof -
  obtain h d1 where c: "real_create p d = (Inr h, d1)" by (cases "dk_dir d p") (simp_all add: real_create_def Let_def)
  show ?thesis unfolding write_whole_def and_do_def io_def write_all_def
    by (simp add: real_fs_def c real_write_def real_sync_all_def)
qed

lemma commit_real:
  assumes st: "settled Old N d" and tmp: "MANIFEST_TMP \<notin> dom Old \<union> dom N" and man: "MANIFEST \<notin> dom N"
    and ret: "set retire \<inter> insert MANIFEST (dom N) = {}"
  shows "\<exists>d'. commit real_fs crc m retire d = (Inr (), d') \<and> disk_wf d' \<and> solid d' (N(MANIFEST \<mapsto> Some (manifest_encode crc m)))"
proof -
  let ?New = "N(MANIFEST \<mapsto> Some (manifest_encode crc m))"
  obtain d1 where d1: "fs_sync_dir real_fs d = (Inr (), d1)" by (simp add: real_fs_def real_sync_dir_def)
  then have s1: "real_sync_dir d = (Inr (), d1)" by (simp add: real_fs_def)
  have wf1: "disk_wf d1" using real_sync_dir_frame [OF s1] st touches_wf by (auto simp: settled_def)
  obtain d2 where d2: "write_whole real_fs MANIFEST_TMP (manifest_encode crc m) d1 = (Inr (), d2)" using real_publish [OF wf1] by blast
  obtain i where i: "dk_dir d2 MANIFEST_TMP = Some i" using real.write_whole_frame [OF d2 wf1] by (auto simp: shows_entry_def)
  obtain d3 where d3: "fs_rename real_fs MANIFEST_TMP MANIFEST d2 = (Inr (), d3)" using i by (simp add: real_fs_def real_rename_def)
  let ?d4 = "d3\<lparr>dk_base := dk_entries d3, dk_pending := []\<rparr>"
  have d4: "fs_sync_dir real_fs d3 = (Inr (), ?d4)" by (simp add: real_fs_def real_sync_dir_def)
  let ?d5 = "remove_quietly real_fs retire ?d4"
  have all: "commit real_fs crc m retire d = (Inr (), ?d5)" by (simp add: commit_def and_do_def io_def d1 d2 d3 d4)
  have before: "commit real_fs crc m [] d = (Inr (), ?d4)" by (simp add: commit_def and_do_def io_def d1 d2 d3 d4 remove_quietly_def)
  from real.commit_outcome [OF before st tmp man] have "disk_wf ?d4" "visible ?d4 ?New" by auto
  then have "disk_wf ?d4" "solid ?d4 ?New" by (simp_all add: solid_def)
  moreover from this have "touches (set retire) ?d4 ?d5" by (intro real.remove_quietly_frame)
  moreover have "dom ?New \<inter> set retire = {}" using ret by auto
  ultimately show ?thesis using all touches_solid touches_wf by blast
qed

end
