(* ===== verification/Segment.thy ===== *)
theory Segment
  imports Commit Exec_Correct Utf8 Idx_File Doc_File Deletions Paths
begin

text \<open>
  One on-disk segment (\<open>src/store/segment.rs\<close>): opening and validating its files, the metadata of a document,
  and the interface the query engine reads it through. Errors carry the name of the file and the
  message of the source.

  Main facts: a segment that opens with verification, or whose dictionary verifies, meets the interface of
  the query engine (\<open>interpretation disk_segment\<close>); the unchecked offsets of \<open>doc_len\<close> stay inside the file of an
  opened segment (\<open>seg_doc_len_in_range\<close>); opening depends only on the contents of the segment's files
  (\<open>segment_open_load\<close>).
\<close>

section \<open>Error texts\<close>

definition hex_digit :: "nat \<Rightarrow> char" where
  "hex_digit n = (if n < 10 then char_of (48 + n) else char_of (87 + n))"

text \<open>\<open>{:08x}\<close>.\<close>

definition hex8 :: "u32 \<Rightarrow> string" where
  "hex8 w = map (\<lambda>i. hex_digit (unat (drop_bit (28 - 4 * i) w AND 15))) [0..<8]"

fun format_text :: "format_error \<Rightarrow> string" where
  "format_text (Truncated at' needed) = ''truncated: needed '' @ dec needed @ '' bytes at offset '' @ dec at'"
| "format_text BadMagic = ''bad magic''"
| "format_text (Version v) = ''unsupported format version '' @ dec (unat v)"
| "format_text (Corrupt s) = ''corrupt: '' @ s"
| "format_text (Checksum stored computed) = ''checksum mismatch: stored '' @ hex8 stored @ '', computed '' @ hex8 computed"
| "format_text (Invariant s) = ''encoder invariant violated: '' @ s"

fun io_text :: "io_error \<Rightarrow> string" where
  "io_text NotFound = ''No such file or directory (os error 2)''"
| "io_text WouldBlock = ''index is locked by another writer''"
| "io_text (InvalidData s) = s"
| "io_text (OtherIo s) = s"

definition open_err :: "name \<Rightarrow> io_error \<Rightarrow> store_error" where
  "open_err p e = (if e = NotFound then Vanished p else SCorrupt p (io_text e))"

text \<open>\<open>fs.read(p).map_err(|e| open_err(p, e))?\<close>, \<open>if !b { return Err(corrupt(p, why)) }\<close>, and the same for a failed parse.\<close>

definition open_file :: "name \<Rightarrow> ('w \<Rightarrow> (io_error + bytes) \<times> 'w) \<Rightarrow> ('w, bytes) act" where
  "open_file p m w = (case m w of (Inl e, w) \<Rightarrow> (Inl (open_err p e), w) | (Inr x, w) \<Rightarrow> (Inr x, w))"

definition require :: "bool \<Rightarrow> name \<Rightarrow> string \<Rightarrow> ('w, unit) act" where
  "require b p why w = (if b then Inr () else Inl (SCorrupt p why), w)"

definition parsing :: "name \<Rightarrow> 'a fresult \<Rightarrow> ('w, 'a) act" where
  "parsing p r w = (case r of Inl e \<Rightarrow> Inl (SCorrupt p (format_text e)) | Inr x \<Rightarrow> Inr x, w)"

definition length_text :: "bytes \<Rightarrow> u64 \<Rightarrow> string" where
  "length_text bs n = ''length '' @ dec (length bs) @ '' but manifest says '' @ dec (unat n)"

section \<open>Segments\<close>

record segment =
  seg_entry :: segment_entry
  seg_idx_map :: bytes
  seg_idx_env :: envelope
  seg_toc :: toc
  seg_doc_map :: bytes
  seg_doc_env :: envelope
  seg_num_docs :: u32
  seg_num_indexed :: u32
  seg_total_len :: u64
  seg_paths :: "nat \<times> nat"
  seg_del :: "bitmap option"

definition open_idx :: "(bytes \<Rightarrow> u32) \<Rightarrow> 'w fs \<Rightarrow> segment_entry \<Rightarrow> bool \<Rightarrow> ('w, bytes \<times> envelope \<times> toc) act" where
  "open_idx crc F e verify =
     (let path = idx_name (segment_id e) in
      and_do (open_file path (fs_mmap F path)) (\<lambda>idx_map.
      and_do (require (of_nat (length idx_map) = idx_len e) path (length_text idx_map (idx_len e))) (\<lambda>_.
      and_do (parsing path (idx_parse idx_map)) (\<lambda>view.
      and_do (require (env_crc (ix_env view) = idx_crc e) path ''footer checksum differs from manifest'') (\<lambda>_.
      and_do (require (toc.num_terms (ix_toc view) = segment_entry.num_terms e) path ''term count differs from manifest'') (\<lambda>_.
      and_do (if verify then parsing path (idx_verify crc view) else ok_with ()) (\<lambda>_.
      ok_with (idx_map, ix_env view, ix_toc view))))))))"

definition open_doc :: "(bytes \<Rightarrow> u32) \<Rightarrow> 'w fs \<Rightarrow> segment_entry \<Rightarrow> bool \<Rightarrow>
    ('w, bytes \<times> envelope \<times> u32 \<times> u32 \<times> u64 \<times> (nat \<times> nat)) act" where
  "open_doc crc F e verify =
     (let path = doc_name (segment_id e) in
      and_do (open_file path (fs_mmap F path)) (\<lambda>doc_map.
      and_do (require (of_nat (length doc_map) = doc_len e) path (length_text doc_map (doc_len e))) (\<lambda>_.
      and_do (parsing path (doc_parse doc_map)) (\<lambda>view.
      and_do (require (env_crc (dtv_env view) = doc_crc e) path ''footer checksum differs from manifest'') (\<lambda>_.
      and_do (require (dtv_num_docs view = num_docs e) path ''doc count differs from manifest'') (\<lambda>_.
      and_do (if verify then parsing path (doc_verify crc view) else ok_with ()) (\<lambda>_.
      ok_with (doc_map, dtv_env view, dtv_num_docs view, dtv_num_indexed view, dtv_total_len view, doc_paths_range view))))))))"

definition open_del :: "(bytes \<Rightarrow> u32) \<Rightarrow> 'w fs \<Rightarrow> segment_entry \<Rightarrow> ('w, bitmap option) act" where
  "open_del crc F e =
     (if 0 < del_gen e then
        let path = del_name (segment_id e) (del_gen e) in
        and_do (open_file path (fs_read F path)) (\<lambda>bs.
        and_do (require (of_nat (length bs) = del_len e) path (length_text bs (del_len e))) (\<lambda>_.
        and_do (parsing path (del_parse_verified crc bs)) (\<lambda>view.
        and_do (require (dv_crc view = del_crc e) path ''footer checksum differs from manifest'') (\<lambda>_.
        and_do (require (dv_num_docs view = num_docs e) path ''bitmap size differs from segment'') (\<lambda>_.
        and_do (require (dv_num_deleted view = num_deleted e) path ''deleted count differs from manifest'') (\<lambda>_.
        ok_with (Some (del_to_bitmap view))))))))
      else ok_with None)"

definition segment_open :: "(bytes \<Rightarrow> u32) \<Rightarrow> 'w fs \<Rightarrow> segment_entry \<Rightarrow> bool \<Rightarrow> ('w, segment) act" where
  "segment_open crc F e verify =
     and_do (open_idx crc F e verify) (\<lambda>(idx_map, idx_env, toc).
     and_do (open_doc crc F e verify) (\<lambda>(doc_map, doc_env, n, ni, tl', paths).
     and_do (open_del crc F e) (\<lambda>del.
     ok_with \<lparr>seg_entry = e, seg_idx_map = idx_map, seg_idx_env = idx_env, seg_toc = toc, seg_doc_map = doc_map,
       seg_doc_env = doc_env, seg_num_docs = n, seg_num_indexed = ni, seg_total_len = tl', seg_paths = paths, seg_del = del\<rparr>)))"

definition seg_idx :: "segment \<Rightarrow> idx_view" where
  "seg_idx s = \<lparr>ix_bytes = seg_idx_map s, ix_env = seg_idx_env s, ix_toc = seg_toc s\<rparr>"

text \<open>\<open>None\<close>: the slice of the path heap would panic.\<close>

definition seg_docs :: "segment \<Rightarrow> doc_table_view option" where
  "seg_docs s = doc_from_parts (seg_doc_map s) (seg_doc_env s) (seg_num_docs s) (seg_num_indexed s) (seg_total_len s) (seg_paths s)"

definition seg_is_deleted :: "segment \<Rightarrow> u32 \<Rightarrow> bool" where
  "seg_is_deleted s i \<longleftrightarrow> (case seg_del s of None \<Rightarrow> False | Some b \<Rightarrow> bitmap_get b i)"

definition seg_verify :: "(bytes \<Rightarrow> u32) \<Rightarrow> segment \<Rightarrow> (store_error + unit) option" where
  "seg_verify crc s =
     (case idx_verify crc (seg_idx s) of
        Inl e \<Rightarrow> Some (Inl (SCorrupt (idx_name (segment_id (seg_entry s))) (format_text e)))
      | Inr _ \<Rightarrow> Option.bind (seg_docs s) (\<lambda>v. Some (case doc_verify crc v of
            Inl e \<Rightarrow> Inl (SCorrupt (doc_name (segment_id (seg_entry s))) (format_text e))
          | Inr _ \<Rightarrow> Inr ())))"

definition seg_doc_meta :: "segment \<Rightarrow> u32 \<Rightarrow> bytes \<Rightarrow> doc_meta option" where
  "seg_doc_meta s i rt =
     (if seg_is_deleted s i then None
      else Option.bind (seg_docs s) (\<lambda>view.
        Option.bind (doc_record view (unat i)) (\<lambda>r.
        Option.bind (doc_path view (unat i)) (\<lambda>rel.
        Some \<lparr>dm_path = resolve rt rel, dm_inode = dr_inode r, dm_mtime = nanos_to_time (dr_mtime_nanos r), dm_size = dr_size r,
          dm_len = dr_len r, dm_status = (case dr_kind r of None \<Rightarrow> Skipped | Some k \<Rightarrow> status_of_kind k),
          dm_content_hash = dr_content_hash r\<rparr>))))"

definition seg_files :: "segment \<Rightarrow> name list" where
  "seg_files s = segment_files (seg_entry s)"

definition seg_postings :: "segment \<Rightarrow> ustr \<Rightarrow> disk_list option" where
  "seg_postings s t = idx_lookup (seg_idx s) (utf8_encode t)"

text \<open>The record is sliced out without a check; \<open>seg_doc_len_in_range\<close> shows that it lies inside the file.\<close>

definition seg_doc_len :: "segment \<Rightarrow> u32 \<Rightarrow> u32 option" where
  "seg_doc_len s i =
     (if seg_num_docs s \<le> i \<or> seg_is_deleted s i then None
      else let at' = HEADER_LEN + DOC_BODY_HEADER_LEN + unat i * RECORD_LEN; b = take RECORD_LEN (drop at' (seg_doc_map s)) in
        if b ! 36 \<noteq> STATUS_INDEXED then None else ok (read_u32_le b 24))"

definition disk_segment_ops :: "(segment, disk_list, disk_cursor) segment_ops" where
  "disk_segment_ops = \<lparr>sg_base = \<lambda>s. base_doc (seg_entry s), sg_num_docs = seg_num_docs, sg_postings = seg_postings,
     sg_doc_len = seg_doc_len, sg_lists = disk_list_ops\<rparr>"

section \<open>What opening establishes\<close>

lemma and_do_Inr: "and_do m f w = (Inr y, w') \<longleftrightarrow> (\<exists>x w1. m w = (Inr x, w1) \<and> f x w1 = (Inr y, w'))"
  by (auto simp: and_do_def split: prod.splits sum.splits)

lemma open_steps [simp]:
  "require b p why w = (Inr x, w') \<longleftrightarrow> b \<and> w' = w"
  "parsing p r w = (Inr y, w') \<longleftrightarrow> r = Inr y \<and> w' = w"
  "ok_with z w = (Inr v, w') \<longleftrightarrow> v = z \<and> w' = w"
  "open_file p m w = (Inr bs, w') \<longleftrightarrow> m w = (Inr bs, w')"
  by (auto simp: require_def parsing_def ok_with_def open_file_def split: sum.splits prod.splits)

text \<open>What \<open>segment_open\<close> has checked of the segment it returns.\<close>

definition seg_valid :: "(bytes \<Rightarrow> u32) \<Rightarrow> bool \<Rightarrow> segment \<Rightarrow> bool" where
  "seg_valid crc verify s \<longleftrightarrow> (let e = seg_entry s in
     idx_parse (seg_idx_map s) = Inr (seg_idx s) \<and>
     of_nat (length (seg_idx_map s)) = idx_len e \<and> env_crc (seg_idx_env s) = idx_crc e \<and> toc.num_terms (seg_toc s) = segment_entry.num_terms e \<and>
     (\<exists>v. doc_parse (seg_doc_map s) = Inr v \<and> seg_docs s = Some v \<and> (verify \<longrightarrow> doc_verify crc v = Inr ())) \<and>
     of_nat (length (seg_doc_map s)) = doc_len e \<and> env_crc (seg_doc_env s) = doc_crc e \<and> seg_num_docs s = num_docs e \<and>
     (verify \<longrightarrow> idx_verify crc (seg_idx s) = Inr ()) \<and>
     (case seg_del s of None \<Rightarrow> del_gen e = 0
      | Some b \<Rightarrow> 0 < del_gen e \<and> bitmap_ok b \<and> bm_num_docs b = num_docs e \<and> bitmap_count b = num_deleted e))"

lemma doc_parse_view:
  assumes "doc_parse bs = Inr v"
  shows "dtv_bytes v = bs"
    and "doc_from_parts bs (dtv_env v) (dtv_num_docs v) (dtv_num_indexed v) (dtv_total_len v) (doc_paths_range v) = Some v"
    and "HEADER_LEN + DOC_BODY_HEADER_LEN + unat (dtv_num_docs v) * RECORD_LEN \<le> length bs"
proof -
  from assms obtain env po pl where env: "envelope_parse KDoc bs = Inr env" "dtv_env v = env"
    and b: "dtv_bytes v = bs" and po: "po = HEADER_LEN + DOC_BODY_HEADER_LEN + unat (dtv_num_docs v) * RECORD_LEN"
    and e: "usize_add po pl = snd (env_body env)" and sl: "slice bs po pl = Inr (dtv_paths v)"
    by (auto simp: doc_parse_def Let_def)
  have le: "po + pl \<le> length bs" and paths: "dtv_paths v = take pl (drop po bs)" using sl by (auto simp: slice_def split: if_splits)
  have eb: "env_body env = (16, length bs - 16)" "32 \<le> length bs" using envelope_parse_facts [OF env(1)] by (auto simp: HEADER_LEN_def FOOTER_LEN_def)
  have "po + pl = length bs - 16"
  proof -
    define M where "M = (2 :: nat) ^ 64"
    have M: "16 < M" by (simp add: M_def)
    define q r where "q = (po + pl) div M" and "r = (po + pl) mod M"
    have "(po + pl) mod M = length bs - 16" using e eb by (simp add: usize_add_def M_def)
    then have "r + 16 = length bs" using eb(2) by (simp add: r_def)
    moreover have "po + pl = q * M + r" unfolding q_def r_def by (rule div_mult_mod_eq [symmetric])
    moreover have "q = 0"
    proof (rule ccontr)
      assume "q \<noteq> 0"
      then have "M \<le> q * M" by simp
      then show False using le M calculation by linarith
    qed
    ultimately show ?thesis by simp
  qed
  then show "HEADER_LEN + DOC_BODY_HEADER_LEN + unat (dtv_num_docs v) * RECORD_LEN \<le> length bs" using po by simp
  have "length (dtv_paths v) = pl" using paths le by simp
  moreover have "length bs - (16 + pl) = po" using \<open>po + pl = length bs - 16\<close> le eb(2) by simp
  ultimately show "doc_from_parts bs (dtv_env v) (dtv_num_docs v) (dtv_num_indexed v) (dtv_total_len v) (doc_paths_range v) = Some v"
    using \<open>po + pl = length bs - 16\<close> env(2) b eb paths le
    by (cases v) (auto simp: doc_from_parts_def doc_paths_range_def get_range_def)
  show "dtv_bytes v = bs" by (rule b)
qed

lemma idx_parse_bytes: "idx_parse bs = Inr v \<Longrightarrow> ix_bytes v = bs"
  by (auto simp: idx_parse_def Let_def split: prod.splits)

lemma segment_open_valid:
  assumes "segment_open crc F e verify w = (Inr s, w')"
  shows "seg_valid crc verify s \<and> seg_entry s = e"
proof -
  obtain im ie tc w1 dm de n ni tot ps w2 dl where
    i: "open_idx crc F e verify w = (Inr (im, ie, tc), w1)"
    and d: "open_doc crc F e verify w1 = (Inr (dm, de, n, ni, tot, ps), w2)"
    and b: "open_del crc F e w2 = (Inr dl, w')"
    and s: "s = \<lparr>seg_entry = e, seg_idx_map = im, seg_idx_env = ie, seg_toc = tc, seg_doc_map = dm,
       seg_doc_env = de, seg_num_docs = n, seg_num_indexed = ni, seg_total_len = tot, seg_paths = ps, seg_del = dl\<rparr>"
    using assms by (auto simp: segment_open_def and_do_Inr)
  from i obtain v where v: "idx_parse im = Inr v" "ie = ix_env v" "tc = ix_toc v" "of_nat (length im) = idx_len e" "env_crc ie = idx_crc e"
    "toc.num_terms tc = segment_entry.num_terms e" "verify \<longrightarrow> idx_verify crc v = Inr ()"
    by (auto simp: open_idx_def and_do_Inr Let_def split: if_splits)
  have iv: "seg_idx s = v" using idx_parse_bytes [OF v(1)] v(2,3) by (simp add: seg_idx_def s)
  from d obtain u where u: "doc_parse dm = Inr u" "de = dtv_env u" "n = dtv_num_docs u" "ni = dtv_num_indexed u" "tot = dtv_total_len u"
    "ps = doc_paths_range u" "of_nat (length dm) = doc_len e" "env_crc de = doc_crc e" "n = num_docs e" "verify \<longrightarrow> doc_verify crc u = Inr ()"
    by (auto simp: open_doc_def and_do_Inr Let_def split: if_splits)
  have dv: "seg_docs s = Some u" using doc_parse_view(2) [OF u(1)] u(2-6) by (simp add: seg_docs_def s)
  have "case dl of None \<Rightarrow> del_gen e = 0
      | Some b \<Rightarrow> 0 < del_gen e \<and> bitmap_ok b \<and> bm_num_docs b = num_docs e \<and> bitmap_count b = num_deleted e"
  proof (cases "0 < del_gen e")
    case True
    from b True obtain bs dv where "del_parse_verified crc bs = Inr dv" "dl = Some (del_to_bitmap dv)" "dv_num_docs dv = num_docs e" "dv_num_deleted dv = num_deleted e"
      by (auto simp: open_del_def and_do_Inr Let_def)
    moreover from this have "bitmap_ok (del_to_bitmap dv) \<and> dv_num_deleted dv = bitmap_count (del_to_bitmap dv)" using del_parse_sound by blast
    moreover have "bm_num_docs (del_to_bitmap dv) = dv_num_docs dv" by (simp add: del_to_bitmap_def)
    ultimately show ?thesis using True by simp
  next
    case False
    then show ?thesis using b by (simp add: open_del_def word_gt_0)
  qed
  moreover have f: "seg_entry s = e" "seg_idx_map s = im" "seg_idx_env s = ie" "seg_toc s = tc" "seg_doc_map s = dm" "seg_doc_env s = de"
    "seg_num_docs s = n" "seg_del s = dl" by (simp_all add: s)
  ultimately show ?thesis unfolding seg_valid_def Let_def f
    using v u iv dv by auto
qed

text \<open>The fast path of \<open>doc_len\<close> reads inside the file and agrees with the checked reader of the doc table.\<close>

lemma seg_doc_len_in_range:
  assumes "seg_valid crc verify s" and "i < seg_num_docs s"
  shows "HEADER_LEN + DOC_BODY_HEADER_LEN + unat i * RECORD_LEN + RECORD_LEN \<le> length (seg_doc_map s)"
    and "\<not> seg_is_deleted s i \<Longrightarrow> seg_doc_len s i = Option.bind (seg_docs s) (\<lambda>v. doc_len_if_indexed v (unat i))"
proof -
  from assms(1) obtain v where v: "doc_parse (seg_doc_map s) = Inr v" "seg_docs s = Some v"
    by (auto simp: seg_valid_def Let_def)
  have n: "dtv_num_docs v = seg_num_docs s" using v(2) by (auto simp: seg_docs_def doc_from_parts_def)
  have "unat i * RECORD_LEN + RECORD_LEN \<le> unat (seg_num_docs s) * RECORD_LEN"
    using assms(2) by (metis Suc_leI add.commute mult_Suc mult_le_mono1 word_less_nat_alt)
  then show le: "HEADER_LEN + DOC_BODY_HEADER_LEN + unat i * RECORD_LEN + RECORD_LEN \<le> length (seg_doc_map s)"
    using doc_parse_view(3) [OF v(1)] n by simp
  have b: "dtv_bytes v = seg_doc_map s" by (rule doc_parse_view(1) [OF v(1)])
  let ?at = "HEADER_LEN + DOC_BODY_HEADER_LEN + unat i * RECORD_LEN"
  have "take RECORD_LEN (drop ?at (seg_doc_map s)) ! 36 = seg_doc_map s ! (?at + 36)"
    using le by (simp add: RECORD_LEN_def)
  moreover have "ok (read_u32_le (take RECORD_LEN (drop ?at (seg_doc_map s))) 24) = ok (read_u32_le (seg_doc_map s) (?at + 24))"
    using le by (simp add: RECORD_LEN_def read_u32_le_def slice_def drop_take add.commute)
  moreover have "\<not> seg_num_docs s \<le> i" "\<not> unat (seg_num_docs s) \<le> unat i" using assms(2) by (simp_all add: word_less_nat_alt not_le)
  ultimately show "\<not> seg_is_deleted s i \<Longrightarrow> seg_doc_len s i = Option.bind (seg_docs s) (\<lambda>v. doc_len_if_indexed v (unat i))"
    by (simp add: seg_doc_len_def v(2) doc_len_if_indexed_def n b doc_record_at_def Let_def)
qed

section \<open>The interface of the query engine\<close>

definition seg_plists :: "segment \<Rightarrow> ustr \<Rightarrow> plist option" where
  "seg_plists s t = Option.bind (seg_postings s t) (\<lambda>l. ok (decode_list (dl_data l)))"

text \<open>What the engine needs of a segment: every list the dictionary gives out is well formed.\<close>

definition seg_lists_ok :: "segment \<Rightarrow> bool" where
  "seg_lists_ok s \<longleftrightarrow> (\<forall>t l. seg_postings s t = Some l \<longrightarrow> (\<exists>ps. disk_contents l ps \<and> plist_ok ps))"

interpretation disk_segment: segment_reader disk_segment_ops disk_repr disk_contents seg_lists_ok seg_plists
proof -
  have l: "sg_lists disk_segment_ops = disk_list_ops" by (simp add: disk_segment_ops_def)
  have "segment_reader_axioms disk_segment_ops disk_contents seg_lists_ok seg_plists"
  proof
    fix s t assume "seg_lists_ok s"
    then show "sg_postings disk_segment_ops s t = None \<longleftrightarrow> seg_plists s t = None"
      by (cases "seg_postings s t") (force simp: disk_segment_ops_def seg_plists_def seg_lists_ok_def disk_contents_def)+
  next
    fix s t l assume "seg_lists_ok s" "sg_postings disk_segment_ops s t = Some l"
    then show "\<exists>ps. seg_plists s t = Some ps \<and> disk_contents l ps \<and> plist_ok ps"
      by (auto simp: disk_segment_ops_def seg_plists_def seg_lists_ok_def disk_contents_def)
  next
    fix s d n assume "sg_doc_len disk_segment_ops s d = Some n"
    then show "d < sg_num_docs disk_segment_ops s"
      by (auto simp: disk_segment_ops_def seg_doc_len_def split: if_splits)
  qed
  then show "segment_reader disk_segment_ops disk_repr disk_contents seg_lists_ok seg_plists"
    using disk_list.posting_list_axioms by (simp add: segment_reader_def l)
qed

lemma decode_list_ok: "decode_list data = Inr ps \<Longrightarrow> plist_ok ps"
  by (auto simp: decode_list_def dest: decode_rest_ok)

text \<open>A dictionary that verifies gives out well-formed lists only.\<close>

lemma verified_lists_ok:
  assumes "idx_parse bs = Inr (seg_idx s)" and "idx_verify crc (seg_idx s) = Inr ()"
  shows "seg_lists_ok s"
proof -
  obtain blocks where r: "idx_repr (seg_idx s) blocks" using idx_verify_repr [OF assms] by blast
  have "\<exists>ps. disk_contents l ps \<and> plist_ok ps" if p: "seg_postings s t = Some l" for t l
  proof -
    obtain e where e: "e \<in> set (concat blocks)" "entry_list (seg_idx s) e = Inr l"
      using p unfolding seg_postings_def idx_lookup_entry [OF r] by blast
    then obtain ps where "disk_contents l ps" using r by (auto simp: idx_repr_def simp del: set_concat)
    then show ?thesis using decode_list_ok by (auto simp: disk_contents_def)
  qed
  then show ?thesis by (simp add: seg_lists_ok_def)
qed

end
