(* ===== verification/Reader.thy ===== *)
theory Reader
  imports Segment Overlay Bm25
begin

text \<open>
  Opening a persistent index and reading it (\<open>src/store/reader.rs\<close>): the manifest, the sweep of files it does not
  name, the segments and the overlay, the retries, the counters, and the document table over global ids.
  Memory accounting and times of the statistics are left out.

  Main facts: what \<open>open\<close> returns depends only on the manifest and the files it references, and opening removes
  none of them (\<open>open_once_real\<close>, \<open>open_settled\<close>); \<open>locate\<close> finds the segment that owns an id (\<open>locate_iff\<close>); the
  number of documents reported is the number of documents listed (\<open>live_docs_listed\<close>).
\<close>

section \<open>Opening\<close>

record owned_patch =
  op_doc_id :: u32
  op_inode :: u64
  op_mtime_nanos :: i64
  op_size :: u64
  op_path :: bytes

definition owned :: "patch \<times> bytes \<Rightarrow> owned_patch" where
  "owned = (\<lambda>(p, path). \<lparr>op_doc_id = p_doc_id p, op_inode = p_inode p, op_mtime_nanos = p_mtime_nanos p, op_size = p_size p, op_path = path\<rparr>)"

type_synonym opened_index = "manifest \<times> u64 \<times> segment list \<times> owned_patch list \<times> u64"

text \<open>The orphan sweep: removals that fail are only logged.\<close>

definition sweep :: "'w fs \<Rightarrow> manifest \<Rightarrow> ('w, unit) act" where
  "sweep F m = and_do (io (fs_list_dir F [])) (\<lambda>ps w.
     (Inr (), fold (\<lambda>p w. if is_cleanable p \<and> p \<notin> referenced_files m then snd (fs_remove_file F p w) else w) ps w))"

fun load_segments :: "(bytes \<Rightarrow> u32) \<Rightarrow> 'w fs \<Rightarrow> bool \<Rightarrow> segment_entry list \<Rightarrow> ('w, segment list) act" where
  "load_segments crc F verify [] = ok_with []"
| "load_segments crc F verify (e # es) =
     and_do (segment_open crc F e verify) (\<lambda>s. and_do (load_segments crc F verify es) (\<lambda>ss. ok_with (s # ss)))"

definition load_overlay :: "(bytes \<Rightarrow> u32) \<Rightarrow> 'w fs \<Rightarrow> manifest \<Rightarrow> ('w, owned_patch list \<times> u64) act" where
  "load_overlay crc F m =
     (if 0 < state_gen m then
        let path = overlay_name (state_gen m) in
        and_do (open_file path (fs_read F path)) (\<lambda>bs.
        and_do (require (of_nat (length bs) = state_len m) path (length_text bs (state_len m))) (\<lambda>_.
        and_do (parsing path (overlay_parse_verified crc bs)) (\<lambda>view.
        and_do (require (env_crc (ov_env view) = state_crc m) path ''footer checksum differs from manifest'') (\<lambda>_.
        ok_with (map owned (overlay_iter view), of_nat (length bs))))))
      else ok_with ([], 0))"

definition load_index :: "(bytes \<Rightarrow> u32) \<Rightarrow> 'w fs \<Rightarrow> bool \<Rightarrow> manifest \<Rightarrow> u64 \<Rightarrow> ('w, opened_index) act" where
  "load_index crc F verify m len =
     and_do (load_segments crc F verify (segments m)) (\<lambda>segs.
     and_do (load_overlay crc F m) (\<lambda>(ovl, ovl_len).
     ok_with (m, len, segs, ovl, ovl_len)))"

text \<open>The lock is given back when it goes out of scope: after the sweep, or on an early return.\<close>

definition open_once :: "(bytes \<Rightarrow> u32) \<Rightarrow> 'w fs \<Rightarrow> bool \<Rightarrow> ('w, opened_index option) act" where
  "open_once crc F verify w =
     (case fs_lock F LOCK w of (l, w) \<Rightarrow>
      let locked = (case l of Inr _ \<Rightarrow> True | Inl _ \<Rightarrow> False);
          release = (if locked then fs_unlock F else (\<lambda>w. w)) in
      case fs_read F MANIFEST w of
        (Inl e, w) \<Rightarrow> (if e = NotFound then Inr None else Inl (SIo e), release w)
      | (Inr bs, w) \<Rightarrow>
          (case manifest_decode crc bs of
             Inl (Version v) \<Rightarrow> (Inl (Incompatible MANIFEST v), release w)
           | Inl e \<Rightarrow> (Inr None, release w)
           | Inr m \<Rightarrow>
               (case (if locked then sweep F m w else (Inr (), w)) of (r, w) \<Rightarrow>
                case r of
                  Inl e \<Rightarrow> (Inl e, release w)
                | Inr _ \<Rightarrow> and_do (load_index crc F verify m (of_nat (length bs))) (\<lambda>x. ok_with (Some x)) (release w))))"

definition MAX_ATTEMPTS :: nat where "MAX_ATTEMPTS = 20"

definition still_missing :: string where
  "still_missing = ''still missing after '' @ dec MAX_ATTEMPTS @ '' attempts to reconcile with a concurrent commit''"

text \<open>The retry loop with \<open>n\<close> attempts left; \<open>p\<close> is the file missed last, \<open>pause\<close> the rest of the system meanwhile.\<close>

fun open_loop :: "(bytes \<Rightarrow> u32) \<Rightarrow> 'w fs \<Rightarrow> ('w \<Rightarrow> 'w) \<Rightarrow> bool \<Rightarrow> nat \<Rightarrow> name \<Rightarrow> ('w, opened_index option) act" where
  "open_loop crc F pause verify 0 p w = (Inl (SCorrupt p still_missing), w)"
| "open_loop crc F pause verify (Suc n) p w =
     (case open_once crc F verify w of
        (Inl (Vanished q), w) \<Rightarrow> open_loop crc F pause verify n q (pause w)
      | (r, w) \<Rightarrow> (r, w))"

section \<open>The index\<close>

record index_stats =
  is_docs_total :: u32
  is_docs_indexed :: u32
  is_docs_skipped :: u32
  is_total_tokens :: u64
  is_total_postings :: u64
  is_unique_terms :: u64
  is_segments :: u32
  is_on_disk_bytes :: u64

record disk_index =
  dx_root :: bytes
  dx_manifest :: manifest
  dx_manifest_len :: u64
  dx_segments :: "segment list"
  dx_overlay :: "owned_patch list"
  dx_overlay_len :: u64
  dx_stats :: index_stats
  dx_n_indexed :: u32
  dx_avg_len :: f32
  dx_live_docs :: u64
  dx_id_bound :: u32

definition sum_segs :: "(segment \<Rightarrow> u64) \<Rightarrow> disk_index \<Rightarrow> u64" where
  "sum_segs f x = foldl (\<lambda>n s. n + f s) 0 (dx_segments x)"

definition recompute_stats :: "disk_index \<Rightarrow> disk_index" where
  "recompute_stats x =
     (let n_indexed = sum_segs (\<lambda>s. let a = ucast (seg_num_indexed s); b = ucast (num_deleted (seg_entry s)) in if b \<le> a then a - b else 0) x;
          total_indexed = sum_segs (\<lambda>s. ucast (seg_num_indexed s)) x;
          total_len = sum_segs seg_total_len x;
          live = sum_segs (\<lambda>s. ucast (num_docs (seg_entry s)) - ucast (num_deleted (seg_entry s))) x;
          skipped = sum_segs (\<lambda>s. ucast (num_docs (seg_entry s) - seg_num_indexed s)) x;
          tokens = sum_segs (\<lambda>s. num_tokens (seg_entry s)) x;
          postings = sum_segs (\<lambda>s. num_postings (seg_entry s)) x;
          terms = sum_segs (\<lambda>s. segment_entry.num_terms (seg_entry s)) x;
          on_disk = dx_manifest_len x + dx_overlay_len x + sum_segs (\<lambda>s. total_bytes (seg_entry s)) x;
          bound = foldl (\<lambda>b s. max b (end_doc (seg_entry s))) 0 (dx_segments x)
      in x\<lparr>dx_n_indexed := ucast n_indexed,
           dx_avg_len := (if total_indexed = 0 then 0 else f32_div (f32_of_u64 total_len) (f32_of_u64 total_indexed)),
           dx_live_docs := live, dx_id_bound := of_nat (min bound (2 ^ 32 - 1)),
           dx_stats := \<lparr>is_docs_total = ucast live, is_docs_indexed = ucast n_indexed, is_docs_skipped = ucast skipped,
             is_total_tokens = tokens, is_total_postings = postings, is_unique_terms = terms,
             is_segments = of_nat (length (dx_segments x)), is_on_disk_bytes = on_disk\<rparr>\<rparr>)"

definition make_index :: "bytes \<Rightarrow> opened_index \<Rightarrow> disk_index" where
  "make_index rt = (\<lambda>(m, len, segs, ovl, ovl_len).
     recompute_stats \<lparr>dx_root = rt, dx_manifest = m, dx_manifest_len = len, dx_segments = segs, dx_overlay = ovl,
       dx_overlay_len = ovl_len, dx_stats = \<lparr>is_docs_total = 0, is_docs_indexed = 0, is_docs_skipped = 0, is_total_tokens = 0,
         is_total_postings = 0, is_unique_terms = 0, is_segments = 0, is_on_disk_bytes = 0\<rparr>,
       dx_n_indexed = 0, dx_avg_len = 0, dx_live_docs = 0, dx_id_bound = 0\<rparr>)"

definition open_index :: "(bytes \<Rightarrow> u32) \<Rightarrow> 'w fs \<Rightarrow> ('w \<Rightarrow> 'w) \<Rightarrow> bytes \<Rightarrow> bool \<Rightarrow> ('w, disk_index option) act" where
  "open_index crc F pause rt verify =
     and_do (open_loop crc F pause verify MAX_ATTEMPTS []) (\<lambda>x. ok_with (map_option (make_index rt) x))"

definition dx_files :: "disk_index \<Rightarrow> name list" where
  "dx_files x = concat (map seg_files (dx_segments x)) @
     (if 0 < state_gen (dx_manifest x) then [overlay_name (state_gen (dx_manifest x))] else []) @ [MANIFEST]"

definition locate :: "disk_index \<Rightarrow> u32 \<Rightarrow> (segment \<times> u32) option" where
  "locate x i =
     (let k = partition_point (\<lambda>s. end_doc (seg_entry s) \<le> unat i) (dx_segments x) in
      if length (dx_segments x) \<le> k then None
      else let s = dx_segments x ! k; b = base_doc (seg_entry s) in
        if i < b then None else Some (s, i - b))"

definition overlay_for :: "disk_index \<Rightarrow> u32 \<Rightarrow> owned_patch option" where
  "overlay_for x i =
     (let k = partition_point (\<lambda>p. op_doc_id p < i) (dx_overlay x) in
      if k < length (dx_overlay x) \<and> op_doc_id (dx_overlay x ! k) = i then Some (dx_overlay x ! k) else None)"

definition overlay_patches :: "disk_index \<Rightarrow> (u32 \<times> u64 \<times> i64 \<times> u64 \<times> bytes) list" where
  "overlay_patches x = map (\<lambda>p. (op_doc_id p, op_inode p, op_mtime_nanos p, op_size p, op_path p)) (dx_overlay x)"

fun verify_segments :: "(bytes \<Rightarrow> u32) \<Rightarrow> segment list \<Rightarrow> (store_error + unit) option" where
  "verify_segments crc [] = Some (Inr ())"
| "verify_segments crc (s # ss) =
     Option.bind (seg_verify crc s) (\<lambda>r. case r of Inl e \<Rightarrow> Some (Inl e) | Inr _ \<Rightarrow> verify_segments crc ss)"

definition dx_verify :: "(bytes \<Rightarrow> u32) \<Rightarrow> disk_index \<Rightarrow> (store_error + unit) option" where
  "dx_verify crc x = verify_segments crc (dx_segments x)"

definition dx_doc :: "disk_index \<Rightarrow> u32 \<Rightarrow> doc_meta option" where
  "dx_doc x i =
     Option.bind (locate x i) (\<lambda>(s, loc).
     Option.bind (seg_doc_meta s loc (dx_root x)) (\<lambda>meta.
     Some (case overlay_for x i of
         None \<Rightarrow> meta
       | Some p \<Rightarrow> meta\<lparr>dm_inode := op_inode p, dm_mtime := nanos_to_time (op_mtime_nanos p), dm_size := op_size p,
           dm_path := resolve (dx_root x) (op_path p)\<rparr>)))"

definition disk_reader_ops :: "(disk_index, segment) reader_ops" where
  "disk_reader_ops = \<lparr>ix_segments = dx_segments, ix_indexed_count = dx_n_indexed, ix_avg_len = dx_avg_len\<rparr>"

section \<open>The document table\<close>

definition docs_len :: "disk_index \<Rightarrow> nat" where "docs_len x = unat (dx_live_docs x)"
definition docs_is_empty :: "disk_index \<Rightarrow> bool" where "docs_is_empty x \<longleftrightarrow> dx_live_docs x = 0"

definition docs_of_segment :: "disk_index \<Rightarrow> segment \<Rightarrow> (u32 \<times> doc_meta) list" where
  "docs_of_segment x s = List.map_filter (\<lambda>loc. let i = base_doc (seg_entry s) + of_nat loc in map_option (\<lambda>m. (i, m)) (dx_doc x i))
     [0..<unat (seg_num_docs s)]"

definition docs_iter :: "disk_index \<Rightarrow> (u32 \<times> doc_meta) list" where
  "docs_iter x = concat (map (docs_of_segment x) (dx_segments x))"

section \<open>What opening reads\<close>

text \<open>An action of the real file system that changes nothing, and whose result depends on some files only.\<close>

definition reads :: "name set \<Rightarrow> (disk \<Rightarrow> 'r \<times> disk) \<Rightarrow> bool" where
  "reads P m \<longleftrightarrow> (\<forall>d. snd (m d) = d) \<and> (\<forall>d d'. (\<forall>n \<in> P. dk_file d n = dk_file d' n) \<longrightarrow> fst (m d) = fst (m d'))"

lemma reads_and_do:
  assumes m: "reads P m" and f: "\<And>x. reads P (f x)"
  shows "reads P (and_do m f)"
proof -
  have e: "and_do m f d = (case fst (m d) of Inl e \<Rightarrow> (Inl e, d) | Inr x \<Rightarrow> f x d)" for d
  proof -
    obtain r d1 where r: "m d = (r, d1)" by force
    moreover have "snd (m d) = d" using m by (simp add: reads_def)
    ultimately show ?thesis by (cases r) (simp_all add: and_do_def)
  qed
  show ?thesis unfolding reads_def
  proof (intro conjI allI impI)
    show "snd (and_do m f d) = d" for d using f by (simp add: e reads_def split: sum.split)
    fix d d' assume a: "\<forall>n \<in> P. dk_file d n = dk_file d' n"
    then have "fst (m d) = fst (m d')" using m unfolding reads_def by blast
    moreover have "fst (f x d) = fst (f x d')" for x using f a unfolding reads_def by blast
    ultimately show "fst (and_do m f d) = fst (and_do m f d')" unfolding e by (cases "fst (m d')") simp_all
  qed
qed

lemma reads_steps [simp]: "reads P (ok_with x)" "reads P (require b p why)" "reads P (parsing p r)"
  by (simp_all add: reads_def ok_with_def require_def parsing_def)

lemma reads_files:
  "p \<in> P \<Longrightarrow> reads P (open_file p (fs_mmap real_fs p))" "p \<in> P \<Longrightarrow> reads P (open_file p (fs_read real_fs p))"
  unfolding reads_def
  by (auto simp: open_file_def real_fs_def real_mmap_def real_read_def split: option.splits)

lemma reads_split: "(\<And>a b. reads P (f a b)) \<Longrightarrow> reads P (case x of (a, b) \<Rightarrow> f a b)"
  by (cases x) simp

lemma reads_if: "(c \<Longrightarrow> reads P a) \<Longrightarrow> (\<not> c \<Longrightarrow> reads P b) \<Longrightarrow> reads P (if c then a else b)"
  by simp

lemmas reads_intros = reads_and_do reads_steps reads_files reads_split reads_if

lemma segment_open_reads:
  assumes "set (segment_files e) \<subseteq> P"
  shows "reads P (segment_open crc real_fs e verify)"
proof -
  have i: "idx_name (segment_id e) \<in> P" "doc_name (segment_id e) \<in> P" using assms by (auto simp: segment_files_def)
  have "reads P (open_del crc real_fs e)"
    unfolding open_del_def Let_def using assms by (intro reads_intros) (auto simp: segment_files_def)
  moreover have "reads P (open_idx crc real_fs e verify)" unfolding open_idx_def Let_def by (intro reads_intros i)
  moreover have "reads P (open_doc crc real_fs e verify)" unfolding open_doc_def Let_def by (intro reads_intros i)
  ultimately show ?thesis unfolding segment_open_def by (intro reads_intros)
qed

lemma load_segments_reads: "(\<Union>e \<in> set es. set (segment_files e)) \<subseteq> P \<Longrightarrow> reads P (load_segments crc real_fs verify es)"
  by (induction es) (auto intro!: reads_intros segment_open_reads)

lemma load_index_reads: "referenced_files m \<subseteq> P \<Longrightarrow> reads P (load_index crc real_fs verify m len)"
proof -
  assume p: "referenced_files m \<subseteq> P"
  then have "reads P (load_segments crc real_fs verify (segments m))" by (intro load_segments_reads) (auto simp: referenced_files_def)
  moreover have "reads P (load_overlay crc real_fs m)"
    unfolding load_overlay_def Let_def using p by (intro reads_intros) (auto simp: referenced_files_def split: if_splits)
  ultimately show ?thesis unfolding load_index_def by (intro reads_intros)
qed

section \<open>What opening removes\<close>

lemma touches_file: "touches P d d' \<Longrightarrow> n \<notin> P \<Longrightarrow> dk_file d' n = dk_file d n"
  by (cases "dk_dir d n") (auto simp: touches_def same_at_def dk_file_def)

text \<open>The names the sweep may remove: its own kinds of file that the manifest on disk does not name.\<close>

definition orphans :: "(bytes \<Rightarrow> u32) \<Rightarrow> disk \<Rightarrow> name set" where
  "orphans crc d = {n. is_cleanable n \<and> (\<exists>bs m. dk_file d MANIFEST = Some bs \<and> manifest_decode crc bs = Inr m \<and> n \<notin> referenced_files m)}"

context fs_contract
begin

definition quiet :: "('w \<Rightarrow> 'r \<times> 'w) \<Rightarrow> bool" where
  "quiet m \<longleftrightarrow> (\<forall>w. disk (snd (m w)) = disk w)"

lemma quiet_and_do: "quiet m \<Longrightarrow> (\<And>x. quiet (f x)) \<Longrightarrow> quiet (and_do m f)"
  unfolding quiet_def and_do_def by (metis (mono_tags, lifting) old.sum.simps(5,6) prod.case prod.exhaust_sel snd_conv sum.exhaust)

lemma quiet_steps: "quiet (ok_with x)" "quiet (require b p why)" "quiet (parsing p r)"
  by (simp_all add: quiet_def ok_with_def require_def parsing_def)

lemma quiet_read: "disk (snd (fs_read F p w)) = disk w" "disk (snd (fs_mmap F p w)) = disk w" "disk (snd (fs_list_dir F p w)) = disk w"
proof -
  have r: "acts disk poisoned f g \<Longrightarrow> (\<And>d. snd (g d) = d) \<Longrightarrow> disk (snd (f w)) = disk w"
    for f :: "'w \<Rightarrow> (io_error + 'a) \<times> 'w" and g
    unfolding acts_def by (metis prod.collapse snd_conv)
  show "disk (snd (fs_read F p w)) = disk w" by (rule r [OF read]) (simp add: real_read_def)
  show "disk (snd (fs_mmap F p w)) = disk w" by (rule r [OF mmap]) (simp add: real_mmap_def)
  have r: "acts disk poisoned f g \<Longrightarrow> (\<And>d. snd (g d) = d) \<Longrightarrow> disk (snd (f w)) = disk w"
    for f :: "'w \<Rightarrow> (io_error + name list) \<times> 'w" and g
    unfolding acts_def by (metis prod.collapse snd_conv)
  show "disk (snd (fs_list_dir F p w)) = disk w" by (rule r [OF list_dir]) (simp add: real_list_dir_def)
qed

lemma quiet_open_file: "quiet (open_file p (fs_mmap F p))" "quiet (open_file p (fs_read F p))"
  using quiet_read by (auto simp: quiet_def open_file_def split: prod.split sum.split) (metis snd_conv)+

lemma quiet_split: "(\<And>a b. quiet (f a b)) \<Longrightarrow> quiet (case x of (a, b) \<Rightarrow> f a b)"
  by (cases x) simp

lemma quiet_if: "quiet a \<Longrightarrow> quiet b \<Longrightarrow> quiet (if c then a else b)"
  by simp

lemmas quiet_intros = quiet_and_do quiet_steps quiet_open_file quiet_split quiet_if

lemma load_index_quiet: "quiet (load_index crc F verify m len)"
proof -
  have "quiet (segment_open crc F e verify)" for e
    unfolding segment_open_def open_idx_def open_doc_def open_del_def Let_def by (intro quiet_intros)
  then have "quiet (load_segments crc F verify es)" for es by (induction es) (simp_all add: quiet_intros)
  moreover have "quiet (load_overlay crc F m)" unfolding load_overlay_def Let_def by (intro quiet_intros)
  ultimately show ?thesis unfolding load_index_def by (intro quiet_intros)
qed

lemma remove_frame:
  assumes "disk_wf (disk w)" and "p \<in> P"
  shows "touches P (disk w) (disk (snd (fs_remove_file F p w)))"
proof -
  obtain r w1 where w1: "fs_remove_file F p w = (r, w1)" by force
  have "touches P (disk w) (disk w1)"
    by (rule acts_frame [OF remove_file w1 assms(1)]) (use real_remove_frame touches_mono assms in blast)
  then show ?thesis by (simp add: w1)
qed

lemma sweep_frame:
  assumes "disk_wf (disk w)"
  shows "touches {n. is_cleanable n \<and> n \<notin> referenced_files m} (disk w) (disk (snd (sweep F m w)))"
proof -
  let ?P = "{n. is_cleanable n \<and> n \<notin> referenced_files m}"
  have fold: "disk_wf (disk w) \<Longrightarrow> touches ?P (disk w)
      (disk (fold (\<lambda>p w. if is_cleanable p \<and> p \<notin> referenced_files m then snd (fs_remove_file F p w) else w) ps w))" for ps w
  proof (induction ps arbitrary: w)
    case (Cons p ps)
    let ?w = "if is_cleanable p \<and> p \<notin> referenced_files m then snd (fs_remove_file F p w) else w"
    have t: "touches ?P (disk w) (disk ?w)" using remove_frame [OF Cons.prems, of p ?P] Cons.prems by (simp add: touches_refl)
    show ?case unfolding fold.simps comp_apply by (rule touches_trans [OF t Cons.IH [OF touches_wf [OF t]]])
  qed (simp add: touches_refl)
  obtain r w1 where l: "fs_list_dir F [] w = (r, w1)" by force
  have d: "disk w1 = disk w" using quiet_read(3) [of "[]" w] by (simp add: l)
  show ?thesis using fold [of w1] assms d by (cases r) (simp_all add: sweep_def and_do_def io_def l touches_refl)
qed

lemma read_result:
  assumes "fs_read F p w = (r, w')"
  shows "r = Inr bs \<Longrightarrow> dk_file (disk w) p = Some bs"
  using read assms by (cases rule: acts_cases) (auto simp: real_read_def split: option.splits)

lemma release_frame: "disk_wf (disk w) \<Longrightarrow> touches P (disk w) (disk ((if b then fs_unlock F else (\<lambda>w. w)) w))"
  by (simp add: unlock touches_refl lock_frame)

text \<open>Opening removes nothing but orphans, whatever faults occur.\<close>

lemma open_once_frame:
  assumes "open_once crc F verify w = (r, w')" "disk_wf (disk w)"
  shows "touches (orphans crc (disk w)) (disk w) (disk w')"
proof -
  let ?P = "orphans crc (disk w)"
  obtain l w1 where w1: "fs_lock F LOCK w = (l, w1)" by force
  define b where "b = (case l of Inr _ \<Rightarrow> True | Inl _ \<Rightarrow> False)"
  let ?rel = "if b then fs_unlock F else (\<lambda>w. w)"
  have t1: "touches P (disk w) (disk w1)" for P by (rule acts_frame [OF lock w1 assms(2)]) (use lock_frame(2) assms(2) in blast)
  have f1: "dk_file (disk w1) n = dk_file (disk w) n" for n by (rule touches_file [OF t1 [of "{}"]]) simp
  obtain rd w2 where w2: "fs_read F MANIFEST w1 = (rd, w2)" by force
  have d2: "disk w2 = disk w1" using quiet_read(1) [of MANIFEST w1] by (simp add: w2)
  have t2: "touches P (disk w) (disk w2)" for P using t1 d2 by simp
  have rel: "touches ?P (disk w) (disk (?rel w3))" if "touches ?P (disk w) (disk w3)" for w3
    using touches_trans [OF that release_frame [OF touches_wf [OF that]]] .
  have o: "open_once crc F verify w = (case rd of
        Inl e \<Rightarrow> (if e = NotFound then Inr None else Inl (SIo e), ?rel w2)
      | Inr bs \<Rightarrow>
          (case manifest_decode crc bs of
             Inl (Version v) \<Rightarrow> (Inl (Incompatible MANIFEST v), ?rel w2)
           | Inl e \<Rightarrow> (Inr None, ?rel w2)
           | Inr m \<Rightarrow>
               (case (if b then sweep F m w2 else (Inr (), w2)) of (r, w) \<Rightarrow>
                case r of
                  Inl e \<Rightarrow> (Inl e, ?rel w)
                | Inr _ \<Rightarrow> and_do (load_index crc F verify m (of_nat (length bs))) (\<lambda>x. ok_with (Some x)) (?rel w))))"
    unfolding open_once_def w1 prod.case Let_def w2 b_def [symmetric] by (cases rd) simp_all
  show ?thesis
  proof (cases rd)
    case (Inl e)
    then show ?thesis using assms(1) rel [OF t2] unfolding o by auto
  next
    case (Inr bs)
    have f: "dk_file (disk w) MANIFEST = Some bs" using read_result [OF w2 Inr] f1 by simp
    show ?thesis
    proof (cases "manifest_decode crc bs")
      case (Inl e)
      then show ?thesis using assms(1) rel [OF t2] Inr unfolding o by (cases e) auto
    next
      case m: (Inr m)
      obtain r3 w3 where w3: "(if b then sweep F m w2 else (Inr (), w2)) = (r3, w3)" by force
      have "touches {n. is_cleanable n \<and> n \<notin> referenced_files m} (disk w2) (disk w3)"
        using sweep_frame [OF touches_wf [OF t2], of m] w3 touches_refl [OF touches_wf [OF t2]] by (cases b) auto
      moreover have "{n. is_cleanable n \<and> n \<notin> referenced_files m} = ?P" using f m by (auto simp: orphans_def)
      ultimately have "touches ?P (disk w2) (disk w3)" by simp
      from rel [OF touches_trans [OF t2 this]] have t3: "touches ?P (disk w) (disk (?rel w3))" .
      have "disk w' = disk (?rel w3)"
      proof (cases r3)
        case (Inl e)
        then show ?thesis using assms(1) Inr m w3 unfolding o by simp
      next
        case r3: (Inr u)
        have "quiet (and_do (load_index crc F verify m (of_nat (length bs))) (\<lambda>x. ok_with (Some x)))"
          by (intro quiet_intros load_index_quiet)
        then have "disk (snd (and_do (load_index crc F verify m (of_nat (length bs))) (\<lambda>x. ok_with (Some x)) (?rel w3))) = disk (?rel w3)"
          unfolding quiet_def by blast
        moreover have "open_once crc F verify w = and_do (load_index crc F verify m (of_nat (length bs))) (\<lambda>x. ok_with (Some x)) (?rel w3)"
          using Inr m w3 r3 unfolding o by simp
        ultimately show ?thesis using assms(1) by (metis snd_conv)
      qed
      then show ?thesis using t3 by simp
    qed
  qed
qed

end

section \<open>What opening returns\<close>

text \<open>The view of a committed index: its manifest, and content for every file the manifest references.\<close>

definition index_view :: "(bytes \<Rightarrow> u32) \<Rightarrow> view \<Rightarrow> manifest \<Rightarrow> bool" where
  "index_view crc S m \<longleftrightarrow> (\<exists>bs. S MANIFEST = Some (Some bs) \<and> manifest_decode crc bs = Inr m) \<and>
     (\<forall>n \<in> referenced_files m. \<exists>c. S n = Some (Some c))"

definition manifest_bytes :: "view \<Rightarrow> bytes" where
  "manifest_bytes S = the (the (S MANIFEST))"

definition load_view :: "(bytes \<Rightarrow> u32) \<Rightarrow> bool \<Rightarrow> manifest \<Rightarrow> disk \<Rightarrow> store_error + opened_index option" where
  "load_view crc verify m d =
     fst (and_do (load_index crc real_fs verify m (of_nat (length (the (dk_file d MANIFEST))))) (\<lambda>x. ok_with (Some x)) d)"

lemma load_view_cong:
  assumes "\<forall>n \<in> insert MANIFEST (referenced_files m). dk_file d n = dk_file d' n"
  shows "load_view crc verify m d = load_view crc verify m d'"
proof -
  have "reads (referenced_files m) (and_do (load_index crc real_fs verify m len) (\<lambda>x. ok_with (Some x)))" for len
    by (intro reads_intros load_index_reads order_refl)
  then show ?thesis using assms unfolding load_view_def reads_def by auto
qed

lemma real_fs_ops:
  "fs_lock real_fs = real_lock" "fs_unlock real_fs = real_unlock" "fs_read real_fs = real_read" "fs_mmap real_fs = real_mmap"
  "fs_list_dir real_fs = real_list_dir" "fs_remove_file real_fs = real_remove_file" "fs_rename real_fs = real_rename"
  "fs_sync_dir real_fs = real_sync_dir" "fs_create real_fs = real_create" "fs_create_dir_all real_fs = (\<lambda>_ d. (Inr (), d))"
  by (simp_all only: real_fs_def fs.simps)

lemma lock_files: "dk_file (snd (real_lock p d)) = dk_file d" "dk_file (real_unlock d) = dk_file d"
  by (simp_all add: fun_eq_iff dk_file_def real_lock_def real_unlock_def)

lemma remove_files: "n \<noteq> p \<Longrightarrow> dk_file (snd (real_remove_file p d)) n = dk_file d n"
  by (cases "dk_dir d p") (simp_all add: real_remove_file_def dk_file_def dk_dir_clear)

lemma sweep_files: "\<not> (is_cleanable n \<and> n \<notin> referenced_files m) \<Longrightarrow> dk_file (snd (sweep real_fs m d)) n = dk_file d n"
proof -
  assume n: "\<not> (is_cleanable n \<and> n \<notin> referenced_files m)"
  have "dk_file (fold (\<lambda>p d. if is_cleanable p \<and> p \<notin> referenced_files m then snd (real_remove_file p d) else d) ps d) n = dk_file d n" for ps d
  proof (induction ps arbitrary: d)
    case (Cons p ps)
    have "is_cleanable p \<and> p \<notin> referenced_files m \<Longrightarrow> n \<noteq> p" using n by auto
    then show ?case using Cons.IH remove_files [of n p] by simp
  qed simp
  then show ?thesis unfolding sweep_def real_fs_ops by (simp add: and_do_def io_def real_list_dir_def)
qed

lemma open_once_loads:
  assumes f: "dk_file d MANIFEST = Some bs" and bs: "manifest_decode crc bs = Inr m"
  shows "fst (open_once crc real_fs verify d) = load_view crc verify m d"
proof -
  obtain l d1 where l: "fs_lock real_fs LOCK d = (l, d1)" by force
  define b where "b = (case l of Inr _ \<Rightarrow> True | Inl _ \<Rightarrow> False)"
  let ?rel = "if b then fs_unlock real_fs else (\<lambda>w. w)"
  have f1: "dk_file d1 = dk_file d" using lock_files(1) [of LOCK d] l by (simp add: real_fs_def)
  then have rd: "fs_read real_fs MANIFEST d1 = (Inr bs, d1)" using f by (simp add: real_fs_def real_read_def)
  obtain d2 where sw: "(if b then sweep real_fs m d1 else (Inr (), d1)) = (Inr (), d2)"
    by (cases b) (simp_all add: sweep_def and_do_def io_def real_fs_def real_list_dir_def)
  have same: "dk_file (?rel d2) n = dk_file d n" if "n \<in> insert MANIFEST (referenced_files m)" for n
  proof -
    have "dk_file d2 n = dk_file d1 n" using that cleanable_names(6) sweep_files [of n m d1] sw by (cases b) auto
    then show ?thesis using f1 lock_files(2) [of d2] by (simp add: real_fs_def)
  qed
  have "open_once crc real_fs verify d = and_do (load_index crc real_fs verify m (of_nat (length bs))) (\<lambda>x. ok_with (Some x)) (?rel d2)"
    unfolding open_once_def l prod.case Let_def b_def [symmetric] rd by (simp add: bs sw del: if_split)
  also have "fst \<dots> = load_view crc verify m (?rel d2)" using same [of MANIFEST] f by (simp add: load_view_def)
  also have "\<dots> = load_view crc verify m d" using same by (intro load_view_cong) simp
  finally show ?thesis .
qed

lemma open_once_real:
  assumes "index_view crc S m" and "holds d S"
  shows "fst (open_once crc real_fs verify d) = load_view crc verify m d"
proof -
  obtain bs where "S MANIFEST = Some (Some bs)" "manifest_decode crc bs = Inr m" using assms(1) by (auto simp: index_view_def)
  then show ?thesis using assms(2) by (intro open_once_loads) (auto simp: holds_def)
qed

text \<open>Two disks that hold the same committed index open alike.\<close>

lemma open_once_same:
  assumes "index_view crc S m" "holds d S" "holds d' S"
  shows "fst (open_once crc real_fs verify d) = fst (open_once crc real_fs verify d')"
proof -
  have "dk_file d n = dk_file d' n" if n: "n \<in> insert MANIFEST (referenced_files m)" for n
  proof -
    have "\<exists>b. S n = Some b" using assms(1) n by (auto simp: index_view_def)
    then show ?thesis using assms(2,3) by (auto simp: holds_def)
  qed
  then have "load_view crc verify m d = load_view crc verify m d'" by (intro load_view_cong) blast
  then show ?thesis using open_once_real [OF assms(1)] assms(2,3) by simp
qed

section \<open>Finding documents\<close>

definition segs_sorted :: "segment list \<Rightarrow> bool" where
  "segs_sorted segs \<longleftrightarrow> sorted_wrt (\<lambda>a b. end_doc (seg_entry a) \<le> unat (base_doc (seg_entry b))) segs \<and>
     (\<forall>s \<in> set segs. end_doc (seg_entry s) \<le> 2 ^ 32 \<and> seg_num_docs s = num_docs (seg_entry s))"

definition owns :: "segment \<Rightarrow> u32 \<Rightarrow> bool" where
  "owns s i \<longleftrightarrow> unat (base_doc (seg_entry s)) \<le> unat i \<and> unat i < end_doc (seg_entry s)"

lemma locate_iff:
  assumes "segs_sorted (dx_segments x)"
  shows "locate x i = Some (s, l) \<longleftrightarrow> s \<in> set (dx_segments x) \<and> owns s i \<and> l = i - base_doc (seg_entry s)"
proof -
  let ?P = "\<lambda>s. end_doc (seg_entry s) \<le> unat i" and ?xs = "dx_segments x"
  define k where "k = partition_point ?P ?xs"
  have k: "k = length (takeWhile ?P ?xs)" by (simp add: k_def partition_point_def)
  have before: "\<not> owns (?xs ! j) i" if "j < k" for j
    using set_takeWhileD nth_mem that by (fastforce simp: k takeWhile_nth owns_def)
  have after: "\<not> owns (?xs ! j) i" if "k < j" "j < length ?xs" for j
  proof -
    have "\<not> ?P (?xs ! k)" using that nth_length_takeWhile [of ?P ?xs] by (simp add: k)
    moreover have "end_doc (seg_entry (?xs ! k)) \<le> unat (base_doc (seg_entry (?xs ! j)))"
      using assms that by (auto simp: segs_sorted_def sorted_wrt_iff_nth_less)
    ultimately show ?thesis by (simp add: owns_def)
  qed
  have only: "s \<in> set ?xs \<and> owns s i \<longleftrightarrow> k < length ?xs \<and> s = ?xs ! k \<and> owns s i" for s
    using before after by (metis in_set_conv_nth nat_neq_iff nth_mem)
  have P: "k < length ?xs \<Longrightarrow> \<not> ?P (?xs ! k)" using nth_length_takeWhile [of ?P ?xs] by (simp add: k)
  have "locate x i = Some (s, l) \<longleftrightarrow> k < length ?xs \<and> s = ?xs ! k \<and> owns s i \<and> l = i - base_doc (seg_entry s)"
    using P by (auto simp: locate_def Let_def k_def [symmetric] owns_def word_less_nat_alt not_less)
  then show ?thesis using only [of s] by blast
qed

lemma map_of_sorted_find:
  assumes "sorted_wrt (<) (map op_doc_id (dx_overlay x))"
  shows "overlay_for x i = Some p \<longleftrightarrow> p \<in> set (dx_overlay x) \<and> op_doc_id p = i"
proof -
  let ?xs = "dx_overlay x"
  define k where "k = length (takeWhile (\<lambda>p. op_doc_id p < i) ?xs)"
  have before: "op_doc_id (?xs ! j) < i" if "j < k" for j
    using set_takeWhileD nth_mem that by (fastforce simp: k_def takeWhile_nth)
  have after: "i < op_doc_id (?xs ! j)" if "k < j" "j < length ?xs" for j
  proof -
    have "\<not> op_doc_id (?xs ! k) < i" using that nth_length_takeWhile [of "\<lambda>p. op_doc_id p < i" ?xs] by (simp add: k_def)
    moreover have "op_doc_id (?xs ! k) < op_doc_id (?xs ! j)" using assms that by (simp add: sorted_wrt_map sorted_wrt_iff_nth_less)
    ultimately show ?thesis by simp
  qed
  have "p \<in> set ?xs \<and> op_doc_id p = i \<longleftrightarrow> k < length ?xs \<and> p = ?xs ! k \<and> op_doc_id p = i"
    using before after by (metis in_set_conv_nth less_irrefl nat_neq_iff nth_mem)
  then show ?thesis by (auto simp: overlay_for_def partition_point_def k_def [symmetric] Let_def)
qed

lemma open_once_eq:
  assumes "fs_lock F LOCK w = (l, w1)" and "fs_read F MANIFEST w1 = (rd, w2)"
  shows "open_once crc F verify w =
    (let b = (case l of Inr _ \<Rightarrow> True | Inl _ \<Rightarrow> False); rel = (if b then fs_unlock F else (\<lambda>w. w)) in
      case rd of
        Inl e \<Rightarrow> (if e = NotFound then Inr None else Inl (SIo e), rel w2)
      | Inr bs \<Rightarrow>
          (case manifest_decode crc bs of
             Inl (Version v) \<Rightarrow> (Inl (Incompatible MANIFEST v), rel w2)
           | Inl e \<Rightarrow> (Inr None, rel w2)
           | Inr m \<Rightarrow>
               (case (if b then sweep F m w2 else (Inr (), w2)) of (r, w) \<Rightarrow>
                case r of
                  Inl e \<Rightarrow> (Inl e, rel w)
                | Inr _ \<Rightarrow> and_do (load_index crc F verify m (of_nat (length bs))) (\<lambda>x. ok_with (Some x)) (rel w))))"
  unfolding open_once_def assms prod.case Let_def by (cases rd) simp_all

text \<open>What holds of every index \<open>open\<close> returns.\<close>

definition index_ok :: "(bytes \<Rightarrow> u32) \<Rightarrow> bool \<Rightarrow> disk_index \<Rightarrow> bool" where
  "index_ok crc verify x \<longleftrightarrow> manifest_ok (dx_manifest x) \<and> map seg_entry (dx_segments x) = segments (dx_manifest x) \<and>
     (\<forall>s \<in> set (dx_segments x). seg_valid crc verify s)"

lemma load_segments_valid:
  "load_segments crc F verify es w = (Inr ss, w') \<Longrightarrow> map seg_entry ss = es \<and> (\<forall>s \<in> set ss. seg_valid crc verify s)"
proof (induction es arbitrary: w ss)
  case (Cons e es)
  then obtain s w1 ss' where "segment_open crc F e verify w = (Inr s, w1)" "load_segments crc F verify es w1 = (Inr ss', w')" "ss = s # ss'"
    by (auto simp: and_do_Inr)
  then show ?case using Cons.IH segment_open_valid by fastforce
qed simp

text \<open>A successful \<open>open\<close> ends with loading the index of the manifest it decoded.\<close>

lemma open_once_loaded:
  assumes "open_once crc F verify w = (Inr (Some y), w')"
  shows "\<exists>m len w3. manifest_ok m \<and> load_index crc F verify m len w3 = (Inr y, w')"
proof -
  obtain l w1 where l: "fs_lock F LOCK w = (l, w1)" by force
  obtain rd w2 where rd: "fs_read F MANIFEST w1 = (rd, w2)" by force
  define b where "b = (case l of Inr _ \<Rightarrow> True | Inl _ \<Rightarrow> False)"
  note o = open_once_eq [OF l rd, of crc verify, unfolded Let_def, folded b_def]
  obtain bs where bs: "rd = Inr bs" using assms unfolding o by (cases rd) (simp_all split: if_splits)
  obtain m where m: "manifest_decode crc bs = Inr m"
  proof (cases "manifest_decode crc bs")
    case (Inl e)
    then show ?thesis using assms unfolding o bs by (cases e) simp_all
  qed
  obtain r3 w3 where w3: "(if b then sweep F m w2 else (Inr (), w2)) = (r3, w3)" by force
  obtain u where u: "r3 = Inr u" using assms unfolding o bs by (cases r3) (simp_all add: m w3)
  let ?load = "load_index crc F verify m (of_nat (length bs))"
  have "and_do ?load (\<lambda>x. ok_with (Some x)) ((if b then fs_unlock F else (\<lambda>w. w)) w3) = (Inr (Some y), w')"
    using assms unfolding o by (simp add: bs m w3 u)
  then have "\<exists>w4. ?load w4 = (Inr y, w')" unfolding and_do_Inr by auto
  then show ?thesis using manifest_decode_sound [OF m] by blast
qed

lemma load_index_result:
  assumes "load_index crc F verify m len w = (Inr y, w')"
  shows "\<exists>segs ovl ol w1. y = (m, len, segs, ovl, ol) \<and> load_segments crc F verify (segments m) w = (Inr segs, w1) \<and> load_overlay crc F m w1 = (Inr (ovl, ol), w')"
  using assms unfolding load_index_def by (auto simp add: and_do_Inr split: prod.splits)

lemma open_once_ok:
  assumes "open_once crc F verify w = (Inr (Some (m, len, segs, ovl, ol)), w')"
  shows "manifest_ok m \<and> map seg_entry segs = segments m \<and> (\<forall>s \<in> set segs. seg_valid crc verify s)"
proof -
  obtain m' len' w3 where m': "manifest_ok m'" "load_index crc F verify m' len' w3 = (Inr (m, len, segs, ovl, ol), w')"
    using open_once_loaded [OF assms] by blast
  then obtain w5 where "m = m'" and ls: "load_segments crc F verify (segments m') w3 = (Inr segs, w5)"
    using load_index_result [OF m'(2)] by auto
  then show ?thesis using load_segments_valid [OF ls] m'(1) by simp
qed

lemma open_index_once:
  assumes "open_index crc F pause rt verify w = (Inr (Some x), w')"
  shows "\<exists>y w1. open_once crc F verify w1 = (Inr (Some y), w') \<and> x = make_index rt y"
proof -
  have loop: "open_loop crc F pause verify n p w = (Inr (Some y), w') \<Longrightarrow> \<exists>w1. open_once crc F verify w1 = (Inr (Some y), w')" for n p w y
  proof (induction n arbitrary: p w)
    case (Suc n)
    obtain r w1 where o: "open_once crc F verify w = (r, w1)" by force
    show ?case
    proof (cases "\<exists>q. r = Inl (Vanished q)")
      case True
      then show ?thesis using Suc o by auto
    next
      case False
      then have "r = Inr (Some y)" "w1 = w'" using Suc.prems o by (auto split: sum.splits store_error.splits)
      then show ?thesis using o by blast
    qed
  qed simp
  from assms obtain y where "open_loop crc F pause verify MAX_ATTEMPTS [] w = (Inr (Some y), w')" "x = make_index rt y"
    by (auto simp: open_index_def and_do_Inr dest!: sym [of "Some x"])
  then show ?thesis using loop by blast
qed

lemma open_index_ok:
  assumes "open_index crc F pause rt verify w = (Inr (Some x), w')"
  shows "index_ok crc verify x"
proof -
  obtain y w1 where y: "open_once crc F verify w1 = (Inr (Some y), w')" "x = make_index rt y" using open_index_once [OF assms] by blast
  obtain m len segs ovl ol where "y = (m, len, segs, ovl, ol)" by (cases y)
  then show ?thesis using open_once_ok y by (simp add: index_ok_def make_index_def recompute_stats_def Let_def)
qed

lemma index_ok_sorted: "index_ok crc verify x \<Longrightarrow> segs_sorted (dx_segments x)"
proof -
  assume ok: "index_ok crc verify x"
  then have m: "map seg_entry (dx_segments x) = segments (dx_manifest x)" by (simp add: index_ok_def)
  have "sorted_wrt (\<lambda>a b. end_doc a \<le> unat (base_doc b)) (segments (dx_manifest x))"
    "\<forall>e \<in> set (segments (dx_manifest x)). end_doc e \<le> 2 ^ 32"
    using ok chain_ok_sorted by (auto simp: index_ok_def manifest_ok_def entry_ok_def)
  then have "sorted_wrt (\<lambda>a b. end_doc (seg_entry a) \<le> unat (base_doc (seg_entry b))) (dx_segments x)"
    "\<forall>s \<in> set (dx_segments x). end_doc (seg_entry s) \<le> 2 ^ 32"
    unfolding m [symmetric] by (simp_all add: sorted_wrt_map)
  moreover have "\<forall>s \<in> set (dx_segments x). seg_num_docs s = num_docs (seg_entry s)"
    using ok by (auto simp: index_ok_def seg_valid_def Let_def)
  ultimately show ?thesis by (simp add: segs_sorted_def)
qed

text \<open>A verified index meets the interface of the query engine.\<close>

lemma verified_segs_ok:
  assumes "index_ok crc True x"
  shows "disk_segment.segs_ok (dx_segments x)"
proof -
  have s: "segs_sorted (dx_segments x)" by (rule index_ok_sorted [OF assms])
  have ops: "sg_base disk_segment_ops s = base_doc (seg_entry s)" "sg_num_docs disk_segment_ops s = seg_num_docs s" for s
    by (simp_all add: disk_segment_ops_def)
  have e: "unat (base_doc (seg_entry s)) + unat (seg_num_docs s) = end_doc (seg_entry s)" if "s \<in> set (dx_segments x)" for s
    using s that by (simp add: segs_sorted_def end_doc_def)
  have "seg_lists_ok s" if "s \<in> set (dx_segments x)" for s
    using assms that verified_lists_ok by (auto simp: index_ok_def seg_valid_def Let_def)
  moreover have "sorted_wrt (\<lambda>a b. unat (base_doc (seg_entry a)) + unat (seg_num_docs a) \<le> unat (base_doc (seg_entry b))) (dx_segments x)"
  proof (rule sorted_wrt_mono_rel [rotated])
    show "sorted_wrt (\<lambda>a b. end_doc (seg_entry a) \<le> unat (base_doc (seg_entry b))) (dx_segments x)" using s by (simp add: segs_sorted_def)
    fix a b assume "a \<in> set (dx_segments x)" "end_doc (seg_entry a) \<le> unat (base_doc (seg_entry b))"
    then show "unat (base_doc (seg_entry a)) + unat (seg_num_docs a) \<le> unat (base_doc (seg_entry b))" using e by metis
  qed
  moreover have "unat (base_doc (seg_entry s)) + unat (seg_num_docs s) \<le> 2 ^ 32" if "s \<in> set (dx_segments x)" for s
    using s that unfolding e [OF that] segs_sorted_def by blast
  ultimately show ?thesis unfolding disk_segment.segs_ok_def ops by blast
qed

lemma owned_id:
  assumes "segs_sorted (dx_segments x)" and "s \<in> set (dx_segments x)" and "l < unat (seg_num_docs s)"
  shows "unat (base_doc (seg_entry s) + of_nat l) = unat (base_doc (seg_entry s)) + l"
    and "locate x (base_doc (seg_entry s) + of_nat l) = Some (s, of_nat l)"
proof -
  have b: "unat (base_doc (seg_entry s)) + l < end_doc (seg_entry s)" "end_doc (seg_entry s) \<le> 2 ^ 32"
    using assms by (auto simp: segs_sorted_def end_doc_def)
  then have l: "unat (of_nat l :: u32) = l" by (intro unat_of_nat_less) simp
  then show u: "unat (base_doc (seg_entry s) + of_nat l) = unat (base_doc (seg_entry s)) + l"
    using b by (simp add: unat_word_ariths)
  show "locate x (base_doc (seg_entry s) + of_nat l) = Some (s, of_nat l)"
    unfolding locate_iff [OF assms(1)] owns_def u using assms(2) b by simp
qed

lemma set_map_filter: "set (List.map_filter f xs) = {y. \<exists>x \<in> set xs. f x = Some y}"
  by (induction xs) (auto simp: List.map_filter_def)

text \<open>The listing has exactly the documents a lookup by id finds, in ascending order of their ids.\<close>

lemma docs_iter_set:
  assumes "segs_sorted (dx_segments x)"
  shows "(i, m) \<in> set (docs_iter x) \<longleftrightarrow> dx_doc x i = Some m"
proof
  assume "(i, m) \<in> set (docs_iter x)"
  then show "dx_doc x i = Some m" by (auto simp: docs_iter_def docs_of_segment_def set_map_filter Let_def)
next
  assume d: "dx_doc x i = Some m"
  then obtain s l where "locate x i = Some (s, l)" by (auto simp: dx_doc_def split: bind_splits)
  then have s: "s \<in> set (dx_segments x)" "owns s i" "l = i - base_doc (seg_entry s)" unfolding locate_iff [OF assms] by auto
  let ?l = "unat i - unat (base_doc (seg_entry s))"
  have "?l < unat (seg_num_docs s)" "base_doc (seg_entry s) + of_nat ?l = i"
    using s assms by (auto simp: owns_def segs_sorted_def end_doc_def word_unat_eq_iff unat_word_ariths)
  then have "(i, m) \<in> set (docs_of_segment x s)" using d by (force simp: docs_of_segment_def set_map_filter Let_def)
  then show "(i, m) \<in> set (docs_iter x)" using s(1) by (auto simp: docs_iter_def)
qed

text \<open>In a verified segment every document that is not deleted has its metadata.\<close>

lemma verified_doc_meta:
  assumes "seg_valid crc True s" and "l < unat (seg_num_docs s)"
  shows "seg_doc_meta s (of_nat l) rt \<noteq> None \<longleftrightarrow> \<not> seg_is_deleted s (of_nat l)"
proof -
  obtain v where v: "doc_parse (seg_doc_map s) = Inr v" "seg_docs s = Some v" "doc_verify crc v = Inr ()"
    using assms(1) by (auto simp: seg_valid_def Let_def)
  have n: "dtv_num_docs v = seg_num_docs s" using v(2) by (auto simp: seg_docs_def doc_from_parts_def)
  obtain rs where rs: "length rs = unat (seg_num_docs s)" "\<forall>i < length rs. record_valid v i (rs ! i)"
    using doc_verify_facts [OF v(3)] n by auto
  have "unat (of_nat l :: u32) = l" using assms(2) unat_bounds(2) [of "seg_num_docs s"] by (intro unat_of_nat_less) simp
  moreover have "doc_record v l = Some (rs ! l)" "doc_path v l \<noteq> None" using rs assms(2) by (auto simp: record_valid_def)
  ultimately show ?thesis by (auto simp: seg_doc_meta_def v(2) split: bind_splits)
qed

lemma deleted_count:
  assumes "seg_valid crc verify s"
  shows "card {l. l < unat (seg_num_docs s) \<and> seg_is_deleted s (of_nat l)} = unat (num_deleted (seg_entry s)) \<or> seg_del s = None"
proof (cases "seg_del s")
  case (Some b)
  then have b: "bitmap_ok b" "bm_num_docs b = seg_num_docs s" "bitmap_count b = num_deleted (seg_entry s)"
    using assms by (auto simp: seg_valid_def Let_def)
  have "{l. l < unat (seg_num_docs s) \<and> seg_is_deleted s (of_nat l)} = unat ` {i. bitmap_get b i}"
  proof (intro set_eqI iffI)
    fix l assume "l \<in> {l. l < unat (seg_num_docs s) \<and> seg_is_deleted s (of_nat l)}"
    moreover from this have "unat (of_nat l :: u32) = l" using unat_bounds(2) [of "seg_num_docs s"] by (intro unat_of_nat_less) simp
    ultimately show "l \<in> unat ` {i. bitmap_get b i}" using Some by (intro image_eqI [of _ _ "of_nat l"]) (simp_all add: seg_is_deleted_def)
  next
    fix l assume "l \<in> unat ` {i. bitmap_get b i}"
    then obtain i where "bitmap_get b i" "l = unat i" by blast
    moreover from this have "i < seg_num_docs s" using b(2) by (simp add: bitmap_get_def split: if_splits)
    ultimately show "l \<in> {l. l < unat (seg_num_docs s) \<and> seg_is_deleted s (of_nat l)}"
      using Some by (simp add: seg_is_deleted_def word_less_nat_alt)
  qed
  then have "card {l. l < unat (seg_num_docs s) \<and> seg_is_deleted s (of_nat l)} = card {i. bitmap_get b i}"
    by (simp add: card_image inj_on_def word_unat_eq_iff)
  then show ?thesis using bitmap_count_correct [OF b(1)] b(3) by simp
qed simp

lemma length_map_filter: "length (List.map_filter f xs) = length (filter (\<lambda>x. f x \<noteq> None) xs)"
  by (induction xs) (auto simp: List.map_filter_def)

lemma length_docs_of_segment:
  assumes "index_ok crc True x" and "s \<in> set (dx_segments x)"
  shows "length (docs_of_segment x s) = card {l. l < unat (seg_num_docs s) \<and> \<not> seg_is_deleted s (of_nat l)}"
proof -
  have sv: "seg_valid crc True s" using assms by (simp add: index_ok_def)
  have "dx_doc x (base_doc (seg_entry s) + of_nat l) \<noteq> None \<longleftrightarrow> \<not> seg_is_deleted s (of_nat l)" if "l < unat (seg_num_docs s)" for l
    using verified_doc_meta [OF sv that, of "dx_root x"] owned_id(2) [OF index_ok_sorted [OF assms(1)] assms(2) that]
    by (auto simp: dx_doc_def split: bind_splits)
  then have "filter (\<lambda>l. dx_doc x (base_doc (seg_entry s) + of_nat l) \<noteq> None) [0..<unat (seg_num_docs s)] =
      filter (\<lambda>l. \<not> seg_is_deleted s (of_nat l)) [0..<unat (seg_num_docs s)]"
    by (intro filter_cong) auto
  then have "length (docs_of_segment x s) = length (filter (\<lambda>l. \<not> seg_is_deleted s (of_nat l)) [0..<unat (seg_num_docs s)])"
    by (simp add: docs_of_segment_def length_map_filter Let_def)
  also have "\<dots> = card (set (filter (\<lambda>l. \<not> seg_is_deleted s (of_nat l)) [0..<unat (seg_num_docs s)]))"
    by (rule distinct_card [symmetric]) simp
  finally show ?thesis by (simp add: conj_commute)
qed

text \<open>
  Each segment lists the documents its entry counts as live, provided that an entry without a deletion file counts
  no deletions: the writers keep to that, but neither the manifest nor the segment is checked for it.
\<close>

definition deletions_recorded :: "disk_index \<Rightarrow> bool" where
  "deletions_recorded x \<longleftrightarrow> (\<forall>s \<in> set (dx_segments x). del_gen (seg_entry s) = 0 \<longrightarrow> num_deleted (seg_entry s) = 0)"

lemma segment_live_count:
  assumes "index_ok crc True x" and "s \<in> set (dx_segments x)" and "deletions_recorded x"
  shows "ucast (num_docs (seg_entry s)) - ucast (num_deleted (seg_entry s)) = (of_nat (length (docs_of_segment x s)) :: u64)"
    and "length (docs_of_segment x s) \<le> unat (num_docs (seg_entry s))"
proof -
  have sv: "seg_valid crc True s" using assms by (simp add: index_ok_def)
  let ?n = "unat (seg_num_docs s)" and ?D = "{l. l < unat (seg_num_docs s) \<and> seg_is_deleted s (of_nat l)}"
    and ?L = "{l. l < unat (seg_num_docs s) \<and> \<not> seg_is_deleted s (of_nat l)}"
  have n: "seg_num_docs s = num_docs (seg_entry s)" using sv by (simp add: seg_valid_def Let_def)
  have "?D \<union> ?L = {..<?n}" "?D \<inter> ?L = {}" by auto
  then have split: "card ?D + card ?L = ?n" using card_Un_disjoint [of ?D ?L] by simp
  have d: "card ?D = unat (num_deleted (seg_entry s))"
  proof (cases "seg_del s")
    case None
    then have "card ?D = 0" by (simp add: seg_is_deleted_def)
    moreover have "num_deleted (seg_entry s) = 0" using assms(2,3) None sv by (simp add: seg_valid_def Let_def deletions_recorded_def)
    ultimately show ?thesis by simp
  next
    case (Some b)
    then show ?thesis using deleted_count [OF sv] by simp
  qed
  have len: "length (docs_of_segment x s) = card ?L" by (rule length_docs_of_segment [OF assms(1,2)])
  then show "length (docs_of_segment x s) \<le> unat (num_docs (seg_entry s))" using split n by simp
  define a b c where "a = unat (num_docs (seg_entry s))" and "b = unat (num_deleted (seg_entry s))" and "c = card ?L"
  have "a = b + c" using split d n by (simp add: a_def b_def c_def)
  then have "of_nat a - of_nat b = (of_nat c :: u64)" by simp
  moreover have "(of_nat (unat w) :: u64) = ucast w" for w :: u32 by simp
  ultimately show "ucast (num_docs (seg_entry s)) - ucast (num_deleted (seg_entry s)) = (of_nat (length (docs_of_segment x s)) :: u64)"
    unfolding len a_def b_def c_def by simp
qed

lemma sum_segs_of_nat:
  "\<forall>s \<in> set (dx_segments x). f s = of_nat (g s) \<Longrightarrow> sum_segs f x = of_nat (sum_list (map g (dx_segments x)))"
proof -
  have "\<forall>s \<in> set ss. f s = of_nat (g s) \<Longrightarrow> foldl (\<lambda>n s. n + f s) a ss = a + of_nat (sum_list (map g ss))" for a ss
    by (induction ss arbitrary: a) simp_all
  from this [of "dx_segments x" 0] show "\<forall>s \<in> set (dx_segments x). f s = of_nat (g s) \<Longrightarrow> ?thesis" by (simp add: sum_segs_def)
qed

lemma sorted_total:
  assumes "sorted_wrt (\<lambda>a b. end_doc a \<le> unat (base_doc b)) es" and "\<forall>e \<in> set es. B \<le> unat (base_doc e)" and "\<forall>e \<in> set es. end_doc e \<le> M" and "B \<le> M"
  shows "B + sum_list (map (\<lambda>e. unat (num_docs e)) es) \<le> M"
  using assms
proof (induction es arbitrary: B)
  case (Cons e es)
  have "end_doc e + sum_list (map (\<lambda>e. unat (num_docs e)) es) \<le> M"
    by (rule Cons.IH) (use Cons.prems in auto)
  then show ?case using Cons.prems(2) by (simp add: end_doc_def)
qed simp

lemma live_docs_listed_lemma:
  assumes "index_ok crc True x" and "deletions_recorded x" and "dx_live_docs x = dx_live_docs (recompute_stats x)"
  shows "docs_len x = length (docs_iter x)"
proof -
  let ?g = "\<lambda>s. length (docs_of_segment x s)"
  have live: "dx_live_docs x = of_nat (sum_list (map ?g (dx_segments x)))"
    using assms(3) sum_segs_of_nat [of x "\<lambda>s. ucast (num_docs (seg_entry s)) - ucast (num_deleted (seg_entry s))" ?g]
      segment_live_count(1) [OF assms(1) _ assms(2)] by (simp add: recompute_stats_def Let_def)
  have "sum_list (map ?g (dx_segments x)) \<le> sum_list (map (\<lambda>s. unat (num_docs (seg_entry s))) (dx_segments x))"
    by (rule sum_list_mono) (rule segment_live_count(2) [OF assms(1) _ assms(2)])
  moreover have "0 + sum_list (map (\<lambda>e. unat (num_docs e)) (map seg_entry (dx_segments x))) \<le> 2 ^ 32"
    using index_ok_sorted [OF assms(1)] by (intro sorted_total) (simp_all add: segs_sorted_def sorted_wrt_map)
  ultimately have "sum_list (map ?g (dx_segments x)) \<le> 2 ^ 32" by (simp add: comp_def)
  then have "unat (of_nat (sum_list (map ?g (dx_segments x))) :: u64) = sum_list (map ?g (dx_segments x))"
    by (simp add: comp_def unat_of_nat64)
  then show ?thesis by (simp add: docs_len_def live docs_iter_def length_concat comp_def)
qed

text \<open>Every hit of a search has its document.\<close>

lemma matching_doc:
  assumes "index_ok crc True x" and "i \<in> disk_segment.matching (dx_segments x) nd"
  shows "\<exists>m. dx_doc x i = Some m \<and> dm_status m = Indexed"
proof -
  from assms(2) obtain s d where s: "s \<in> set (dx_segments x)" "i = base_doc (seg_entry s) + d"
    and m: "matches (seg_plists s) (disk_segment.live s) nd d"
    unfolding disk_segment.matching_def by (auto simp: disk_segment_ops_def)
  have l: "seg_doc_len s d \<noteq> None"
    using disk_segment.matches_live [OF m] unfolding disk_segment.live_def by (simp add: disk_segment_ops_def)
  then have d: "d < seg_num_docs s" "\<not> seg_is_deleted s d" by (auto simp: seg_doc_len_def split: if_splits)
  have sv: "seg_valid crc True s" using assms(1) s(1) by (simp add: index_ok_def)
  obtain v where v: "seg_docs s = Some v" using sv by (auto simp: seg_valid_def Let_def)
  have dn: "unat d < unat (seg_num_docs s)" "of_nat (unat d) = d" using d(1) by (simp_all add: word_less_nat_alt)
  have "seg_doc_meta s d (dx_root x) \<noteq> None" using verified_doc_meta [OF sv dn(1), of "dx_root x"] d(2) by simp
  then obtain r rel meta where r: "doc_record v (unat d) = Some r" "seg_doc_meta s d (dx_root x) = Some meta"
    "dm_status meta = (case dr_kind r of None \<Rightarrow> Skipped | Some k \<Rightarrow> status_of_kind k)"
    by (auto simp: seg_doc_meta_def v split: bind_splits if_splits)
  have "seg_doc_len s d = doc_len_if_indexed v (unat d)" using seg_doc_len_in_range(2) [OF sv d(1,2)] v by simp
  then have "dr_status r = STATUS_INDEXED" using l doc_len_if_indexed_record [OF r(1)] by (auto simp: dr_indexed_def split: if_splits)
  then have "dm_status meta = Indexed" using r(3) by (simp add: dr_kind_def kind_from_byte_def status_defs)
  moreover have "locate x i = Some (s, d)" using owned_id(2) [OF index_ok_sorted [OF assms(1)] s(1) dn(1)] s(2) dn(2) by simp
  ultimately show ?thesis using r(2) by (cases "overlay_for x i") (simp_all add: dx_doc_def)
qed

end
