(* ===== verification/Writer.thy ===== *)
theory Writer
  imports Reader Builder
begin

text \<open>
  Building segments and committing them (\<open>src/store/writer.rs\<close>): the segment accumulator, the splitting of a list of
  files into segments, the writing of one segment, the deletion of documents, and a full build. A file that
  is about to be written is recorded first, so that a failing operation can tidy up. Progress callbacks, statistics
  of the process and the crawl itself are left out: the crawled files are an argument.

  A buffered writer that is dropped after an error may write more of its buffer to the temporary file; that is left out.
  What the definitions do is proved in \<open>Segment_Acc\<close> (the accumulator and the bytes of a segment) and \<open>Build\<close> (builds and
  deletions on a disk).
\<close>

section \<open>What the writer takes from outside\<close>

record 'w outside =
  o_crc :: "bytes \<Rightarrow> u32"
  o_unicode :: unicode
  o_hash :: "bytes \<Rightarrow> u64"
  o_read :: "bytes \<Rightarrow> bytes option"          \<comment> \<open>the files under the root\<close>
  o_lossy :: "bytes \<Rightarrow> bytes"                 \<comment> \<open>\<open>to_string_lossy\<close>\<close>
  o_memory :: "mem_store \<Rightarrow> nat"              \<comment> \<open>\<open>memory_bytes\<close>: capacities of the allocator\<close>
  o_cut :: "bytes \<Rightarrow> bytes list"              \<comment> \<open>how \<open>BufWriter\<close> cuts a stream into writes\<close>
  o_pause :: "'w \<Rightarrow> 'w"                       \<comment> \<open>what others do while a thread sleeps\<close>
  o_tries :: nat                              \<comment> \<open>retries of the lock before the deadline\<close>
  o_threads :: nat                            \<comment> \<open>\<open>rayon::current_num_threads\<close>\<close>
  o_now :: int
  o_root :: bytes

record build_config =
  bc_docs_per_segment :: nat
  bc_segment_bytes :: nat
  bc_shard_size :: nat

section \<open>The segment accumulator\<close>

record segment_acc =
  ac_base :: u32
  ac_docs :: "doc_meta list"
  ac_store :: mem_store
  ac_tokens :: u64

definition acc_new :: "u32 \<Rightarrow> segment_acc" where
  "acc_new base = \<lparr>ac_base = base, ac_docs = [], ac_store = [], ac_tokens = 0\<rparr>"

text \<open>\<open>self.docs[(doc - self.base) as usize]\<close>; \<open>None\<close>: the index would panic.\<close>

definition acc_update :: "u32 \<Rightarrow> u32 \<Rightarrow> (doc_meta \<Rightarrow> doc_meta) \<Rightarrow> doc_meta list \<Rightarrow> doc_meta list option" where
  "acc_update base doc f ds = (let i = unat (doc - base) in if i < length ds then Some (ds[i := f (ds ! i)]) else None)"

definition absorb :: "shard \<Rightarrow> file_entry list \<Rightarrow> segment_acc \<Rightarrow> segment_acc option" where
  "absorb sh entries a =
     (let docs = ac_docs a @ map from_entry entries in
      Option.bind (fold_opt (\<lambda>(doc, len, h). acc_update (ac_base a) doc (\<lambda>m. m\<lparr>dm_status := Indexed, dm_len := len, dm_content_hash := h\<rparr>))
        (sh_doc_lens sh) docs) (\<lambda>docs.
      Option.bind (fold_opt (\<lambda>(doc, h) docs. case h of None \<Rightarrow> Some docs | Some h \<Rightarrow> acc_update (ac_base a) doc (\<lambda>m. m\<lparr>dm_content_hash := h\<rparr>) docs)
        (sh_skipped sh) docs) (\<lambda>docs.
      Option.bind (fold_opt (\<lambda>(doc, st). acc_update (ac_base a) doc (\<lambda>m. m\<lparr>dm_status := st\<rparr>)) (sh_non_text sh) docs) (\<lambda>docs.
      Some (a\<lparr>ac_docs := docs, ac_tokens := ac_tokens a + sh_tokens sh, ac_store := merge_shard (ac_store a) (sh_terms sh)\<rparr>)))))"

definition over_budget :: "'w outside \<Rightarrow> build_config \<Rightarrow> segment_acc \<Rightarrow> bool" where
  "over_budget E cfg a \<longleftrightarrow> max (bc_docs_per_segment cfg) 1 \<le> length (ac_docs a) \<or> bc_segment_bytes cfg \<le> o_memory E (ac_store a)"

section \<open>Writing a segment\<close>

text \<open>The world of an operation that records the files it creates.\<close>

type_synonym ('w, 'a) logged = "('w \<times> name list, 'a) act"

definition push_new :: "name \<Rightarrow> ('w, unit) logged" where
  "push_new n = (\<lambda>(w, files). (Inr (), (w, files @ [n])))"

definition inner :: "('w, 'a) act \<Rightarrow> ('w, 'a) logged" where
  "inner m = (\<lambda>(w, files). case m w of (r, w) \<Rightarrow> (r, (w, files)))"

definition try_format :: "'a fresult \<Rightarrow> ('w, 'a) act" where
  "try_format r w = (case r of Inl e \<Rightarrow> Inl (SFormat e) | Inr x \<Rightarrow> Inr x, w)"

fun write_pieces :: "'w fs \<Rightarrow> handle \<Rightarrow> bytes list \<Rightarrow> ('w, unit) act" where
  "write_pieces F h [] = ok_with ()"
| "write_pieces F h (p # ps) = and_do (io (write_all F h p)) (\<lambda>_. write_pieces F h ps)"

text \<open>\<open>idx::write\<close> through a buffered writer, then sync and close. If the encoder refuses, what it had streamed to the temporary file by then is left out.\<close>

definition write_idx :: "'w outside \<Rightarrow> 'w fs \<Rightarrow> name \<Rightarrow> (bytes \<times> plist) list \<Rightarrow> ('w, idx_summary) act" where
  "write_idx E F path terms =
     and_do (io (fs_create F path)) (\<lambda>f w.
       case and_do (try_format (idx_write (o_crc E) [] terms)) (\<lambda>(bs, summary).
            and_do (write_pieces F f (o_cut E bs)) (\<lambda>_.
            and_do (io (fs_sync_all F f)) (\<lambda>_. ok_with summary))) w
       of (r, w) \<Rightarrow> (r, fs_close F f w))"

text \<open>The terms of a store, with local ids, in the order of their bytes.\<close>

definition rebased :: "u32 \<Rightarrow> plist \<Rightarrow> plist" where
  "rebased base ps = map (\<lambda>(d, qs). (d - base, qs)) ps"

definition acc_terms :: "segment_acc \<Rightarrow> (bytes \<times> plist) list" where
  "acc_terms a = sort_key fst (map (\<lambda>(t, l). (t, rebased (ac_base a) l)) (ac_store a))"

definition doc_in_of :: "'w outside \<Rightarrow> doc_meta \<Rightarrow> doc_in" where
  "doc_in_of E m = \<lparr>di_path = relative_path (o_lossy E) (o_root E) (dm_path m), di_inode = dm_inode m,
     di_mtime_nanos = time_to_nanos (dm_mtime m), di_size = dm_size m, di_len = dm_len m,
     di_kind = kind_of_status (dm_status m), di_content_hash = dm_content_hash m\<rparr>"

text \<open>A new file: recorded, written to its temporary name, recorded, renamed.\<close>

definition publish_new :: "'w fs \<Rightarrow> name \<Rightarrow> bytes \<Rightarrow> ('w, unit) logged" where
  "publish_new F n bs =
     and_do (push_new (tmp_name n)) (\<lambda>_.
     and_do (inner (write_whole F (tmp_name n) bs)) (\<lambda>_.
     and_do (push_new n) (\<lambda>_. inner (io (fs_rename F (tmp_name n) n)))))"

definition flush_segment :: "'w outside \<Rightarrow> 'w fs \<Rightarrow> u32 \<Rightarrow> segment_acc \<Rightarrow> ('w, segment_entry) logged" where
  "flush_segment E F i a =
     and_do (push_new (tmp_name (idx_name i))) (\<lambda>_.
     and_do (inner (write_idx E F (tmp_name (idx_name i)) (acc_terms a))) (\<lambda>summary.
     and_do (push_new (idx_name i)) (\<lambda>_.
     and_do (inner (io (fs_rename F (tmp_name (idx_name i)) (idx_name i)))) (\<lambda>_.
     and_do (inner (try_format (doc_encode (o_crc E) (map (doc_in_of E) (ac_docs a))))) (\<lambda>bs.
     and_do (inner (try_format (doc_parse bs))) (\<lambda>view.
     and_do (push_new (tmp_name (doc_name i))) (\<lambda>_.
     and_do (inner (write_whole F (tmp_name (doc_name i)) bs)) (\<lambda>_.
     and_do (push_new (doc_name i)) (\<lambda>_.
     and_do (inner (io (fs_rename F (tmp_name (doc_name i)) (doc_name i)))) (\<lambda>_.
     ok_with \<lparr>segment_id = i, del_gen = 0, base_doc = ac_base a, num_docs = of_nat (length (ac_docs a)), num_deleted = 0,
       idx_crc = is_crc summary, doc_crc = env_crc (dtv_env view), del_crc = 0, idx_len = is_len summary,
       doc_len = of_nat (length bs), del_len = 0, num_tokens = is_num_tokens summary, num_postings = is_num_postings summary,
       num_terms = is_num_terms summary\<rparr>))))))))))"

section \<open>Building segments\<close>

text \<open>The state of the loops: the entries so far, the accumulator, and the next segment id.\<close>

type_synonym build_state = "segment_entry list \<times> segment_acc \<times> u32"

definition absorb_shard :: "'w outside \<Rightarrow> 'w fs \<Rightarrow> build_config \<Rightarrow> shard \<times> file_entry list \<Rightarrow> build_state \<Rightarrow> ('w, build_state) logged option" where
  "absorb_shard E F cfg = (\<lambda>(sh, chunk) (entries, acc, next_id).
     map_option (\<lambda>acc.
         if over_budget E cfg acc then
           and_do (flush_segment E F next_id acc) (\<lambda>e. ok_with (entries @ [e], acc_new (ac_base acc + of_nat (length (ac_docs acc))), next_id + 1))
         else ok_with (entries, acc, next_id))
       (absorb sh chunk acc))"

text \<open>A panic ends the thread: it is the result \<open>None\<close>.\<close>

fun absorb_shards :: "'w outside \<Rightarrow> 'w fs \<Rightarrow> build_config \<Rightarrow> (shard \<times> file_entry list) list \<Rightarrow> build_state \<Rightarrow>
    'w \<times> name list \<Rightarrow> ((store_error + build_state) \<times> 'w \<times> name list) option" where
  "absorb_shards E F cfg [] st w = Some (Inr st, w)"
| "absorb_shards E F cfg (x # xs) st w =
     Option.bind (absorb_shard E F cfg x st) (\<lambda>m.
       case m w of (Inl e, w) \<Rightarrow> Some (Inl e, w) | (Inr st, w) \<Rightarrow> absorb_shards E F cfg xs st w)"

definition batch_shards :: "'w outside \<Rightarrow> nat \<Rightarrow> u32 \<Rightarrow> file_entry list \<Rightarrow> (shard \<times> file_entry list) list" where
  "batch_shards E shard_size first files = map (\<lambda>(i, chunk).
     (index_shard (o_unicode E) (o_read E) (o_hash E) (first + of_nat (i * shard_size)) chunk, chunk)) (enumerate 0 (chunks shard_size files))"

definition build_segments :: "'w outside \<Rightarrow> 'w fs \<Rightarrow> build_config \<Rightarrow> file_entry list \<Rightarrow> u32 \<Rightarrow> u32 \<Rightarrow>
    'w \<times> name list \<Rightarrow> ((store_error + segment_entry list \<times> u32) \<times> 'w \<times> name list) option" where
  "build_segments E F cfg files base_id next_id w =
     (let shard_size = max (bc_shard_size cfg) 1; batch = shard_size * max (o_threads E) 1;
          shards = concat (map (\<lambda>(b, files_batch). batch_shards E shard_size (base_id + of_nat (b * batch)) files_batch)
            (enumerate 0 (chunks batch files)))
      in map_option (\<lambda>(r, w).
           and_do (\<lambda>w. (r, w)) (\<lambda>(entries, acc, next_id).
             if ac_docs acc \<noteq> [] then and_do (flush_segment E F next_id acc) (\<lambda>e. ok_with (entries @ [e], next_id + 1))
             else ok_with (entries, next_id)) w)
         (absorb_shards E F cfg shards ([], acc_new base_id, next_id) w))"

section \<open>A full build\<close>

definition with_lock :: "'w fs \<Rightarrow> ('w, 'a) act \<Rightarrow> ('w, 'a) act" where
  "with_lock F m w = (case m w of (r, w) \<Rightarrow> (r, fs_unlock F w))"

definition reopen :: "'w outside \<Rightarrow> 'w fs \<Rightarrow> ('w, disk_index) act" where
  "reopen E F = and_do (open_index (o_crc E) F (o_pause E) (o_root E) False) (\<lambda>x.
     case x of None \<Rightarrow> (\<lambda>w. (Inl (SCorrupt MANIFEST ''manifest unreadable right after commit''), w)) | Some i \<Rightarrow> ok_with i)"

text \<open>Carry out a logged operation; if it fails, remove the files it recorded.\<close>

definition tidied :: "'w fs \<Rightarrow> (store_error + 'a) \<times> 'w \<times> name list \<Rightarrow> (store_error + 'a) \<times> 'w" where
  "tidied F = (\<lambda>(r, w, files). (r, case r of Inl _ \<Rightarrow> remove_quietly F files w | Inr _ \<Rightarrow> w))"

text \<open>The end of a commit: tidy up after a failure, give the lock back, and reopen.\<close>

definition conclude :: "'w outside \<Rightarrow> 'w fs \<Rightarrow> (store_error + 'a) \<times> 'w \<times> name list \<Rightarrow> (store_error + disk_index) \<times> 'w" where
  "conclude E F x = (case tidied F x of (Inl e, w) \<Rightarrow> (Inl e, fs_unlock F w) | (Inr _, w) \<Rightarrow> reopen E F (fs_unlock F w))"

definition built_manifest :: "'w outside \<Rightarrow> u64 \<Rightarrow> segment_entry list \<Rightarrow> u32 \<Rightarrow> manifest" where
  "built_manifest E gen entries next_id = \<lparr>generation = gen + 1, next_segment_id = next_id,
     committed_unix_nanos = time_to_nanos (o_now E), state_gen = 0, state_crc = 0, state_len = 0, segments = entries\<rparr>"

definition build_index :: "'w outside \<Rightarrow> 'w fs \<Rightarrow> build_config \<Rightarrow> bool \<Rightarrow> store_error + file_entry list \<Rightarrow>
    'w \<Rightarrow> ((store_error + disk_index) \<times> 'w) option" where
  "build_index E F cfg is_dir crawled w =
     (if \<not> is_dir then Some (Inl NotADirectory, w)
      else case and_do (io (fs_create_dir_all F [])) (\<lambda>_. take_lock F (o_pause E) (o_tries E)) w of
        (Inl e, w) \<Rightarrow> Some (Inl e, w)
      | (Inr _, w) \<Rightarrow>
          (case open_index (o_crc E) F (o_pause E) (o_root E) False w of
             (Inl e, w) \<Rightarrow> Some (Inl e, fs_unlock F w)
           | (Inr prev, w) \<Rightarrow>
               let (gen, next_id, retired) = (case prev of
                   Some p \<Rightarrow> (generation (dx_manifest p), next_segment_id (dx_manifest p), filter (\<lambda>n. n \<noteq> MANIFEST) (dx_files p))
                 | None \<Rightarrow> (0, 0, [])) in
               case crawled of
                 Inl e \<Rightarrow> Some (Inl e, fs_unlock F w)
               | Inr files \<Rightarrow>
                   map_option (\<lambda>(r, w). conclude E F (and_do (\<lambda>w. (r, w)) (\<lambda>(entries, next_id).
                              inner (commit F (o_crc E) (built_manifest E gen entries next_id) retired)) w))
                     (build_segments E F cfg files 0 next_id (w, []))))"

section \<open>Deleting documents\<close>

text \<open>The segment index and local id of a global id.\<close>

definition locate_at :: "disk_index \<Rightarrow> u32 \<Rightarrow> (nat \<times> u32) option" where
  "locate_at x i =
     (let k = partition_point (\<lambda>s. end_doc (seg_entry s) \<le> unat i) (dx_segments x) in
      if length (dx_segments x) \<le> k then None
      else let b = base_doc (seg_entry (dx_segments x ! k)) in if i < b then None else Some (k, i - b))"

text \<open>The local ids to delete, grouped by segment, in ascending order of the segments (a \<open>BTreeMap\<close>).\<close>

definition by_segment :: "disk_index \<Rightarrow> u32 list \<Rightarrow> (nat \<times> u32 list) list" where
  "by_segment x ids = filter (\<lambda>(_, ls). ls \<noteq> []) (map (\<lambda>k.
     (k, List.map_filter (\<lambda>i. Option.bind (locate_at x i) (\<lambda>(j, l). if j = k then Some l else None)) ids)) [0..<length (dx_segments x)])"

fun set_all :: "u32 list \<Rightarrow> bitmap \<times> bool \<Rightarrow> bitmap \<times> bool" where
  "set_all [] s = s"
| "set_all (l # ls) (b, changed) = (case bitmap_set b l of (b, c) \<Rightarrow> set_all ls (b, changed \<or> c))"

text \<open>One segment's tombstones, over the manifest, the retired files and whether anything changed.\<close>

definition tombstone :: "'w outside \<Rightarrow> 'w fs \<Rightarrow> disk_index \<Rightarrow> nat \<times> u32 list \<Rightarrow> manifest \<times> name list \<times> bool \<Rightarrow>
    ('w, manifest \<times> name list \<times> bool) logged" where
  "tombstone E F x = (\<lambda>(k, locals) (m, retired, any_change).
     let entry = segments m ! k; seg = dx_segments x ! k;
         (b, changed) = set_all locals (case seg_del seg of Some b \<Rightarrow> b | None \<Rightarrow> bitmap_new (num_docs entry), False)
     in if \<not> changed then ok_with (m, retired, any_change)
     else let gen = del_gen entry + 1; bs = bitmap_encode (o_crc E) b; n = del_name (segment_id entry) gen in
       and_do (publish_new F n bs) (\<lambda>_.
       and_do (inner (try_format (envelope_parse KDel bs))) (\<lambda>env.
       ok_with (m\<lparr>segments := (segments m)[k := entry\<lparr>del_gen := gen, del_len := of_nat (length bs), del_crc := env_crc env,
                   num_deleted := bitmap_count b\<rparr>]\<rparr>,
                retired @ (if 0 < del_gen entry then [del_name (segment_id entry) (del_gen entry)] else []), True))))"

fun tombstones :: "'w outside \<Rightarrow> 'w fs \<Rightarrow> disk_index \<Rightarrow> (nat \<times> u32 list) list \<Rightarrow> manifest \<times> name list \<times> bool \<Rightarrow>
    ('w, manifest \<times> name list \<times> bool) logged" where
  "tombstones E F x [] st = ok_with st"
| "tombstones E F x (g # gs) st = and_do (tombstone E F x g st) (tombstones E F x gs)"

definition next_generation :: "'w outside \<Rightarrow> manifest \<Rightarrow> manifest" where
  "next_generation E m = m\<lparr>generation := generation m + 1, committed_unix_nanos := time_to_nanos (o_now E)\<rparr>"

definition delete_docs :: "'w outside \<Rightarrow> 'w fs \<Rightarrow> disk_index \<Rightarrow> u32 list \<Rightarrow> ('w, disk_index) act" where
  "delete_docs E F x ids =
     and_do (take_lock F (o_pause E) (o_tries E)) (\<lambda>_.
     and_do (with_lock F (\<lambda>w. tidied F (and_do (tombstones E F x (by_segment x ids) (dx_manifest x, [], False))
         (\<lambda>(m, retired, any_change). if \<not> any_change then ok_with () else inner (commit F (o_crc E) (next_generation E m) retired)) (w, []))))
       (\<lambda>_. reopen E F))"

end
