(* ===== verification/Segment_Acc.thy ===== *)
theory Segment_Acc
  imports Writer Mem_Index
begin

text \<open>
  What the segment accumulator of \<open>src/store/writer.rs\<close> holds: the metadata of the files it has absorbed, and for every
  term the postings of those files; and that the two files encoded from it are within the limits of
  their formats as long as the text is not too large.

  Main facts: absorbing the shard of the next files never panics and keeps \<open>acc_holds\<close> (\<open>absorb_holds\<close>); a
  segment whose files have fewer than \<open>2 ^ 24\<close> tokens fits the index format (\<open>acc_terms_fit\<close>).
\<close>

section \<open>The lists of a shard\<close>

definition len_of :: "unicode \<Rightarrow> (bytes \<Rightarrow> bytes option) \<Rightarrow> (bytes \<Rightarrow> u64) \<Rightarrow> file_entry \<Rightarrow> (u32 \<times> u64) option" where
  "len_of U read hash cf = (if fe_kind cf = FText then Option.bind (read (fe_path cf)) (\<lambda>bs.
     map_option (\<lambda>text. (of_nat (length (text_atoms U text)), hash bs)) (decode_text bs)) else None)"

definition skip_of :: "(bytes \<Rightarrow> bytes option) \<Rightarrow> (bytes \<Rightarrow> u64) \<Rightarrow> file_entry \<Rightarrow> u64 option option" where
  "skip_of read hash cf = (if fe_kind cf = FText then (case read (fe_path cf) of None \<Rightarrow> Some None
     | Some bs \<Rightarrow> if decode_text bs = None then Some (Some (hash bs)) else None) else None)"

definition non_text_of :: "file_entry \<Rightarrow> doc_status option" where
  "non_text_of cf = (case fe_kind cf of FBinary \<Rightarrow> Some Binary | FTooLarge \<Rightarrow> Some TooLarge | FText \<Rightarrow> None)"

text \<open>The files for which \<open>h\<close> has a value, with their ids.\<close>

fun picked :: "(file_entry \<Rightarrow> 'a option) \<Rightarrow> u32 \<Rightarrow> nat \<Rightarrow> file_entry list \<Rightarrow> (u32 \<times> 'a) list" where
  "picked h first k [] = []"
| "picked h first k (cf # files) = (case h cf of None \<Rightarrow> [] | Some y \<Rightarrow> [(first + of_nat k, y)]) @ picked h first (Suc k) files"

lemma index_file_lists:
  "sh_doc_lens (index_file U read hash d cf sh) = sh_doc_lens sh @ (case len_of U read hash cf of None \<Rightarrow> [] | Some y \<Rightarrow> [(d, y)])"
  "sh_skipped (index_file U read hash d cf sh) = sh_skipped sh @ (case skip_of read hash cf of None \<Rightarrow> [] | Some y \<Rightarrow> [(d, y)])"
  "sh_non_text (index_file U read hash d cf sh) = sh_non_text sh @ (case non_text_of cf of None \<Rightarrow> [] | Some y \<Rightarrow> [(d, y)])"
  by (auto simp: index_file_def len_of_def skip_of_def non_text_of_def index_document_eq split: file_kind.splits option.splits)

lemma index_shard_lists_fold:
  "sh_doc_lens (fold (\<lambda>(i, cf) sh. index_file U read hash (first + of_nat i) cf sh) (enumerate k files) sh) =
     sh_doc_lens sh @ picked (len_of U read hash) first k files \<and>
   sh_skipped (fold (\<lambda>(i, cf) sh. index_file U read hash (first + of_nat i) cf sh) (enumerate k files) sh) =
     sh_skipped sh @ picked (skip_of read hash) first k files \<and>
   sh_non_text (fold (\<lambda>(i, cf) sh. index_file U read hash (first + of_nat i) cf sh) (enumerate k files) sh) =
     sh_non_text sh @ picked non_text_of first k files"
  by (induction files arbitrary: k sh) (simp_all add: index_file_lists)

lemma index_shard_lists:
  "sh_doc_lens (index_shard U read hash first files) = picked (len_of U read hash) first 0 files"
  "sh_skipped (index_shard U read hash first files) = picked (skip_of read hash) first 0 files"
  "sh_non_text (index_shard U read hash first files) = picked non_text_of first 0 files"
  unfolding index_shard_def using index_shard_lists_fold [of U read hash first 0 files] by simp_all

section \<open>Updating the documents\<close>

text \<open>The metadata of a file after its shard is absorbed.\<close>

definition meta_of :: "unicode \<Rightarrow> (bytes \<Rightarrow> bytes option) \<Rightarrow> (bytes \<Rightarrow> u64) \<Rightarrow> file_entry \<Rightarrow> doc_meta" where
  "meta_of U read hash cf =
     (let m = from_entry cf;
          m = (case len_of U read hash cf of None \<Rightarrow> m | Some (n, h) \<Rightarrow> m\<lparr>dm_status := Indexed, dm_len := n, dm_content_hash := h\<rparr>);
          m = (case skip_of read hash cf of Some (Some h) \<Rightarrow> m\<lparr>dm_content_hash := h\<rparr> | _ \<Rightarrow> m)
      in case non_text_of cf of None \<Rightarrow> m | Some st \<Rightarrow> m\<lparr>dm_status := st\<rparr>)"

fun update_from :: "(file_entry \<Rightarrow> 'a option) \<Rightarrow> ('a \<Rightarrow> doc_meta \<Rightarrow> doc_meta) \<Rightarrow> file_entry list \<Rightarrow> doc_meta list \<Rightarrow> doc_meta list" where
  "update_from h g (cf # files) (m # ms) = (case h cf of None \<Rightarrow> m | Some y \<Rightarrow> g y m) # update_from h g files ms"
| "update_from h g _ ms = ms"

lemma length_update_from [simp]: "length (update_from h g files ms) = length ms"
  by (induction h g files ms rule: update_from.induct) simp_all

lemma picked_fold:
  assumes step: "\<And>doc y pre m ms. unat (doc - base) = length pre \<Longrightarrow> step (doc, y) (pre @ m # ms) = Some (pre @ g y m # ms)"
    and "length pre + length ms < 2 ^ 32" and "length ms = length files" and "length pre = a + k"
  shows "fold_opt step (picked h (base + of_nat a) k files) (pre @ ms) = Some (pre @ update_from h g files ms)"
  using assms(2-4)
proof (induction files arbitrary: pre ms k)
  case (Cons cf files)
  obtain m ms' where ms: "ms = m # ms'" using Cons.prems(2) by (cases ms) auto
  have ih: "fold_opt step (picked h (base + of_nat a) (Suc k) files) (pre @ x # ms') =
      Some (pre @ x # update_from h g files ms')" for x
    using Cons.IH [of "pre @ [x]" ms' "Suc k"] Cons.prems ms by simp
  have "unat (of_nat a + of_nat k :: u32) = length pre"
    using Cons.prems ms by (metis add_lessD1 of_nat_add unat_of_nat_less)
  then have "step (base + of_nat a + of_nat k, y) (pre @ m # ms') = Some (pre @ g y m # ms')" for y
    by (intro step) (simp add: add.assoc)
  then show ?case using ih by (cases "h cf") (simp_all add: ms)
qed simp

lemma acc_update_at: "unat (doc - base) = length pre \<Longrightarrow> acc_update base doc g (pre @ m # ms) = Some (pre @ g m # ms)"
  by (simp add: acc_update_def)

lemma update_from_meta:
  "update_from non_text_of (\<lambda>st m. m\<lparr>dm_status := st\<rparr>) files
     (update_from (skip_of read hash) (\<lambda>h m. case h of None \<Rightarrow> m | Some h \<Rightarrow> m\<lparr>dm_content_hash := h\<rparr>) files
       (update_from (len_of U read hash) (\<lambda>(n, h) m. m\<lparr>dm_status := Indexed, dm_len := n, dm_content_hash := h\<rparr>) files (map from_entry files))) =
   map (meta_of U read hash) files"
  by (induction files) (auto simp: meta_of_def Let_def split: option.splits)

text \<open>Absorbing the shard of a chunk appends the metadata of its files.\<close>

lemma absorb_docs:
  assumes "length (ac_docs a) + length chunk < 2 ^ 32"
    and "first = ac_base a + of_nat (length (ac_docs a))"
  shows "absorb (index_shard U read hash first chunk) chunk a =
     Some (a\<lparr>ac_docs := ac_docs a @ map (meta_of U read hash) chunk, ac_tokens := ac_tokens a + sh_tokens (index_shard U read hash first chunk),
       ac_store := merge_shard (ac_store a) (sh_terms (index_shard U read hash first chunk))\<rparr>)"
proof -
  have lens: "fold_opt (\<lambda>(doc, len, h). acc_update (ac_base a) doc (\<lambda>m. m\<lparr>dm_status := Indexed, dm_len := len, dm_content_hash := h\<rparr>))
        (picked h first 0 chunk) (ac_docs a @ ms) =
      Some (ac_docs a @ update_from h (\<lambda>(n, h) m. m\<lparr>dm_status := Indexed, dm_len := n, dm_content_hash := h\<rparr>) chunk ms)"
    if "length ms = length chunk" for h ms
    unfolding assms(2) by (rule picked_fold) (use assms that in \<open>auto simp: acc_update_at split: prod.splits\<close>)
  have skip: "fold_opt (\<lambda>(doc, h) docs. case h of None \<Rightarrow> Some docs | Some h \<Rightarrow> acc_update (ac_base a) doc (\<lambda>m. m\<lparr>dm_content_hash := h\<rparr>) docs)
        (picked h first 0 chunk) (ac_docs a @ ms) =
      Some (ac_docs a @ update_from h (\<lambda>h m. case h of None \<Rightarrow> m | Some h \<Rightarrow> m\<lparr>dm_content_hash := h\<rparr>) chunk ms)"
    if "length ms = length chunk" for h ms
    unfolding assms(2) by (rule picked_fold) (use assms that in \<open>auto simp: acc_update_at split: option.splits\<close>)
  have non_text: "fold_opt (\<lambda>(doc, st). acc_update (ac_base a) doc (\<lambda>m. m\<lparr>dm_status := st\<rparr>)) (picked h first 0 chunk) (ac_docs a @ ms) =
      Some (ac_docs a @ update_from h (\<lambda>st m. m\<lparr>dm_status := st\<rparr>) chunk ms)"
    if "length ms = length chunk" for h ms
    unfolding assms(2) by (rule picked_fold) (use assms that in \<open>auto simp: acc_update_at split: option.splits\<close>)
  show ?thesis
    unfolding absorb_def Let_def index_shard_lists by (simp add: lens skip non_text update_from_meta)
qed

section \<open>The size of a store\<close>

definition plist_size :: "plist \<Rightarrow> nat" where
  "plist_size l = sum_list (map (\<lambda>p. 1 + length (snd p)) l)"

definition store_size :: "mem_store \<Rightarrow> nat" where
  "store_size st = sum_list (map (\<lambda>e. 1 + plist_size (snd e)) st)"

lemma size_update:
  "map_of st k = None \<Longrightarrow> store_size (AList.update k v st) = store_size st + 1 + plist_size v"
  "map_of st k = Some l \<Longrightarrow> store_size (AList.update k v st) + plist_size l = store_size st + plist_size v"
  by (induction st) (auto simp: store_size_def split: if_splits)

lemma size_mem_push: "plist_size (mem_push l d p) \<le> plist_size l + 2"
proof (cases "l = []")
  case False
  then obtain l' x where l: "l = l' @ [x]" by (metis rev_exhaust)
  then show ?thesis by (auto simp: mem_push_def plist_size_def list_update_append)
qed (simp add: mem_push_def plist_size_def)

lemma size_add_token: "store_size (add_token d tok st) \<le> store_size st + 3"
proof (cases "map_of st (utf8_encode (tok_term tok))")
  case None
  then show ?thesis by (simp add: add_token_def Let_def size_update mem_push_def plist_size_def)
next
  case (Some l)
  then show ?thesis using size_update(2) [OF Some, of "mem_push l d (tok_position tok)"] size_mem_push [of l d "tok_position tok"]
    by (simp add: add_token_def Let_def)
qed

lemma size_add_tokens: "store_size (fold (add_token d) toks st) \<le> store_size st + 3 * length toks"
proof (induction toks arbitrary: st)
  case (Cons tok toks)
  have "store_size (fold (add_token d) toks (add_token d tok st)) \<le> store_size (add_token d tok st) + 3 * length toks" by (rule Cons.IH)
  then show ?case using size_add_token [of d tok st] by simp
qed simp

definition tokens_of :: "unicode \<Rightarrow> (bytes \<Rightarrow> bytes option) \<Rightarrow> file_entry list \<Rightarrow> nat" where
  "tokens_of U read files = sum_list (map (\<lambda>cf. case doc_text read cf of None \<Rightarrow> 0 | Some text \<Rightarrow> length (tokenize U text)) files)"

lemma size_index_file: "store_size (sh_terms (index_file U read hash d cf sh)) \<le> store_size (sh_terms sh) + 3 * tokens_of U read [cf]"
  using size_add_tokens
  by (auto simp: index_file_def doc_text_def tokens_of_def index_document_eq split: file_kind.splits option.splits)

lemma size_index_shard: "store_size (sh_terms (index_shard U read hash first files)) \<le> 3 * tokens_of U read files"
proof -
  have "store_size (sh_terms (fold (\<lambda>(i, cf) sh. index_file U read hash (first + of_nat i) cf sh) (enumerate k files) sh)) \<le>
      store_size (sh_terms sh) + 3 * tokens_of U read files" for k sh
  proof (induction files arbitrary: k sh)
    case (Cons cf files)
    have "tokens_of U read (cf # files) = tokens_of U read [cf] + tokens_of U read files" by (simp add: tokens_of_def)
    then show ?case using Cons [of "Suc k" "index_file U read hash (first + of_nat k) cf sh"] size_index_file [of U read hash "first + of_nat k" cf sh]
      by simp
  qed (simp add: tokens_of_def)
  from this [of 0 "\<lparr>sh_first_doc = first, sh_terms = [], sh_doc_lens = [], sh_skipped = [], sh_non_text = [], sh_tokens = 0\<rparr>"]
  show ?thesis by (simp add: index_shard_def store_size_def)
qed

lemma size_merge_shard: "store_size (merge_shard s sh) \<le> store_size s + store_size sh"
proof -
  have "store_size (foldl (\<lambda>ts (t, list). case map_of ts t of Some l \<Rightarrow> AList.update t (mem_append l list) ts
      | None \<Rightarrow> AList.update t list ts) s sh) \<le> store_size s + store_size sh" for s sh
  proof (induction sh arbitrary: s)
    case (Cons e sh)
    obtain t l where e: "e = (t, l)" by force
    let ?s = "case map_of s t of Some k \<Rightarrow> AList.update t (mem_append k l) s | None \<Rightarrow> AList.update t l s"
    have "store_size ?s \<le> store_size s + 1 + plist_size l"
    proof (cases "map_of s t")
      case None
      then show ?thesis by (simp add: size_update(1))
    next
      case (Some k)
      have "plist_size (mem_append k l) = plist_size k + plist_size l" by (simp add: mem_append_def plist_size_def)
      then show ?thesis using size_update(2) [OF Some, of "mem_append k l"] Some by simp
    qed
    then show ?case using Cons [of ?s] by (simp add: e store_size_def)
  qed (simp add: store_size_def)
  then show ?thesis by (auto simp: merge_shard_def)
qed

section \<open>What an accumulator holds\<close>

definition acc_holds :: "unicode \<Rightarrow> (bytes \<Rightarrow> bytes option) \<Rightarrow> (bytes \<Rightarrow> u64) \<Rightarrow> nat \<Rightarrow> file_entry list \<Rightarrow> segment_acc \<Rightarrow> bool" where
  "acc_holds U read hash n files a \<longleftrightarrow> ac_base a = of_nat n \<and> ac_docs a = map (meta_of U read hash) files \<and>
     distinct (map fst (ac_store a)) \<and> keys_ok (ac_store a) \<and> store_size (ac_store a) \<le> 3 * tokens_of U read files \<and>
     (\<forall>t. scalars t \<longrightarrow> plist_of (store_get (ac_store a) (utf8_encode t)) = postings_from U read t n files)"

lemma acc_new_holds: "acc_holds U read hash n [] (acc_new (of_nat n))"
  by (simp add: acc_holds_def acc_new_def keys_ok_def store_size_def store_get_def plist_of_def)

lemma absorb_holds:
  assumes a: "acc_holds U read hash n files a" and fit: "files_fit U read (files @ chunk)" and n: "n + length files + length chunk < 2 ^ 32"
  shows "\<exists>a'. absorb (index_shard U read hash (of_nat (n + length files)) chunk) chunk a = Some a' \<and> acc_holds U read hash n (files @ chunk) a'"
proof -
  let ?sh = "index_shard U read hash (of_nat (n + length files)) chunk"
  have base: "ac_base a = of_nat n" "ac_docs a = map (meta_of U read hash) files" using a by (simp_all add: acc_holds_def)
  have "plist_of (store_get (merge_shard (ac_store a) (sh_terms ?sh)) (utf8_encode t)) = postings_from U read t n (files @ chunk)"
    if t: "scalars t" for t
  proof -
    have "plist_of (store_get (sh_terms ?sh) (utf8_encode t)) = postings_from U read t (n + length files) chunk"
      by (rule index_shard_get [OF t]) (use fit n in \<open>auto simp: files_fit_def\<close>)
    moreover have "plist_of (store_get (merge_shard (ac_store a) (sh_terms ?sh)) k) =
        plist_of (store_get (ac_store a) k) @ plist_of (store_get (sh_terms ?sh) k)" for k
      unfolding get_merge_shard [OF index_shard_distinct] by (simp add: plist_of_def split: option.split)
    ultimately show ?thesis using a t by (simp add: acc_holds_def postings_from_append)
  qed
  moreover have "keys_ok (merge_shard (ac_store a) (sh_terms ?sh))"
    using a fit by (intro keys_merge keys_index_shard) (auto simp: acc_holds_def files_fit_def)
  moreover have "store_size (merge_shard (ac_store a) (sh_terms ?sh)) \<le> 3 * tokens_of U read (files @ chunk)"
    using size_merge_shard [of "ac_store a" "sh_terms ?sh"] size_index_shard [of U read hash "of_nat (n + length files)" chunk] a
    by (simp add: acc_holds_def tokens_of_def)
  moreover have "distinct (map fst (merge_shard (ac_store a) (sh_terms ?sh)))"
    using a by (intro merge_shard_distinct index_shard_distinct) (simp add: acc_holds_def)
  ultimately show ?thesis
    using absorb_docs [of a chunk "of_nat (n + length files)" U read hash] n by (simp add: base acc_holds_def)
qed

section \<open>The terms of a segment\<close>

lemma rebased_postings: "rebased (of_nat n) (postings_from U read t (n + k) files) = postings_from U read t k files"
proof (induction files arbitrary: k)
  case (Cons cf files)
  show ?case using Cons [of "Suc k"] by (auto simp: rebased_def split: option.splits)
qed (simp add: rebased_def)

lemma acc_terms_set: "set (acc_terms a) = (\<lambda>(t, l). (t, rebased (ac_base a) l)) ` set (ac_store a)"
  by (simp add: acc_terms_def)

lemma acc_terms_sorted: "distinct (map fst (ac_store a)) \<Longrightarrow> sorted_wrt (<) (map fst (acc_terms a))"
proof -
  assume d: "distinct (map fst (ac_store a))"
  let ?xs = "map (\<lambda>(t, l). (t, rebased (ac_base a) l)) (ac_store a)"
  have "map fst ?xs = map fst (ac_store a)" by (auto simp: comp_def split: prod.splits)
  moreover have "mset (map fst (sort_key fst ?xs)) = mset (map fst ?xs)" by (simp only: mset_map mset_sort)
  ultimately have "distinct (map fst (sort_key fst ?xs))" using d mset_eq_imp_distinct_iff by metis
  then show ?thesis unfolding acc_terms_def strict_sorted_iff by (simp only: sorted_sort_key simp_thms)
qed

lemma acc_entry:
  assumes "acc_holds U read hash n files a" and "(k, l) \<in> set (acc_terms a)"
  shows "\<exists>t. scalars t \<and> k = utf8_encode t \<and> l = postings_from U read t 0 files"
proof -
  obtain l0 where l0: "(k, l0) \<in> set (ac_store a)" "l = rebased (of_nat n) l0"
    using assms by (auto simp: acc_terms_set acc_holds_def)
  then obtain t where t: "scalars t" "k = utf8_encode t" using assms(1) by (force simp: acc_holds_def keys_ok_def)
  have "store_get (ac_store a) k = Some l0" using l0(1) assms(1) by (simp add: acc_holds_def store_get_def)
  then have "l0 = postings_from U read t n files" using assms(1) t by (auto simp: acc_holds_def plist_of_def)
  then show ?thesis using rebased_postings [of n U read t 0 files] t l0(2) by auto
qed

lemma acc_lookup:
  assumes "acc_holds U read hash n files a" and "scalars t"
  shows "plist_of (map_of (acc_terms a) (utf8_encode t)) = postings_from U read t 0 files"
proof (cases "map_of (acc_terms a) (utf8_encode t)")
  case None
  then have "utf8_encode t \<notin> fst ` set (acc_terms a)" by (simp add: map_of_eq_None_iff)
  then have "utf8_encode t \<notin> fst ` set (ac_store a)" by (force simp: acc_terms_set)
  then have "store_get (ac_store a) (utf8_encode t) = None" by (simp add: store_get_def map_of_eq_None_iff)
  then have "postings_from U read t n files = []" using assms by (auto simp: acc_holds_def plist_of_def)
  then show ?thesis using rebased_postings [of n U read t 0 files] None by (simp add: plist_of_def rebased_def)
next
  case (Some l)
  then obtain t' where t': "scalars t'" "utf8_encode t = utf8_encode t'" "l = postings_from U read t' 0 files"
    using acc_entry [OF assms(1)] map_of_SomeD by metis
  then have "t = t'" using assms(2) utf8_encode_inject by blast
  then show ?thesis using t'(3) Some by (simp add: plist_of_def)
qed

section \<open>The limits of the formats\<close>

lemma length_varint10: "length (varint v) \<le> 10" "length (varint32 w) \<le> 10"
proof -
  show v: "length (varint v) \<le> 10" for v
    by (rule length_varint_bound) (use unat_bounds(3) [of v] in \<open>simp_all\<close>)
  show "length (varint32 w) \<le> 10" unfolding varint32_def by (rule v)
qed

lemma length_delta_bytes: "length (delta_bytes prev qs) \<le> 10 * length qs"
proof (induction prev qs rule: delta_bytes.induct)
  case (2 prev q qs)
  then show ?case using length_varint10(2) [of "delta prev q"] by simp
qed simp

lemma length_post_bytes: "length (post_bytes prev ps) \<le> 30 * plist_size ps"
proof (induction prev ps rule: post_bytes.induct)
  case (2 prev d qs ps)
  then show ?case using length_varint10(2) [of "delta prev d"] length_varint10(2) [of "of_nat (length qs)"]
      length_varint10(2) [of "of_nat (length (delta_bytes None qs))"] length_delta_bytes [of None qs]
    by (simp add: plist_size_def)
qed simp

lemma length_plist_bytes: "length (plist_bytes ps) \<le> 10 + 30 * plist_size ps"
  using length_post_bytes [of None ps] length_varint10(2) [of "of_nat (length ps)"] by (simp add: plist_bytes_def)

lemma length_posts: "length (posts es) \<le> 30 * store_size es"
proof (induction es)
  case (Cons e es)
  then show ?case using length_plist_bytes [of "snd e"] by (simp add: posts_def store_size_def)
qed (simp add: posts_def)

lemma length_entry_bytes:
  assumes "length (fst (es ! i)) \<le> 512"
  shows "length (entry_bytes es i) \<le> 552"
proof -
  obtain t ps where e: "es ! i = (t, ps)" by force
  let ?k = "common_prefix (prev_of es i) t"
  show ?thesis
    using assms length_varint10(2) [of "of_nat ?k"] length_varint10(2) [of "of_nat (length t - ?k)"]
      length_varint10(2) [of "of_nat (length ps)"] length_varint10(1) [of "of_nat (length (plist_bytes ps))"]
    by (simp add: entry_bytes_def e Let_def)
qed

lemma length_sparse_rec: "length (fst (es ! (64 * b))) \<le> 512 \<Longrightarrow> length (sparse_rec es b) \<le> 542"
  using length_varint10(2) [of "of_nat (length (fst (es ! (64 * b))))"] length_varint10(1) [of "of_nat (length (posts (take (64 * b) es)))"]
    length_varint10(1) [of "of_nat (length (dict_bytes (take (64 * b) es)))"]
  by (simp add: sparse_rec_def Let_def)

lemma length_concat_le: "\<forall>x \<in> set xs. length (f x) \<le> m \<Longrightarrow> length (concat (map f xs)) \<le> m * length xs"
  by (induction xs) auto

lemma length_le_store: "length es \<le> store_size es"
  by (induction es) (simp_all add: store_size_def)

lemma elem_le_store: "e \<in> set es \<Longrightarrow> plist_size (snd e) \<le> store_size es"
  by (induction es) (auto simp: store_size_def)

lemma plist_size_le: "length ps \<le> plist_size ps" "(d, qs) \<in> set ps \<Longrightarrow> length qs \<le> plist_size ps"
  by (induction ps) (auto simp: plist_size_def)

lemma small_fits:
  assumes "sorted_wrt (<) (map fst es)" and "\<forall>e \<in> set es. utf8_valid (fst e) \<and> length (fst e) \<le> MAX_TERM_BYTES \<and> plist_ok (snd e)"
    and s: "store_size es < 2 ^ 28"
  shows "idx_fits es"
proof -
  have t: "length (fst (es ! i)) \<le> 512" if "i < length es" for i using assms(2) nth_mem [OF that] by (auto simp: MAX_TERM_BYTES_def)
  have pf: "plist_fits (snd e)" if e: "e \<in> set es" for e
  proof -
    have n: "plist_size (snd e) < 2 ^ 28" using elem_le_store [OF e] s by linarith
    then have "length (snd e) < 2 ^ 32" using plist_size_le(1) [of "snd e"] by simp
    moreover have "length qs < 2 ^ 32 \<and> length (delta_bytes None qs) < 2 ^ 32" if "(d, qs) \<in> set (snd e)" for d qs
      using plist_size_le(2) [OF that] n length_delta_bytes [of None qs] by simp
    ultimately show ?thesis using assms(2) e by (auto simp: plist_fits_def)
  qed
  have nb: "num_blocks_of (length es) \<le> length es div 64 + 1" by (simp add: num_blocks_of_def)
  have "length (all_sparse es) \<le> 542 * num_blocks_of (length es)"
    unfolding sparse_bytes_def using length_concat_le [of "[0..<num_blocks_of (length es)]" "sparse_rec es" 542] t
    by (simp add: length_sparse_rec num_blocks_of_less del: length_concat)
  moreover have "length es < 2 ^ 28" using length_le_store [of es] s by linarith
  then have "length es div 64 \<le> 2 ^ 22" by simp
  then have nb': "num_blocks_of (length es) \<le> 2 ^ 22 + 1" using nb by (meson add_le_mono1 le_trans)
  ultimately have sp: "length (all_sparse es) \<le> 542 * (2 ^ 22 + 1)" by (meson le_trans mult_le_mono2)
  have "length (dict_bytes es) \<le> 552 * length es"
    unfolding dict_bytes_def using length_concat_le [of "[0..<length es]" "entry_bytes es" 552] t
    by (simp add: length_entry_bytes del: length_concat)
  moreover have "length (posts es) \<le> 30 * 2 ^ 28" using length_posts [of es] s by linarith
  ultimately have "length (idx_body es) < 2 ^ 62"
    using sp nb' \<open>length es < 2 ^ 28\<close> unfolding idx_body_def length_append length_table length_toc_encode by simp
  then show ?thesis using assms(1,2) pf sp by (simp add: idx_fits_def)
qed

lemma acc_terms_fit:
  assumes a: "acc_holds U read hash n files a" and fit: "files_fit U read files" and small: "tokens_of U read files < 2 ^ 26"
  shows "idx_fits (storable (acc_terms a))" and "length (acc_terms a) < 2 ^ 64"
proof -
  have size: "store_size (acc_terms a) = store_size (ac_store a)"
  proof -
    have "plist_size (rebased b l) = plist_size l" for b l
      by (induction l) (auto simp: rebased_def plist_size_def)
    then have "mset (map (\<lambda>e. 1 + plist_size (snd e)) (acc_terms a)) = mset (map (\<lambda>e. 1 + plist_size (snd e)) (ac_store a))"
      by (auto simp: acc_terms_def image_mset.compositionality comp_def split: prod.splits intro!: image_mset_cong)
    then show ?thesis unfolding store_size_def by (metis sum_mset_sum_list)
  qed
  also have "\<dots> < 2 ^ 28" using a small by (simp add: acc_holds_def)
  finally have s: "store_size (acc_terms a) < 2 ^ 28" .
  then show "length (acc_terms a) < 2 ^ 64" using length_le_store [of "acc_terms a"] by simp
  have "store_size (storable es) \<le> store_size es" for es
    by (induction es) (simp_all add: storable_def store_size_def)
  then have "store_size (storable (acc_terms a)) < 2 ^ 28" using s by (rule le_less_trans)
  moreover have "sorted_wrt (<) (map fst (storable (acc_terms a)))"
    using acc_terms_sorted [of a] a unfolding storable_def sorted_wrt_map by (simp add: acc_holds_def sorted_wrt_filter)
  moreover have "utf8_valid (fst e) \<and> length (fst e) \<le> MAX_TERM_BYTES \<and> plist_ok (snd e)" if "e \<in> set (storable (acc_terms a))" for e
  proof -
    have e: "(fst e, snd e) \<in> set (acc_terms a)" "length (fst e) \<le> MAX_TERM_BYTES" using that by (auto simp: storable_def)
    obtain t where "scalars t" "fst e = utf8_encode t" "snd e = postings_from U read t 0 files" using acc_entry [OF a e(1)] by blast
    then show ?thesis using e(2) fit by (simp add: utf8_valid_encode postings_from_sorted files_fit_def)
  qed
  ultimately show "idx_fits (storable (acc_terms a))" by (intro small_fits) blast+
qed

section \<open>The documents of a segment\<close>

text \<open>
  What is asked of the files of an index: texts of fewer than \<open>2 ^ 32\<close> atoms, fewer than \<open>2 ^ 26\<close> tokens and \<open>2 ^ 32\<close> bytes
  of paths in all, and that \<open>to_string_lossy\<close> gives UTF-8.
\<close>

definition corpus_fits :: "'w outside \<Rightarrow> file_entry list \<Rightarrow> bool" where
  "corpus_fits E files \<longleftrightarrow> files_fit (o_unicode E) (o_read E) files \<and> tokens_of (o_unicode E) (o_read E) files < 2 ^ 26 \<and>
     (\<forall>cf \<in> set files. utf8_valid (relative_path (o_lossy E) (o_root E) (fe_path cf))) \<and>
     sum_list (map (\<lambda>cf. length (relative_path (o_lossy E) (o_root E) (fe_path cf))) files) \<le> 0xffffffff"

lemma corpus_fits_parts: "corpus_fits E (xs @ ys) \<Longrightarrow> corpus_fits E xs" "corpus_fits E (xs @ ys) \<Longrightarrow> corpus_fits E ys"
  by (auto simp: corpus_fits_def files_fit_def tokens_of_def)

abbreviation "metas E \<equiv> map (meta_of (o_unicode E) (o_read E) (o_hash E))"

lemma meta_of_simps:
  "dm_path (meta_of U read hash cf) = fe_path cf" "dm_inode (meta_of U read hash cf) = fe_inode cf"
  "dm_status (meta_of U read hash cf) \<noteq> Indexed \<Longrightarrow> dm_len (meta_of U read hash cf) = 0"
  "(if dm_status (meta_of U read hash cf) = Indexed then Some (dm_len (meta_of U read hash cf)) else None) = file_len U read cf"
  by (auto simp: meta_of_def from_entry_def Let_def len_of_def skip_of_def non_text_of_def file_len_def doc_text_def
      split: option.splits file_kind.splits bind_splits)

lemma kind_indexed: "kind_of_status st = DkIndexed \<longleftrightarrow> st = Indexed"
  by (cases st) simp_all

lemma segment_docs_ok:
  assumes "corpus_fits E files"
  shows "docs_ok (map (doc_in_of E) (metas E files))"
proof -
  have "length (concat (map di_path (map (doc_in_of E) (metas E files)))) =
      sum_list (map (\<lambda>cf. length (relative_path (o_lossy E) (o_root E) (fe_path cf))) files)"
    by (simp add: length_concat comp_def doc_in_of_def meta_of_simps)
  then show ?thesis using assms meta_of_simps(3)
    by (auto simp: docs_ok_def corpus_fits_def files_fit_def doc_in_of_def meta_of_simps(1) comp_def kind_indexed)
qed

section \<open>Reading the segment back\<close>

text \<open>The two files of the segment that holds \<open>b\<close>, given its accumulator.\<close>

definition idx_content :: "'w outside \<Rightarrow> segment_acc \<Rightarrow> bytes" where
  "idx_content E a = seal (o_crc E) KIdx (idx_body (storable (acc_terms a)))"

definition doc_content :: "'w outside \<Rightarrow> segment_acc \<Rightarrow> bytes" where
  "doc_content E a = seal (o_crc E) KDoc (doc_body (map (doc_in_of E) (ac_docs a)))"

text \<open>The entry a flush makes: \<open>i\<close> is the id of the segment.\<close>

definition entry_for :: "'w outside \<Rightarrow> u32 \<Rightarrow> segment_acc \<Rightarrow> segment_entry \<Rightarrow> bool" where
  "entry_for E i a e \<longleftrightarrow> segment_id e = i \<and> del_gen e = 0 \<and> base_doc e = ac_base a \<and> num_docs e = of_nat (length (ac_docs a)) \<and>
     num_deleted e = 0 \<and> del_len e = 0 \<and> idx_len e = of_nat (length (idx_content E a)) \<and>
     idx_crc e = o_crc E (idx_body (storable (acc_terms a))) \<and> segment_entry.num_terms e = of_nat (length (storable (acc_terms a))) \<and>
     segment_entry.doc_len e = of_nat (length (doc_content E a)) \<and> doc_crc e = o_crc E (doc_body (map (doc_in_of E) (ac_docs a)))"

lemma seal_nonempty: "seal crc k body \<noteq> []"
  using length_seal [of crc k body] by (metis add_is_0 list.size(3) zero_neq_numeral)

lemma segment_open_built:
  assumes a: "acc_holds (o_unicode E) (o_read E) (o_hash E) n b a" and fit: "corpus_fits E b"
    and e: "entry_for E i a e" and f: "dk_file d (idx_name i) = Some (idx_content E a)" "dk_file d (doc_name i) = Some (doc_content E a)"
  shows "\<exists>s. (\<forall>verify. segment_open (o_crc E) real_fs e verify d = (Inr s, d)) \<and> seg_entry s = e \<and> seg_del s = None \<and>
     seg_idx s = idx_view_of (o_crc E) (storable (acc_terms a)) \<and> seg_docs s = Some (doc_view_of (o_crc E) (map (doc_in_of E) (ac_docs a)))"
proof -
  let ?crc = "o_crc E" and ?es = "storable (acc_terms a)" and ?ds = "map (doc_in_of E) (ac_docs a)"
  have ifit: "idx_fits ?es" using acc_terms_fit(1) [OF a] fit by (simp add: corpus_fits_def)
  have dok: "docs_ok ?ds" using segment_docs_ok [OF fit] a by (simp add: acc_holds_def)
  note ip = idx_parse_file [OF ifit, of ?crc] and dp = doc_parse_of_encode [OF dok, of ?crc]
  have i: "open_idx ?crc real_fs e verify d = (Inr (idx_content E a, ix_env (idx_view_of ?crc ?es), ix_toc (idx_view_of ?crc ?es)), d)" for verify
    using e f(1) ip idx_verify_file [OF ifit, of ?crc]
    by (simp add: open_idx_def and_do_def open_file_def real_fs_ops real_mmap_def require_def parsing_def ok_with_def entry_for_def
        idx_content_def seal_nonempty Let_def) (simp add: idx_view_of_def toc_of_def)
  have vf: "doc_verify ?crc (doc_view_of ?crc ?ds) = Inr ()"
    using doc_table_roundtrip_lemma [OF dok doc_encode_eq [OF dok, of ?crc]] dp by auto
  have dd: "open_doc ?crc real_fs e verify d = (Inr (doc_content E a, dtv_env (doc_view_of ?crc ?ds), dtv_num_docs (doc_view_of ?crc ?ds),
      dtv_num_indexed (doc_view_of ?crc ?ds), dtv_total_len (doc_view_of ?crc ?ds), doc_paths_range (doc_view_of ?crc ?ds)), d)" for verify
    using e f(2) dp vf
    by (simp add: open_doc_def and_do_def open_file_def real_fs_ops real_mmap_def require_def parsing_def ok_with_def entry_for_def
        doc_content_def seal_nonempty Let_def) (simp add: doc_view_of_def)
  have "open_del ?crc real_fs e d = (Inr None, d)" using e by (simp add: open_del_def entry_for_def ok_with_def)
  then have o: "segment_open ?crc real_fs e verify d = (Inr \<lparr>seg_entry = e, seg_idx_map = idx_content E a, seg_idx_env = ix_env (idx_view_of ?crc ?es),
      seg_toc = ix_toc (idx_view_of ?crc ?es), seg_doc_map = doc_content E a, seg_doc_env = dtv_env (doc_view_of ?crc ?ds),
      seg_num_docs = dtv_num_docs (doc_view_of ?crc ?ds), seg_num_indexed = dtv_num_indexed (doc_view_of ?crc ?ds),
      seg_total_len = dtv_total_len (doc_view_of ?crc ?ds), seg_paths = doc_paths_range (doc_view_of ?crc ?ds), seg_del = None\<rparr>, d)" for verify
    by (simp add: segment_open_def and_do_def i dd ok_with_def)
  then show ?thesis
    using doc_parse_view(2) [OF dp] by (simp add: seg_idx_def seg_docs_def idx_view_of_def idx_content_def doc_content_def)
qed

text \<open>What a segment answers, in terms of the files \<open>b\<close> it was built from; its first id is \<open>n\<close>.\<close>

definition stored_meta :: "'w outside \<Rightarrow> bytes \<Rightarrow> file_entry \<Rightarrow> doc_meta" where
  "stored_meta E rt cf = (let m = meta_of (o_unicode E) (o_read E) (o_hash E) cf in
     m\<lparr>dm_path := resolve rt (relative_path (o_lossy E) (o_root E) (dm_path m)), dm_mtime := nanos_to_time (time_to_nanos (dm_mtime m))\<rparr>)"

definition built_seg :: "'w outside \<Rightarrow> nat \<Rightarrow> file_entry list \<Rightarrow> segment \<Rightarrow> bool" where
  "built_seg E n b s \<longleftrightarrow> base_doc (seg_entry s) = of_nat n \<and> seg_num_docs s = of_nat (length b) \<and> seg_lists_ok s \<and>
     (\<forall>t. scalars t \<longrightarrow> length (utf8_encode t) \<le> MAX_TERM_BYTES \<longrightarrow>
        term_list (seg_plists s) t = postings_from (o_unicode E) (o_read E) t 0 b) \<and>
     (\<forall>i < length b. seg_doc_len s (of_nat i) = file_len (o_unicode E) (o_read E) (b ! i) \<and>
        (\<forall>rt. seg_doc_meta s (of_nat i) rt = Some (stored_meta E rt (b ! i))))"

lemma storable_lookup: "length k \<le> MAX_TERM_BYTES \<Longrightarrow> map_of (storable es) k = map_of es k"
  by (induction es) (auto simp: storable_def)

lemma segment_built:
  assumes a: "acc_holds (o_unicode E) (o_read E) (o_hash E) n b a" and fit: "corpus_fits E b"
    and e: "entry_for E i a e" and f: "dk_file d (idx_name i) = Some (idx_content E a)" "dk_file d (doc_name i) = Some (doc_content E a)"
  shows "\<exists>s. segment_open (o_crc E) real_fs e verify d = (Inr s, d) \<and> seg_entry s = e \<and> seg_valid (o_crc E) True s \<and> built_seg E n b s"
proof -
  let ?crc = "o_crc E" and ?es = "storable (acc_terms a)" and ?ds = "map (doc_in_of E) (ac_docs a)"
  obtain s where s: "\<forall>verify. segment_open ?crc real_fs e verify d = (Inr s, d)" "seg_entry s = e" "seg_del s = None"
    "seg_idx s = idx_view_of ?crc ?es" "seg_docs s = Some (doc_view_of ?crc ?ds)" using segment_open_built [OF a fit e f] by blast
  have ifit: "idx_fits ?es" using acc_terms_fit(1) [OF a] fit by (simp add: corpus_fits_def)
  have docs: "ac_docs a = metas E b" and base: "ac_base a = of_nat n" using a by (simp_all add: acc_holds_def)
  have dok: "docs_ok ?ds" unfolding docs by (rule segment_docs_ok [OF fit])
  have valid: "seg_valid ?crc True s"
 using segment_open_valid [of ?crc real_fs e True d s d] s(1) by blast
  have num: "seg_num_docs s = of_nat (length b)"
    using s(5) by (auto simp: seg_docs_def doc_from_parts_def doc_view_of_def docs)
  have len: "length b < 2 ^ 32" using fit by (simp add: corpus_fits_def files_fit_def)
  have "term_list (seg_plists s) t = postings_from (o_unicode E) (o_read E) t 0 b" if t: "scalars t" "length (utf8_encode t) \<le> MAX_TERM_BYTES" for t
  proof -
    have "case map_of (acc_terms a) (utf8_encode t) of
       Some ps \<Rightarrow> \<exists>l. idx_lookup (seg_idx s) (utf8_encode t) = Some l \<and> disk_contents l ps
     | None \<Rightarrow> idx_lookup (seg_idx s) (utf8_encode t) = None"
      using idx_lookup_file [OF ifit, where t = "utf8_encode t" and crc = ?crc] unfolding s(4) storable_lookup [OF t(2)] .
    then have "term_list (seg_plists s) t = plist_of (map_of (acc_terms a) (utf8_encode t))"
      by (auto simp: term_list_def seg_plists_def seg_postings_def plist_of_def disk_contents_def split: option.splits)
    then show ?thesis using acc_lookup [OF a t(1)] by simp
  qed
  moreover have "seg_doc_len s (of_nat k) = file_len (o_unicode E) (o_read E) (b ! k) \<and>
      (\<forall>rt. seg_doc_meta s (of_nat k) rt = Some (stored_meta E rt (b ! k)))" if k: "k < length b" for k
  proof -
    have u: "unat (of_nat k :: u32) = k" using k len by (intro unat_of_nat_less) simp
    have kl: "k < length ?ds" using k docs by simp
    note r = doc_record_stored [OF dok kl, of ?crc]
    let ?m = "meta_of (o_unicode E) (o_read E) (o_hash E) (b ! k)"
    have dk: "?ds ! k = doc_in_of E ?m" using k docs by simp
    have rec: "record_of ?ds k = \<lparr>dr_inode = dm_inode ?m, dr_mtime_nanos = time_to_nanos (dm_mtime ?m), dr_size = dm_size ?m, dr_len = dm_len ?m,
      dr_status = kind_byte (kind_of_status (dm_status ?m)), dr_content_hash = dm_content_hash ?m,
      dr_path_off = of_nat (heap_off (map di_path ?ds) k), dr_path_len = of_nat (length (di_path (?ds ! k)))\<rparr>"
      unfolding record_of_def Let_def dk by (simp add: doc_in_of_def)
    have kd: "of_nat k < seg_num_docs s" using k len unat_of_nat_less [OF len] u by (simp add: num word_less_nat_alt)
    have nd: "\<not> seg_is_deleted s (of_nat k)" using s(3) by (simp add: seg_is_deleted_def)
    have "seg_doc_len s (of_nat k) = doc_len_if_indexed (doc_view_of ?crc ?ds) k"
      using seg_doc_len_in_range(2) [OF valid kd nd] by (simp add: s(5) u)
    also have "\<dots> = file_len (o_unicode E) (o_read E) (b ! k)"
      unfolding doc_len_if_indexed_record [OF r(1)] rec using meta_of_simps(4) [of "o_unicode E" "o_read E" "o_hash E" "b ! k"]
      by (simp add: dr_indexed_def kind_indexed split: if_splits)
    finally have l: "seg_doc_len s (of_nat k) = file_len (o_unicode E) (o_read E) (b ! k)" .
    have p: "di_path (?ds ! k) = relative_path (o_lossy E) (o_root E) (dm_path ?m)" by (simp add: dk doc_in_of_def)
    have "seg_doc_meta s (of_nat k) rt = Some (stored_meta E rt (b ! k))" for rt
      by (simp add: seg_doc_meta_def nd s(5) u r p) (simp add: rec stored_meta_def Let_def dr_kind_def)
    then show ?thesis using l by blast
  qed
  moreover have "seg_lists_ok s"
    using valid verified_lists_ok by (auto simp: seg_valid_def Let_def)
  ultimately have "built_seg E n b s" using num base e s(2) by (simp add: built_seg_def entry_for_def)
  then show ?thesis using s(1,2) valid by blast
qed

end
