(* ===== verification/Build.thy ===== *)
theory Build
  imports Segment_Acc
begin

text \<open>
  Building segments on a disk (\<open>src/store/writer.rs\<close>), under any faults the file system may produce. A triple gives for an
  action a condition on its result and one for when it fails.

  Main facts: a flush shows the two files of its segment and touches nothing else (\<open>flush_triple\<close>); cutting the
  crawled files into segments never panics, and the segments lay out the files in order (\<open>build_segments_laid_out\<close>).
\<close>

section \<open>Triples\<close>

definition triple :: "('w \<Rightarrow> bool) \<Rightarrow> ('w, 'a) act \<Rightarrow> ('a \<Rightarrow> 'w \<Rightarrow> bool) \<Rightarrow> ('w \<Rightarrow> bool) \<Rightarrow> bool" where
  "triple A m B E \<longleftrightarrow> (\<forall>w. A w \<longrightarrow> (case m w of (Inl e, w') \<Rightarrow> E w' | (Inr x, w') \<Rightarrow> B x w'))"

lemma triple_and_do: "triple A m B E \<Longrightarrow> (\<And>x. triple (B x) (f x) C E) \<Longrightarrow> triple A (and_do m f) C E"
  unfolding triple_def and_do_def by (fastforce split: prod.splits sum.splits)

lemma triple_ok_with: "(\<And>w. A w \<Longrightarrow> B x w) \<Longrightarrow> triple A (ok_with x) B E"
  by (simp add: triple_def ok_with_def)

lemma triple_weaken:
  "triple A m B E \<Longrightarrow> (\<And>w. A' w \<Longrightarrow> A w) \<Longrightarrow> (\<And>x w. B x w \<Longrightarrow> B' x w) \<Longrightarrow> (\<And>w. E w \<Longrightarrow> E' w) \<Longrightarrow> triple A' m B' E'"
  unfolding triple_def by (fastforce split: prod.splits sum.splits)

lemma triple_frame: "triple A m B E \<Longrightarrow> triple (\<lambda>w. A w \<and> Q) m (\<lambda>x w. B x w \<and> Q) (\<lambda>w. E w \<and> Q)"
  unfolding triple_def by (fastforce split: prod.splits sum.splits)

lemma triple_err: "triple A m B E \<Longrightarrow> (\<And>w. E w \<Longrightarrow> E' w) \<Longrightarrow> triple A m B E'"
  by (rule triple_weaken)

lemma triple_try_format: "(\<And>x w. r = Inr x \<Longrightarrow> A w \<Longrightarrow> B x w) \<Longrightarrow> (\<And>w. A w \<Longrightarrow> E w) \<Longrightarrow> triple A (try_format r) B E"
  by (auto simp: triple_def try_format_def split: sum.splits)

lemma triple_push_new: "(\<And>w fl. A (w, fl) \<Longrightarrow> B () (w, fl @ [n])) \<Longrightarrow> triple A (push_new n) B E"
  by (auto simp: triple_def push_new_def)

lemma triple_inner:
  "(\<And>fl. triple (\<lambda>w. A (w, fl)) m (\<lambda>x w. B x (w, fl)) (\<lambda>w. E (w, fl))) \<Longrightarrow> triple A (inner m) B E"
  unfolding triple_def inner_def by (fastforce split: prod.splits sum.splits)

lemma triple_result: "triple A m B E \<Longrightarrow> A w \<Longrightarrow> m w = (r, w') \<Longrightarrow> (case r of Inl e \<Rightarrow> E w' | Inr x \<Rightarrow> B x w')"
  unfolding triple_def by (fastforce split: sum.splits)

section \<open>Showing a new file\<close>

lemma settled_le: "settled S N' d \<Longrightarrow> N \<subseteq>\<^sub>m N' \<Longrightarrow> settled S N d"
  by (auto simp: settled_def visible_def map_le_def dom_def) 

lemma settled_wf: "settled S N d \<Longrightarrow> disk_wf d"
  by (simp add: settled_def)

lemma settled_add:
  assumes "touches P d d'" "settled S N d" "(dom S \<union> dom N) \<inter> P = {}" "shows_entry d' (dk_dir d' n) (Some bs)"
  shows "settled S (N(n \<mapsto> Some bs)) d'"
  using touches_settled [OF assms(1-3)] assms(4) by (auto simp: settled_def visible_def split: if_splits)

context fs_contract
begin

lemma write_all_poison: "write_all F h bs w = (r, w') \<Longrightarrow> poisoned w \<subseteq> poisoned w'"
  using writes [of h bs w r w'] by (auto simp: write_all_def split: if_splits)

lemma write_pieces_frame:
  assumes "write_pieces F h ps w = (r, w')" "disk_wf (disk w)" "opened h (disk w)"
  shows "touches {h_path h} (disk w) (disk w') \<and> opened h (disk w') \<and> poisoned w \<subseteq> poisoned w' \<and>
    (h_path h \<notin> poisoned w' \<longrightarrow> r = Inr () \<longrightarrow> dk_data (disk w') (h_file h) = dk_data (disk w) (h_file h) @ concat ps)"
  using assms
proof (induction ps arbitrary: w)
  case Nil
  then show ?case by (simp add: ok_with_def touches_refl)
next
  case (Cons p ps)
  from Cons.prems(1) have "and_do (io (write_all F h p)) (\<lambda>_. write_pieces F h ps) w = (r, w')" by simp
  then show ?case
  proof (cases rule: and_do_cases)
    case (1 e)
    from 1(1) obtain e1 where w: "write_all F h p w = (Inl e1, w')" by (cases rule: io_cases) auto
    show ?thesis using write_all_frame [OF w Cons.prems(2,3)] write_all_poison [OF w] 1(2) by simp
  next
    case (2 u w1)
    from 2(1) have w: "write_all F h p w = (Inr (), w1)" by (cases rule: io_cases) auto
    note f = write_all_frame [OF w Cons.prems(2,3)]
    then have t: "touches {h_path h} (disk w) (disk w1)" "opened h (disk w1)" by simp_all
    note g = Cons.IH [OF 2(2) touches_wf [OF t(1)] t(2)]
    have pw: "poisoned w \<subseteq> poisoned w1" "poisoned w1 \<subseteq> poisoned w'" using write_all_poison [OF w] g by simp_all
    have "touches {h_path h} (disk w) (disk w')" using g by (blast intro: touches_trans [OF t(1)])
    moreover have "dk_data (disk w') (h_file h) = dk_data (disk w) (h_file h) @ concat (p # ps)" if "h_path h \<notin> poisoned w'" "r = Inr ()"
    proof -
      have "h_path h \<notin> poisoned w1" using that(1) pw by blast
      then show ?thesis using f g that by simp
    qed
    ultimately show ?thesis using g pw by blast
  qed
qed

lemma write_idx_frame:
  assumes "write_idx E F p terms w = (r, w')" "disk_wf (disk w)"
  shows "touches {p} (disk w) (disk w') \<and> (\<forall>s. r = Inr s \<longrightarrow> (\<exists>bs. idx_write (o_crc E) [] terms = Inr (bs, s) \<and>
    shows_entry (disk w') (dk_dir (disk w') p) (Some (concat (o_cut E bs)))))"
  using assms(1) unfolding write_idx_def
proof (cases rule: and_do_cases)
  case (1 e)
  from 1(1) have "disk w' = disk w" by (cases rule: io_cases) (auto elim: create_cases [OF _ assms(2)])
  then show ?thesis using assms(2) 1 by (simp add: touches_refl)
next
  case (2 h w1)
  from 2(1) obtain h0: "fs_create F p w = (Inr h, w1)" by (cases rule: io_cases) auto
  then obtain h1: "h_path h = p" "touches {p} (disk w) (disk w1)" "opened h (disk w1)" "dk_data (disk w1) (h_file h) = []"
    by (rule create_cases [OF _ assms(2)]) auto
  note wf1 = touches_wf [OF h1(2)]
  obtain w3 where w3: "and_do (try_format (idx_write (o_crc E) [] terms)) (\<lambda>(bs, summary).
      and_do (write_pieces F h (o_cut E bs)) (\<lambda>_. and_do (io (fs_sync_all F h)) (\<lambda>_. ok_with summary))) w1 = (r, w3)" "w' = fs_close F h w3"
    using 2(2) by (auto split: prod.splits)
  have d: "disk w' = disk w3" by (simp add: w3(2) close)
  show ?thesis
  proof (cases "idx_write (o_crc E) [] terms")
    case (Inl e)
    then show ?thesis using w3(1) h1(2) d by (auto simp: and_do_def try_format_def)
  next
    case (Inr x)
    obtain bs s where x: "x = (bs, s)" by force
    have "and_do (write_pieces F h (o_cut E bs)) (\<lambda>_. and_do (io (fs_sync_all F h)) (\<lambda>_. ok_with s)) w1 = (r, w3)"
      using w3(1) by (simp add: Inr x and_do_def try_format_def)
    then show ?thesis
    proof (cases rule: and_do_cases)
      case (1 e)
      from write_pieces_frame [OF 1(1) wf1 h1(3)] show ?thesis using 1 h1(1,2) d by (auto intro: touches_trans)
    next
      case (2 u w2)
      note f1 = write_pieces_frame [OF 2(1) wf1 h1(3)]
      from f1 have wf2: "disk_wf (disk w2)" "opened h (disk w2)" by (auto dest: touches_wf)
      obtain r1 w4 where s: "fs_sync_all F h w2 = (r1, w4)" by force
      have r1: "w3 = w4" "r = (case r1 of Inl e \<Rightarrow> Inl (SIo e) | Inr _ \<Rightarrow> Inr s)"
        using 2(2) s by (auto simp: and_do_def io_def ok_with_def split: sum.splits)
      note f2 = sync_frame [OF s wf2]
      have "touches {p} (disk w) (disk w3)" using f1 f2 h1(1,2) r1(1) by (auto intro: touches_trans)
      moreover have "shows_entry (disk w3) (dk_dir (disk w3) p) (Some (concat (o_cut E bs)))" if "r1 = Inr ()"
        using f1 f2 that h1(1,4) r1(1) 2(1) by (auto simp: shows_entry_def opened_def)
      ultimately show ?thesis using r1(2) by (auto simp: d Inr x split: sum.splits)
    qed
  qed
qed

lemma write_whole_triple:
  assumes "t \<notin> dom S \<union> dom N"
  shows "triple (\<lambda>w. settled S N (disk w)) (write_whole F t bs)
    (\<lambda>_ w. settled S N (disk w) \<and> shows_entry (disk w) (dk_dir (disk w) t) (Some bs)) (\<lambda>w. settled S N (disk w))"
  unfolding triple_def
proof (intro allI impI)
  fix w assume st: "settled S N (disk w)"
  obtain r w' where m: "write_whole F t bs w = (r, w')" by force
  note f = write_whole_frame [OF m settled_wf [OF st]]
  have "settled S N (disk w')" by (rule touches_settled [OF conjunct1 [OF f] st]) (use assms in auto)
  then show "case write_whole F t bs w of (Inl e, w') \<Rightarrow> settled S N (disk w')
      | (Inr x, w') \<Rightarrow> settled S N (disk w') \<and> shows_entry (disk w') (dk_dir (disk w') t) (Some bs)"
    using conjunct2 [OF f] by (cases r) (simp_all add: m)
qed

lemma write_idx_triple:
  assumes "t \<notin> dom S \<union> dom N"
  shows "triple (\<lambda>w. settled S N (disk w)) (write_idx E F t terms)
    (\<lambda>s w. settled S N (disk w) \<and> (\<exists>bs. idx_write (o_crc E) [] terms = Inr (bs, s) \<and>
       shows_entry (disk w) (dk_dir (disk w) t) (Some (concat (o_cut E bs))))) (\<lambda>w. settled S N (disk w))"
  unfolding triple_def
proof (intro allI impI)
  fix w assume st: "settled S N (disk w)"
  obtain r w' where m: "write_idx E F t terms w = (r, w')" by force
  note f = write_idx_frame [OF m settled_wf [OF st]]
  have "settled S N (disk w')" by (rule touches_settled [OF conjunct1 [OF f] st]) (use assms in auto)
  then show "case write_idx E F t terms w of (Inl e, w') \<Rightarrow> settled S N (disk w')
      | (Inr s, w') \<Rightarrow> settled S N (disk w') \<and> (\<exists>bs. idx_write (o_crc E) [] terms = Inr (bs, s) \<and>
          shows_entry (disk w') (dk_dir (disk w') t) (Some (concat (o_cut E bs))))"
    using conjunct2 [OF f] by (cases r) (simp_all add: m)
qed

lemma rename_triple:
  assumes "{t, n} \<inter> (dom S \<union> dom N) = {}"
  shows "triple (\<lambda>w. settled S N (disk w) \<and> shows_entry (disk w) (dk_dir (disk w) t) (Some bs)) (io (fs_rename F t n))
    (\<lambda>_ w. settled S (N(n \<mapsto> Some bs)) (disk w)) (\<lambda>w. settled S N (disk w))"
  unfolding triple_def
proof (intro allI impI)
  fix w assume st: "settled S N (disk w) \<and> shows_entry (disk w) (dk_dir (disk w) t) (Some bs)"
  obtain r w' where m: "fs_rename F t n w = (r, w')" by force
  have wf: "disk_wf (disk w)" using st settled_wf by blast
  note f = rename_frame [OF m wf]
  show "case io (fs_rename F t n) w of (Inl e, w') \<Rightarrow> settled S N (disk w') | (Inr x, w') \<Rightarrow> settled S (N(n \<mapsto> Some bs)) (disk w')"
  proof (cases r)
    case (Inl e)
    then show ?thesis using f st by (simp add: io_def m)
  next
    case (Inr u)
    then have "real_rename t n (disk w) = (Inr (), disk w')" using f by simp
    then have "touches {t, n} (disk w) (disk w')" "shows_entry (disk w') (dk_dir (disk w') n) (Some bs)"
      using real_rename_frame [OF _ wf] st by blast+
    then have "settled S (N(n \<mapsto> Some bs)) (disk w')" using st assms by (intro settled_add [of "{t, n}" "disk w"]) auto
    then show ?thesis by (simp add: io_def m Inr)
  qed
qed

end

section \<open>Flushing a segment\<close>

text \<open>\<open>BufWriter\<close> writes what it is given, in some pieces.\<close>

definition cut_ok :: "'w outside \<Rightarrow> bool" where
  "cut_ok E \<longleftrightarrow> (\<forall>bs. concat (o_cut E bs) = bs)"

lemma tmp_names_differ: "idx_name i \<noteq> tmp_name n" "doc_name i \<noteq> tmp_name n" "tmp_name n \<noteq> idx_name i" "tmp_name n \<noteq> doc_name i"
  by (rule names_differ; simp)+

definition flush_names :: "u32 \<Rightarrow> name set" where
  "flush_names i = {tmp_name (idx_name i), idx_name i, tmp_name (doc_name i), doc_name i}"

text \<open>The new files of a segment, on top of the view \<open>N\<close>.\<close>

definition with_segment :: "'w outside \<Rightarrow> u32 \<Rightarrow> segment_acc \<Rightarrow> view \<Rightarrow> view" where
  "with_segment E i a N = N(idx_name i \<mapsto> Some (idx_content E a), doc_name i \<mapsto> Some (doc_content E a))"

context fs_contract
begin

definition staged :: "view \<Rightarrow> view \<Rightarrow> name set \<Rightarrow> 'w \<times> name list \<Rightarrow> bool" where
  "staged S N P = (\<lambda>(w, fl). settled S N (disk w) \<and> set fl \<subseteq> P)"

definition staged_tmp :: "view \<Rightarrow> view \<Rightarrow> name set \<Rightarrow> name \<Rightarrow> bytes \<Rightarrow> 'w \<times> name list \<Rightarrow> bool" where
  "staged_tmp S N P t bs = (\<lambda>(w, fl). settled S N (disk w) \<and> shows_entry (disk w) (dk_dir (disk w) t) (Some bs) \<and> set fl \<subseteq> P)"

lemma staged_le: "staged S N' P w \<Longrightarrow> N \<subseteq>\<^sub>m N' \<Longrightarrow> staged S N P w"
  by (auto simp: staged_def intro: settled_le split: prod.splits)

lemma push_staged: "n \<in> P \<Longrightarrow> triple (staged S N P) (push_new n) (\<lambda>_. staged S N P) E'"
  by (rule triple_push_new) (simp add: staged_def)

lemma push_staged_tmp: "n \<in> P \<Longrightarrow> triple (staged_tmp S N P t bs) (push_new n) (\<lambda>_. staged_tmp S N P t bs) E'"
  by (rule triple_push_new) (simp add: staged_tmp_def)

lemma inner_rename:
  assumes "{t, n} \<inter> (dom S \<union> dom N) = {}"
  shows "triple (staged_tmp S N P t bs) (inner (io (fs_rename F t n))) (\<lambda>_. staged S (N(n \<mapsto> Some bs)) P) (staged S N P)"
  by (rule triple_inner, rule triple_weaken [OF triple_frame [OF rename_triple [OF assms]]]) (auto simp: staged_tmp_def staged_def dest: subsetD)

lemma inner_write_whole:
  assumes "t \<notin> dom S \<union> dom N"
  shows "triple (staged S N P) (inner (write_whole F t bs)) (\<lambda>_. staged_tmp S N P t bs) (staged S N P)"
  by (rule triple_inner, rule triple_weaken [OF triple_frame [OF write_whole_triple [OF assms]]]) (auto simp: staged_tmp_def staged_def)

lemma inner_write_idx:
  assumes "t \<notin> dom S \<union> dom N" and w: "idx_write (o_crc E) [] terms = Inr (bs, s)" and c: "cut_ok E"
  shows "triple (staged S N P) (inner (write_idx E F t terms)) (\<lambda>s' w. s' = s \<and> staged_tmp S N P t bs w) (staged S N P)"
proof (rule triple_inner)
  fix fl
  have "concat (o_cut E bs) = bs" using c by (simp add: cut_ok_def)
  then show "triple (\<lambda>w. staged S N P (w, fl)) (write_idx E F t terms) (\<lambda>s' w. s' = s \<and> staged_tmp S N P t bs (w, fl)) (\<lambda>w. staged S N P (w, fl))"
    by (intro triple_weaken [OF triple_frame [OF write_idx_triple [OF assms(1)], where Q = "set fl \<subseteq> P"]])
      (auto simp: staged_tmp_def staged_def w dest: subsetD)
qed

lemma inner_try_format:
  assumes "r = Inr x"
  shows "triple A (inner (try_format r)) (\<lambda>y w. y = x \<and> A w) E'"
  by (auto simp: triple_def inner_def try_format_def assms)

lemma triple_and: "triple A m (\<lambda>y w. y = x \<and> B w) E' \<Longrightarrow> triple B (f x) C E' \<Longrightarrow> triple A (and_do m f) C E'"
  by (erule triple_and_do) (auto simp: triple_def)

lemma flush_rule:
  assumes a: "acc_holds (o_unicode E) (o_read E) (o_hash E) n b a" and fit: "corpus_fits E b"
    and w: "idx_write (o_crc E) [] (acc_terms a) = Inr (idx_content E a, s)" "is_crc s = o_crc E (idx_body (storable (acc_terms a)))"
      "is_len s = of_nat (length (idx_content E a))" "is_num_terms s = of_nat (length (storable (acc_terms a)))"
    and P: "flush_names i \<subseteq> P" and N': "N' = N(idx_name i \<mapsto> Some (idx_content E a))"
    and t1: "triple (staged S N P) (inner (write_idx E F (tmp_name (idx_name i)) (acc_terms a)))
      (\<lambda>s' w. s' = s \<and> staged_tmp S N P (tmp_name (idx_name i)) (idx_content E a) w) X"
    and t2: "triple (staged_tmp S N P (tmp_name (idx_name i)) (idx_content E a)) (inner (io (fs_rename F (tmp_name (idx_name i)) (idx_name i))))
      (\<lambda>_. staged S N' P) X"
    and t3: "triple (staged S N' P) (inner (write_whole F (tmp_name (doc_name i)) (doc_content E a)))
      (\<lambda>_. staged_tmp S N' P (tmp_name (doc_name i)) (doc_content E a)) X"
    and t4: "triple (staged_tmp S N' P (tmp_name (doc_name i)) (doc_content E a)) (inner (io (fs_rename F (tmp_name (doc_name i)) (doc_name i))))
      (\<lambda>_. staged S (with_segment E i a N) P) X"
  shows "triple (staged S N P) (flush_segment E F i a) (\<lambda>e w. entry_for E i a e \<and> staged S (with_segment E i a N) P w) X"
proof -
  let ?crc = "o_crc E" and ?ds = "map (doc_in_of E) (ac_docs a)"
  have dok: "docs_ok ?ds" using segment_docs_ok [OF fit] a by (simp add: acc_holds_def)
  have enc: "doc_encode ?crc ?ds = Inr (doc_content E a)" unfolding doc_content_def by (rule doc_encode_eq [OF dok])
  have prs: "doc_parse (doc_content E a) = Inr (doc_view_of ?crc ?ds)" unfolding doc_content_def by (rule doc_parse_of_encode [OF dok])
  have nm: "tmp_name (idx_name i) \<in> P" "idx_name i \<in> P" "tmp_name (doc_name i) \<in> P" "doc_name i \<in> P" using P(1) by (auto simp: flush_names_def)
  show ?thesis
    unfolding flush_segment_def
    apply (rule triple_and_do [OF push_staged [OF nm(1)]])
    apply (rule triple_and [OF t1])
    apply (rule triple_and_do [OF push_staged_tmp [OF nm(2)]])
    apply (rule triple_and_do [OF t2])
    apply (rule triple_and [OF inner_try_format [OF enc]])
    apply (rule triple_and [OF inner_try_format [OF prs]])
    apply (rule triple_and_do [OF push_staged [OF nm(3)]])
    apply (rule triple_and_do [OF t3])
    apply (rule triple_and_do [OF push_staged_tmp [OF nm(4)]])
    apply (rule triple_and_do [OF t4])
    apply (rule triple_ok_with)
    apply (simp add: entry_for_def w doc_view_of_def)
    done
qed

text \<open>
  A flush shows the two files of the segment and nothing else new, and records every file it creates. \<open>X\<close> holds when it
  fails.
\<close>

definition flushes :: "'w outside \<Rightarrow> view \<Rightarrow> name set \<Rightarrow> ('w \<times> name list \<Rightarrow> bool) \<Rightarrow> bool" where
  "flushes E S P X \<longleftrightarrow> (\<forall>n b a i N. acc_holds (o_unicode E) (o_read E) (o_hash E) n b a \<longrightarrow> corpus_fits E b \<longrightarrow>
     flush_names i \<subseteq> P \<longrightarrow> flush_names i \<inter> (dom S \<union> dom N) = {} \<longrightarrow>
     triple (staged S N P) (flush_segment E F i a) (\<lambda>e w. entry_for E i a e \<and> staged S (with_segment E i a N) P w) X)"

lemma acc_written:
  assumes "acc_holds (o_unicode E) (o_read E) (o_hash E) n b a" and "corpus_fits E b"
  shows "\<exists>s. idx_write (o_crc E) [] (acc_terms a) = Inr (idx_content E a, s) \<and> is_crc s = o_crc E (idx_body (storable (acc_terms a))) \<and>
    is_len s = of_nat (length (idx_content E a)) \<and> is_num_terms s = of_nat (length (storable (acc_terms a)))"
proof -
  have ifit: "idx_fits (storable (acc_terms a))" and lt: "length (acc_terms a) < 2 ^ 64"
    using acc_terms_fit [OF assms(1)] assms(2) by (simp_all add: corpus_fits_def)
  have pf: "\<forall>e \<in> set (storable (acc_terms a)). plist_fits (snd e)" using ifit by (simp add: idx_fits_def)
  show ?thesis using idx_write_eq [OF pf lt, of "o_crc E"] unfolding idx_content_def length_seal by blast
qed

lemma flush_names_free:
  assumes "flush_names i \<inter> (dom S \<union> dom N) = {}" and "N' = N(idx_name i \<mapsto> Some bs)"
  shows "tmp_name (idx_name i) \<notin> dom S \<union> dom N" "{tmp_name (idx_name i), idx_name i} \<inter> (dom S \<union> dom N) = {}"
    "tmp_name (doc_name i) \<notin> dom S \<union> dom N'" "{tmp_name (doc_name i), doc_name i} \<inter> (dom S \<union> dom N') = {}" "N \<subseteq>\<^sub>m N'"
proof -
  have out: "x \<notin> dom S \<union> dom N" if "x \<in> flush_names i" for x using assms(1) that by blast
  have four: "tmp_name (idx_name i) \<in> flush_names i" "idx_name i \<in> flush_names i" "tmp_name (doc_name i) \<in> flush_names i"
    "doc_name i \<in> flush_names i" by (simp_all add: flush_names_def)
  note no = out [OF four(1)] out [OF four(2)] out [OF four(3)] out [OF four(4)]
  have d: "dom N' = insert (idx_name i) (dom N)" by (simp add: assms(2))
  show "tmp_name (idx_name i) \<notin> dom S \<union> dom N" "{tmp_name (idx_name i), idx_name i} \<inter> (dom S \<union> dom N) = {}" using no by blast+
  have "tmp_name (doc_name i) \<noteq> idx_name i" "doc_name i \<noteq> idx_name i" using tmp_names_differ by simp_all
  then show "tmp_name (doc_name i) \<notin> dom S \<union> dom N'" "{tmp_name (doc_name i), doc_name i} \<inter> (dom S \<union> dom N') = {}"
    unfolding d using no by blast+
  show "N \<subseteq>\<^sub>m N'" using no by (auto simp: map_le_def assms(2))
qed

text \<open>If a flush fails, what was shown before is still shown.\<close>

lemma flushes_keep:
  assumes c: "cut_ok E"
  shows "flushes E S P (staged S Map.empty P)"
  unfolding flushes_def
proof (intro allI impI)
  fix n b a i and N :: view
  assume a: "acc_holds (o_unicode E) (o_read E) (o_hash E) n b a" and fit: "corpus_fits E b"
    and P: "flush_names i \<subseteq> P" "flush_names i \<inter> (dom S \<union> dom N) = {}"
  obtain s where w: "idx_write (o_crc E) [] (acc_terms a) = Inr (idx_content E a, s)" "is_crc s = o_crc E (idx_body (storable (acc_terms a)))"
    "is_len s = of_nat (length (idx_content E a))" "is_num_terms s = of_nat (length (storable (acc_terms a)))"
    using acc_written [OF a fit] by blast
  define N' where "N' = N(idx_name i \<mapsto> Some (idx_content E a))"
  note f = flush_names_free [OF P(2) N'_def]
  have "with_segment E i a N = N'(doc_name i \<mapsto> Some (doc_content E a))" by (simp add: with_segment_def N'_def)
  note ws = this
  have t1: "triple (staged S N P) (inner (write_idx E F (tmp_name (idx_name i)) (acc_terms a)))
      (\<lambda>s' w. s' = s \<and> staged_tmp S N P (tmp_name (idx_name i)) (idx_content E a) w) (staged S Map.empty P)"
    by (rule triple_err [OF inner_write_idx [OF f(1) w(1) c]], erule staged_le) simp
  have t2: "triple (staged_tmp S N P (tmp_name (idx_name i)) (idx_content E a)) (inner (io (fs_rename F (tmp_name (idx_name i)) (idx_name i))))
      (\<lambda>_. staged S N' P) (staged S Map.empty P)"
    unfolding N'_def by (rule triple_err [OF inner_rename [OF f(2)]], erule staged_le) simp
  have t3: "triple (staged S N' P) (inner (write_whole F (tmp_name (doc_name i)) (doc_content E a)))
      (\<lambda>_. staged_tmp S N' P (tmp_name (doc_name i)) (doc_content E a)) (staged S Map.empty P)"
    by (rule triple_err [OF inner_write_whole [OF f(3)]], erule staged_le) simp
  have t4: "triple (staged_tmp S N' P (tmp_name (doc_name i)) (doc_content E a)) (inner (io (fs_rename F (tmp_name (doc_name i)) (doc_name i))))
      (\<lambda>_. staged S (with_segment E i a N) P) (staged S Map.empty P)"
    unfolding ws by (rule triple_err [OF inner_rename [OF f(4)]], erule staged_le) simp
  show "triple (staged S N P) (flush_segment E F i a) (\<lambda>e w. entry_for E i a e \<and> staged S (with_segment E i a N) P w) (staged S Map.empty P)"
    by (rule flush_rule [OF a fit w P(1) N'_def t1 t2 t3 t4])
qed

end

text \<open>On the real file system a flush does not fail.\<close>

lemma real_steps:
  "\<exists>h d'. fs_create real_fs p d = (Inr h, d')" "\<exists>d'. fs_write real_fs h bs d = (Inr (), d')" "\<exists>d'. fs_sync_all real_fs h d = (Inr (), d')"
  by (auto simp: real_fs_def real_create_def real_write_def real_sync_all_def Let_def split: option.splits)

lemma write_all_succeeds: "\<exists>d'. write_all real_fs h bs d = (Inr (), d')"
  using real_steps(2) by (simp add: write_all_def)

lemma write_whole_succeeds: "\<exists>d'. write_whole real_fs p bs d = (Inr (), d')"
proof -
  obtain h d1 where h: "fs_create real_fs p d = (Inr h, d1)" using real_steps(1) by blast
  obtain d2 where d2: "write_all real_fs h bs d1 = (Inr (), d2)" using write_all_succeeds by blast
  obtain d3 where d3: "fs_sync_all real_fs h d2 = (Inr (), d3)" using real_steps(3) by blast
  show ?thesis by (simp add: write_whole_def and_do_def io_def h d2 d3)
qed

lemma write_pieces_succeeds: "\<exists>d'. write_pieces real_fs h ps d = (Inr (), d')"
proof (induction ps arbitrary: d)
  case (Cons p ps)
  obtain d1 where "write_all real_fs h p d = (Inr (), d1)" using write_all_succeeds by blast
  then show ?case using Cons.IH [of d1] by (simp add: and_do_def io_def)
qed (simp add: ok_with_def)

lemma write_idx_succeeds:
  assumes "idx_write (o_crc E) [] terms = Inr (bs, s)"
  shows "\<exists>d'. write_idx E real_fs p terms d = (Inr s, d')"
proof -
  obtain h d1 where h: "fs_create real_fs p d = (Inr h, d1)" using real_steps(1) by blast
  obtain d2 where d2: "write_pieces real_fs h (o_cut E bs) d1 = (Inr (), d2)" using write_pieces_succeeds by blast
  obtain d3 where d3: "fs_sync_all real_fs h d2 = (Inr (), d3)" using real_steps(3) by blast
  show ?thesis by (simp add: write_idx_def and_do_def io_def try_format_def ok_with_def assms h d2 d3)
qed

lemma rename_succeeds: "shows_entry d (dk_dir d p) (Some bs) \<Longrightarrow> \<exists>d'. fs_rename real_fs p q d = (Inr (), d')"
  by (auto simp: shows_entry_def real_fs_ops real_rename_def)

lemma triple_succeeds:
  "triple A m B E \<Longrightarrow> (\<And>w. A w \<Longrightarrow> \<exists>x w'. m w = (Inr x, w')) \<Longrightarrow> triple A m B (\<lambda>_. False)"
  unfolding triple_def by (fastforce split: prod.splits sum.splits)

lemma inner_succeeds: "m w = (Inr x, w') \<Longrightarrow> inner m (w, fl) = (Inr x, (w', fl))"
  by (simp add: inner_def)

lemma flushes_real:
  assumes c: "cut_ok E"
  shows "real.flushes E S P (\<lambda>_. False)"
  unfolding real.flushes_def
proof (intro allI impI)
  fix n b a i and N :: view
  assume a: "acc_holds (o_unicode E) (o_read E) (o_hash E) n b a" and fit: "corpus_fits E b"
    and P: "flush_names i \<subseteq> P" "flush_names i \<inter> (dom S \<union> dom N) = {}"
  obtain s where w: "idx_write (o_crc E) [] (acc_terms a) = Inr (idx_content E a, s)" "is_crc s = o_crc E (idx_body (storable (acc_terms a)))"
    "is_len s = of_nat (length (idx_content E a))" "is_num_terms s = of_nat (length (storable (acc_terms a)))"
    using real.acc_written [OF a fit] by blast
  define N' where "N' = N(idx_name i \<mapsto> Some (idx_content E a))"
  note f = real.flush_names_free [OF P(2) N'_def]
  have rn: "\<exists>x w'. inner (io (fs_rename real_fs t m)) w = (Inr x, w')" if "real.staged_tmp S M P t bs w" for t m M bs w
  proof -
    obtain d fl where "w = (d, fl)" by (cases w) auto
    moreover from this that have "shows_entry d (dk_dir d t) (Some bs)" by (simp add: real.staged_tmp_def)
    then obtain d' where "fs_rename real_fs t m d = (Inr (), d')" using rename_succeeds by blast
    ultimately show ?thesis by (simp add: inner_def io_def)
  qed
  have ww: "\<exists>x w'. inner (write_whole real_fs t bs) w = (Inr x, w')" for t bs w
    using write_whole_succeeds [of t bs "fst w"] by (cases w) (auto simp: inner_def)
  have wi: "\<exists>x w'. inner (write_idx E real_fs t (acc_terms a)) w = (Inr x, w')" for t w
    using write_idx_succeeds [OF w(1), of t "fst w"] by (cases w) (auto simp: inner_def)
  have "with_segment E i a N = N'(doc_name i \<mapsto> Some (doc_content E a))" by (simp add: with_segment_def N'_def)
  note ws = this
  have t1: "triple (real.staged S N P) (inner (write_idx E real_fs (tmp_name (idx_name i)) (acc_terms a)))
      (\<lambda>s' w. s' = s \<and> real.staged_tmp S N P (tmp_name (idx_name i)) (idx_content E a) w) (\<lambda>_. False)"
    by (rule triple_succeeds [OF real.inner_write_idx [OF f(1) w(1) c] wi])
  have t2: "triple (real.staged_tmp S N P (tmp_name (idx_name i)) (idx_content E a)) (inner (io (fs_rename real_fs (tmp_name (idx_name i)) (idx_name i))))
      (\<lambda>_. real.staged S N' P) (\<lambda>_. False)"
    unfolding N'_def by (rule triple_succeeds [OF real.inner_rename [OF f(2)] rn])
  have t3: "triple (real.staged S N' P) (inner (write_whole real_fs (tmp_name (doc_name i)) (doc_content E a)))
      (\<lambda>_. real.staged_tmp S N' P (tmp_name (doc_name i)) (doc_content E a)) (\<lambda>_. False)"
    by (rule triple_succeeds [OF real.inner_write_whole [OF f(3)] ww])
  have t4: "triple (real.staged_tmp S N' P (tmp_name (doc_name i)) (doc_content E a)) (inner (io (fs_rename real_fs (tmp_name (doc_name i)) (doc_name i))))
      (\<lambda>_. real.staged S (with_segment E i a N) P) (\<lambda>_. False)"
    unfolding ws by (rule triple_succeeds [OF real.inner_rename [OF f(4)] rn])
  show "triple (real.staged S N P) (flush_segment E real_fs i a) (\<lambda>e w. entry_for E i a e \<and> real.staged S (with_segment E i a N) P w) (\<lambda>_. False)"
    by (rule real.flush_rule [OF a fit w P(1) N'_def t1 t2 t3 t4])
qed

section \<open>The shards of a batch\<close>

text \<open>Shards of consecutive files, the first of which has id \<open>n\<close>.\<close>

fun laid :: "'w outside \<Rightarrow> nat \<Rightarrow> (shard \<times> file_entry list) list \<Rightarrow> bool" where
  "laid E n [] \<longleftrightarrow> True"
| "laid E n ((sh, c) # xs) \<longleftrightarrow> c \<noteq> [] \<and> sh = index_shard (o_unicode E) (o_read E) (o_hash E) (of_nat n) c \<and> laid E (n + length c) xs"

lemma laid_append: "laid E n (xs @ ys) \<longleftrightarrow> laid E n xs \<and> laid E (n + length (concat (map snd xs))) ys"
  by (induction E n xs rule: laid.induct) (auto simp: add.assoc)

lemma chunk_shards_laid:
  assumes "1 \<le> k"
  shows "laid E (n + j * k) (map (\<lambda>(i, c). (index_shard (o_unicode E) (o_read E) (o_hash E) (of_nat n + of_nat (i * k)) c, c)) (enumerate j (chunks k xs))) \<and>
    concat (map snd (map (\<lambda>(i, c). (index_shard (o_unicode E) (o_read E) (o_hash E) (of_nat n + of_nat (i * k)) c, c)) (enumerate j (chunks k xs)))) = xs"
  using assms
proof (induction k xs arbitrary: j rule: chunks.induct)
  case (1 k xs)
  show ?case
  proof (cases "xs = []")
    case True
    then show ?thesis by (simp add: chunks.simps)
  next
    case False
    then have c: "chunks k xs = take k xs # chunks k (drop k xs)" using 1(2) by (subst chunks.simps) simp
    note ih = 1(1) [of "Suc j"]
    have t: "take k xs \<noteq> []" using False 1(2) by auto
    show ?thesis
    proof (cases "length xs \<le> k")
      case True
      then have "chunks k (drop k xs) = []" by (simp add: chunks.simps)
      then show ?thesis using c t True by (simp add: add.assoc)
    next
      case shorter: False
      then have "length (take k xs) = k" by simp
      then show ?thesis using ih c t False 1(2) by (simp add: add.assoc algebra_simps)
    qed
  qed
qed

lemma batch_shards_laid:
  assumes "1 \<le> k"
  shows "laid E n (batch_shards E k (of_nat n) xs) \<and> concat (map snd (batch_shards E k (of_nat n) xs)) = xs"
  using chunk_shards_laid [OF assms, of E n 0 xs] by (simp add: batch_shards_def)

lemma batches_laid:
  assumes "1 \<le> k" and "1 \<le> batch"
  shows "laid E (n + j * batch) (concat (map (\<lambda>(b, c). batch_shards E k (of_nat n + of_nat (b * batch)) c) (enumerate j (chunks batch xs)))) \<and>
    concat (map snd (concat (map (\<lambda>(b, c). batch_shards E k (of_nat n + of_nat (b * batch)) c) (enumerate j (chunks batch xs))))) = xs"
  using assms(2)
proof (induction batch xs arbitrary: j rule: chunks.induct)
  case (1 batch xs)
  show ?case
  proof (cases "xs = []")
    case True
    then show ?thesis by (simp add: chunks.simps)
  next
    case False
    then have c: "chunks batch xs = take batch xs # chunks batch (drop batch xs)" using 1(2) by (subst chunks.simps) simp
    have ne: "\<not> (xs = [] \<or> batch = 0)" using False 1(2) by simp
    note ih = 1(1) [OF ne 1(2), of "Suc j"]
    have here: "laid E (n + j * batch) (batch_shards E k (of_nat n + of_nat (j * batch)) (take batch xs)) \<and>
        concat (map snd (batch_shards E k (of_nat n + of_nat (j * batch)) (take batch xs))) = take batch xs"
      using batch_shards_laid [OF assms(1), of E "n + j * batch" "take batch xs"] by simp
    show ?thesis
    proof (cases "length xs \<le> batch")
      case True
      then have "chunks batch (drop batch xs) = []" by (simp add: chunks.simps)
      then show ?thesis using c here True by simp
    next
      case shorter: False
      let ?B = "batch_shards E k (of_nat n + of_nat (j * batch)) (take batch xs)"
      have "n + Suc j * batch = n + j * batch + length (concat (map snd ?B))" using here shorter by simp
      then show ?thesis using ih here unfolding c enumerate_simps list.map concat.simps prod.case laid_append map_append concat_append
        by (simp only: append_take_drop_id simp_thms)
    qed
  qed
qed

section \<open>Laying out segments\<close>

definition seg_stored :: "'w outside \<Rightarrow> view \<Rightarrow> nat \<Rightarrow> u32 \<Rightarrow> file_entry list \<Rightarrow> segment_entry \<Rightarrow> bool" where
  "seg_stored E N n i b e \<longleftrightarrow> b \<noteq> [] \<and> (\<exists>a. acc_holds (o_unicode E) (o_read E) (o_hash E) n b a \<and> entry_for E i a e \<and>
     N (idx_name i) = Some (Some (idx_content E a)) \<and> N (doc_name i) = Some (Some (doc_content E a)))"

text \<open>The entries \<open>es\<close> lay out the blocks \<open>bs\<close> of files, from id \<open>n\<close> and segment id \<open>i\<close>, with their files in the view \<open>N\<close>.\<close>

fun laid_out :: "'w outside \<Rightarrow> view \<Rightarrow> nat \<Rightarrow> u32 \<Rightarrow> file_entry list list \<Rightarrow> segment_entry list \<Rightarrow> bool" where
  "laid_out E N n i [] [] \<longleftrightarrow> True"
| "laid_out E N n i (b # bs) (e # es) \<longleftrightarrow> seg_stored E N n i b e \<and> laid_out E N (n + length b) (i + 1) bs es"
| "laid_out E N n i _ _ \<longleftrightarrow> False"

lemma laid_out_length: "laid_out E N n i bs es \<Longrightarrow> length es = length bs \<and> length bs \<le> length (concat bs)"
proof (induction E N n i bs es rule: laid_out.induct)
  case (2 E N n i b bs e es)
  then have "1 \<le> length b" by (cases b) (simp_all add: seg_stored_def)
  then show ?case using 2 by simp
qed simp_all

lemma laid_out_snoc:
  "laid_out E N n i bs es \<Longrightarrow> seg_stored E N (n + length (concat bs)) (i + of_nat (length bs)) b e \<Longrightarrow> laid_out E N n i (bs @ [b]) (es @ [e])"
  by (induction E N n i bs es rule: laid_out.induct) (auto simp: add.assoc)

lemma laid_out_mono: "laid_out E N n i bs es \<Longrightarrow> N \<subseteq>\<^sub>m N' \<Longrightarrow> laid_out E N' n i bs es"
proof (induction E N n i bs es rule: laid_out.induct)
  case (2 E N n i b bs e es)
  have "N' k = Some x" if "N k = Some x" for k x using that 2(3) by (metis domI map_le_def)
  then show ?case using 2 unfolding laid_out.simps seg_stored_def by blast
qed simp_all

text \<open>The names of the segments with ids \<open>i\<close>, \<open>i + 1\<close>, \<open>\<dots>\<close>, \<open>i + (k - 1)\<close>.\<close>

definition segment_names :: "u32 \<Rightarrow> nat \<Rightarrow> name set" where
  "segment_names i k = (\<Union>j < k. {idx_name (i + of_nat j), doc_name (i + of_nat j)})"

definition fresh_names :: "u32 \<Rightarrow> nat \<Rightarrow> name set" where
  "fresh_names i k = (\<Union>j < k. flush_names (i + of_nat j))"

lemma segment_names_Suc: "segment_names i (Suc k) = segment_names i k \<union> {idx_name (i + of_nat k), doc_name (i + of_nat k)}"
  by (auto simp: segment_names_def less_Suc_eq)

lemma flush_fresh:
  assumes "k < 2 ^ 32"
  shows "flush_names (i + of_nat k) \<inter> segment_names i k = {}"
proof -
  have "(of_nat j :: u32) \<noteq> of_nat k" if "j < k" for j using that assms of_nat_inj32 [of j k] by simp
  then show ?thesis by (auto simp: flush_names_def segment_names_def tmp_names_differ dest: sym)
qed

text \<open>The state of the loop after the files \<open>done\<close>.\<close>

definition building :: "'w outside \<Rightarrow> nat \<Rightarrow> u32 \<Rightarrow> file_entry list \<Rightarrow> view \<Rightarrow> build_state \<Rightarrow> bool" where
  "building E n i seen N = (\<lambda>(entries, acc, next_id). \<exists>bs rest. concat bs @ rest = seen \<and> laid_out E N n i bs entries \<and>
     next_id = i + of_nat (length bs) \<and> dom N \<subseteq> segment_names i (length bs) \<and>
     acc_holds (o_unicode E) (o_read E) (o_hash E) (n + length (concat bs)) rest acc)"

lemma with_segment_view:
  assumes "flush_names i \<inter> dom N = {}"
  shows "N \<subseteq>\<^sub>m with_segment E i a N" "dom (with_segment E i a N) = dom N \<union> {idx_name i, doc_name i}"
    "with_segment E i a N (idx_name i) = Some (Some (idx_content E a))" "with_segment E i a N (doc_name i) = Some (Some (doc_content E a))"
proof -
  have "idx_name i \<notin> dom N" "doc_name i \<notin> dom N" using assms by (auto simp: flush_names_def)
  then show "N \<subseteq>\<^sub>m with_segment E i a N" by (auto simp: map_le_def with_segment_def)
qed (auto simp: with_segment_def)

context fs_contract
begin

text \<open>Flushing the accumulator of a state of the loop.\<close>

lemma flush_building:
  assumes b: "building E n i seen N (entries, acc, next_id)" and ne: "ac_docs acc \<noteq> []" and fit: "corpus_fits E seen" and c: "flushes E S P X"
    and P: "fresh_names i (length seen) \<subseteq> P" "fresh_names i (length seen) \<inter> dom S = {}" and st: "staged S N P w"
    and f: "flush_segment E F next_id acc w = (r, w')"
  shows "case r of Inl _ \<Rightarrow> X w'
    | Inr e \<Rightarrow> \<exists>N'. building E n i seen N' (entries @ [e], acc_new (ac_base acc + of_nat (length (ac_docs acc))), next_id + 1) \<and> staged S N' P w'"
proof -
  obtain bs rest where bs: "concat bs @ rest = seen" "laid_out E N n i bs entries" "next_id = i + of_nat (length bs)"
    "dom N \<subseteq> segment_names i (length bs)" "acc_holds (o_unicode E) (o_read E) (o_hash E) (n + length (concat bs)) rest acc"
    using b by (auto simp: building_def)
  have docs: "ac_docs acc = metas E rest" "ac_base acc = of_nat (n + length (concat bs))" using bs(5) by (simp_all add: acc_holds_def)
  have rest: "rest \<noteq> []" using ne docs by simp
  have "length bs \<le> length (concat bs)" using laid_out_length [OF bs(2)] by simp
  moreover have "0 < length rest" using rest by simp
  ultimately have lt: "length bs < length seen" unfolding bs(1) [symmetric] length_append by linarith
  have l32: "length bs < 2 ^ 32" using lt fit by (simp add: corpus_fits_def files_fit_def)
  have fit': "corpus_fits E rest" using fit corpus_fits_parts(2) bs(1) by metis
  have "flush_names next_id \<subseteq> fresh_names i (length seen)" using lt unfolding bs(3) fresh_names_def by blast
  then have n1: "flush_names next_id \<subseteq> P" "flush_names next_id \<inter> dom S = {}" using P by blast+
  have nd: "flush_names next_id \<inter> dom N = {}" using flush_fresh [OF l32, of i] bs(3,4) by blast
  have "flush_names next_id \<inter> (dom S \<union> dom N) = {}" using n1(2) nd by blast
  then have "triple (staged S N P) (flush_segment E F next_id acc) (\<lambda>e w. entry_for E next_id acc e \<and> staged S (with_segment E next_id acc N) P w) X"
    using c bs(5) fit' n1(1) unfolding flushes_def by blast
  note t = triple_result [OF this st f]
  show ?thesis
  proof (cases r)
    case (Inl e)
    then show ?thesis using t by simp
  next
    case (Inr e)
    let ?N = "with_segment E next_id acc N"
    note v = with_segment_view [OF nd, of E acc]
    have "seg_stored E ?N (n + length (concat bs)) next_id rest e"
      using t Inr bs(5) rest v(3,4) unfolding seg_stored_def by auto
    then have "laid_out E ?N n i (bs @ [rest]) (entries @ [e])"
      using laid_out_snoc [OF laid_out_mono [OF bs(2) v(1)]] bs(3) by blast
    moreover have "dom ?N \<subseteq> segment_names i (length (bs @ [rest]))" using v(2) bs(3,4) segment_names_Suc [of i "length bs"] by auto
    moreover have "ac_base acc + of_nat (length (ac_docs acc)) = of_nat (n + length (concat (bs @ [rest])))"
      using docs by (simp add: add.assoc)
    then have "acc_holds (o_unicode E) (o_read E) (o_hash E) (n + length (concat (bs @ [rest]))) []
        (acc_new (ac_base acc + of_nat (length (ac_docs acc))))" using acc_new_holds by metis
    ultimately have "building E n i seen ?N (entries @ [e], acc_new (ac_base acc + of_nat (length (ac_docs acc))), next_id + 1)"
      unfolding building_def prod.case using bs(1,3) by (intro exI [of _ "bs @ [rest]"] exI [of _ "[]"]) simp
    then show ?thesis using t Inr by auto
  qed
qed

lemma absorb_shards_building:
  assumes c: "flushes E S P X" and l: "laid E (n + length seen) xs" and fit: "corpus_fits E (seen @ concat (map snd xs))"
    and n: "n + length (seen @ concat (map snd xs)) < 2 ^ 32"
    and P: "fresh_names i (length (seen @ concat (map snd xs))) \<subseteq> P" "fresh_names i (length (seen @ concat (map snd xs))) \<inter> dom S = {}"
    and b: "building E n i seen N st" and st: "staged S N P w"
  shows "\<exists>r w'. absorb_shards E F cfg xs st w = Some (r, w') \<and> (case r of Inl _ \<Rightarrow> X w'
    | Inr st' \<Rightarrow> \<exists>N'. building E n i (seen @ concat (map snd xs)) N' st' \<and> staged S N' P w')"
  using l fit n P b st
proof (induction xs arbitrary: seen N st w)
  case Nil
  then show ?case by auto
next
  case (Cons x xs)
  obtain sh ch where x: "x = (sh, ch)" by force
  obtain entries acc next_id where s: "st = (entries, acc, next_id)" by (cases st) auto
  let ?seen = "seen @ ch" and ?all = "seen @ concat (map snd (x # xs))"
  have all: "?all = ?seen @ concat (map snd xs)" by (simp add: x)
  have sh: "sh = index_shard (o_unicode E) (o_read E) (o_hash E) (of_nat (n + length seen)) ch" "ch \<noteq> []"
    "laid E (n + length ?seen) xs" using Cons.prems(1) by (simp_all add: x add.assoc)
  obtain bs rest where bs: "concat bs @ rest = seen" "laid_out E N n i bs entries" "next_id = i + of_nat (length bs)"
    "dom N \<subseteq> segment_names i (length bs)" "acc_holds (o_unicode E) (o_read E) (o_hash E) (n + length (concat bs)) rest acc"
    using Cons.prems(6) by (auto simp: building_def s)
  have "corpus_fits E ?seen" using Cons.prems(2) unfolding all by (rule corpus_fits_parts(1))
  then have fit1: "corpus_fits E (rest @ ch)" using corpus_fits_parts(2) [of E "concat bs" "rest @ ch"] bs(1) by (simp add: append_assoc [symmetric])
  have len: "length seen = length (concat bs) + length rest" unfolding bs(1) [symmetric] by (rule length_append)
  have "\<exists>acc'. absorb sh ch acc = Some acc' \<and> acc_holds (o_unicode E) (o_read E) (o_hash E) (n + length (concat bs)) (rest @ ch) acc'"
    unfolding sh(1) len add.assoc [symmetric]
    by (rule absorb_holds [OF bs(5)]) (use fit1 Cons.prems(3) len in \<open>simp_all add: corpus_fits_def x del: length_concat\<close>)
  then obtain acc' where acc': "absorb sh ch acc = Some acc'"
    "acc_holds (o_unicode E) (o_read E) (o_hash E) (n + length (concat bs)) (rest @ ch) acc'" by blast
  have "concat bs @ rest @ ch = ?seen" using bs(1) by (simp add: append_assoc [symmetric])
  then have b': "building E n i ?seen N (entries, acc', next_id)" using bs(2-4) acc'(2) unfolding building_def prod.case by blast
  have docs: "ac_docs acc' \<noteq> []" using acc'(2) sh(2) by (simp add: acc_holds_def)
  have sub: "fresh_names i (length ?seen) \<subseteq> fresh_names i (length ?all)" unfolding all fresh_names_def length_append by (intro UN_mono) auto
  have P1: "fresh_names i (length ?seen) \<subseteq> P" "fresh_names i (length ?seen) \<inter> dom S = {}" using sub Cons.prems(4,5) by blast+
  show ?case
  proof (cases "over_budget E cfg acc'")
    case False
    then have e: "absorb_shards E F cfg (x # xs) st w = absorb_shards E F cfg xs (entries, acc', next_id) w"
      by (simp add: absorb_shard_def s x acc'(1) ok_with_def)
    show ?thesis unfolding e all
      by (rule Cons.IH [OF sh(3) _ _ _ _ b' Cons.prems(7)]) (use Cons.prems(2-5) in \<open>simp_all only: all\<close>)
  next
    case True
    obtain r w' where f: "flush_segment E F next_id acc' w = (r, w')" by (metis surj_pair)
    note fb = flush_building [OF b' docs \<open>corpus_fits E ?seen\<close> c P1 Cons.prems(7) f]
    show ?thesis
    proof (cases r)
      case (Inl er)
      then have "absorb_shards E F cfg (x # xs) st w = Some (Inl er, w')"
        using True by (simp add: absorb_shard_def s x acc'(1) and_do_def f)
      then show ?thesis using fb Inl by auto
    next
      case (Inr e)
      let ?st = "(entries @ [e], acc_new (ac_base acc' + of_nat (length (ac_docs acc'))), next_id + 1)"
      have e: "absorb_shards E F cfg (x # xs) st w = absorb_shards E F cfg xs ?st w'"
        using True by (simp add: absorb_shard_def s x acc'(1) and_do_def f Inr ok_with_def)
      obtain N' where N': "building E n i ?seen N' ?st" "staged S N' P w'" using fb Inr by auto
      show ?thesis unfolding e all
        by (rule Cons.IH [OF sh(3) _ _ _ _ N']) (use Cons.prems(2-5) in \<open>simp_all only: all\<close>)
    qed
  qed
qed

text \<open>
  Cutting files into segments never panics. It fails, with nothing new shown, or the segments it lists lay out all
  the files in order.
\<close>

lemma build_segments_laid_out:
  assumes c: "flushes E S P X" and fit: "corpus_fits E files" and n: "n + length files < 2 ^ 32"
    and P: "fresh_names i (length files) \<subseteq> P" "fresh_names i (length files) \<inter> dom S = {}" and st: "staged S Map.empty P w"
  shows "\<exists>r w'. build_segments E F cfg files (of_nat n) i w = Some (r, w') \<and> (case r of Inl _ \<Rightarrow> X w'
    | Inr (entries, next_id) \<Rightarrow> \<exists>N bs. laid_out E N n i bs entries \<and> concat bs = files \<and> next_id = i + of_nat (length bs) \<and>
        dom N \<subseteq> segment_names i (length bs) \<and> staged S N P w')"
proof -
  let ?k = "max (bc_shard_size cfg) 1" and ?m = "max (bc_shard_size cfg) 1 * max (o_threads E) 1"
  let ?xs = "concat (map (\<lambda>(b, c). batch_shards E ?k (of_nat n + of_nat (b * ?m)) c) (enumerate 0 (chunks ?m files)))"
  have l: "laid E n ?xs" "concat (map snd ?xs) = files" using batches_laid [of ?k ?m E n 0 files] by simp_all
  have b0: "building E n i [] Map.empty ([], acc_new (of_nat n), i)"
    unfolding building_def prod.case by (intro exI [of _ "[]"]) (simp add: acc_new_holds)
  have "\<exists>r w'. absorb_shards E F cfg ?xs ([], acc_new (of_nat n), i) w = Some (r, w') \<and> (case r of Inl _ \<Rightarrow> X w'
      | Inr st' \<Rightarrow> \<exists>N'. building E n i ([] @ concat (map snd ?xs)) N' st' \<and> staged S N' P w')"
    by (rule absorb_shards_building [OF c _ _ _ _ _ b0 st]) (use l fit n P in simp_all)
  then obtain r w1 where r: "absorb_shards E F cfg ?xs ([], acc_new (of_nat n), i) w = Some (r, w1)"
    "case r of Inl _ \<Rightarrow> X w1 | Inr st' \<Rightarrow> \<exists>N'. building E n i files N' st' \<and> staged S N' P w1"
    unfolding l(2) append.left_neutral by blast
  show ?thesis
  proof (cases r)
    case (Inl e)
    then have "build_segments E F cfg files (of_nat n) i w = Some (Inl e, w1)"
      using r(1) by (simp add: build_segments_def Let_def and_do_def)
    then show ?thesis using r(2) Inl by auto
  next
    case (Inr st')
    obtain entries acc next_id where s: "st' = (entries, acc, next_id)" by (cases st') auto
    obtain N where N: "building E n i files N (entries, acc, next_id)" "staged S N P w1" using r(2) Inr s by auto
    then obtain bs rest where bs: "concat bs @ rest = files" "laid_out E N n i bs entries" "next_id = i + of_nat (length bs)"
      "dom N \<subseteq> segment_names i (length bs)" "acc_holds (o_unicode E) (o_read E) (o_hash E) (n + length (concat bs)) rest acc"
      by (auto simp: building_def)
    show ?thesis
    proof (cases "ac_docs acc = []")
      case True
      then have "rest = []" using bs(5) by (simp add: acc_holds_def)
      moreover have "build_segments E F cfg files (of_nat n) i w = Some (Inr (entries, next_id), w1)"
        using r(1) Inr s True by (simp add: build_segments_def Let_def and_do_def ok_with_def)
      ultimately show ?thesis using bs N(2) by auto
    next
      case False
      obtain r2 w2 where f: "flush_segment E F next_id acc w1 = (r2, w2)" by (metis surj_pair)
      note fb = flush_building [OF N(1) False fit c P N(2) f]
      show ?thesis
      proof (cases r2)
        case e: (Inl e)
        then have "build_segments E F cfg files (of_nat n) i w = Some (Inl e, w2)"
          using r(1) Inr s False by (simp add: build_segments_def Let_def and_do_def f)
        then show ?thesis using fb e by auto
      next
        case e: (Inr e)
        have "build_segments E F cfg files (of_nat n) i w = Some (Inr (entries @ [e], next_id + 1), w2)"
          using r(1) Inr s False e by (simp add: build_segments_def Let_def and_do_def f ok_with_def)
        moreover obtain N' where N': "building E n i files N' (entries @ [e], acc_new (ac_base acc + of_nat (length (ac_docs acc))), next_id + 1)"
          "staged S N' P w2" using fb e by auto
        moreover obtain bs' rest' where "concat bs' @ rest' = files" "laid_out E N' n i bs' (entries @ [e])" "next_id + 1 = i + of_nat (length bs')"
          "dom N' \<subseteq> segment_names i (length bs')" "acc_holds (o_unicode E) (o_read E) (o_hash E) (n + length (concat bs')) rest'
            (acc_new (ac_base acc + of_nat (length (ac_docs acc))))" using N'(1) by (auto simp: building_def)
        moreover from this have "rest' = []" by (simp add: acc_holds_def acc_new_def)
        ultimately show ?thesis by auto
      qed
    qed
  qed
qed

end

end
