(* ===== verification/Built_Index.thy ===== *)
theory Built_Index
  imports Build
begin

text \<open>
  The index that a build leaves (\<open>src/store/writer.rs\<close> and \<open>src/store/reader.rs\<close> together): its manifest, its opening,
  its document table and its answers, in terms of the files it was built from.

  Main facts: the manifest of segments that lay out some files is well formed (\<open>built_manifest_ok\<close>); a disk
  that holds it opens to an index over exactly these files (\<open>open_built\<close>), which lists them in order
  (\<open>built_docs_iter\<close>) and on which a query evaluates to the files whose text matches (\<open>built_evaluate\<close>).
\<close>

section \<open>The manifest\<close>

lemma seg_stored_entry:
  assumes "seg_stored E N n i b e" and "n + length b < 2 ^ 32"
  shows "segment_id e = i" "del_gen e = 0" "del_len e = 0" "num_deleted e = 0" "unat (base_doc e) = n" "end_doc e = n + length b"
    "set (segment_files e) = {idx_name i, doc_name i}"
proof -
  obtain a where a: "acc_holds (o_unicode E) (o_read E) (o_hash E) n b a" "entry_for E i a e" using assms(1) by (auto simp: seg_stored_def)
  have l: "length (ac_docs a) = length b" "ac_base a = of_nat n" using a(1) by (simp_all add: acc_holds_def)
  have u: "unat (of_nat n :: u32) = n" "unat (of_nat (length b) :: u32) = length b" using assms(2) by (auto intro!: unat_of_nat_less)
  show "segment_id e = i" "del_gen e = 0" "del_len e = 0" "num_deleted e = 0" "unat (base_doc e) = n" "end_doc e = n + length b"
    "set (segment_files e) = {idx_name i, doc_name i}"
    using a(2) l u by (simp_all add: entry_for_def end_doc_def segment_files_def)
qed

lemma laid_out_entries:
  assumes "laid_out E N n i bs es" and "n + length (concat bs) < 2 ^ 32" and "unat i + length bs < 2 ^ 32"
  shows "chain_ok es \<and> (\<forall>e \<in> set es. entry_ok (i + of_nat (length bs)) e \<and> n \<le> unat (base_doc e) \<and> i \<le> segment_id e)"
    and "\<forall>x \<in> \<Union> (set (map (set \<circ> segment_files) es)). \<exists>c. N x = Some (Some c)"
    and "\<forall>e \<in> set es. del_gen e = 0 \<and> num_deleted e = 0"
proof -
  have main: "chain_ok es \<and> (\<forall>e \<in> set es. entry_ok (i + of_nat (length bs)) e \<and> n \<le> unat (base_doc e) \<and> i \<le> segment_id e) \<and>
      (\<forall>x \<in> \<Union> (set (map (set \<circ> segment_files) es)). \<exists>c. N x = Some (Some c)) \<and> (\<forall>e \<in> set es. del_gen e = 0 \<and> num_deleted e = 0) \<and>
      (es \<noteq> [] \<longrightarrow> segment_id (hd es) = i)"
    using assms
  proof (induction E N n i bs es rule: laid_out.induct)
    case (2 E N n i b bs e es)
    have st: "seg_stored E N n i b e" and lo: "laid_out E N (n + length b) (i + 1) bs es" using 2(2) by simp_all
    have nb: "n + length b < 2 ^ 32" using 2(3) by simp
    note e = seg_stored_entry [OF st nb]
    have i1: "unat (i + 1) = unat i + 1" using 2(4) by (simp add: unat_word_ariths)
    have ih: "chain_ok es \<and> (\<forall>e \<in> set es. entry_ok (i + 1 + of_nat (length bs)) e \<and> n + length b \<le> unat (base_doc e) \<and> i + 1 \<le> segment_id e) \<and>
      (\<forall>x \<in> \<Union> (set (map (set \<circ> segment_files) es)). \<exists>c. N x = Some (Some c)) \<and> (\<forall>e \<in> set es. del_gen e = 0 \<and> num_deleted e = 0) \<and>
      (es \<noteq> [] \<longrightarrow> segment_id (hd es) = i + 1)"
      by (rule 2(1) [OF lo]) (use 2(3,4) i1 in simp_all)
    have next_eq: "i + 1 + of_nat (length bs) = i + of_nat (length (b # bs))" by simp
    note ih = ih [unfolded next_eq]
    have lt: "i < i + of_nat (length (b # bs))"
      using 2(4) unat_of_nat_less [of "length (b # bs)"] unfolding word_less_nat_alt by (simp add: unat_word_ariths)
    have "entry_ok (i + of_nat (length (b # bs))) e" unfolding entry_ok_def using e lt nb by simp
    moreover have "i \<le> segment_id f" if "f \<in> set es" for f
    proof -
      have "unat i + 1 \<le> unat (segment_id f)" using ih that i1 by (auto simp: word_le_nat_alt)
      then show ?thesis by (simp add: word_le_nat_alt)
    qed
    moreover have "chain_ok (e # es)"
    proof (cases es)
      case (Cons f fs)
      have "end_doc e \<le> unat (base_doc f)" "segment_id f = i + 1" using ih Cons e(6) by auto
      moreover have "i + 1 \<noteq> i" by simp
      ultimately show ?thesis using ih Cons e(1) by auto
    qed simp
    moreover have "\<exists>c. N x = Some (Some c)" if "x \<in> set (segment_files e)" for x using that st unfolding e(7) seg_stored_def by auto
    ultimately show ?case using ih e by (auto simp del: length_Cons of_nat_Suc)
  qed simp_all
  then show "chain_ok es \<and> (\<forall>e \<in> set es. entry_ok (i + of_nat (length bs)) e \<and> n \<le> unat (base_doc e) \<and> i \<le> segment_id e)"
    "\<forall>x \<in> \<Union> (set (map (set \<circ> segment_files) es)). \<exists>c. N x = Some (Some c)" "\<forall>e \<in> set es. del_gen e = 0 \<and> num_deleted e = 0" by blast+
qed

lemma built_manifest_ok:
  assumes "laid_out E N 0 i bs es" and "length (concat bs) < 2 ^ 32" and "unat i + length bs < 2 ^ 32"
  shows "manifest_ok (built_manifest E g es (i + of_nat (length bs)))"
    and "\<forall>n \<in> referenced_files (built_manifest E g es (i + of_nat (length bs))). \<exists>c. N n = Some (Some c)"
proof -
  have "length es < 2 ^ 32" using laid_out_length [OF assms(1)] assms(2) by linarith
  then show "manifest_ok (built_manifest E g es (i + of_nat (length bs)))"
    using laid_out_entries(1) [OF assms(1)] assms(2,3) by (simp add: manifest_ok_def built_manifest_def)
  show "\<forall>n \<in> referenced_files (built_manifest E g es (i + of_nat (length bs))). \<exists>c. N n = Some (Some c)"
    using laid_out_entries(2) [OF assms(1)] assms(2,3) by (simp add: referenced_files_def built_manifest_def)
qed

section \<open>Opening\<close>

fun segs_for :: "'w outside \<Rightarrow> nat \<Rightarrow> file_entry list list \<Rightarrow> segment list \<Rightarrow> bool" where
  "segs_for E n [] [] \<longleftrightarrow> True"
| "segs_for E n (b # bs) (s # ss) \<longleftrightarrow> built_seg E n b s \<and> segs_for E (n + length b) bs ss"
| "segs_for E n _ _ \<longleftrightarrow> False"

lemma load_segments_built:
  assumes "laid_out E N n i bs es" and "corpus_fits E (concat bs)" and "holds d N"
  shows "\<exists>ss. load_segments (o_crc E) real_fs verify es d = (Inr ss, d) \<and> map seg_entry ss = es \<and>
    (\<forall>s \<in> set ss. seg_valid (o_crc E) True s) \<and> segs_for E n bs ss"
  using assms
proof (induction E N n i bs es rule: laid_out.induct)
  case (2 E N n i b bs e es)
  obtain a where a: "acc_holds (o_unicode E) (o_read E) (o_hash E) n b a" "entry_for E i a e" "N (idx_name i) = Some (Some (idx_content E a))"
    "N (doc_name i) = Some (Some (doc_content E a))" using 2(2) by (auto simp: seg_stored_def)
  have f: "dk_file d (idx_name i) = Some (idx_content E a)" "dk_file d (doc_name i) = Some (doc_content E a)"
    using 2(4) a(3,4) by (simp_all add: holds_def)
  have fit: "corpus_fits E b" "corpus_fits E (concat bs)" using corpus_fits_parts [of E b "concat bs"] 2(3) by simp_all
  obtain s where s: "segment_open (o_crc E) real_fs e verify d = (Inr s, d)" "seg_entry s = e" "seg_valid (o_crc E) True s" "built_seg E n b s"
    using segment_built [OF a(1) fit(1) a(2) f] by blast
  obtain ss where "load_segments (o_crc E) real_fs verify es d = (Inr ss, d)" "map seg_entry ss = es"
    "\<forall>s \<in> set ss. seg_valid (o_crc E) True s" "segs_for E (n + length b) bs ss"
    using 2(1) [OF _ fit(2) 2(4)] 2(2) by auto
  then show ?case using s by (simp add: and_do_def ok_with_def)
qed (simp_all add: ok_with_def)

text \<open>An index over the files \<open>files\<close>.\<close>

definition index_over :: "'w outside \<Rightarrow> file_entry list \<Rightarrow> disk_index \<Rightarrow> bool" where
  "index_over E files x \<longleftrightarrow> index_ok (o_crc E) True x \<and> dx_overlay x = [] \<and> corpus_fits E files \<and> dx_live_docs x = dx_live_docs (recompute_stats x) \<and>
     deletions_recorded x \<and> (\<exists>bs. concat bs = files \<and> segs_for E 0 bs (dx_segments x))"

lemma load_built:
  assumes "laid_out E N 0 i bs es" and "corpus_fits E (concat bs)" and "unat i + length bs < 2 ^ 32"
    and "holds d (N(MANIFEST \<mapsto> Some (manifest_encode (o_crc E) (built_manifest E g es (i + of_nat (length bs))))))" and "MANIFEST \<notin> dom N"
  shows "\<exists>y. fst (open_once (o_crc E) real_fs verify d) = Inr (Some y) \<and> index_over E (concat bs) (make_index rt y) \<and>
    dx_manifest (make_index rt y) = built_manifest E g es (i + of_nat (length bs)) \<and> dx_root (make_index rt y) = rt"
proof -
  let ?m = "built_manifest E g es (i + of_nat (length bs))"
  have n: "length (concat bs) < 2 ^ 32" using assms(2) by (simp only: corpus_fits_def files_fit_def)
  note mo = built_manifest_ok [OF assms(1) n assms(3), of g]
  have h: "holds d N" using assms(4,5) unfolding holds_def by (auto split: if_splits)
  obtain ss where ss: "load_segments (o_crc E) real_fs verify es d = (Inr ss, d)" "map seg_entry ss = es"
    "\<forall>s \<in> set ss. seg_valid (o_crc E) True s" "segs_for E 0 bs ss" using load_segments_built [OF assms(1,2) h] by blast
  have f: "dk_file d MANIFEST = Some (manifest_encode (o_crc E) ?m)" using assms(4) by (simp add: holds_def)
  have "fst (open_once (o_crc E) real_fs verify d) = load_view (o_crc E) verify ?m d"
    using f manifest_roundtrip [OF mo(1)] by (intro open_once_loads)
  also have "\<dots> = Inr (Some (?m, of_nat (length (manifest_encode (o_crc E) ?m)), ss, [], 0))"
    using ss(1) f by (simp add: load_view_def load_index_def built_manifest_def and_do_def load_overlay_def ok_with_def)
  finally have o: "fst (open_once (o_crc E) real_fs verify d) = Inr (Some (?m, of_nat (length (manifest_encode (o_crc E) ?m)), ss, [], 0))" .
  let ?x = "make_index rt (?m, of_nat (length (manifest_encode (o_crc E) ?m)), ss, [], 0)"
  have x: "dx_manifest ?x = ?m" "dx_segments ?x = ss" "dx_overlay ?x = []" "dx_root ?x = rt" "dx_live_docs ?x = dx_live_docs (recompute_stats ?x)"
    by (simp_all add: make_index_def recompute_stats_def Let_def sum_segs_def)
  have "segments ?m = es" by (simp add: built_manifest_def)
  then have "index_ok (o_crc E) True ?x" using mo(1) ss(2,3) x by (simp add: index_ok_def)
  moreover have "deletions_recorded ?x"
  proof -
    have "num_deleted e = 0" if "e \<in> set es" for e
      using that laid_out_entries(3) [OF assms(1) _ assms(3)] n by simp
    then show ?thesis using ss(2) x(2) by (auto simp: deletions_recorded_def)
  qed
  ultimately have "index_over E (concat bs) ?x" using x ss(4) assms(2) by (auto simp: index_over_def)
  then show ?thesis using o x(1,4) by blast
qed

section \<open>Documents\<close>

lemma docs_of_built:
  assumes "segs_sorted (dx_segments x)" and "s \<in> set (dx_segments x)" and "built_seg E n b s"
    and "\<And>l. n \<le> l \<Longrightarrow> l < n + length b \<Longrightarrow> overlay_for x (of_nat l) = None" and "n + length b < 2 ^ 32"
  shows "docs_of_segment x s = map (\<lambda>l. (of_nat (n + l), stored_meta E (dx_root x) (b ! l))) [0..<length b]"
proof -
  have s: "base_doc (seg_entry s) = of_nat n" "unat (seg_num_docs s) = length b"
    using assms(3,5) by (auto simp: built_seg_def intro!: unat_of_nat_less)
  have d: "dx_doc x (of_nat n + of_nat l) = Some (stored_meta E (dx_root x) (b ! l))" if "l < length b" for l
  proof -
    have "locate x (of_nat n + of_nat l) = Some (s, of_nat l)" using owned_id(2) [OF assms(1,2), of l] s that by simp
    moreover have "seg_doc_meta s (of_nat l) (dx_root x) = Some (stored_meta E (dx_root x) (b ! l))"
      using assms(3) that unfolding built_seg_def by blast
    ultimately show ?thesis using assms(4) [of "n + l"] that by (simp add: dx_doc_def)
  qed
  have "List.map_filter (\<lambda>l. map_option (\<lambda>m. (of_nat n + of_nat l, m)) (dx_doc x (of_nat n + of_nat l))) ls =
      map (\<lambda>l. (of_nat (n + l), stored_meta E (dx_root x) (b ! l))) ls" if "\<forall>l \<in> set ls. l < length b" for ls
    using that by (induction ls) (simp_all add: List.map_filter_def d)
  from this [of "[0..<length b]"] show ?thesis by (simp add: docs_of_segment_def Let_def s)
qed

lemma upt_shift: "map f [n..<n + k] = map (\<lambda>l. f (n + l)) [0..<k]"
  by (induction k) simp_all

lemma docs_of_built_list:
  assumes "segs_sorted (dx_segments x)" and "set ss \<subseteq> set (dx_segments x)" and "segs_for E n bs ss"
    and "\<And>l. n \<le> l \<Longrightarrow> l < n + length (concat bs) \<Longrightarrow> overlay_for x (of_nat l) = None" and "n + length (concat bs) < 2 ^ 32"
  shows "concat (map (docs_of_segment x) ss) =
    map (\<lambda>l. (of_nat (n + l), stored_meta E (dx_root x) (concat bs ! l))) [0..<length (concat bs)]"
  using assms(2-5)
proof (induction E n bs ss rule: segs_for.induct)
  case (2 E n b bs s ss)
  let ?g = "\<lambda>l. (of_nat (n + l) :: u32, stored_meta E (dx_root x) ((b @ concat bs) ! l))"
  have "docs_of_segment x s = map (\<lambda>l. (of_nat (n + l), stored_meta E (dx_root x) (b ! l))) [0..<length b]"
    by (rule docs_of_built [OF assms(1)]) (use 2 in auto)
  also have "\<dots> = map ?g [0..<length b]" by (simp add: nth_append)
  finally have b: "docs_of_segment x s = map ?g [0..<length b]" .
  have "concat (map (docs_of_segment x) ss) = map (\<lambda>l. (of_nat (n + length b + l), stored_meta E (dx_root x) (concat bs ! l))) [0..<length (concat bs)]"
    by (rule 2(1)) (use 2(2-5) in auto)
  also have "\<dots> = map ?g [length b..<length b + length (concat bs)]" unfolding upt_shift by (simp add: nth_append add.assoc del: length_concat)
  finally have r: "concat (map (docs_of_segment x) ss) = map ?g [length b..<length b + length (concat bs)]" .
  have "[0..<length (b @ concat bs)] = [0..<length b] @ [length b..<length b + length (concat bs)]"
    unfolding length_append by (rule upt_add_eq_append) simp
  then show ?case using b r by simp
qed simp_all

lemma built_docs_iter:
  assumes "index_over E files x"
  shows "docs_iter x = map (\<lambda>i. (of_nat i, stored_meta E (dx_root x) (files ! i))) [0..<length files]" and "docs_len x = length files"
proof -
  obtain bs where bs: "concat bs = files" "segs_for E 0 bs (dx_segments x)" using assms by (auto simp: index_over_def)
  have ok: "index_ok (o_crc E) True x" "dx_overlay x = []" "length files < 2 ^ 32"
    using assms by (simp_all add: index_over_def corpus_fits_def files_fit_def)
  show l: "docs_iter x = map (\<lambda>i. (of_nat i, stored_meta E (dx_root x) (files ! i))) [0..<length files]"
    using docs_of_built_list [OF index_ok_sorted [OF ok(1)] order_refl bs(2)] ok(2,3) unfolding docs_iter_def bs(1)
    by (simp add: overlay_for_def Let_def)
  have "docs_len x = length (docs_iter x)"
    by (rule live_docs_listed_lemma [OF ok(1)]) (use assms in \<open>simp_all add: index_over_def\<close>)
  then show "docs_len x = length files" by (simp add: l)
qed

section \<open>Queries\<close>

text \<open>A query on disk: the dictionary has no terms of more than 512 bytes.\<close>

definition disk_query_ok :: "node \<Rightarrow> bool" where
  "disk_query_ok nd \<longleftrightarrow> query_ok nd \<and> (\<forall>t \<in> node_terms nd. length (utf8_encode t) \<le> MAX_TERM_BYTES)"

lemma built_seg_matches:
  assumes b: "built_seg E n b s" and q: "disk_query_ok nd" and n: "n + length b < 2 ^ 32"
  shows "(\<lambda>d. base_doc (seg_entry s) + d) ` {d. matches (seg_plists s) (disk_segment.live s) nd d} =
    of_nat ` {n + l |l. l < length b \<and> file_matches (o_unicode E) (o_read E) nd (b ! l)}"
proof -
  have num: "unat (seg_num_docs s) = length b" using b n by (auto simp: built_seg_def intro!: unat_of_nat_less)
  have live: "disk_segment.live s (of_nat l) \<longleftrightarrow> doc_text (o_read E) (b ! l) \<noteq> None" if "l < length b" for l
    using b that unfolding disk_segment.live_def by (simp add: disk_segment_ops_def built_seg_def file_len_def)
  have m: "matches (seg_plists s) (disk_segment.live s) nd (of_nat l) \<longleftrightarrow> file_matches (o_unicode E) (o_read E) nd (b ! l)" if "l < length b" for l
    by (rule matches_files [where S = "\<lambda>t. scalars t \<and> length (utf8_encode t) \<le> MAX_TERM_BYTES"])
      (use b q n that live disk_segment.matches_live in \<open>auto simp: built_seg_def disk_query_ok_def query_ok_def\<close>)
  have small: "unat d < length b" if "matches (seg_plists s) (disk_segment.live s) nd d" for d
  proof -
    have "disk_segment.live s d" using that by (rule disk_segment.matches_live)
    then have "d < seg_num_docs s" unfolding disk_segment.live_def by (auto simp: disk_segment_ops_def seg_doc_len_def split: if_splits)
    then show ?thesis using num by (simp add: word_less_nat_alt)
  qed
  have base: "base_doc (seg_entry s) = of_nat n" using b by (simp add: built_seg_def)
  show ?thesis
  proof (intro set_eqI iffI)
    fix i :: u32 assume "i \<in> (\<lambda>d. base_doc (seg_entry s) + d) ` {d. matches (seg_plists s) (disk_segment.live s) nd d}"
    then obtain d where d: "i = of_nat n + d" "matches (seg_plists s) (disk_segment.live s) nd d" unfolding base by blast
    have "i = of_nat (n + unat d)" using d(1) by simp
    moreover have "file_matches (o_unicode E) (o_read E) nd (b ! unat d)" using m [OF small [OF d(2)]] d(2) by simp
    ultimately show "i \<in> of_nat ` {n + l |l. l < length b \<and> file_matches (o_unicode E) (o_read E) nd (b ! l)}" using small [OF d(2)] by blast
  next
    fix i :: u32 assume "i \<in> of_nat ` {n + l |l. l < length b \<and> file_matches (o_unicode E) (o_read E) nd (b ! l)}"
    then obtain l where "i = of_nat n + of_nat l" "l < length b" "file_matches (o_unicode E) (o_read E) nd (b ! l)" by auto
    then show "i \<in> (\<lambda>d. base_doc (seg_entry s) + d) ` {d. matches (seg_plists s) (disk_segment.live s) nd d}" unfolding base using m by blast
  qed
qed

lemma built_matching_list:
  assumes "segs_for E n bs ss" and "disk_query_ok nd" and "n + length (concat bs) < 2 ^ 32"
  shows "disk_segment.matching ss nd =
    of_nat ` {n + l |l. l < length (concat bs) \<and> file_matches (o_unicode E) (o_read E) nd (concat bs ! l)}"
  using assms(1,3)
proof (induction E n bs ss rule: segs_for.induct)
  case (2 E n b bs s ss)
  have "disk_segment.matching (s # ss) nd =
      (\<lambda>d. base_doc (seg_entry s) + d) ` {d. matches (seg_plists s) (disk_segment.live s) nd d} \<union> disk_segment.matching ss nd"
    unfolding disk_segment.matching_def by (simp add: disk_segment_ops_def)
  also have "\<dots> = of_nat ` {n + l |l. l < length b \<and> file_matches (o_unicode E) (o_read E) nd (b ! l)} \<union>
      of_nat ` {n + length b + l |l. l < length (concat bs) \<and> file_matches (o_unicode E) (o_read E) nd (concat bs ! l)}"
    using 2(1) 2(2,3) built_seg_matches [OF _ assms(2), of E n b s] by (simp del: length_concat)
  also have "\<dots> = of_nat ` {n + l |l. l < length (b @ concat bs) \<and> file_matches (o_unicode E) (o_read E) nd ((b @ concat bs) ! l)}"
  proof -
    let ?M = "\<lambda>cf. file_matches (o_unicode E) (o_read E) nd cf"
    have "{n + l |l. l < length (b @ concat bs) \<and> ?M ((b @ concat bs) ! l)} =
        {n + l |l. l < length b \<and> ?M (b ! l)} \<union> {n + length b + l |l. l < length (concat bs) \<and> ?M (concat bs ! l)}" (is "?A = ?B \<union> ?C")
    proof (intro set_eqI iffI)
      fix k assume "k \<in> ?A"
      then obtain l where l: "k = n + l" "l < length (b @ concat bs)" "?M ((b @ concat bs) ! l)" by blast
      show "k \<in> ?B \<union> ?C"
      proof (cases "l < length b")
        case False
        then have "k = n + length b + (l - length b)" "l - length b < length (concat bs)" "?M (concat bs ! (l - length b))"
          using l by (simp_all add: nth_append del: length_concat)
        then show ?thesis by blast
      qed (use l in \<open>auto simp: nth_append\<close>)
    next
      fix k assume "k \<in> ?B \<union> ?C"
      then show "k \<in> ?A"
      proof
        assume "k \<in> ?C"
        then obtain l where "k = n + length b + l" "l < length (concat bs)" "?M (concat bs ! l)" by blast
        then show ?thesis by (intro CollectI exI [of _ "length b + l"]) (simp add: nth_append)
      qed (auto simp: nth_append)
    qed
    then show ?thesis by (simp only: image_Un)
  qed
  finally show ?case by simp
qed (simp_all add: disk_segment.matching_def)

lemma built_evaluate:
  assumes "index_over E files x" and "disk_query_ok nd"
  shows "\<exists>hits. evaluate disk_segment_ops disk_reader_ops x nd b = Some hits \<and>
    map h_doc hits = map of_nat (filter (\<lambda>i. file_matches (o_unicode E) (o_read E) nd (files ! i)) [0..<length files])"
proof -
  obtain bs where bs: "concat bs = files" "segs_for E 0 bs (dx_segments x)" using assms by (auto simp: index_over_def)
  have ok: "index_ok (o_crc E) True x" "length files < 2 ^ 32" using assms by (simp_all add: index_over_def corpus_fits_def files_fit_def)
  have segs: "ix_segments disk_reader_ops x = dx_segments x" by (simp add: disk_reader_ops_def)
  obtain hs where hs: "evaluate disk_segment_ops disk_reader_ops x nd b = Some hs" "lists_docs hs (disk_segment.matching (dx_segments x) nd)"
    using disk_segment.evaluate_correct [of disk_reader_ops x nd b] verified_segs_ok [OF ok(1)] assms(2)
    unfolding segs by (auto simp: disk_query_ok_def query_ok_def)
  let ?ds = "filter (\<lambda>i. file_matches (o_unicode E) (o_read E) nd (files ! i)) [0..<length files]"
  have "sorted_wrt (<) (map of_nat ?ds :: u32 list)"
    unfolding sorted_wrt_map
  proof (rule sorted_wrt_mono_rel [of ?ds "(<)"])
    show "sorted_wrt (<) ?ds" by (simp add: sorted_wrt_filter)
    fix x y assume "x \<in> set ?ds" "y \<in> set ?ds" "x < y"
    then show "(of_nat x :: u32) < of_nat y" using ok(2) by (simp add: word_less_nat_alt unat_of_nat_less)
  qed
  moreover have "disk_segment.matching (dx_segments x) nd = set (map of_nat ?ds)"
    using built_matching_list [OF bs(2) assms(2)] ok(2) unfolding bs(1) by (auto simp: image_def)
  moreover have "sorted_wrt (<) (docs_of hs)" "set (docs_of hs) = disk_segment.matching (dx_segments x) nd"
    using hs(2) by (simp_all add: lists_docs_def hits_sorted_def)
  ultimately have "docs_of hs = map of_nat ?ds" using strict_sorted_equal by metis
  then show ?thesis using hs(1) by blast
qed

end
