(* ===== verification/Build_Outcome.thy ===== *)
theory Build_Outcome
  imports Built_Index
begin

text \<open>
  A whole build (\<open>build_index\<close> of \<open>src/store/writer.rs\<close>): the lock, the previous index, the segments, the commit, the
  tidying after a failure, and the reopening.

  Main facts: what opening an index may do to the disk is covered by \<open>open_inv\<close>, which both a settled index and one
  that has just been switched meet (\<open>settled_inv\<close>, \<open>switched_inv\<close>); a build that fails leaves the old index settled,
  and one that does not leaves a disk on which a loss of power shows the old index or the new one
  (\<open>build_outcome\<close>).
\<close>

section \<open>Invariants that opening keeps\<close>

text \<open>Opening an index may take and release the lock, and remove files that are its own and not referenced.\<close>

definition open_inv :: "(bytes \<Rightarrow> u32) \<Rightarrow> manifest \<Rightarrow> (disk \<Rightarrow> bool) \<Rightarrow> bool" where
  "open_inv crc m I \<longleftrightarrow> (\<forall>d. I d \<longrightarrow> disk_wf d \<and> (\<exists>bs. dk_file d MANIFEST = Some bs \<and> manifest_decode crc bs = Inr m) \<and>
     (\<forall>b. I (d\<lparr>dk_locked := b\<rparr>)) \<and> (\<forall>p. is_cleanable p \<longrightarrow> p \<notin> referenced_files m \<longrightarrow> I (snd (real_remove_file p d))))"

lemma open_invD:
  assumes "open_inv crc m I" "I d"
  shows "\<exists>bs. dk_file d MANIFEST = Some bs \<and> manifest_decode crc bs = Inr m" "I (d\<lparr>dk_locked := b\<rparr>)"
    "is_cleanable p \<Longrightarrow> p \<notin> referenced_files m \<Longrightarrow> I (snd (real_remove_file p d))"
  using assms unfolding open_inv_def by blast+

lemma same_locked: "d\<lparr>dk_locked := dk_locked d\<rparr> = d"
  by simp

context fs_contract
begin

lemma lock_inv:
  assumes "open_inv crc m I" "I (disk w)" "fs_lock F p w = (r, w')"
  shows "I (disk w')"
  using lock assms(3)
proof (cases rule: acts_cases)
  case 2
  then have "disk w' = (disk w)\<lparr>dk_locked := True\<rparr> \<or> disk w' = disk w" by (auto simp: real_lock_def split: if_splits)
  then show ?thesis using assms(2) open_invD(2) [OF assms(1,2), of True] by auto
qed (use assms(2) in simp)

lemma unlock_inv: "open_inv crc m I \<Longrightarrow> I (disk w) \<Longrightarrow> I (disk (fs_unlock F w))"
  using open_invD(2) [of crc m I "disk w" False] by (simp add: unlock real_unlock_def)

lemma remove_inv:
  assumes "open_inv crc m I" "I (disk w)" "is_cleanable p" "p \<notin> referenced_files m"
  shows "I (disk (snd (fs_remove_file F p w)))"
proof -
  obtain r w1 where w1: "fs_remove_file F p w = (r, w1)" by force
  from remove_file w1 show ?thesis
  proof (cases rule: acts_cases)
    case 2
    then have "disk w1 = snd (real_remove_file p (disk w))" by (metis snd_conv)
    then show ?thesis using open_invD(3) [OF assms] by (simp add: w1)
  qed (use assms(2) w1 in simp)
qed

lemma sweep_inv:
  assumes "open_inv crc m I" "I (disk w)"
  shows "I (disk (snd (sweep F m w)))"
proof -
  have fold: "I (disk w) \<Longrightarrow> I (disk (fold (\<lambda>p w. if is_cleanable p \<and> p \<notin> referenced_files m then snd (fs_remove_file F p w) else w) ps w))" for ps w
    by (induction ps arbitrary: w) (simp_all add: remove_inv [OF assms(1)])
  obtain r w1 where l: "fs_list_dir F [] w = (r, w1)" by force
  have "disk w1 = disk w" using quiet_read(3) [of "[]" w] by (simp add: l)
  then show ?thesis using fold [of w1] assms(2) by (cases r) (simp_all add: sweep_def and_do_def io_def l)
qed

lemma open_once_inv:
  assumes I: "open_inv crc m I" "I (disk w)" and o: "open_once crc F verify w = (r, w')"
  shows "I (disk w') \<and> r \<noteq> Inr None \<and> (\<forall>m' len segs ovl ol. r = Inr (Some (m', len, segs, ovl, ol)) \<longrightarrow> m' = m)"
proof -
  obtain l w1 where l: "fs_lock F LOCK w = (l, w1)" by force
  obtain rd w2 where rd: "fs_read F MANIFEST w1 = (rd, w2)" by force
  define b where "b = (case l of Inr _ \<Rightarrow> True | Inl _ \<Rightarrow> False)"
  let ?rel = "if b then fs_unlock F else (\<lambda>w. w)"
  note e = open_once_eq [OF l rd, of crc verify, unfolded Let_def, folded b_def]
  have i1: "I (disk w1)" by (rule lock_inv [OF I l])
  have d2: "disk w2 = disk w1" using quiet_read(1) [of MANIFEST w1] by (simp add: rd)
  have rel: "I (disk w3) \<Longrightarrow> I (disk (?rel w3))" for w3 using unlock_inv [OF I(1)] by simp
  obtain ms where ms: "dk_file (disk w1) MANIFEST = Some ms" "manifest_decode crc ms = Inr m" using open_invD(1) [OF I(1) i1] by blast
  show ?thesis
  proof (cases rd)
    case (Inl er)
    then have "er \<noteq> NotFound" using read_missing rd ms(1) by fastforce
    then show ?thesis using o rel i1 d2 unfolding e Inl by auto
  next
    case (Inr bs)
    have "bs = ms" using read_result [OF rd Inr] ms(1) by simp
    then have dec: "manifest_decode crc bs = Inr m" using ms(2) by simp
    obtain r3 w3 where w3: "(if b then sweep F m w2 else (Inr (), w2)) = (r3, w3)" by force
    have i3: "I (disk w3)" using w3 sweep_inv [OF I(1), of w2] i1 d2 by (cases b) auto
    show ?thesis
    proof (cases r3)
      case (Inl er)
      then show ?thesis using o rel [OF i3] unfolding e Inr by (auto simp: dec w3)
    next
      case r3: (Inr u)
      let ?load = "load_index crc F verify m (of_nat (length bs))"
      have eq: "(r, w') = and_do ?load (\<lambda>x. ok_with (Some x)) (?rel w3)" using o unfolding e Inr by (simp add: dec w3 r3)
      have "quiet (and_do ?load (\<lambda>x. ok_with (Some x)))" by (intro quiet_intros load_index_quiet)
      then have "disk w' = disk (?rel w3)" unfolding quiet_def by (metis eq snd_conv)
      moreover have "r \<noteq> Inr None" using eq by (auto simp: and_do_def ok_with_def split: sum.splits prod.splits)
      moreover have "m' = m" if "r = Inr (Some (m', len, segs, ovl, ol))" for m' len segs ovl ol
      proof -
        have "and_do ?load (\<lambda>x. ok_with (Some x)) (?rel w3) = (Inr (Some (m', len, segs, ovl, ol)), w')" using eq that by simp
        then obtain w4 where "?load (?rel w3) = (Inr (m', len, segs, ovl, ol), w4)" unfolding and_do_Inr by auto
        then show ?thesis unfolding load_index_def by (auto simp add: and_do_Inr split: prod.splits)
      qed
      ultimately show ?thesis using rel [OF i3] by simp
    qed
  qed
qed

lemma open_index_inv:
  assumes I: "open_inv crc m I" "I (disk w)" and p: "\<And>w. I (disk w) \<Longrightarrow> I (disk (pause w))"
    and o: "open_index crc F pause rt verify w = (r, w')"
  shows "I (disk w') \<and> r \<noteq> Inr None \<and> (\<forall>x. r = Inr (Some x) \<longrightarrow> dx_manifest x = m)"
proof -
  have loop: "open_loop crc F pause verify n q w = (r, w') \<Longrightarrow> I (disk w) \<Longrightarrow> I (disk w') \<and> r \<noteq> Inr None \<and>
      (\<forall>m' len segs ovl ol. r = Inr (Some (m', len, segs, ovl, ol)) \<longrightarrow> m' = m)" for n q w r w'
  proof (induction n arbitrary: q w)
    case (Suc n)
    obtain r1 w1 where o1: "open_once crc F verify w = (r1, w1)" by force
    note f = open_once_inv [OF I(1) Suc.prems(2) o1]
    show ?case
    proof (cases "\<exists>q. r1 = Inl (Vanished q)")
      case True
      then show ?thesis using Suc.IH [of _ "pause w1"] Suc.prems(1) o1 f p by auto
    next
      case False
      then have "r = r1" "w' = w1" using Suc.prems(1) o1 by (auto split: sum.splits store_error.splits)
      then show ?thesis using f by simp
    qed
  qed auto
  obtain r1 w1 where l: "open_loop crc F pause verify MAX_ATTEMPTS [] w = (r1, w1)" by force
  note f = loop [OF l I(2)]
  have e: "w' = w1" "r = (case r1 of Inl e \<Rightarrow> Inl e | Inr x \<Rightarrow> Inr (map_option (make_index rt) x))"
    using o l by (auto simp: open_index_def and_do_def ok_with_def split: sum.splits)
  show ?thesis
  proof (cases r1)
    case (Inr x)
    then obtain m' len segs ovl ol where x: "x = Some (m', len, segs, ovl, ol)" using f by (cases x) auto
    then have "r = Inr (Some (make_index rt (m', len, segs, ovl, ol)))" "m' = m" using e Inr f by auto
    then show ?thesis using f e by (simp add: make_index_def recompute_stats_def Let_def)
  qed (use e f in simp)
qed

lemma take_lock_inv:
  assumes I: "open_inv crc m I" and p: "\<And>w. I (disk w) \<Longrightarrow> I (disk (pause w))"
  shows "take_lock F pause n w = (r, w') \<Longrightarrow> I (disk w) \<Longrightarrow> I (disk w')"
proof (induction n arbitrary: w)
  case 0
  obtain r1 w1 where l: "fs_lock F LOCK w = (r1, w1)" by force
  have "I (disk w1)" by (rule lock_inv [OF I 0(2) l])
  then show ?case using 0(1) by (subst (asm) take_lock.simps) (auto simp: l split: sum.splits io_error.splits)
next
  case (Suc n)
  obtain r1 w1 where l: "fs_lock F LOCK w = (r1, w1)" by force
  have i: "I (disk w1)" by (rule lock_inv [OF I Suc(3) l])
  show ?case
  proof (cases "r1 = Inl WouldBlock")
    case True
    then show ?thesis using Suc.IH [of "pause w1"] Suc.prems(1) p [OF i] by (subst (asm) take_lock.simps) (simp add: l)
  next
    case False
    then show ?thesis using Suc.prems(1) i by (subst (asm) take_lock.simps) (auto simp: l split: sum.splits io_error.splits)
  qed
qed

end

section \<open>A settled index and one that was switched\<close>

text \<open>The view \<open>S\<close> is that of the index of \<open>m\<close>, and no more.\<close>

definition view_of_index :: "(bytes \<Rightarrow> u32) \<Rightarrow> view \<Rightarrow> manifest \<Rightarrow> bool" where
  "view_of_index crc S m \<longleftrightarrow> index_view crc S m \<and> dom S = insert MANIFEST (referenced_files m)"

lemma view_manifest:
  assumes "index_view crc S m" "holds d S"
  shows "\<exists>bs. dk_file d MANIFEST = Some bs \<and> manifest_decode crc bs = Inr m"
  using assms by (auto simp: index_view_def holds_def)

lemma not_in_view: "view_of_index crc S m \<Longrightarrow> is_cleanable p \<Longrightarrow> p \<notin> referenced_files m \<Longrightarrow> p \<notin> dom S"
  using cleanable_names(6) by (auto simp: view_of_index_def)

lemma lock_bit_frame: "disk_wf d \<Longrightarrow> touches {} d (d\<lparr>dk_locked := b\<rparr>)"
  by (simp add: touches_def same_at_def disk_wf_def)

lemma settled_inv:
  assumes "view_of_index crc S m"
  shows "open_inv crc m (settled S Map.empty)"
  unfolding open_inv_def
proof (intro allI impI conjI)
  fix d assume d: "settled S Map.empty d"
  then show wf: "disk_wf d" by (simp add: settled_def)
  have "holds d S" using d by (auto simp: settled_def solid_def intro: visible_holds)
  then show "\<exists>bs. dk_file d MANIFEST = Some bs \<and> manifest_decode crc bs = Inr m"
    by (rule view_manifest [rotated]) (use assms in \<open>simp add: view_of_index_def\<close>)
  show "settled S Map.empty (d\<lparr>dk_locked := b\<rparr>)" for b by (rule touches_settled [OF lock_bit_frame [OF wf] d]) simp
  fix p assume p: "is_cleanable p" "p \<notin> referenced_files m"
  obtain r d' where r: "real_remove_file p d = (r, d')" by force
  show "settled S Map.empty (snd (real_remove_file p d))"
    unfolding r snd_conv by (rule touches_settled [OF real_remove_frame [OF r wf] d]) (use not_in_view [OF assms p] in simp)
qed

text \<open>The new index is in place; if the power is lost while updates reach the disk in order, either index is there.\<close>

definition switched :: "view \<Rightarrow> view \<Rightarrow> disk \<Rightarrow> bool" where
  "switched S T d \<longleftrightarrow> disk_wf d \<and> visible d T \<and> (\<forall>d'. power_loss True d d' \<longrightarrow> holds d' S \<or> holds d' T)"

lemma switched_remove:
  assumes d: "switched S T d" and p: "p \<notin> dom T"
  shows "switched S T (snd (real_remove_file p d))"
proof (cases "dk_dir d p")
  case None
  then show ?thesis using d by (simp add: real_remove_file_def)
next
  case (Some i)
  let ?d = "push_update [(p, None)] d"
  have e: "snd (real_remove_file p d) = ?d" by (simp add: real_remove_file_def Some)
  have wf: "disk_wf d" and vis: "visible d T" using d by (simp_all add: switched_def)
  have r: "real_remove_file p d = (Inr (), ?d)" by (simp add: real_remove_file_def Some)
  have t: "touches {p} d ?d" by (rule real_remove_frame [OF r wf])
  have "holds d' S \<or> holds d' T" if l: "power_loss True ?d d'" for d'
  proof -
    obtain us where us: "prefix us (dk_pending d @ [[(p, None)]])" "dk_base d' = fold apply_update us (dk_base d)" "dk_pending d' = []"
      using l by (auto simp: power_loss_def)
    have rest: "\<forall>i \<in> dk_synced d. dk_data d' i = dk_data d i" "dk_synced d' = UNIV" "dk_next d' = dk_next d" "\<not> dk_locked d'"
      using l by (simp_all add: power_loss_def)
    show ?thesis
    proof (cases "prefix us (dk_pending d)")
      case True
      then have "power_loss True d d'" using us rest by (auto simp: power_loss_def)
      then show ?thesis using d by (simp add: switched_def)
    next
      case False
      then have u: "us = dk_pending d @ [[(p, None)]]" using us(1) by (auto simp: prefix_append prefix_Cons)
      have "holds d' T" unfolding holds_def
      proof (intro allI impI)
        fix n b assume n: "T n = Some b"
        then have "n \<noteq> p" using p by auto
        have "dk_dir d' = map_of (apply_update [(p, None)] (dk_entries d))"
          unfolding dk_dir_after_loss [OF us(2,3)] u by (simp add: dk_entries_def)
        then have "dk_dir d' n = dk_dir d n" using \<open>n \<noteq> p\<close> by (simp add: map_of_apply_update dk_dir_def)
        moreover have "shows_entry d (dk_dir d n) b" using vis n by (simp add: visible_def)
        ultimately show "dk_file d' n = b" by (intro shown_file [OF _ _ rest(1)]) simp_all
      qed
      then show ?thesis ..
    qed
  qed
  moreover have "visible ?d T" by (rule touches_visible [OF t _ vis]) (use p in simp)
  ultimately show ?thesis unfolding e switched_def using touches_wf [OF t] by blast
qed

lemma switched_inv:
  assumes "view_of_index crc T m"
  shows "open_inv crc m (switched S T)"
  unfolding open_inv_def
proof (intro allI impI conjI)
  fix d assume d: "switched S T d"
  then show wf: "disk_wf d" by (simp add: switched_def)
  have "holds d T" using d by (auto simp: switched_def intro: visible_holds)
  then show "\<exists>bs. dk_file d MANIFEST = Some bs \<and> manifest_decode crc bs = Inr m"
    by (rule view_manifest [rotated]) (use assms in \<open>simp add: view_of_index_def\<close>)
  show "switched S T (d\<lparr>dk_locked := b\<rparr>)" for b
  proof -
    have "visible (d\<lparr>dk_locked := b\<rparr>) T" by (rule touches_visible [OF lock_bit_frame [OF wf]]) (use d in \<open>simp_all add: switched_def\<close>)
    moreover have "power_loss True (d\<lparr>dk_locked := b\<rparr>) d' = power_loss True d d'" for d' by (simp add: power_loss_def)
    ultimately show ?thesis using d touches_wf [OF lock_bit_frame [OF wf]] by (simp add: switched_def)
  qed
  show "switched S T (snd (real_remove_file p d))" if "is_cleanable p" "p \<notin> referenced_files m" for p
    by (rule switched_remove [OF d not_in_view [OF assms that]])
qed

section \<open>The names of a build\<close>

lemma segment_names_front: "segment_names i (Suc k) = {idx_name i, doc_name i} \<union> segment_names (i + 1) k"
proof -
  have "{..<Suc k} = insert 0 (Suc ` {..<k})" by (auto simp: less_Suc_eq_0_disj)
  then show ?thesis unfolding segment_names_def by (simp add: add.assoc)
qed

lemma laid_out_names:
  "laid_out E N n i bs es \<Longrightarrow> n + length (concat bs) < 2 ^ 32 \<Longrightarrow> \<Union> (set (map (set \<circ> segment_files) es)) = segment_names i (length bs)"
proof (induction E N n i bs es rule: laid_out.induct)
  case (1 E N n i)
  then show ?case by (simp add: segment_names_def)
next
  case (2 E N n i b bs e es)
  have "set (segment_files e) = {idx_name i, doc_name i}" using seg_stored_entry(7) [of E N n i b e] 2(2,3) by simp
  moreover have "\<Union> (set (map (set \<circ> segment_files) es)) = segment_names (i + 1) (length bs)" by (rule 2(1)) (use 2(2,3) in simp_all)
  ultimately show ?case by (simp add: segment_names_front)
qed simp_all

definition new_view :: "'w outside \<Rightarrow> view \<Rightarrow> manifest \<Rightarrow> view" where
  "new_view E N m = N(MANIFEST \<mapsto> Some (manifest_encode (o_crc E) m))"

lemma segment_names_not_manifest: "MANIFEST \<notin> segment_names i k" "MANIFEST_TMP \<notin> segment_names i k"
proof -
  have "MANIFEST_TMP \<noteq> idx_name j" "MANIFEST_TMP \<noteq> doc_name j" for j by (rule names_differ; simp)+
  then show "MANIFEST_TMP \<notin> segment_names i k" by (auto simp: segment_names_def)
  show "MANIFEST \<notin> segment_names i k" by (auto simp: segment_names_def dest: sym)
qed

lemma new_view_of_index:
  assumes l: "laid_out E N 0 i bs es" and n: "length (concat bs) < 2 ^ 32" "unat i + length bs < 2 ^ 32"
    and d: "dom N \<subseteq> segment_names i (length bs)" and m: "m = built_manifest E g es (i + of_nat (length bs))"
  shows "view_of_index (o_crc E) (new_view E N m) m"
proof -
  have r: "referenced_files m = segment_names i (length bs)"
    using laid_out_names [OF l] n(1) by (simp add: m referenced_files_def built_manifest_def)
  note mo = built_manifest_ok [OF l n, of g, folded m]
  have "dom N = segment_names i (length bs)" using d mo(2) r by auto
  moreover have "index_view (o_crc E) (new_view E N m) m"
    using mo manifest_roundtrip [OF mo(1)] r segment_names_not_manifest(1) [of i "length bs"]
    unfolding index_view_def new_view_def by auto
  ultimately show ?thesis using r by (auto simp: view_of_index_def new_view_def)
qed

text \<open>No name a build uses belongs to the old index.\<close>

lemma fresh_disjoint:
  assumes v: "view_of_index crc S m" and ok: "manifest_ok m" and k: "unat (next_segment_id m) + k < 2 ^ 32"
  shows "fresh_names (next_segment_id m) k \<inter> dom S = {}"
proof -
  have "flush_names (next_segment_id m + of_nat j) \<inter> dom S = {}" if "j < k" for j
  proof -
    let ?i = "next_segment_id m + of_nat j"
    have "unat ?i = unat (next_segment_id m) + j"
      using k that unat_of_nat_less [of j] by (simp add: unat_word_ariths)
    then have ge: "next_segment_id m \<le> ?i" by (simp add: word_le_nat_alt)
    have "segment_id e \<noteq> ?i" if "e \<in> set (segments m)" for e
      using ok that ge by (auto simp: manifest_ok_def entry_ok_def)
    then have "idx_name ?i \<notin> referenced_files m" "doc_name ?i \<notin> referenced_files m"
      by (auto simp: referenced_files_def segment_files_def split: if_splits dest: sym)
    moreover have "tmp_name n \<notin> referenced_files m" for n using referenced_not_tmp(1) by blast
    moreover have "dom S = insert MANIFEST (referenced_files m)" using v by (simp add: view_of_index_def)
    ultimately show ?thesis by (auto simp: flush_names_def dest: sym)
  qed
  then show ?thesis by (auto simp: fresh_names_def)
qed

section \<open>The outcome of a build\<close>

definition new_index :: "'w outside \<Rightarrow> manifest \<Rightarrow> file_entry list \<Rightarrow> view \<Rightarrow> manifest \<Rightarrow> bool" where
  "new_index E old files N m \<longleftrightarrow> (\<exists>bs es. laid_out E N 0 (next_segment_id old) bs es \<and> concat bs = files \<and>
     dom N \<subseteq> segment_names (next_segment_id old) (length bs) \<and>
     m = built_manifest E (generation old) es (next_segment_id old + of_nat (length bs)))"

lemma new_index_view:
  assumes "new_index E old files N m" and "corpus_fits E files" and "unat (next_segment_id old) + length files < 2 ^ 32"
  shows "view_of_index (o_crc E) (new_view E N m) m"
proof -
  obtain bs es where b: "laid_out E N 0 (next_segment_id old) bs es" "concat bs = files"
    "dom N \<subseteq> segment_names (next_segment_id old) (length bs)"
    "m = built_manifest E (generation old) es (next_segment_id old + of_nat (length bs))" using assms(1) by (auto simp: new_index_def)
  have n: "length (concat bs) < 2 ^ 32" using assms(2) unfolding b(2) corpus_fits_def files_fit_def by blast
  have "unat (next_segment_id old) + length bs < 2 ^ 32" using laid_out_length [OF b(1)] assms(3) unfolding b(2) by linarith
  then show ?thesis by (rule new_view_of_index [OF b(1) n _ b(3,4)])
qed

lemma new_index_opens:
  assumes "new_index E old files N m" and "corpus_fits E files" and "unat (next_segment_id old) + length files < 2 ^ 32"
    and "holds d (new_view E N m)"
  shows "\<exists>y. fst (open_once (o_crc E) real_fs verify d) = Inr (Some y) \<and> index_over E files (make_index rt y) \<and>
    dx_manifest (make_index rt y) = m \<and> dx_root (make_index rt y) = rt"
proof -
  obtain bs es where b: "laid_out E N 0 (next_segment_id old) bs es" "concat bs = files"
    "dom N \<subseteq> segment_names (next_segment_id old) (length bs)"
    "m = built_manifest E (generation old) es (next_segment_id old + of_nat (length bs))" using assms(1) by (auto simp: new_index_def)
  have k: "unat (next_segment_id old) + length bs < 2 ^ 32" using laid_out_length [OF b(1)] assms(3) unfolding b(2) by linarith
  have "MANIFEST \<notin> dom N" using b(3) segment_names_not_manifest(1) by blast
  then show ?thesis
    using load_built [OF b(1) _ k, of d "generation old" verify rt] assms(2,4) unfolding b(2) new_view_def b(4) [symmetric] by blast
qed

lemma retired_files:
  assumes "index_ok crc verify x" and "n \<in> set (filter (\<lambda>n. n \<noteq> MANIFEST) (dx_files x))"
  shows "n \<in> referenced_files (dx_manifest x)"
proof -
  have "segments (dx_manifest x) = map seg_entry (dx_segments x)" using assms(1) by (simp add: index_ok_def)
  then show ?thesis using assms(2) by (auto simp: dx_files_def seg_files_def referenced_files_def split: if_splits)
qed

context fs_contract
begin

definition patient :: "'w outside \<Rightarrow> bool" where
  "patient E \<longleftrightarrow> (\<forall>w. \<exists>b. disk (o_pause E w) = (disk w)\<lparr>dk_locked := b\<rparr>)"

lemma patient_inv: "patient E \<Longrightarrow> open_inv crc m I \<Longrightarrow> I (disk w) \<Longrightarrow> I (disk (o_pause E w))"
  unfolding patient_def using open_invD(2) by metis

lemma tidied_settled:
  assumes "settled S Map.empty (disk w)" and "set fl \<subseteq> P" and "P \<inter> dom S = {}"
  shows "settled S Map.empty (disk (remove_quietly F fl w))"
proof (rule touches_settled [OF remove_quietly_frame assms(1)])
  show "disk_wf (disk w)" using assms(1) by (simp add: settled_def)
qed (use assms(2,3) in auto)

text \<open>
  The end of a commit of the manifest \<open>m\<close>, with the new files in the view \<open>N\<close>: a failure leaves the old index settled,
  otherwise a loss of power shows the old index or the new one.
\<close>

lemma conclude_outcome:
  assumes v: "view_of_index (o_crc E) S old" and v': "view_of_index (o_crc E) (new_view E N m) m" and p: "patient E"
    and n: "MANIFEST \<notin> dom N" "MANIFEST_TMP \<notin> dom N" and ret: "set retired \<subseteq> referenced_files old" "set retired \<inter> dom N = {}"
    and P: "P \<inter> dom S = {}" "set fl \<subseteq> P" and st: "settled S N (disk w)"
  shows "\<exists>r w'. conclude E F (inner (commit F (o_crc E) m retired) (w, fl)) = (r, w') \<and>
    ((\<exists>e. r = Inl e) \<and> settled S Map.empty (disk w') \<or> switched S (new_view E N m) (disk w') \<and> (\<forall>x. r = Inr x \<longrightarrow> dx_manifest x = m))"
proof -
  obtain r3 w3 where r3: "commit F (o_crc E) m retired w = (r3, w3)" by force
  have "MANIFEST_TMP \<notin> dom S" using v referenced_not_tmp(3) by (auto simp: view_of_index_def)
  moreover have "set retired \<inter> insert MANIFEST (dom N) = {}"
  proof -
    have "x \<noteq> MANIFEST" if "x \<in> referenced_files old" for x using referenced_not_tmp(2) that by blast
    then show ?thesis using ret by blast
  qed
  ultimately have co: "(\<exists>e. r3 = Inl e) \<and> settled S N (disk w3) \<or> r3 = Inr () \<and> switched S (new_view E N m) (disk w3)"
    using commit_outcome [OF r3 st _ n(1)] n(2) unfolding switched_def new_view_def by auto
  show ?thesis
  proof (cases r3)
    case e: (Inl e)
    then have "settled S N (disk w3)" using co by simp
    then have "settled S Map.empty (disk w3)" by (rule settled_le) simp
    then have "settled S Map.empty (disk (remove_quietly F fl w3))" by (rule tidied_settled [OF _ P(2,1)])
    then show ?thesis using unlock_inv [OF settled_inv [OF v]] by (simp add: conclude_def inner_def r3 e tidied_def)
  next
    case u: (Inr u)
    note J = switched_inv [OF v', of S]
    have sw: "switched S (new_view E N m) (disk (fs_unlock F w3))" by (rule unlock_inv [OF J]) (use co u in simp)
    obtain r4 w4 where r4: "open_index (o_crc E) F (o_pause E) (o_root E) False (fs_unlock F w3) = (r4, w4)" by force
    note o4 = open_index_inv [OF J sw patient_inv [OF p J] r4]
    have "reopen E F (fs_unlock F w3) = (case r4 of Inl e \<Rightarrow> (Inl e, w4) | Inr None \<Rightarrow> (Inl (SCorrupt MANIFEST ''manifest unreadable right after commit''), w4)
        | Inr (Some i) \<Rightarrow> (Inr i, w4))"
      by (auto simp: reopen_def and_do_def r4 ok_with_def split: sum.splits option.splits)
    then obtain r5 where r5: "reopen E F (fs_unlock F w3) = (r5, w4)" "\<forall>x. r5 = Inr x \<longrightarrow> dx_manifest x = m"
      using o4 by (auto split: sum.splits option.splits)
    have "conclude E F (inner (commit F (o_crc E) m retired) (w, fl)) = (r5, w4)"
      by (simp add: conclude_def inner_def r3 u tidied_def r5(1))
    then show ?thesis using o4 r5(2) by blast
  qed
qed

text \<open>The same when an earlier step has failed.\<close>

lemma conclude_failed:
  assumes v: "view_of_index (o_crc E) S old" and P: "P \<inter> dom S = {}" and st: "staged S Map.empty P (w, fl)"
  shows "\<exists>w'. conclude E F (Inl e, w, fl) = (Inl e, w') \<and> settled S Map.empty (disk w')"
proof -
  have "settled S Map.empty (disk (remove_quietly F fl w))"
    using st P by (intro tidied_settled [of S w fl P]) (simp_all add: staged_def)
  then show ?thesis using unlock_inv [OF settled_inv [OF v]] by (simp add: conclude_def tidied_def)
qed

lemma create_dir_same: "fs_create_dir_all F [] w = (r, w') \<Longrightarrow> disk w' = disk w"
  using create_dir_all by (cases rule: acts_cases) auto

lemma create_and_lock_inv:
  assumes I: "open_inv crc m I" and p: "patient E"
    and r: "and_do (io (fs_create_dir_all F [])) (\<lambda>_. take_lock F (o_pause E) (o_tries E)) w = (r, w')" and w: "I (disk w)"
  shows "I (disk w')"
  using r
proof (cases rule: and_do_cases)
  case (1 e)
  from 1(1) obtain e1 where "fs_create_dir_all F [] w = (Inl e1, w')" by (cases rule: io_cases) auto
  then show ?thesis using create_dir_same w by simp
next
  case (2 u w1)
  from 2(1) have "fs_create_dir_all F [] w = (Inr (), w1)" by (cases rule: io_cases) auto
  then show ?thesis using take_lock_inv [OF I patient_inv [OF p I] 2(2)] create_dir_same w by simp
qed

lemma build_outcome:
  assumes c: "cut_ok E" and fit: "corpus_fits E files" and v: "view_of_index (o_crc E) S old"
    and k: "unat (next_segment_id old) + length files < 2 ^ 32" and p: "patient E" and st: "settled S Map.empty (disk w)"
  shows "\<exists>r w'. build_index E F cfg True (Inr files) w = Some (r, w') \<and>
    ((\<exists>e. r = Inl e) \<and> settled S Map.empty (disk w') \<or>
     (\<exists>N m. new_index E old files N m \<and> switched S (new_view E N m) (disk w') \<and> (\<forall>x. r = Inr x \<longrightarrow> dx_manifest x = m)))"
proof -
  note I = settled_inv [OF v]
  have ok: "manifest_ok old" using v manifest_decode_sound unfolding view_of_index_def index_view_def by blast
  obtain r0 w0 where r0: "and_do (io (fs_create_dir_all F [])) (\<lambda>_. take_lock F (o_pause E) (o_tries E)) w = (r0, w0)" by force
  have s0: "settled S Map.empty (disk w0)" by (rule create_and_lock_inv [OF I p r0 st])
  note unlock0 = unlock_inv [OF I]
  show ?thesis
  proof (cases r0)
    case (Inl e)
    then show ?thesis using s0 by (simp add: build_index_def r0)
  next
    case r0': (Inr u)
    obtain r1 w1 where r1: "open_index (o_crc E) F (o_pause E) (o_root E) False w0 = (r1, w1)" by force
    note o = open_index_inv [OF I s0 patient_inv [OF p I] r1]
    show ?thesis
    proof (cases r1)
      case (Inl e)
      then show ?thesis using o unlock0 by (simp add: build_index_def r0 r0' r1)
    next
      case (Inr prev)
      then obtain x where x: "r1 = Inr (Some x)" "dx_manifest x = old" using o by (cases prev) auto
      let ?ret = "filter (\<lambda>n. n \<noteq> MANIFEST) (dx_files x)" and ?i = "next_segment_id old" and ?P = "fresh_names (next_segment_id old) (length files)"
      have ret: "set ?ret \<subseteq> referenced_files old"
        using retired_files [OF open_index_ok [OF r1 [unfolded x(1)]]] x(2) by blast
      have dis: "?P \<inter> dom S = {}" by (rule fresh_disjoint [OF v ok k])
      have stg: "staged S Map.empty ?P (w1, [])" using o by (simp add: staged_def)
      have len: "0 + length files < 2 ^ 32" using fit by (simp add: corpus_fits_def files_fit_def)
      obtain r2 w2 fl where r2: "build_segments E F cfg files 0 ?i (w1, []) = Some (r2, (w2, fl))"
        "case r2 of Inl _ \<Rightarrow> staged S Map.empty ?P (w2, fl)
         | Inr (entries, next_id) \<Rightarrow> \<exists>N bs. laid_out E N 0 ?i bs entries \<and> concat bs = files \<and> next_id = ?i + of_nat (length bs) \<and>
             dom N \<subseteq> segment_names ?i (length bs) \<and> staged S N ?P (w2, fl)"
        using build_segments_laid_out [OF flushes_keep [OF c] fit len order_refl dis stg, of cfg] by auto
      have bi: "build_index E F cfg True (Inr files) w = Some (conclude E F (and_do (\<lambda>w. (r2, w)) (\<lambda>(entries, next_id).
            inner (commit F (o_crc E) (built_manifest E (generation old) entries next_id) ?ret)) (w2, fl)))"
        by (simp add: build_index_def r0 r0' r1 x r2(1))
      show ?thesis
      proof (cases r2)
        case (Inl e)
        then have "staged S Map.empty ?P (w2, fl)" using r2(2) by simp
        from conclude_failed [OF v dis this, of e] obtain w3 where
          w3: "conclude E F (Inl e :: store_error + unit, w2, fl) = (Inl e, w3)" "settled S Map.empty (disk w3)" by (elim exE conjE) (rule that)
        from w3(1) have "build_index E F cfg True (Inr files) w = Some (Inl e, w3)" unfolding bi by (simp add: Inl and_do_def)
        then show ?thesis using w3(2) by blast
      next
        case (Inr en)
        obtain entries next_id where en: "en = (entries, next_id)" by force
        obtain N bs where N: "laid_out E N 0 ?i bs entries" "concat bs = files" "next_id = ?i + of_nat (length bs)"
          "dom N \<subseteq> segment_names ?i (length bs)" "staged S N ?P (w2, fl)" using r2(2) Inr en by auto
        let ?m = "built_manifest E (generation old) entries next_id"
        have ni: "new_index E old files N ?m" using N by (auto simp: new_index_def)
        have "length bs \<le> length files" using laid_out_length [OF N(1)] N(2) by simp
        then have "segment_names ?i (length bs) \<subseteq> ?P"
          unfolding segment_names_def fresh_names_def flush_names_def by (intro UN_mono) auto
        then have "dom N \<inter> dom S = {}" using N(4) dis by blast
        moreover have "referenced_files old \<subseteq> dom S" using v by (auto simp: view_of_index_def)
        ultimately have dn: "set ?ret \<inter> dom N = {}" using ret by blast
        have n: "MANIFEST \<notin> dom N" "MANIFEST_TMP \<notin> dom N" using N(4) segment_names_not_manifest by blast+
        have "settled S N (disk w2)" "set fl \<subseteq> ?P" using N(5) by (simp_all add: staged_def)
        from conclude_outcome [OF v new_index_view [OF ni fit k] p n ret dn dis this(2,1)] obtain r3 w3 where
          "conclude E F (inner (commit F (o_crc E) ?m ?ret) (w2, fl)) = (r3, w3)"
          "(\<exists>e. r3 = Inl e) \<and> settled S Map.empty (disk w3) \<or> switched S (new_view E N ?m) (disk w3) \<and> (\<forall>x. r3 = Inr x \<longrightarrow> dx_manifest x = ?m)"
          by (elim exE conjE) (rule that)
        moreover from this(1) have "build_index E F cfg True (Inr files) w = Some (r3, w3)"
          unfolding bi by (simp add: Inr en and_do_def)
        ultimately show ?thesis using ni by blast
      qed
    qed
  qed
qed

end

section \<open>A build on the real file system\<close>

lemma open_index_first:
  assumes "fst (open_once crc real_fs verify d) = Inr y"
  shows "\<exists>d'. open_index crc real_fs pause rt verify d = (Inr (map_option (make_index rt) y), d') \<and> open_once crc real_fs verify d = (Inr y, d')"
proof -
  obtain d' where o: "open_once crc real_fs verify d = (Inr y, d')" using assms by (metis prod.collapse)
  have "open_loop crc real_fs pause verify MAX_ATTEMPTS [] d = (Inr y, d')" by (simp add: MAX_ATTEMPTS_def eval_nat_numeral o)
  then show ?thesis using o by (simp add: open_index_def and_do_def ok_with_def)
qed

text \<open>The end of a commit on the real file system.\<close>

lemma conclude_real:
  assumes st: "settled S N w" and n: "MANIFEST \<notin> dom N" "MANIFEST_TMP \<notin> dom S \<union> dom N" and ret: "set retired \<inter> insert MANIFEST (dom N) = {}"
  shows "\<exists>dc. conclude E real_fs (inner (commit real_fs (o_crc E) m retired) (w, fl)) = reopen E real_fs dc \<and> holds dc (new_view E N m) \<and>
    settled (new_view E N m) Map.empty dc \<and> \<not> dk_locked dc"
proof -
  obtain dc where dc: "commit real_fs (o_crc E) m retired w = (Inr (), dc)" "solid dc (new_view E N m)" "disk_wf dc"
    using commit_real [OF st n(2,1) ret, of "o_crc E" m] unfolding new_view_def by blast
  have "settled (new_view E N m) Map.empty dc" using dc(2,3) by (simp add: settled_def visible_def)
  then have s: "settled (new_view E N m) Map.empty (fs_unlock real_fs dc)"
    using touches_settled [OF lock_bit_frame [OF dc(3), of False]] by (simp add: real_fs_ops real_unlock_def)
  then have "holds (fs_unlock real_fs dc) (new_view E N m)" by (auto simp: settled_def solid_def intro: visible_holds)
  moreover have "\<not> dk_locked (fs_unlock real_fs dc)" by (simp add: real_fs_ops real_unlock_def)
  ultimately show ?thesis using s dc(1) by (intro exI [of _ "fs_unlock real_fs dc"]) (simp add: conclude_def inner_def tidied_def)
qed

text \<open>The index \<open>x\<close> and the disk \<open>d\<close> after a build: reopened from a disk where the new index is settled and the lock is free.\<close>

definition built_from :: "'w outside \<Rightarrow> manifest \<Rightarrow> file_entry list \<Rightarrow> disk_index \<Rightarrow> disk \<Rightarrow> bool" where
  "built_from E old files x d \<longleftrightarrow> (\<exists>N w y. new_index E old files N (dx_manifest x) \<and> settled (new_view E N (dx_manifest x)) Map.empty w \<and>
     \<not> dk_locked w \<and> open_once (o_crc E) real_fs False w = (Inr (Some y), d) \<and> x = make_index (o_root E) y)"

text \<open>\<open>S\<close> is what the disk holds before; the previous index, if there is one, has the manifest \<open>old\<close>.\<close>

lemma build_real:
  fixes old :: manifest
  assumes c: "cut_ok E" and fit: "corpus_fits E files" and k: "unat (next_segment_id old) + length files < 2 ^ 32"
    and lock: "take_lock real_fs (o_pause E) (o_tries E) d = (Inr (), d0)"
    and o: "open_index (o_crc E) real_fs (o_pause E) (o_root E) False d0 = (Inr prev, d1)"
    and prev: "(case prev of Some p \<Rightarrow> (generation (dx_manifest p), next_segment_id (dx_manifest p), filter (\<lambda>n. n \<noteq> MANIFEST) (dx_files p))
       | None \<Rightarrow> (0, 0, [])) = (generation old, next_segment_id old, retired)"
    and st: "settled S Map.empty d1" and dis: "fresh_names (next_segment_id old) (length files) \<inter> (dom S \<union> set retired) = {}"
    and man: "MANIFEST \<notin> set retired" "MANIFEST_TMP \<notin> dom S"
  shows "\<exists>x d'. build_index E real_fs cfg True (Inr files) d = Some (Inr x, d') \<and> index_over E files x \<and> dx_root x = o_root E \<and>
    generation (dx_manifest x) = generation old + 1 \<and> built_from E old files x d'"
proof -
  let ?i = "next_segment_id old" and ?P = "fresh_names (next_segment_id old) (length files)"
  have dis': "?P \<inter> dom S = {}" using dis by blast
  have stg: "real.staged S Map.empty ?P (d1, [])" using st by (simp add: real.staged_def)
  have len: "0 + length files < 2 ^ 32" using fit by (simp add: corpus_fits_def files_fit_def)
  obtain r2 w2 fl where r2: "build_segments E real_fs cfg files 0 ?i (d1, []) = Some (r2, (w2, fl))"
    "case r2 of Inl _ \<Rightarrow> False
     | Inr (entries, next_id) \<Rightarrow> \<exists>N bs. laid_out E N 0 ?i bs entries \<and> concat bs = files \<and> next_id = ?i + of_nat (length bs) \<and>
         dom N \<subseteq> segment_names ?i (length bs) \<and> real.staged S N ?P (w2, fl)"
    using real.build_segments_laid_out [OF flushes_real [OF c] fit len order_refl dis' stg, of cfg] by auto
  obtain entries next_id where en: "r2 = Inr (entries, next_id)" using r2(2) by (cases r2) auto
  obtain N bs where N: "laid_out E N 0 ?i bs entries" "concat bs = files" "next_id = ?i + of_nat (length bs)"
    "dom N \<subseteq> segment_names ?i (length bs)" "real.staged S N ?P (w2, fl)" using r2(2) en by auto
  let ?m = "built_manifest E (generation old) entries next_id"
  have ni: "new_index E old files N ?m" using N by (auto simp: new_index_def)
  have "length bs \<le> length files" using laid_out_length [OF N(1)] N(2) by simp
  then have "segment_names ?i (length bs) \<subseteq> ?P"
    unfolding segment_names_def fresh_names_def flush_names_def by (intro UN_mono) auto
  then have dn: "dom N \<inter> set retired = {}" using N(4) dis by blast
  have n: "MANIFEST \<notin> dom N" "MANIFEST_TMP \<notin> dom S \<union> dom N" using N(4) segment_names_not_manifest man(2) by blast+
  have "settled S N w2" using N(5) by (simp add: real.staged_def)
  moreover have "set retired \<inter> insert MANIFEST (dom N) = {}" using dn man(1) by blast
  ultimately obtain dc where dc: "conclude E real_fs (inner (commit real_fs (o_crc E) ?m retired) (w2, fl)) = reopen E real_fs dc"
    "holds dc (new_view E N ?m)" "settled (new_view E N ?m) Map.empty dc" "\<not> dk_locked dc"
    using conclude_real [of S N w2 retired E ?m fl] n by blast
  then obtain y where y: "fst (open_once (o_crc E) real_fs False dc) = Inr (Some y)" "index_over E files (make_index (o_root E) y)"
    "dx_manifest (make_index (o_root E) y) = ?m" "dx_root (make_index (o_root E) y) = o_root E" using new_index_opens [OF ni fit k dc(2)] by blast
  obtain d' where d': "open_index (o_crc E) real_fs (o_pause E) (o_root E) False dc = (Inr (Some (make_index (o_root E) y)), d')"
    "open_once (o_crc E) real_fs False dc = (Inr (Some y), d')"
    using open_index_first [OF y(1), of "o_pause E" "o_root E"] by auto
  have bf: "built_from E old files (make_index (o_root E) y) d'" unfolding built_from_def y(3) using ni dc(3,4) d'(2) by blast
  have lk: "and_do (io (fs_create_dir_all real_fs [])) (\<lambda>_. take_lock real_fs (o_pause E) (o_tries E)) d = (Inr (), d0)"
    using lock by (simp add: and_do_def io_def real_fs_ops)
  have "build_index E real_fs cfg True (Inr files) d = Some (Inr (make_index (o_root E) y), d')"
    unfolding build_index_def not_True_eq_False if_False lk prod.case sum.case o prev Let_def r2(1) option.map
    by (simp add: en and_do_def dc(1) reopen_def d' ok_with_def)
  moreover have "generation (dx_manifest (make_index (o_root E) y)) = generation old + 1" unfolding y(3) by (simp add: built_manifest_def)
  ultimately show ?thesis using y(2,4) bf by blast
qed

text \<open>The first build in a directory without a manifest.\<close>

lemma first_build_lemma:
  assumes "cut_ok E" and "corpus_fits E files" and d: "disk_wf d" "\<not> dk_locked d" "dk_file d MANIFEST = None"
  shows "\<exists>x d'. build_index E real_fs cfg True (Inr files) d = Some (Inr x, d') \<and> index_over E files x \<and> dx_root x = o_root E \<and>
    generation (dx_manifest x) = 1 \<and> (\<exists>old. next_segment_id old = 0 \<and> built_from E old files x d')"
proof -
  define old :: manifest where "old = \<lparr>generation = 0, next_segment_id = 0, committed_unix_nanos = 0, state_gen = 0, state_crc = 0, state_len = 0, segments = []\<rparr>"
  have old: "generation old = 0" "next_segment_id old = 0" by (simp_all add: old_def)
  let ?d0 = "d\<lparr>dk_locked := True\<rparr>"
  have lock: "take_lock real_fs (o_pause E) (o_tries E) d = (Inr (), ?d0)"
    using d(2) by (subst take_lock.simps) (simp add: real_fs_ops real_lock_def)
  have f: "dk_file ?d0 MANIFEST = None" using d(3) by (simp add: dk_file_def)
  have "open_once (o_crc E) real_fs False ?d0 = (Inr None, ?d0)"
    using f by (simp add: open_once_def real_fs_ops real_lock_def real_read_def)
  then have o: "open_index (o_crc E) real_fs (o_pause E) (o_root E) False ?d0 = (Inr None, ?d0)"
    using open_index_first [of "o_crc E" False ?d0 None] by simp
  have "settled Map.empty Map.empty ?d0"
    using touches_wf [OF lock_bit_frame [OF d(1)]] by (simp add: settled_def solid_def visible_def)
  then have "\<exists>x d'. build_index E real_fs cfg True (Inr files) d = Some (Inr x, d') \<and> index_over E files x \<and> dx_root x = o_root E \<and>
      generation (dx_manifest x) = generation old + 1 \<and> built_from E old files x d'"
    using assms(2) by (intro build_real [OF assms(1,2) _ lock o, of old "[]" Map.empty])
      (simp_all add: old corpus_fits_def files_fit_def)
  then show ?thesis using old by fastforce
qed

end
