(* ===== verification/Update.thy ===== *)
theory Update
  imports Build_Outcome Reconcile
begin

text \<open>
  Incremental updates (\<open>src/store/update.rs\<close>): reconcile the crawled files against the last commit and write the
  difference: new segments for the files to index, tombstones for the documents that are gone, and an overlay for
  the ones whose content did not change. \<open>read\<close> is what reading a file gives during the reconcile; the files to
  index are read again by the builder. Statistics and log lines are left out.
\<close>

section \<open>The overlay\<close>

text \<open>The merged patches in the order of their documents, as the \<open>BTreeMap\<close> lists them.\<close>

definition merged_rows :: "disk_index \<Rightarrow> u32 list \<Rightarrow> patch_row list \<Rightarrow> patch_row list" where
  "merged_rows x ds ps =
     (let m = merge_overlay (overlay_patches x) ps ds in
      List.map_filter (\<lambda>i. map_option (\<lambda>row. (i, row)) (m i)) (sort (remdups (map fst (overlay_patches x) @ map fst ps))))"

definition patch_in_of :: "patch_row \<Rightarrow> patch_in" where
  "patch_in_of = (\<lambda>(i, inode, mtime, sz, path). \<lparr>pi_doc_id = i, pi_inode = inode, pi_mtime_nanos = mtime, pi_size = sz, pi_path = path\<rparr>)"

definition write_overlay :: "'w outside \<Rightarrow> 'w fs \<Rightarrow> patch_row list \<Rightarrow> manifest \<Rightarrow> ('w, manifest) logged" where
  "write_overlay E F rows m =
     (if rows = [] then ok_with (m\<lparr>state_gen := 0, state_crc := 0, state_len := 0\<rparr>)
      else
       and_do (inner (try_format (overlay_encode (o_crc E) (map patch_in_of rows)))) (\<lambda>bs.
       let gen = state_gen m + 1; n = overlay_name gen in
       and_do (publish_new F n bs) (\<lambda>_.
       and_do (inner (try_format (envelope_parse KOverlay bs))) (\<lambda>env.
       ok_with (m\<lparr>state_gen := gen, state_len := of_nat (length bs), state_crc := env_crc env\<rparr>)))))"

section \<open>An update\<close>

text \<open>The tombstones and the overlay, once the new segments \<open>entries\<close> are in place: the manifest to commit and the files to retire.\<close>

definition prepare_changes :: "'w outside \<Rightarrow> 'w fs \<Rightarrow> disk_index \<Rightarrow> u32 list \<Rightarrow> patch_row list \<Rightarrow> segment_entry list \<Rightarrow> u32 \<Rightarrow>
    ('w, manifest \<times> name list) logged" where
  "prepare_changes E F x ds ps entries next_id =
     and_do (tombstones E F x (by_segment x ds)
       ((dx_manifest x)\<lparr>segments := segments (dx_manifest x) @ entries, next_segment_id := next_id\<rparr>, [], False)) (\<lambda>(m, retired, _).
     let prev_state_gen = state_gen m in
     and_do (write_overlay E F (merged_rows x ds ps) m) (\<lambda>m.
     ok_with (m, retired @ (if 0 < prev_state_gen \<and> prev_state_gen \<noteq> state_gen m then [overlay_name prev_state_gen] else []))))"

definition write_changes :: "'w outside \<Rightarrow> 'w fs \<Rightarrow> disk_index \<Rightarrow> u32 list \<Rightarrow> patch_row list \<Rightarrow> segment_entry list \<Rightarrow> u32 \<Rightarrow> ('w, unit) logged" where
  "write_changes E F x ds ps entries next_id =
     and_do (prepare_changes E F x ds ps entries next_id) (\<lambda>(m, retired). inner (commit F (o_crc E) (next_generation E m) retired))"

text \<open>The changes of a plan, on the index \<open>x\<close>.\<close>

definition apply_plan :: "'w outside \<Rightarrow> 'w fs \<Rightarrow> build_config \<Rightarrow> disk_index \<Rightarrow> u32 list \<Rightarrow> patch_row list \<Rightarrow> file_entry list \<Rightarrow>
    'w \<times> name list \<Rightarrow> ((store_error + unit) \<times> 'w \<times> name list) option" where
  "apply_plan E F cfg x ds ps rs w =
     map_option (\<lambda>(r, w). and_do (\<lambda>w. (r, w)) (\<lambda>(entries, next_id). write_changes E F x ds ps entries next_id) w)
       (if rs = [] then Some (Inr ([], next_segment_id (dx_manifest x)), w)
        else build_segments E F cfg rs (dx_id_bound x) (next_segment_id (dx_manifest x)) w)"

definition update_plan :: "'w outside \<Rightarrow> (bytes \<Rightarrow> bytes option) \<Rightarrow> disk_index \<Rightarrow> file_entry list \<Rightarrow> plan" where
  "update_plan E read x files =
     reconcile (o_lossy E) read (o_hash E) (from_docs (o_lossy E) (o_root E) (docs_iter x)) (o_root E) files"

definition update_index :: "'w outside \<Rightarrow> 'w fs \<Rightarrow> build_config \<Rightarrow> bool \<Rightarrow> store_error + file_entry list \<Rightarrow> (bytes \<Rightarrow> bytes option) \<Rightarrow>
    'w \<Rightarrow> ((store_error + disk_index) \<times> 'w) option" where
  "update_index E F cfg is_dir crawled read w =
     (if \<not> is_dir then Some (Inl NotADirectory, w)
      else case and_do (io (fs_create_dir_all F [])) (\<lambda>_. and_do (take_lock F (o_pause E) (o_tries E)) (\<lambda>_.
            with_lock F (open_index (o_crc E) F (o_pause E) (o_root E) False))) w of
        (Inl e, w) \<Rightarrow> Some (Inl e, w)
      | (Inr None, w) \<Rightarrow> build_index E F cfg is_dir crawled w
      | (Inr (Some _), w) \<Rightarrow>
          (case take_lock F (o_pause E) (o_tries E) w of
             (Inl e, w) \<Rightarrow> Some (Inl e, w)
           | (Inr _, w) \<Rightarrow>
               (case open_index (o_crc E) F (o_pause E) (o_root E) False w of
                  (Inl e, w) \<Rightarrow> Some (Inl e, fs_unlock F w)
                | (Inr None, w) \<Rightarrow> Some (Inl (SCorrupt MANIFEST ''index vanished under the lock''), fs_unlock F w)
                | (Inr (Some prev), w) \<Rightarrow>
                    (case crawled of
                       Inl e \<Rightarrow> Some (Inl e, fs_unlock F w)
                     | Inr files \<Rightarrow>
                         let plan = update_plan E read prev files in
                         if pl_changes plan = [] then Some (Inr prev, fs_unlock F w)
                         else case sort_changes (o_root E) (pl_changes plan) [] [] [] of (ds, ps, rs) \<Rightarrow>
                           map_option (conclude E F) (apply_plan E F cfg prev ds ps rs (w, []))))))"

end
