(* ===== verification/Bury.thy ===== *)
theory Bury
  imports Update
begin

text \<open>
  Tombstones (\<open>delete_docs\<close> of \<open>src/store/writer.rs\<close>, step 2 of \<open>update_index\<close> of \<open>src/store/update.rs\<close>): how the ids
  to delete are spread over the segments, what their bitmaps become, and what a segment opens to afterwards.
\<close>

section \<open>Setting bits\<close>

lemma set_all_holds:
  "bitmap_ok b \<Longrightarrow> bitmap_ok (fst (set_all ls (b, c))) \<and> bm_num_docs (fst (set_all ls (b, c))) = bm_num_docs b \<and>
    (\<forall>j. bitmap_get (fst (set_all ls (b, c))) j \<longleftrightarrow> bitmap_get b j \<or> j \<in> set ls \<and> j < bm_num_docs b) \<and>
    (snd (set_all ls (b, c)) \<longleftrightarrow> c \<or> (\<exists>l \<in> set ls. l < bm_num_docs b \<and> \<not> bitmap_get b l))"
proof (induction ls arbitrary: b c)
  case (Cons l ls)
  obtain b' c' where s: "bitmap_set b l = (b', c')" by force
  have n: "bm_num_docs b' = bm_num_docs b" using bitmap_set_num_docs [of b l] by (simp add: s)
  have ok: "bitmap_ok b'" and get: "bitmap_get b' j \<longleftrightarrow> j = l \<and> l < bm_num_docs b \<or> bitmap_get b j" and c': "c' \<longleftrightarrow> l < bm_num_docs b \<and> \<not> bitmap_get b l" for j
    using bitmap_set_correct [OF Cons.prems, of l j] by (simp_all add: s)
  let ?r = "set_all ls (b', c \<or> c')"
  note ih = Cons.IH [OF ok, of "c \<or> c'", unfolded n get c']
  have "bitmap_get (fst ?r) j \<longleftrightarrow> bitmap_get b j \<or> j \<in> set (l # ls) \<and> j < bm_num_docs b" for j
    using ih c' by auto
  moreover have "snd ?r \<longleftrightarrow> c \<or> (\<exists>m \<in> set (l # ls). m < bm_num_docs b \<and> \<not> bitmap_get b m)"
    using ih c' by auto
  ultimately show ?case using ih c' by (simp add: s)
qed simp

section \<open>Where the ids to delete are\<close>

definition locals_of :: "disk_index \<Rightarrow> u32 list \<Rightarrow> nat \<Rightarrow> u32 list" where
  "locals_of x ds k = List.map_filter (\<lambda>i. Option.bind (locate_at x i) (\<lambda>(j, l). if j = k then Some l else None)) ds"

lemma by_segment_eq: "by_segment x ds = map (\<lambda>k. (k, locals_of x ds k)) (filter (\<lambda>k. locals_of x ds k \<noteq> []) [0..<length (dx_segments x)])"
  by (simp add: by_segment_def locals_of_def filter_map comp_def)

lemma locate_at_locate: "locate x i = map_option (\<lambda>(k, l). (dx_segments x ! k, l)) (locate_at x i)"
  by (simp add: locate_def locate_at_def Let_def)

lemma owner_unique:
  assumes "segs_sorted (dx_segments x)" and "j < length (dx_segments x)" "k < length (dx_segments x)"
    and "owns (dx_segments x ! j) i" "owns (dx_segments x ! k) i"
  shows "j = k"
proof (rule ccontr)
  have lt: False if "a < b" "b < length (dx_segments x)" "owns (dx_segments x ! a) i" "owns (dx_segments x ! b) i" for a b
    using assms(1) that unfolding segs_sorted_def sorted_wrt_iff_nth_less owns_def by fastforce
  assume "j \<noteq> k"
  then show False using lt [of j k] lt [of k j] assms(2-5) by linarith
qed

lemma locate_at_iff:
  assumes "segs_sorted (dx_segments x)"
  shows "locate_at x i = Some (k, l) \<longleftrightarrow> k < length (dx_segments x) \<and> owns (dx_segments x ! k) i \<and> l = i - base_doc (seg_entry (dx_segments x ! k))"
proof
  assume a: "locate_at x i = Some (k, l)"
  then have "locate x i = Some (dx_segments x ! k, l)" by (simp add: locate_at_locate)
  moreover have "k < length (dx_segments x)" using a by (auto simp: locate_at_def Let_def split: if_splits)
  ultimately show "k < length (dx_segments x) \<and> owns (dx_segments x ! k) i \<and> l = i - base_doc (seg_entry (dx_segments x ! k))"
    unfolding locate_iff [OF assms] by simp
next
  assume k: "k < length (dx_segments x) \<and> owns (dx_segments x ! k) i \<and> l = i - base_doc (seg_entry (dx_segments x ! k))"
  then have "locate x i = Some (dx_segments x ! k, l)" unfolding locate_iff [OF assms] by simp
  then obtain j where j: "locate_at x i = Some (j, l)" by (auto simp: locate_at_locate)
  then have lc: "locate x i = Some (dx_segments x ! j, l)" "j < length (dx_segments x)"
    by (simp add: locate_at_locate, auto simp: locate_at_def Let_def split: if_splits)
  then have "owns (dx_segments x ! j) i" unfolding locate_iff [OF assms] by simp
  then have "j = k" using owner_unique [OF assms lc(2)] k by blast
  then show "locate_at x i = Some (k, l)" using j by simp
qed

lemma locals_of_iff:
  assumes "segs_sorted (dx_segments x)" and "k < length (dx_segments x)" and "l < seg_num_docs (dx_segments x ! k)"
  shows "l \<in> set (locals_of x ds k) \<longleftrightarrow> base_doc (seg_entry (dx_segments x ! k)) + l \<in> set ds"
proof -
  let ?s = "dx_segments x ! k"
  have s: "?s \<in> set (dx_segments x)" using assms(2) by simp
  have ln: "unat l < unat (seg_num_docs ?s)" using assms(3) by (simp add: word_less_nat_alt)
  note o = owned_id [OF assms(1) s ln]
  have own: "owns ?s (base_doc (seg_entry ?s) + l)" using o(2) locate_iff [OF assms(1)] by simp
  have "l \<in> set (locals_of x ds k) \<longleftrightarrow> (\<exists>i \<in> set ds. locate_at x i = Some (k, l))"
    by (auto simp: locals_of_def set_map_filter bind_eq_Some_conv split: if_splits)
  also have "\<dots> \<longleftrightarrow> (\<exists>i \<in> set ds. owns ?s i \<and> l = i - base_doc (seg_entry ?s))" using locate_at_iff [OF assms(1)] assms(2) by auto
  also have "\<dots> \<longleftrightarrow> base_doc (seg_entry ?s) + l \<in> set ds" using own by force
  finally show ?thesis .
qed

section \<open>A buried segment\<close>

definition seg_bitmap :: "segment \<Rightarrow> bitmap" where
  "seg_bitmap s = (case seg_del s of Some b \<Rightarrow> b | None \<Rightarrow> bitmap_new (num_docs (seg_entry s)))"

definition del_body_of :: "bitmap \<Rightarrow> bytes" where
  "del_body_of b = le_bytes 4 (bm_num_docs b) @ le_bytes 4 (bitmap_count b) @ bm_bits b"

text \<open>The segment after the tombstones \<open>ls\<close>; \<open>changed_by\<close>: whether any of them is new.\<close>

definition changed_by :: "segment \<Rightarrow> u32 list \<Rightarrow> bool" where
  "changed_by s ls = snd (set_all ls (seg_bitmap s, False))"

definition buried_bitmap :: "segment \<Rightarrow> u32 list \<Rightarrow> bitmap" where
  "buried_bitmap s ls = fst (set_all ls (seg_bitmap s, False))"

definition buried :: "(bytes \<Rightarrow> u32) \<Rightarrow> segment \<Rightarrow> u32 list \<Rightarrow> segment" where
  "buried crc s ls = (if changed_by s ls then
     let b = buried_bitmap s ls; e = seg_entry s in
     s\<lparr>seg_entry := e\<lparr>del_gen := del_gen e + 1, del_len := of_nat (length (bitmap_encode crc b)), del_crc := crc (del_body_of b),
         num_deleted := bitmap_count b\<rparr>, seg_del := Some b\<rparr>
     else s)"

definition del_file_of :: "segment \<Rightarrow> name" where
  "del_file_of s = del_name (segment_id (seg_entry s)) (del_gen (seg_entry s) + 1)"

lemma seg_bitmap_ok:
  assumes "seg_valid crc verify s"
  shows "bitmap_ok (seg_bitmap s)" "bm_num_docs (seg_bitmap s) = seg_num_docs s" "bitmap_get (seg_bitmap s) l \<longleftrightarrow> seg_is_deleted s l"
proof -
  have v: "seg_num_docs s = num_docs (seg_entry s)" "\<And>b. seg_del s = Some b \<Longrightarrow> bitmap_ok b \<and> bm_num_docs b = num_docs (seg_entry s)"
    using assms by (auto simp: seg_valid_def Let_def split: option.splits)
  show "bitmap_ok (seg_bitmap s)" "bm_num_docs (seg_bitmap s) = seg_num_docs s" "bitmap_get (seg_bitmap s) l \<longleftrightarrow> seg_is_deleted s l"
    using v by (cases "seg_del s"; simp add: seg_bitmap_def seg_is_deleted_def; simp add: bitmap_new_def)+
qed

lemma buried_bitmap_ok:
  assumes "seg_valid crc verify s"
  shows "bitmap_ok (buried_bitmap s ls)" "bm_num_docs (buried_bitmap s ls) = seg_num_docs s"
    "bitmap_get (buried_bitmap s ls) l \<longleftrightarrow> seg_is_deleted s l \<or> l \<in> set ls \<and> l < seg_num_docs s"
    "changed_by s ls \<longleftrightarrow> (\<exists>l \<in> set ls. l < seg_num_docs s \<and> \<not> seg_is_deleted s l)"
  using set_all_holds [OF seg_bitmap_ok(1) [OF assms], of ls False] unfolding buried_bitmap_def changed_by_def seg_bitmap_ok(2,3) [OF assms]
  by simp_all

lemma buried_simps [simp]:
  "seg_idx_map (buried crc s ls) = seg_idx_map s" "seg_idx_env (buried crc s ls) = seg_idx_env s" "seg_toc (buried crc s ls) = seg_toc s"
  "seg_doc_map (buried crc s ls) = seg_doc_map s" "seg_doc_env (buried crc s ls) = seg_doc_env s" "seg_num_docs (buried crc s ls) = seg_num_docs s"
  "seg_num_indexed (buried crc s ls) = seg_num_indexed s" "seg_total_len (buried crc s ls) = seg_total_len s" "seg_paths (buried crc s ls) = seg_paths s"
  "segment_id (seg_entry (buried crc s ls)) = segment_id (seg_entry s)" "base_doc (seg_entry (buried crc s ls)) = base_doc (seg_entry s)"
  "num_docs (seg_entry (buried crc s ls)) = num_docs (seg_entry s)" "end_doc (seg_entry (buried crc s ls)) = end_doc (seg_entry s)"
  "seg_idx (buried crc s ls) = seg_idx s" "seg_docs (buried crc s ls) = seg_docs s" "seg_postings (buried crc s ls) = seg_postings s"
  "seg_plists (buried crc s ls) = seg_plists s"
  by (simp_all add: buried_def Let_def seg_idx_def seg_docs_def end_doc_def seg_postings_def [abs_def] seg_plists_def [abs_def])

text \<open>What is deleted, and so what a lookup gives.\<close>

lemma buried_is_deleted:
  assumes "seg_valid crc verify s"
  shows "seg_is_deleted (buried crc' s ls) l \<longleftrightarrow> seg_is_deleted s l \<or> l \<in> set ls \<and> l < seg_num_docs s"
proof (cases "changed_by s ls")
  case True
  then have "seg_is_deleted (buried crc' s ls) l \<longleftrightarrow> bitmap_get (buried_bitmap s ls) l" by (simp add: buried_def Let_def seg_is_deleted_def)
  then show ?thesis using buried_bitmap_ok(3) [OF assms] by simp
next
  case False
  then have "buried crc' s ls = s" by (simp add: buried_def)
  then show ?thesis using False buried_bitmap_ok(4) [OF assms] by auto
qed

lemma buried_valid:
  assumes "seg_valid crc verify s" and "unat (del_gen (seg_entry s)) + 1 < 2 ^ 32"
  shows "seg_valid crc verify (buried crc s ls)"
proof (cases "changed_by s ls")
  case True
  have "0 < del_gen (seg_entry s) + 1" using assms(2) by (simp add: word_less_nat_alt unat_word_ariths)
  then show ?thesis using assms(1) buried_bitmap_ok(1,2) [OF assms(1), of ls] True
    unfolding seg_valid_def Let_def buried_simps by (simp add: buried_def Let_def)
qed (use assms in \<open>simp add: buried_def\<close>)

lemma buried_doc_meta:
  assumes "seg_valid crc verify s" and "l < seg_num_docs s"
  shows "seg_doc_meta (buried crc' s ls) l rt = (if l \<in> set ls then None else seg_doc_meta s l rt)"
  using buried_is_deleted [OF assms(1), of crc' ls l] assms(2) by (simp add: seg_doc_meta_def)

lemma buried_doc_len:
  assumes "seg_valid crc verify s"
  shows "seg_doc_len (buried crc' s ls) l = (if l \<in> set ls then None else seg_doc_len s l)"
  using buried_is_deleted [OF assms, of crc' ls l] by (auto simp: seg_doc_len_def Let_def not_le)

section \<open>Opening it\<close>

lemma open_parts_entry:
  assumes "segment_id e' = segment_id e" "idx_len e' = idx_len e" "idx_crc e' = idx_crc e" "segment_entry.num_terms e' = segment_entry.num_terms e"
    and "doc_len e' = doc_len e" "doc_crc e' = doc_crc e" "num_docs e' = num_docs e"
  shows "open_idx crc F e' = open_idx crc F e" "open_doc crc F e' = open_doc crc F e"
  unfolding open_idx_def open_doc_def assms by simp_all

lemma open_parts_reads:
  "reads {idx_name (segment_id e)} (open_idx crc real_fs e verify)" "reads {doc_name (segment_id e)} (open_doc crc real_fs e verify)"
  unfolding open_idx_def open_doc_def Let_def by (intro reads_intros; simp)+

lemma reads_result:
  assumes "reads P m" "m d0 = (r, d1)" "\<forall>n \<in> P. dk_file d n = dk_file d0 n"
  shows "m d = (r, d)"
  using assms unfolding reads_def by (metis fst_conv prod.collapse)

lemma opened_buried:
  assumes o: "segment_open crc real_fs (seg_entry s) verify d0 = (Inr s, d1)" and g: "unat (del_gen (seg_entry s)) + 1 < 2 ^ 32"
    and f: "dk_file d (idx_name (segment_id (seg_entry s))) = dk_file d0 (idx_name (segment_id (seg_entry s)))"
      "dk_file d (doc_name (segment_id (seg_entry s))) = dk_file d0 (doc_name (segment_id (seg_entry s)))"
    and del: "changed_by s ls \<Longrightarrow> dk_file d (del_file_of s) = Some (bitmap_encode crc (buried_bitmap s ls))"
      "\<not> changed_by s ls \<Longrightarrow> 0 < del_gen (seg_entry s) \<Longrightarrow>
        dk_file d (del_name (segment_id (seg_entry s)) (del_gen (seg_entry s))) = dk_file d0 (del_name (segment_id (seg_entry s)) (del_gen (seg_entry s)))"
  shows "segment_open crc real_fs (seg_entry (buried crc s ls)) verify d = (Inr (buried crc s ls), d)"
proof (cases "changed_by s ls")
  case False
  then have b: "buried crc s ls = s" by (simp add: buried_def)
  have "reads (set (segment_files (seg_entry s))) (segment_open crc real_fs (seg_entry s) verify)" by (rule segment_open_reads) simp
  moreover have "\<forall>n \<in> set (segment_files (seg_entry s)). dk_file d n = dk_file d0 n" using f del(2) False by (auto simp: segment_files_def)
  ultimately show ?thesis unfolding b
    using reads_result [where m = "segment_open crc real_fs (seg_entry s) verify" and r = "Inr s" and d = d, OF _ o] by blast
next
  case True
  let ?e = "seg_entry s" and ?s' = "buried crc s ls" and ?b = "buried_bitmap s ls"
  have sv: "seg_valid crc verify s" using segment_open_valid [OF o] by simp
  obtain im ie tc w1 dm de n ni tot ps w2 dl where
    i: "open_idx crc real_fs ?e verify d0 = (Inr (im, ie, tc), w1)"
    and dd: "open_doc crc real_fs ?e verify w1 = (Inr (dm, de, n, ni, tot, ps), w2)"
    and s: "s = \<lparr>seg_entry = ?e, seg_idx_map = im, seg_idx_env = ie, seg_toc = tc, seg_doc_map = dm,
       seg_doc_env = de, seg_num_docs = n, seg_num_indexed = ni, seg_total_len = tot, seg_paths = ps, seg_del = dl\<rparr>"
    using o by (auto simp: segment_open_def and_do_Inr)
  have w1: "w1 = d0" using open_parts_reads(1) i unfolding reads_def by (metis snd_conv)
  have i': "open_idx crc real_fs ?e verify d = (Inr (im, ie, tc), d)" using reads_result [where m = "open_idx crc real_fs ?e verify", OF open_parts_reads(1) i] f by simp
  have d': "open_doc crc real_fs ?e verify d = (Inr (dm, de, n, ni, tot, ps), d)"
    using reads_result [where m = "open_doc crc real_fs ?e verify", OF open_parts_reads(2) dd] f w1 by simp
  have e': "seg_entry ?s' = ?e\<lparr>del_gen := del_gen ?e + 1, del_len := of_nat (length (bitmap_encode crc ?b)), del_crc := crc (del_body_of ?b),
      num_deleted := bitmap_count ?b\<rparr>" using True by (simp add: buried_def Let_def)
  have parts: "open_idx crc real_fs (seg_entry ?s') = open_idx crc real_fs ?e" "open_doc crc real_fs (seg_entry ?s') = open_doc crc real_fs ?e"
    unfolding e' by (rule open_parts_entry; simp)+
  note b = buried_bitmap_ok(1,2) [OF sv, of ls]
  have n: "seg_num_docs s = num_docs ?e" using sv by (simp add: seg_valid_def Let_def)
  have pos: "0 < del_gen ?e + 1" using g by (simp add: word_less_nat_alt unat_word_ariths)
  have rt: "del_parse_verified crc (bitmap_encode crc ?b) = Inr \<lparr>dv_num_docs = num_docs ?e, dv_num_deleted = bitmap_count ?b,
      dv_bits = bm_bits ?b, dv_crc = crc (del_body_of ?b)\<rparr>" using del_roundtrip [OF b(1), of crc] b(2) n by (simp add: del_body_of_def)
  have bb: "\<lparr>bm_num_docs = num_docs ?e, bm_bits = bm_bits ?b\<rparr> = ?b" using b(2) n by (cases ?b) simp
  have "open_del crc real_fs (seg_entry ?s') d = (Inr (Some ?b), d)"
    using del(1) [OF True] pos unfolding e' open_del_def
    by (simp add: and_do_def open_file_def real_fs_ops real_read_def del_file_of_def require_def parsing_def ok_with_def rt
        del_to_bitmap_def Let_def bb)
  moreover have "open_idx crc real_fs (seg_entry ?s') verify d = (Inr (im, ie, tc), d)"
    "open_doc crc real_fs (seg_entry ?s') verify d = (Inr (dm, de, n, ni, tot, ps), d)" using i' d' unfolding parts by simp_all
  ultimately have so: "segment_open crc real_fs (seg_entry ?s') verify d = (Inr \<lparr>seg_entry = seg_entry ?s', seg_idx_map = im, seg_idx_env = ie,
      seg_toc = tc, seg_doc_map = dm, seg_doc_env = de, seg_num_docs = n, seg_num_indexed = ni, seg_total_len = tot, seg_paths = ps,
      seg_del = Some ?b\<rparr>, d)" by (simp add: segment_open_def and_do_def ok_with_def)
  have "seg_idx_map s = im" "seg_idx_env s = ie" "seg_toc s = tc" "seg_doc_map s = dm" "seg_doc_env s = de" "seg_num_docs s = n"
    "seg_num_indexed s = ni" "seg_total_len s = tot" "seg_paths s = ps" by (subst s, simp)+
  then have "\<lparr>seg_entry = seg_entry ?s', seg_idx_map = im, seg_idx_env = ie, seg_toc = tc, seg_doc_map = dm, seg_doc_env = de, seg_num_docs = n,
      seg_num_indexed = ni, seg_total_len = tot, seg_paths = ps, seg_del = Some ?b\<rparr> = s\<lparr>seg_entry := seg_entry ?s', seg_del := Some ?b\<rparr>"
    by (intro segment.equality) simp_all
  with so have "segment_open crc real_fs (seg_entry ?s') verify d = (Inr (s\<lparr>seg_entry := seg_entry ?s', seg_del := Some ?b\<rparr>), d)" by simp
  moreover have "s\<lparr>seg_entry := seg_entry ?s', seg_del := Some ?b\<rparr> = ?s'" unfolding e' using True by (simp add: buried_def Let_def)
  ultimately show ?thesis by simp
qed

lemma load_segments_opened:
  assumes "load_segments crc real_fs verify es d = (Inr ss, d')"
  shows "map seg_entry ss = es \<and> (\<forall>s \<in> set ss. segment_open crc real_fs (seg_entry s) verify d = (Inr s, d))"
  using assms
proof (induction es arbitrary: ss)
  case (Cons e es)
  from Cons.prems obtain s d1 ss' where s: "segment_open crc real_fs e verify d = (Inr s, d1)"
    "load_segments crc real_fs verify es d1 = (Inr ss', d')" "ss = s # ss'" by (auto simp: and_do_Inr)
  have "reads (set (segment_files e)) (segment_open crc real_fs e verify)" by (rule segment_open_reads) simp
  then have "d1 = d" using s(1) unfolding reads_def by (metis snd_conv)
  moreover have "seg_entry s = e" using segment_open_valid [OF s(1)] by simp
  ultimately show ?case using s Cons.IH by auto
qed simp

lemma opened_load_segments:
  "\<forall>s \<in> set ss. segment_open crc real_fs (seg_entry s) verify d = (Inr s, d) \<Longrightarrow> load_segments crc real_fs verify (map seg_entry ss) d = (Inr ss, d)"
  by (induction ss) (simp_all add: and_do_def ok_with_def)

lemma load_segments_append:
  assumes "load_segments crc real_fs verify es d = (Inr ss, d)" "load_segments crc real_fs verify es' d = (Inr ss', d)"
  shows "load_segments crc real_fs verify (es @ es') d = (Inr (ss @ ss'), d)"
proof -
  have a: "map seg_entry ss = es" "\<forall>s \<in> set ss. segment_open crc real_fs (seg_entry s) verify d = (Inr s, d)"
    using load_segments_opened [OF assms(1)] by simp_all
  have b: "map seg_entry ss' = es'" "\<forall>s \<in> set ss'. segment_open crc real_fs (seg_entry s) verify d = (Inr s, d)"
    using load_segments_opened [OF assms(2)] by simp_all
  have "load_segments crc real_fs verify (map seg_entry (ss @ ss')) d = (Inr (ss @ ss'), d)"
    by (rule opened_load_segments) (use a(2) b(2) in auto)
  then show ?thesis by (simp add: a(1) b(1))
qed

end
