(* ===== verification/Updated.thy ===== *)
theory Updated
  imports Bury
begin

text \<open>
  The index an update leaves (\<open>src/store/update.rs\<close> and \<open>src/store/reader.rs\<close> together): its overlay, its manifest, its
  opening, and its documents and answers in terms of those of the index before.
\<close>

section \<open>The merged overlay\<close>

definition owned_row :: "patch_row \<Rightarrow> owned_patch" where
  "owned_row = (\<lambda>(i, inode, mtime, sz, path). \<lparr>op_doc_id = i, op_inode = inode, op_mtime_nanos = mtime, op_size = sz, op_path = path\<rparr>)"

text \<open>What the overlay says of a document after the update.\<close>

definition merged :: "disk_index \<Rightarrow> u32 list \<Rightarrow> patch_row list \<Rightarrow> u32 \<rightharpoonup> u64 \<times> i64 \<times> u64 \<times> bytes" where
  "merged x ds ps = merge_overlay (overlay_patches x) ps ds"

definition overlay_wf :: "disk_index \<Rightarrow> bool" where
  "overlay_wf x \<longleftrightarrow> sorted_wrt (<) (map op_doc_id (dx_overlay x)) \<and> (\<forall>p \<in> set (dx_overlay x). utf8_valid (op_path p))"

lemma merged_row: "merged x ds ps i = Some row \<Longrightarrow> (i, row) \<in> set (overlay_patches x @ ps)"
proof -
  assume "merged x ds ps i = Some row"
  then have "map_of (rev ps) i = Some row \<or> map_of (rev (overlay_patches x)) i = Some row"
    by (auto simp: merged_def merge_overlay_eq restrict_map_def map_add_Some_iff split: if_splits)
  then show ?thesis using map_of_SomeD [of "rev ps" i row] map_of_SomeD [of "rev (overlay_patches x)" i row] by auto
qed

lemma merged_deleted: "i \<in> set ds \<Longrightarrow> merged x ds ps i = None"
  by (simp add: merged_def merge_overlay_eq)

lemma merged_rows_iff: "(i, row) \<in> set (merged_rows x ds ps) \<longleftrightarrow> merged x ds ps i = Some row"
proof -
  let ?ks = "map fst (overlay_patches x) @ map fst ps"
  have "(i, row) \<in> set (merged_rows x ds ps) \<longleftrightarrow> i \<in> set ?ks \<and> merged x ds ps i = Some row"
    unfolding merged_rows_def Let_def merged_def [symmetric] set_map_filter mem_Collect_eq set_sort set_remdups map_option_eq_Some Pair_inject set_append set_map
    by blast
  moreover have "i \<in> set ?ks" if "merged x ds ps i = Some row"
    using imageI [OF merged_row [OF that], of fst] by auto
  ultimately show ?thesis by blast
qed

lemma map_filter_keys_sorted:
  fixes ks :: "'k :: linorder list"
  assumes "sorted_wrt (<) ks"
  shows "sorted_wrt (<) (map fst (List.map_filter (\<lambda>i. map_option (\<lambda>row. (i, row)) (m i)) ks))"
  using assms
proof (induction ks)
  case (Cons k ks)
  have "set (map fst (List.map_filter (\<lambda>i. map_option (\<lambda>row. (i, row)) (m i)) ks)) \<subseteq> set ks" by (auto simp: set_map_filter)
  then show ?case using Cons by (auto simp: map_filter_simps split: option.splits)
qed (simp add: map_filter_simps)

lemma merged_rows_sorted: "sorted_wrt (<) (map fst (merged_rows x ds ps))"
proof -
  let ?ks = "map fst (overlay_patches x) @ map fst ps"
  have "sorted (sort (remdups ?ks))" "distinct (sort (remdups ?ks))" by simp_all
  then have "sorted_wrt (<) (sort (remdups ?ks))" unfolding strict_sorted_iff by blast
  then show ?thesis unfolding merged_rows_def Let_def by (rule map_filter_keys_sorted)
qed

lemma overlay_for_rows:
  assumes "dx_overlay y = map owned_row (merged_rows x ds ps)"
  shows "overlay_for y i = map_option (\<lambda>row. owned_row (i, row)) (merged x ds ps i)"
proof -
  have ids: "map op_doc_id (dx_overlay y) = map fst (merged_rows x ds ps)" unfolding assms by (auto simp: owned_row_def)
  have s: "sorted_wrt (<) (map op_doc_id (dx_overlay y))" unfolding ids by (rule merged_rows_sorted)
  note f = map_of_sorted_find [OF s]
  have id: "op_doc_id (owned_row (j, row)) = j" for j row by (cases row) (simp add: owned_row_def)
  show ?thesis
  proof (cases "merged x ds ps i")
    case None
    have False if "overlay_for y i = Some p" for p
      using that None merged_rows_iff [of i] unfolding f assms by (auto simp: id)
    then show ?thesis using None by (cases "overlay_for y i") auto
  next
    case (Some row)
    then have "overlay_for y i = Some (owned_row (i, row))"
      using merged_rows_iff [of i row x ds ps] unfolding f assms by (simp add: id)
    then show ?thesis using Some by simp
  qed
qed

lemma rows_ok:
  assumes "overlay_wf x" and "\<forall>(i, inode, mtime, sz, path) \<in> set ps. utf8_valid path" and "length (merged_rows x ds ps) < 2 ^ 32"
    and "length (concat (map pi_path (map patch_in_of (merged_rows x ds ps)))) \<le> 0xffffffff"
  shows "patches_ok (map patch_in_of (merged_rows x ds ps))"
proof -
  have "utf8_valid path" if "(i, inode, mtime, sz, path) \<in> set (merged_rows x ds ps)" for i inode mtime sz path
  proof -
    have "(i, inode, mtime, sz, path) \<in> set (overlay_patches x @ ps)" using that merged_row unfolding merged_rows_iff by blast
    then show ?thesis using assms(1,2) by (auto simp: overlay_patches_def overlay_wf_def)
  qed
  moreover have "map pi_doc_id (map patch_in_of (merged_rows x ds ps)) = map fst (merged_rows x ds ps)"
    by (auto simp: patch_in_of_def)
  ultimately show ?thesis using assms(3,4) merged_rows_sorted [of x ds ps] unfolding patches_ok_def
    by (simp del: map_map length_concat) (auto simp: patch_in_of_def)
qed

definition overlay_content :: "(bytes \<Rightarrow> u32) \<Rightarrow> patch_row list \<Rightarrow> bytes" where
  "overlay_content crc rows = seal crc KOverlay (overlay_body (map patch_in_of rows))"

lemma owned_stored: "map owned (map (stored_patch (map patch_in_of rows)) [0..<length rows]) = map owned_row rows"
  by (rule nth_equalityI) (auto simp: owned_def stored_patch_def Let_def patch_in_of_def owned_row_def split: prod.splits)

lemma overlay_loaded:
  assumes ok: "patches_ok (map patch_in_of rows)" and m: "0 < state_gen m" "state_len m = of_nat (length (overlay_content crc rows))"
      "state_crc m = crc (overlay_body (map patch_in_of rows))"
    and f: "dk_file d (overlay_name (state_gen m)) = Some (overlay_content crc rows)"
  shows "load_overlay crc real_fs m d = (Inr (map owned_row rows, of_nat (length (overlay_content crc rows))), d)"
proof -
  let ?ps = "map patch_in_of rows"
  have enc: "overlay_encode crc ?ps = Inr (overlay_content crc rows)"
    using overlay_encode_eq [of ?ps crc] ok by (simp add: patches_ok_def overlay_content_def)
  have p: "overlay_parse_verified crc (overlay_content crc rows) = Inr (overlay_of crc ?ps)" by (rule overlay_parse_of_encode [OF ok enc])
  have "overlay_iter (overlay_of crc ?ps) = map (stored_patch ?ps) [0..<length rows]" using overlay_iter_of_encode [OF ok enc] p by simp
  then have it: "map owned (overlay_iter (overlay_of crc ?ps)) = map owned_row rows" using owned_stored by simp
  have "env_crc (ov_env (overlay_of crc ?ps)) = crc (overlay_body ?ps)" by (simp add: overlay_of_def)
  then show ?thesis
    using m f p it by (simp add: load_overlay_def and_do_def open_file_def real_fs_ops real_read_def require_def parsing_def ok_with_def Let_def)
qed

text \<open>An overlay that was loaded is in order.\<close>

lemma loaded_overlay_wf:
  assumes "load_overlay crc F m w = (Inr (ovl, len), w')"
  shows "sorted_wrt (<) (map op_doc_id ovl) \<and> (\<forall>p \<in> set ovl. utf8_valid (op_path p))"
proof (cases "0 < state_gen m")
  case True
  then obtain bs v where v: "overlay_parse_verified crc bs = Inr v" "ovl = map owned (overlay_iter v)"
    using assms unfolding load_overlay_def and_do_Inr Let_def open_steps if_P [OF True] by auto
  obtain es where es: "lists_patches v es" using overlay_parse_lists [OF v(1)] by blast
  have e: "overlay_iter v = es" by (rule lists_patches_iter [OF es])
  have "map op_doc_id ovl = map (\<lambda>e. p_doc_id (fst e)) es" unfolding v(2) e by (auto simp: owned_def)
  moreover have u: "\<forall>e \<in> set es. utf8_valid (snd e)"
  proof
    fix e assume "e \<in> set es"
    then obtain i where i: "i < length es" "es ! i = e" by (metis in_set_conv_nth)
    then have "overlay_at v i = Some e" using es by (simp add: lists_patches_def)
    then obtain q where "ov_path_of v q = Some (snd e)" unfolding overlay_at_def bind_eq_Some_conv by auto
    then show "utf8_valid (snd e)" unfolding ov_path_of_def bind_eq_Some_conv from_utf8_Some by blast
  qed
  have "\<forall>p \<in> set ovl. utf8_valid (op_path p)" unfolding v(2) e using u by (simp add: owned_def split_def)
  with calculation show ?thesis using es by (simp add: lists_patches_def)
next
  case False
  then show ?thesis using assms by (simp add: load_overlay_def)
qed

section \<open>The manifest\<close>

definition segs_after :: "(bytes \<Rightarrow> u32) \<Rightarrow> disk_index \<Rightarrow> u32 list \<Rightarrow> segment list" where
  "segs_after crc x ds = map (\<lambda>k. buried crc (dx_segments x ! k) (locals_of x ds k)) [0..<length (dx_segments x)]"

definition with_overlay :: "(bytes \<Rightarrow> u32) \<Rightarrow> patch_row list \<Rightarrow> manifest \<Rightarrow> manifest" where
  "with_overlay crc rows m = (if rows = [] then m\<lparr>state_gen := 0, state_crc := 0, state_len := 0\<rparr>
     else m\<lparr>state_gen := state_gen m + 1, state_len := of_nat (length (overlay_content crc rows)), state_crc := crc (overlay_body (map patch_in_of rows))\<rparr>)"

definition buried_manifest :: "'w outside \<Rightarrow> disk_index \<Rightarrow> u32 list \<Rightarrow> segment_entry list \<Rightarrow> u32 \<Rightarrow> manifest" where
  "buried_manifest E x ds entries next_id =
     (dx_manifest x)\<lparr>segments := map seg_entry (segs_after (o_crc E) x ds) @ entries, next_segment_id := next_id\<rparr>"

definition updated_manifest :: "'w outside \<Rightarrow> disk_index \<Rightarrow> u32 list \<Rightarrow> patch_row list \<Rightarrow> segment_entry list \<Rightarrow> u32 \<Rightarrow> manifest" where
  "updated_manifest E x ds ps entries next_id =
     next_generation E (with_overlay (o_crc E) (merged_rows x ds ps) (buried_manifest E x ds entries next_id))"

text \<open>
  The bounds an update stays in: the limits of a build for the files to index, no counter of the index at its end, and an
  overlay whose paths fit its heap and whose documents are known. Segment ids are distinct, as the writer keeps them.
\<close>

definition update_fits :: "'w outside \<Rightarrow> disk_index \<Rightarrow> u32 list \<Rightarrow> patch_row list \<Rightarrow> file_entry list \<Rightarrow> bool" where
  "update_fits E x ds ps rs \<longleftrightarrow> (let m = dx_manifest x in
     corpus_fits E rs \<and> unat (dx_id_bound x) + length rs < 2 ^ 32 \<and> unat (next_segment_id m) + length rs < 2 ^ 32 \<and>
     length (segments m) + length rs < 2 ^ 32 \<and> (\<forall>e \<in> set (segments m). unat (del_gen e) + 1 < 2 ^ 32) \<and> unat (state_gen m) + 1 < 2 ^ 32 \<and>
     distinct (map segment_id (segments m)) \<and> (\<forall>(i, inode, mtime, sz, path) \<in> set ps. utf8_valid path) \<and>
     (\<forall>p \<in> set (overlay_patches x @ ps). fst p < dx_id_bound x) \<and>
     length (concat (map pi_path (map patch_in_of (merged_rows x ds ps)))) \<le> 0xffffffff)"

lemma sorted_nat_length:
  fixes ns :: "u32 list"
  assumes "sorted_wrt (<) ns" "\<forall>i \<in> set ns. unat i < b"
  shows "length ns \<le> b"
proof -
  have "length ns = card (set ns)" using assms(1) strict_sorted_iff distinct_card by metis
  also have "\<dots> = card (unat ` set ns)" by (rule card_image [symmetric]) (simp add: inj_on_def word_unat_eq_iff)
  also have "\<dots> \<le> card {..<b}" using assms(2) by (intro card_mono) auto
  finally show ?thesis by simp
qed

lemma fits_rows:
  assumes "update_fits E x ds ps rs" and "overlay_wf x"
  shows "patches_ok (map patch_in_of (merged_rows x ds ps))" and "merged x ds ps i = Some row \<Longrightarrow> i < dx_id_bound x"
proof -
  have k: "\<forall>p \<in> set (overlay_patches x @ ps). fst p < dx_id_bound x" using assms(1) unfolding update_fits_def Let_def by blast
  show id: "merged x ds ps i = Some row \<Longrightarrow> i < dx_id_bound x" for i row using merged_row [of x ds ps i row] k by fastforce
  have "unat (dx_id_bound x) < 2 ^ 32" using assms(1) unfolding update_fits_def Let_def by linarith
  moreover have "\<forall>i \<in> set (map fst (merged_rows x ds ps)). unat i < unat (dx_id_bound x)"
    using id merged_rows_iff by (fastforce simp: word_less_nat_alt)
  then have "length (map fst (merged_rows x ds ps)) \<le> unat (dx_id_bound x)" by (rule sorted_nat_length [OF merged_rows_sorted])
  ultimately have l: "length (merged_rows x ds ps) < 2 ^ 32" by simp
  have "\<forall>(i, inode, mtime, sz, path) \<in> set ps. utf8_valid path"
    "length (concat (map pi_path (map patch_in_of (merged_rows x ds ps)))) \<le> 0xffffffff"
    using assms(1) unfolding update_fits_def Let_def by blast+
  then show "patches_ok (map patch_in_of (merged_rows x ds ps))" by (intro rows_ok [OF assms(2) _ l])
qed

lemma chain_ok_append:
  "chain_ok (as @ bs) \<longleftrightarrow> chain_ok as \<and> chain_ok bs \<and>
     (as \<noteq> [] \<longrightarrow> bs \<noteq> [] \<longrightarrow> end_doc (last as) \<le> unat (base_doc (hd bs)) \<and> segment_id (hd bs) \<noteq> segment_id (last as))"
proof (induction as)
  case (Cons a as)
  then show ?case by (cases as; cases bs) auto
qed simp

lemma chain_ok_cong:
  assumes "length es = length es'" and "\<And>k. k < length es \<Longrightarrow> end_doc (es ! k) = end_doc (es' ! k) \<and> base_doc (es ! k) = base_doc (es' ! k) \<and> segment_id (es ! k) = segment_id (es' ! k)"
  shows "chain_ok es \<longleftrightarrow> chain_ok es'"
  using assms
proof (induction es arbitrary: es')
  case (Cons a es)
  then obtain a' fs where es': "es' = a' # fs" by (metis length_Suc_conv)
  have r: "chain_ok es \<longleftrightarrow> chain_ok fs" by (rule Cons.IH) (use Cons.prems(1) Cons.prems(2) [of "Suc k" for k] es' in auto)
  show ?case
  proof (cases es)
    case Nil
    then show ?thesis using es' Cons.prems(1) by simp
  next
    case (Cons b gs)
    moreover obtain b' hs where "fs = b' # hs" using Cons Cons.prems(1) es' by (cases fs) auto
    ultimately show ?thesis using r es' Cons.prems(2) [of 0] Cons.prems(2) [of 1] by simp
  qed
qed simp

text \<open>The new files of an update, for the segments \<open>bs\<close> of its files; \<open>es\<close> are their entries.\<close>

definition changed_segments :: "disk_index \<Rightarrow> u32 list \<Rightarrow> nat set" where
  "changed_segments x ds = {k. k < length (dx_segments x) \<and> changed_by (dx_segments x ! k) (locals_of x ds k)}"

definition update_files :: "'w outside \<Rightarrow> disk_index \<Rightarrow> u32 list \<Rightarrow> patch_row list \<Rightarrow> file_entry list list \<Rightarrow> segment_entry list \<Rightarrow> view \<Rightarrow> bool" where
  "update_files E x ds ps bs es N \<longleftrightarrow> (let i = next_segment_id (dx_manifest x); g = state_gen (dx_manifest x) + 1; rows = merged_rows x ds ps in
     laid_out E N (unat (dx_id_bound x)) i bs es \<and>
     (\<forall>k \<in> changed_segments x ds. N (del_file_of (dx_segments x ! k)) =
        Some (Some (bitmap_encode (o_crc E) (buried_bitmap (dx_segments x ! k) (locals_of x ds k))))) \<and>
     (rows \<noteq> [] \<longrightarrow> N (overlay_name g) = Some (Some (overlay_content (o_crc E) rows))) \<and>
     dom N \<subseteq> segment_names i (length bs) \<union> (\<lambda>k. del_file_of (dx_segments x ! k)) ` changed_segments x ds \<union>
       (if rows = [] then {} else {overlay_name g}))"

definition manifest_for :: "'w outside \<Rightarrow> disk_index \<Rightarrow> u32 list \<Rightarrow> patch_row list \<Rightarrow> file_entry list list \<Rightarrow> segment_entry list \<Rightarrow> manifest" where
  "manifest_for E x ds ps bs es = updated_manifest E x ds ps es (next_segment_id (dx_manifest x) + of_nat (length bs))"

lemma manifest_for_simps:
  "segments (manifest_for E x ds ps bs es) = map seg_entry (segs_after (o_crc E) x ds) @ es"
  "next_segment_id (manifest_for E x ds ps bs es) = next_segment_id (dx_manifest x) + of_nat (length bs)"
  "generation (manifest_for E x ds ps bs es) = generation (dx_manifest x) + 1"
  "state_gen (manifest_for E x ds ps bs es) = (if merged_rows x ds ps = [] then 0 else state_gen (dx_manifest x) + 1)"
  "state_len (manifest_for E x ds ps bs es) = (if merged_rows x ds ps = [] then 0 else of_nat (length (overlay_content (o_crc E) (merged_rows x ds ps))))"
  "state_crc (manifest_for E x ds ps bs es) = (if merged_rows x ds ps = [] then 0 else o_crc E (overlay_body (map patch_in_of (merged_rows x ds ps))))"
  by (simp_all add: manifest_for_def updated_manifest_def next_generation_def with_overlay_def buried_manifest_def)

lemma length_segs_after [simp]: "length (segs_after crc x ds) = length (dx_segments x)"
  by (simp add: segs_after_def)

lemma segs_after_nth: "k < length (dx_segments x) \<Longrightarrow> segs_after crc x ds ! k = buried crc (dx_segments x ! k) (locals_of x ds k)"
  by (simp add: segs_after_def)

lemma of_nat_nonzero64:
  assumes "0 < n" "n < 2 ^ 64"
  shows "of_nat n \<noteq> (0 :: u64)"
proof
  assume "of_nat n = (0 :: u64)"
  moreover have "unat (of_nat n :: u64) = n" using assms(2) by (simp add: unsigned_of_nat take_bit_nat_eq_self)
  ultimately show False using assms(1) by simp
qed

lemma overlay_content_length:
  assumes "patches_ok (map patch_in_of rows)"
  shows "of_nat (length (overlay_content crc rows)) \<noteq> (0 :: u64)"
proof -
  have l: "length rows < 2 ^ 32" "length (concat (map pi_path (map patch_in_of rows))) \<le> 0xffffffff"
    using assms unfolding patches_ok_def by (simp_all only: length_map)
  have "length (overlay_content crc rows) = 56 + length rows * 36 + length (concat (map pi_path (map patch_in_of rows)))"
    unfolding overlay_content_def length_seal length_overlay_body by simp
  then have "0 < length (overlay_content crc rows)" "length (overlay_content crc rows) < 2 ^ 64" using l by simp_all
  then show ?thesis by (rule of_nat_nonzero64)
qed

lemma bitmap_encode_length:
  assumes "bitmap_ok b"
  shows "of_nat (length (bitmap_encode crc b)) \<noteq> (0 :: u64)"
proof -
  have "length (bitmap_encode crc b) = 40 + div_ceil8 (bm_num_docs b)" using assms by (simp add: bitmap_encode_def Let_def bitmap_ok_def)
  moreover have "div_ceil8 (bm_num_docs b) < 2 ^ 32" using unat_bounds(2) [of "bm_num_docs b"] by (simp add: div_ceil8_def)
  ultimately have "0 < length (bitmap_encode crc b)" "length (bitmap_encode crc b) < 2 ^ 64" by simp_all
  then show ?thesis by (rule of_nat_nonzero64)
qed

lemma id_bound_ends:
  assumes "dx_id_bound x = dx_id_bound (recompute_stats x)" and "unat (dx_id_bound x) + k < 2 ^ 32" and "0 < k" and "s \<in> set (dx_segments x)"
  shows "end_doc (seg_entry s) \<le> unat (dx_id_bound x)"
proof -
  let ?B = "foldl (\<lambda>b s. max b (end_doc (seg_entry s))) 0 (dx_segments x)"
  have m: "b \<le> foldl (\<lambda>b s. max b (end_doc (seg_entry s))) b ss \<and>
      (\<forall>s \<in> set ss. end_doc (seg_entry s) \<le> foldl (\<lambda>b s. max b (end_doc (seg_entry s))) b ss)" for b ss
  proof (induction ss arbitrary: b)
    case (Cons a ss)
    have le: "max b (end_doc (seg_entry a)) \<le> foldl (\<lambda>b s. max b (end_doc (seg_entry s))) (max b (end_doc (seg_entry a))) ss"
      using Cons.IH [of "max b (end_doc (seg_entry a))"] by blast
    then show ?case using Cons.IH [of "max b (end_doc (seg_entry a))"] by simp
  qed simp
  have b: "dx_id_bound x = of_nat (min ?B (2 ^ 32 - 1))" using assms(1) by (simp add: recompute_stats_def Let_def)
  have "unat (of_nat (min ?B (2 ^ 32 - 1)) :: u32) = min ?B (2 ^ 32 - 1)" by (intro unat_of_nat_less) simp
  then have u: "unat (dx_id_bound x) = min ?B (2 ^ 32 - 1)" by (simp only: b)
  then have "min ?B (2 ^ 32 - 1) < 2 ^ 32 - 1" using assms(2,3) by linarith
  then have "unat (dx_id_bound x) = ?B" unfolding u by linarith
  then show ?thesis using m [of 0 "dx_segments x"] assms(4) by simp
qed

lemma updated_manifest_ok:
  assumes x: "index_ok crc verify x" "dx_id_bound x = dx_id_bound (recompute_stats x)" and fit: "update_fits E x ds ps rs" and wf: "overlay_wf x"
    and l: "laid_out E N (unat (dx_id_bound x)) (next_segment_id (dx_manifest x)) bs es" and rs: "concat bs = rs"
  shows "manifest_ok (manifest_for E x ds ps bs es)"
proof -
  let ?m = "dx_manifest x" and ?xs = "dx_segments x" and ?ss = "segs_after (o_crc E) x ds" and ?i = "next_segment_id (dx_manifest x)"
  have ent: "map seg_entry ?xs = segments ?m" and mo: "manifest_ok ?m" and sv: "\<forall>s \<in> set ?xs. seg_valid crc verify s"
    using x(1) by (simp_all add: index_ok_def)
  have f: "unat (dx_id_bound x) + length rs < 2 ^ 32" "unat ?i + length rs < 2 ^ 32" "length (segments ?m) + length rs < 2 ^ 32"
    "\<forall>e \<in> set (segments ?m). unat (del_gen e) + 1 < 2 ^ 32" "unat (state_gen ?m) + 1 < 2 ^ 32"
    using fit unfolding update_fits_def Let_def by blast+
  note ll = laid_out_length [OF l, unfolded rs]
  have n: "unat (dx_id_bound x) + length (concat bs) < 2 ^ 32" "unat ?i + length bs < 2 ^ 32" using f(1,2) ll unfolding rs by linarith+
  note le = laid_out_entries(1) [OF l n]
  have i: "unat (?i + of_nat (length bs)) = unat ?i + length bs"
    using n(2) unat_of_nat_less [of "length bs"] by (simp add: unat_word_ariths)
  have old: "entry_ok (?i + of_nat (length bs)) (seg_entry s)" if "s \<in> set ?ss" for s
  proof -
    from that obtain k where k: "k < length ?xs" "s = buried (o_crc E) (?xs ! k) (locals_of x ds k)" by (auto simp: segs_after_def)
    let ?s = "?xs ! k"
    have s: "?s \<in> set ?xs" using k(1) by simp
    then have e: "entry_ok ?i (seg_entry ?s)" and g: "unat (del_gen (seg_entry ?s)) + 1 < 2 ^ 32"
      using mo f(4) unfolding manifest_ok_def ent [symmetric] by auto
    have v: "seg_valid crc verify ?s" using sv s by blast
    note b = buried_bitmap_ok(1,2) [OF v, of "locals_of x ds k"]
    have "segment_id (seg_entry ?s) < ?i + of_nat (length bs)"
      using e i by (simp add: entry_ok_def word_less_nat_alt)
    moreover have "del_gen (seg_entry ?s) + 1 \<noteq> 0" using g by (simp add: word_unat_eq_iff unat_word_ariths)
    moreover have "bitmap_count (buried_bitmap ?s (locals_of x ds k)) \<le> num_docs (seg_entry ?s)"
      using bitmap_count_correct [OF b(1)] b(2) v by (simp add: seg_valid_def Let_def)
    ultimately show ?thesis
      using e bitmap_encode_length [OF b(1)] unfolding entry_ok_def k(2) buried_simps by (simp add: buried_def Let_def)
  qed
  have ch: "chain_ok (map seg_entry ?ss)"
  proof -
    have "chain_ok (map seg_entry ?ss) \<longleftrightarrow> chain_ok (map seg_entry ?xs)" by (rule chain_ok_cong) (simp_all add: segs_after_nth)
    then show ?thesis using mo by (simp add: manifest_ok_def ent)
  qed
  have link: "end_doc (last (map seg_entry ?ss)) \<le> unat (base_doc (hd es)) \<and> segment_id (hd es) \<noteq> segment_id (last (map seg_entry ?ss))"
    if "?ss \<noteq> []" "es \<noteq> []"
  proof -
    let ?k = "length ?xs - 1"
    have ne: "?xs \<noteq> []" using that(1) by (metis length_0_conv length_segs_after)
    then have k: "?k < length ?xs" by simp
    have la: "last (map seg_entry ?ss) = seg_entry (buried (o_crc E) (?xs ! ?k) (locals_of x ds ?k))"
      using that(1) k by (simp add: last_map last_conv_nth segs_after_nth)
    have s: "?xs ! ?k \<in> set ?xs" using k by simp
    have "bs \<noteq> []" using that(2) laid_out_length [OF l] by auto
    then have "0 < length rs" using ll by (cases bs) auto
    then have "end_doc (seg_entry (?xs ! ?k)) \<le> unat (dx_id_bound x)" using id_bound_ends [OF x(2) f(1) _ s] by blast
    moreover have "unat (dx_id_bound x) \<le> unat (base_doc (hd es))" "?i \<le> segment_id (hd es)" using le that(2) by simp_all
    moreover have "segment_id (seg_entry (?xs ! ?k)) < ?i" using mo s unfolding manifest_ok_def ent [symmetric] entry_ok_def by auto
    ultimately show ?thesis unfolding la buried_simps by auto
  qed
  have "length ?xs = length (segments ?m)" using arg_cong [OF ent, of length] by simp
  then have "length (map seg_entry ?ss @ es) < 2 ^ 32" using f(3) ll laid_out_length [OF l] by simp
  moreover have "chain_ok (map seg_entry ?ss @ es)" unfolding chain_ok_append using ch le link by simp
  moreover have "\<forall>e \<in> set (map seg_entry ?ss @ es). entry_ok (?i + of_nat (length bs)) e" using old le by auto
  moreover have "state_gen ?m + 1 \<noteq> 0" using f(5) by (simp add: word_unat_eq_iff unat_word_ariths)
  ultimately show ?thesis unfolding manifest_ok_def manifest_for_simps
    using overlay_content_length [OF fits_rows(1) [OF fit wf], of "o_crc E"] by simp
qed

section \<open>The files\<close>

text \<open>What an update may create, and why none of it belongs to the index before.\<close>

definition update_names_of :: "disk_index \<Rightarrow> nat \<Rightarrow> name set" where
  "update_names_of x k = fresh_names (next_segment_id (dx_manifest x)) k \<union>
     (\<Union>s \<in> set (dx_segments x). {tmp_name (del_file_of s), del_file_of s}) \<union>
     {tmp_name (overlay_name (state_gen (dx_manifest x) + 1)), overlay_name (state_gen (dx_manifest x) + 1)}"

lemma new_del_file:
  assumes "distinct (map segment_id (segments m))" and "e \<in> set (segments m)"
  shows "del_name (segment_id e) (del_gen e + 1) \<notin> referenced_files m"
proof
  assume "del_name (segment_id e) (del_gen e + 1) \<in> referenced_files m"
  then obtain e' where e': "e' \<in> set (segments m)" "segment_id e' = segment_id e" "del_gen e' = del_gen e + 1"
    by (auto simp: referenced_files_def segment_files_def split: if_splits)
  have "e' = e" using assms e'(1,2) by (auto simp: distinct_map dest: inj_onD)
  then show False using e'(3) by simp
qed

lemma update_names_fresh:
  assumes v: "view_of_index crc S (dx_manifest x)" and x: "index_ok crc' verify x"
    and k: "unat (next_segment_id (dx_manifest x)) + k < 2 ^ 32" and d: "distinct (map segment_id (segments (dx_manifest x)))"
  shows "update_names_of x k \<inter> dom S = {}"
proof -
  let ?m = "dx_manifest x"
  have mo: "manifest_ok ?m" and ent: "map seg_entry (dx_segments x) = segments ?m" using x by (simp_all add: index_ok_def)
  have dS: "dom S = insert MANIFEST (referenced_files ?m)" using v by (simp add: view_of_index_def)
  have "tmp_name n \<notin> dom S" for n unfolding dS using referenced_not_tmp(1) by auto
  moreover have "del_file_of s \<notin> dom S" if "s \<in> set (dx_segments x)" for s
  proof -
    have "seg_entry s \<in> set (segments ?m)" using that by (simp flip: ent)
    then show ?thesis unfolding dS del_file_of_def using new_del_file [OF d] by simp
  qed
  moreover have "overlay_name (state_gen ?m + 1) \<notin> dom S"
    unfolding dS by (auto simp: referenced_files_def segment_files_def split: if_splits)
  ultimately show ?thesis using fresh_disjoint [OF v mo k] by (auto simp: update_names_of_def)
qed

lemma update_files_dom:
  assumes "update_files E x ds ps bs es N" and "n \<in> dom N"
  shows "n \<in> segment_names (next_segment_id (dx_manifest x)) (length bs) \<or> (\<exists>k \<in> changed_segments x ds. n = del_file_of (dx_segments x ! k)) \<or>
    merged_rows x ds ps \<noteq> [] \<and> n = overlay_name (state_gen (dx_manifest x) + 1)"
proof -
  have "n \<in> segment_names (next_segment_id (dx_manifest x)) (length bs) \<union> (\<lambda>k. del_file_of (dx_segments x ! k)) ` changed_segments x ds \<union>
       (if merged_rows x ds ps = [] then {} else {overlay_name (state_gen (dx_manifest x) + 1)})"
    using assms unfolding update_files_def Let_def by blast
  then show ?thesis by (simp split: if_splits) blast+
qed

lemma update_files_names:
  assumes "update_files E x ds ps bs es N" and "length bs \<le> k"
  shows "dom N \<subseteq> update_names_of x k"
proof
  fix n assume "n \<in> dom N"
  from update_files_dom [OF assms(1) this] show "n \<in> update_names_of x k"
  proof (elim disjE bexE)
    assume "n \<in> segment_names (next_segment_id (dx_manifest x)) (length bs)"
    moreover have "segment_names (next_segment_id (dx_manifest x)) (length bs) \<subseteq> fresh_names (next_segment_id (dx_manifest x)) k"
      using assms(2) unfolding segment_names_def fresh_names_def flush_names_def by (intro UN_mono) auto
    ultimately show ?thesis by (auto simp: update_names_of_def)
  next
    fix j assume "j \<in> changed_segments x ds" "n = del_file_of (dx_segments x ! j)"
    then have "j < length (dx_segments x)" "n = del_file_of (dx_segments x ! j)" by (simp_all add: changed_segments_def)
    from nth_mem [OF this(1)] this(2) show ?thesis unfolding update_names_of_def by blast
  qed (simp add: update_names_of_def)
qed

text \<open>The files of the new manifest: some of the old index, the others new.\<close>

definition kept :: "view \<Rightarrow> manifest \<Rightarrow> view \<Rightarrow> view" where
  "kept S m N = (S |` referenced_files m) ++ N"

lemma manifest_for_files:
  assumes x: "index_ok crc verify x" and l: "laid_out E N (unat (dx_id_bound x)) (next_segment_id (dx_manifest x)) bs es"
    and n: "unat (dx_id_bound x) + length (concat bs) < 2 ^ 32"
  shows "referenced_files (manifest_for E x ds ps bs es) =
    (\<Union>k < length (dx_segments x). set (segment_files (seg_entry (buried (o_crc E) (dx_segments x ! k) (locals_of x ds k))))) \<union>
    segment_names (next_segment_id (dx_manifest x)) (length bs) \<union>
    (if merged_rows x ds ps \<noteq> [] \<and> 0 < state_gen (dx_manifest x) + 1 then {overlay_name (state_gen (dx_manifest x) + 1)} else {})"
proof -
  have "\<Union> (set (map (set \<circ> segment_files) (map seg_entry (segs_after (o_crc E) x ds)))) =
      (\<Union>k < length (dx_segments x). set (segment_files (seg_entry (buried (o_crc E) (dx_segments x ! k) (locals_of x ds k)))))"
    by (auto simp: segs_after_def)
  then show ?thesis using laid_out_names [OF l n] unfolding referenced_files_def manifest_for_simps by (simp add: Un_assoc)
qed

lemma buried_files:
  assumes "unat (del_gen (seg_entry s)) + 1 < 2 ^ 32"
  shows "set (segment_files (seg_entry (buried crc s ls))) =
    (if changed_by s ls then {idx_name (segment_id (seg_entry s)), doc_name (segment_id (seg_entry s)), del_file_of s} else set (segment_files (seg_entry s)))"
proof -
  have "0 < del_gen (seg_entry s) + 1" using assms by (simp add: word_less_nat_alt unat_word_ariths)
  then show ?thesis by (simp add: buried_def Let_def segment_files_def del_file_of_def)
qed

lemma kept_view:
  assumes v: "view_of_index (o_crc E) S (dx_manifest x)" and x: "index_ok crc verify x" "dx_id_bound x = dx_id_bound (recompute_stats x)"
    and fit: "update_fits E x ds ps rs" and wf: "overlay_wf x" and u: "update_files E x ds ps bs es N" and rs: "concat bs = rs"
  defines "m \<equiv> manifest_for E x ds ps bs es"
  shows "view_of_index (o_crc E) (new_view E (kept S m N) m) m" "dom (kept S m N) = referenced_files m"
proof -
  let ?xs = "dx_segments x" and ?i = "next_segment_id (dx_manifest x)"
  have l: "laid_out E N (unat (dx_id_bound x)) ?i bs es" using u by (simp add: update_files_def Let_def)
  have f: "unat (dx_id_bound x) + length (concat bs) < 2 ^ 32" "unat ?i + length rs < 2 ^ 32" "\<forall>e \<in> set (segments (dx_manifest x)). unat (del_gen e) + 1 < 2 ^ 32"
    "unat (state_gen (dx_manifest x)) + 1 < 2 ^ 32"
    using fit unfolding update_fits_def Let_def rs by blast+
  have ent: "map seg_entry ?xs = segments (dx_manifest x)" using x(1) by (simp add: index_ok_def)
  have mo: "manifest_ok m" unfolding m_def by (rule updated_manifest_ok [OF x fit wf l rs])
  note files = manifest_for_files [OF x(1) l f(1), of ds ps, folded m_def]
  have g: "unat (del_gen (seg_entry (?xs ! k))) + 1 < 2 ^ 32" if "k < length ?xs" for k using f(3) that unfolding ent [symmetric] by simp
  note bf = buried_files [OF g]
  have sg: "0 < state_gen (dx_manifest x) + 1" using f(4) by (simp add: word_less_nat_alt unat_word_ariths)
  have dS: "dom S = insert MANIFEST (referenced_files (dx_manifest x))" using v by (simp add: view_of_index_def)
  have Sv: "\<exists>c. S n = Some (Some c)" if "n \<in> referenced_files (dx_manifest x)" for n
    using v that by (auto simp: view_of_index_def index_view_def)
  have old: "set (segment_files (seg_entry (?xs ! k))) \<subseteq> referenced_files (dx_manifest x)" if "k < length ?xs" for k
    using nth_mem [OF that] unfolding referenced_files_def ent [symmetric] by fastforce
  have dN: "dom N \<subseteq> referenced_files m"
    using u sg bf unfolding update_files_def Let_def files changed_segments_def by (auto split: if_splits)
  have len: "length bs \<le> length rs" using laid_out_length [OF l] rs by simp
  have new: "\<exists>c. kept S m N n = Some (Some c)" if n: "n \<in> referenced_files m" for n
  proof -
    have seg: "\<exists>c. N n = Some (Some c)" if "n \<in> segment_names ?i (length bs)"
    proof -
      have "unat ?i + length bs < 2 ^ 32" using f(2) len by linarith
      note e = laid_out_entries(2) [OF l f(1) this, unfolded laid_out_names [OF l f(1)]]
      show ?thesis using e that by blast
    qed
    have ovl: "\<exists>c. N n = Some (Some c)" if "merged_rows x ds ps \<noteq> []" "n = overlay_name (state_gen (dx_manifest x) + 1)"
      using u that by (simp add: update_files_def Let_def)
    have del: "\<exists>c. N n = Some (Some c)" if "k \<in> changed_segments x ds" "n = del_file_of (?xs ! k)" for k
      using u that by (simp add: update_files_def Let_def)
    have "n \<in> referenced_files (dx_manifest x) \<or> (\<exists>c. N n = Some (Some c))"
    proof -
      consider k where "k < length ?xs" "n \<in> set (segment_files (seg_entry (buried (o_crc E) (?xs ! k) (locals_of x ds k))))"
        | "n \<in> segment_names ?i (length bs)" | "merged_rows x ds ps \<noteq> []" "n = overlay_name (state_gen (dx_manifest x) + 1)"
        using n unfolding files by (auto split: if_splits)
      then show ?thesis
      proof cases
        case 1
        have "idx_name (segment_id (seg_entry (?xs ! k))) \<in> set (segment_files (seg_entry (?xs ! k)))"
          "doc_name (segment_id (seg_entry (?xs ! k))) \<in> set (segment_files (seg_entry (?xs ! k)))" by (simp_all add: segment_files_def)
        then show ?thesis using 1 bf [OF 1(1), of "o_crc E" "locals_of x ds k"] old [OF 1(1)] del [of k]
          by (auto simp: changed_segments_def split: if_splits)
      qed (use seg ovl in auto)
    qed
    then show ?thesis
    proof
      assume "n \<in> referenced_files (dx_manifest x)"
      then obtain c where "S n = Some (Some c)" using Sv by blast
      moreover have "\<exists>c. N n = Some (Some c)" if "n \<in> dom N"
        using update_files_dom [OF u that] seg ovl del by blast
      ultimately show ?thesis using n by (cases "n \<in> dom N") (auto simp: kept_def map_add_def restrict_map_def split: option.splits)
    next
      assume "\<exists>c. N n = Some (Some c)"
      then show ?thesis by (auto simp: kept_def map_add_Some_iff)
    qed
  qed
  have man: "MANIFEST \<notin> referenced_files m" using referenced_not_tmp(2) by blast
  have dk: "dom (kept S m N) \<subseteq> referenced_files m" using dN by (auto simp: kept_def restrict_map_def split: if_splits)
  moreover have "n \<in> dom (kept S m N)" if "n \<in> referenced_files m" for n using new [OF that] by blast
  ultimately show dk': "dom (kept S m N) = referenced_files m" by blast
  have "index_view (o_crc E) (new_view E (kept S m N) m) m"
    using new man manifest_roundtrip [OF mo] unfolding index_view_def new_view_def by auto
  then show "view_of_index (o_crc E) (new_view E (kept S m N) m) m" using dk' by (simp add: view_of_index_def new_view_def)
qed

section \<open>Opening\<close>

text \<open>The segments of an index are what the files of the view \<open>S\<close> give.\<close>

definition read_from :: "(bytes \<Rightarrow> u32) \<Rightarrow> view \<Rightarrow> disk_index \<Rightarrow> bool" where
  "read_from crc S x \<longleftrightarrow> (\<forall>d. holds d S \<longrightarrow> (\<forall>s \<in> set (dx_segments x). segment_open crc real_fs (seg_entry s) False d = (Inr s, d)))"

lemma updated_loads:
  assumes v: "view_of_index (o_crc E) S (dx_manifest x)" and x: "index_ok (o_crc E) verify x" "dx_id_bound x = dx_id_bound (recompute_stats x)"
    and fit: "update_fits E x ds ps rs" and wf: "overlay_wf x" and u: "update_files E x ds ps bs es N" and rs: "concat bs = rs"
    and dis: "dom N \<inter> dom S = {}" and src: "read_from (o_crc E) S x" and dS: "holds d0 S"
  defines "m \<equiv> manifest_for E x ds ps bs es"
  assumes d: "holds d (new_view E (kept S m N) m)"
  shows "\<exists>ss ol. fst (open_once (o_crc E) real_fs False d) = Inr (Some (m, of_nat (length (manifest_encode (o_crc E) m)),
      segs_after (o_crc E) x ds @ ss, map owned_row (merged_rows x ds ps), ol)) \<and> segs_for E (unat (dx_id_bound x)) bs ss \<and>
    map seg_entry ss = es \<and> (\<forall>s \<in> set ss. seg_valid (o_crc E) True s)"
proof -
  let ?xs = "dx_segments x" and ?crc = "o_crc E" and ?rows = "merged_rows x ds ps"
  note k = kept_view [OF v x fit wf u rs, folded m_def]
  have l: "laid_out E N (unat (dx_id_bound x)) (next_segment_id (dx_manifest x)) bs es" using u by (simp add: update_files_def Let_def)
  have f: "corpus_fits E (concat bs)" "unat (dx_id_bound x) + length (concat bs) < 2 ^ 32" "\<forall>e \<in> set (segments (dx_manifest x)). unat (del_gen e) + 1 < 2 ^ 32"
    "unat (state_gen (dx_manifest x)) + 1 < 2 ^ 32"
    using fit unfolding update_fits_def Let_def rs by blast+
  have ent: "map seg_entry ?xs = segments (dx_manifest x)" using x(1) by (simp add: index_ok_def)
  have man: "MANIFEST \<notin> referenced_files m" using referenced_not_tmp(2) by blast
  have hk: "holds d (kept S m N)" using d man k(2) unfolding holds_def new_view_def by (auto split: if_splits)
  have hN: "holds d N" using hk unfolding holds_def kept_def by (simp add: map_add_Some_iff)
  have same: "dk_file d n = dk_file d0 n" if "n \<in> referenced_files m" "n \<in> referenced_files (dx_manifest x)" for n
  proof -
    have r: "n \<in> referenced_files m" "n \<in> referenced_files (dx_manifest x)" by (fact that)+
    then obtain c where c: "S n = Some (Some c)" using v by (auto simp: view_of_index_def index_view_def)
    then have "n \<notin> dom N" using dis by blast
    then have "kept S m N n = S n" using r by (simp add: kept_def map_add_def restrict_map_def domIff)
    then have "dk_file d n = Some c" using hk c by (simp add: holds_def)
    moreover have "dk_file d0 n = Some c" using dS c by (simp add: holds_def)
    ultimately show ?thesis by simp
  qed
  note files = manifest_for_files [OF x(1) l f(2), of ds ps, folded m_def]
  have old: "segment_open ?crc real_fs (seg_entry s) False d = (Inr s, d)" if "s \<in> set (segs_after ?crc x ds)" for s
  proof -
    from that obtain j where j: "j < length ?xs" "s = buried ?crc (?xs ! j) (locals_of x ds j)" by (auto simp: segs_after_def)
    let ?s = "?xs ! j" and ?ls = "locals_of x ds j"
    have s: "?s \<in> set ?xs" using j(1) by simp
    have g: "unat (del_gen (seg_entry ?s)) + 1 < 2 ^ 32" using f(3) s unfolding ent [symmetric] by simp
    have inm: "set (segment_files (seg_entry (buried ?crc ?s ?ls))) \<subseteq> referenced_files m" using j(1) unfolding files by blast
    have ino: "set (segment_files (seg_entry ?s)) \<subseteq> referenced_files (dx_manifest x)"
      using s unfolding referenced_files_def ent [symmetric] by fastforce
    note bf = buried_files [OF g, of ?crc ?ls]
    have names: "idx_name (segment_id (seg_entry ?s)) \<in> set (segment_files (seg_entry ?s))" "doc_name (segment_id (seg_entry ?s)) \<in> set (segment_files (seg_entry ?s))"
      "0 < del_gen (seg_entry ?s) \<Longrightarrow> del_name (segment_id (seg_entry ?s)) (del_gen (seg_entry ?s)) \<in> set (segment_files (seg_entry ?s))"
      by (simp_all add: segment_files_def)
    have o: "segment_open ?crc real_fs (seg_entry ?s) False d0 = (Inr ?s, d0)" using src dS s unfolding read_from_def by blast
    show ?thesis unfolding j(2)
    proof (rule opened_buried [OF o g])
      have "idx_name (segment_id (seg_entry ?s)) \<in> referenced_files m" "doc_name (segment_id (seg_entry ?s)) \<in> referenced_files m"
        using inm names(1,2) unfolding bf by (auto split: if_splits)
      then show "dk_file d (idx_name (segment_id (seg_entry ?s))) = dk_file d0 (idx_name (segment_id (seg_entry ?s)))"
        "dk_file d (doc_name (segment_id (seg_entry ?s))) = dk_file d0 (doc_name (segment_id (seg_entry ?s)))"
        using same ino names(1,2) by blast+
      show "dk_file d (del_file_of ?s) = Some (bitmap_encode ?crc (buried_bitmap ?s ?ls))" if "changed_by ?s ?ls"
        using u hN j(1) that by (simp add: update_files_def Let_def holds_def changed_segments_def)
      show "dk_file d (del_name (segment_id (seg_entry ?s)) (del_gen (seg_entry ?s))) = dk_file d0 (del_name (segment_id (seg_entry ?s)) (del_gen (seg_entry ?s)))"
        if "\<not> changed_by ?s ?ls" "0 < del_gen (seg_entry ?s)"
        using same inm ino names(3) that bf by (metis subsetD)
    qed
  qed
  have lo: "load_segments ?crc real_fs False (map seg_entry (segs_after ?crc x ds)) d = (Inr (segs_after ?crc x ds), d)"
    using old by (intro opened_load_segments) blast
  obtain ss where ss: "load_segments ?crc real_fs False es d = (Inr ss, d)" "map seg_entry ss = es"
    "\<forall>s \<in> set ss. seg_valid ?crc True s" "segs_for E (unat (dx_id_bound x)) bs ss" using load_segments_built [OF l f(1) hN] by blast
  have ls: "load_segments ?crc real_fs False (segments m) d = (Inr (segs_after ?crc x ds @ ss), d)"
    unfolding m_def manifest_for_simps by (rule load_segments_append [OF lo ss(1)])
  have "\<exists>ol. load_overlay ?crc real_fs m d = (Inr (map owned_row ?rows, ol), d)"
  proof (cases "?rows = []")
    case True
    then show ?thesis by (simp add: load_overlay_def m_def manifest_for_simps ok_with_def)
  next
    case False
    have "0 < state_gen (dx_manifest x) + 1" using f(4) by (simp add: word_less_nat_alt unat_word_ariths)
    moreover have "dk_file d (overlay_name (state_gen (dx_manifest x) + 1)) = Some (overlay_content ?crc ?rows)"
      using u hN False by (simp add: update_files_def Let_def holds_def)
    ultimately show ?thesis using overlay_loaded [OF fits_rows(1) [OF fit wf], of m ?crc d] False by (simp add: m_def manifest_for_simps)
  qed
  then obtain ol where ol: "load_overlay ?crc real_fs m d = (Inr (map owned_row ?rows, ol), d)" ..
  have fm: "dk_file d MANIFEST = Some (manifest_encode ?crc m)" using d by (simp add: holds_def new_view_def)
  have "manifest_ok m" unfolding m_def by (rule updated_manifest_ok [OF x fit wf l rs])
  then have "fst (open_once ?crc real_fs False d) = load_view ?crc False m d"
    using fm manifest_roundtrip by (intro open_once_loads)
  also have "\<dots> = Inr (Some (m, of_nat (length (manifest_encode ?crc m)), segs_after ?crc x ds @ ss, map owned_row ?rows, ol))"
    using ls ol fm by (simp add: load_view_def load_index_def and_do_def ok_with_def)
  finally show ?thesis using ss(2-4) by blast
qed

end
