(* ===== verification/Updated_Docs.thy ===== *)
theory Updated_Docs
  imports Updated
begin

text \<open>
  The documents and the answers of the index an update leaves (\<open>src/store/update.rs\<close>), in terms of those of the index
  before and of the files that were indexed.

  Main facts: the listing keeps the documents that are not deleted, in order and with their patches, and appends the
  indexed files (\<open>updated_docs_iter\<close>); a query matches the old documents it matched that are not deleted, and
  the indexed files whose text matches (\<open>updated_matching\<close>).
\<close>

section \<open>Lists\<close>

lemma map_filter_map_filter: "List.map_filter g (List.map_filter f xs) = List.map_filter (\<lambda>x. Option.bind (f x) g) xs"
  by (induction xs) (auto simp: map_filter_simps split: option.splits)

lemma map_filter_cong: "(\<And>x. x \<in> set xs \<Longrightarrow> f x = g x) \<Longrightarrow> List.map_filter f xs = List.map_filter g xs"
  by (induction xs) (simp_all add: map_filter_simps split: option.splits)

lemma map_filter_concat: "List.map_filter f (concat xss) = concat (map (List.map_filter f) xss)"
  by (induction xss) (auto simp: List.map_filter_def)

section \<open>The new index\<close>

definition index_after :: "'w outside \<Rightarrow> disk_index \<Rightarrow> u32 list \<Rightarrow> patch_row list \<Rightarrow> file_entry list \<Rightarrow> disk_index \<Rightarrow> bool" where
  "index_after E x ds ps rs y \<longleftrightarrow> index_ok (o_crc E) False y \<and> dx_overlay y = map owned_row (merged_rows x ds ps) \<and> dx_root y = dx_root x \<and>
     dx_live_docs y = dx_live_docs (recompute_stats y) \<and> dx_id_bound y = dx_id_bound (recompute_stats y) \<and>
     generation (dx_manifest y) = generation (dx_manifest x) + 1 \<and> distinct (map segment_id (segments (dx_manifest y))) \<and>
     (\<exists>bs ss. concat bs = rs \<and> dx_segments y = segs_after (o_crc E) x ds @ ss \<and> segs_for E (unat (dx_id_bound x)) bs ss \<and>
        (\<forall>s \<in> set ss. seg_valid (o_crc E) True s))"

text \<open>A patch on the metadata of a document.\<close>

definition patch_meta :: "bytes \<Rightarrow> (u64 \<times> i64 \<times> u64 \<times> bytes) option \<Rightarrow> doc_meta \<Rightarrow> doc_meta" where
  "patch_meta rt row m = (case row of None \<Rightarrow> m
     | Some (inode, mtime, sz, path) \<Rightarrow> m\<lparr>dm_inode := inode, dm_mtime := nanos_to_time mtime, dm_size := sz, dm_path := resolve rt path\<rparr>)"

definition doc_after :: "disk_index \<Rightarrow> u32 list \<Rightarrow> patch_row list \<Rightarrow> u32 \<times> doc_meta \<Rightarrow> (u32 \<times> doc_meta) option" where
  "doc_after x ds ps = (\<lambda>(i, m). if i \<in> set ds then None else Some (i, patch_meta (dx_root x) (merged x ds ps i) m))"

definition docs_after :: "'w outside \<Rightarrow> disk_index \<Rightarrow> u32 list \<Rightarrow> patch_row list \<Rightarrow> file_entry list \<Rightarrow> (u32 \<times> doc_meta) list" where
  "docs_after E x ds ps rs = List.map_filter (doc_after x ds ps) (docs_iter x) @
     map (\<lambda>k. (of_nat (unat (dx_id_bound x) + k), stored_meta E (dx_root x) (rs ! k))) [0..<length rs]"

lemma index_after_sorted: "index_after E x ds ps rs y \<Longrightarrow> segs_sorted (dx_segments y)"
  by (rule index_ok_sorted [of "o_crc E" False]) (simp add: index_after_def)

lemma merged_none:
  assumes "merged x ds ps i = None" "i \<notin> set ds" "overlay_wf x"
  shows "overlay_for x i = None"
proof (rule ccontr)
  assume "overlay_for x i \<noteq> None"
  then obtain p where "overlay_for x i = Some p" by blast
  then have p: "p \<in> set (dx_overlay x)" "op_doc_id p = i" using assms(3) map_of_sorted_find by (auto simp: overlay_wf_def)
  then have "i \<in> fst ` set (overlay_patches x)" by (force simp: overlay_patches_def)
  then have "map_of (rev (overlay_patches x)) i \<noteq> None" by (simp add: map_of_eq_None_iff)
  then show False using assms(1,2) by (auto simp: merged_def merge_overlay_eq map_add_def split: option.splits)
qed

lemma updated_doc:
  assumes y: "index_after E x ds ps rs y" and x: "index_ok (o_crc E) verify x" and wf: "overlay_wf x"
    and k: "k < length (dx_segments x)" and l: "l < unat (seg_num_docs (dx_segments x ! k))"
  defines "i \<equiv> base_doc (seg_entry (dx_segments x ! k)) + of_nat l"
  shows "dx_doc y i = (if i \<in> set ds then None else map_option (patch_meta (dx_root x) (merged x ds ps i)) (dx_doc x i))"
proof -
  let ?s = "dx_segments x ! k" and ?ls = "locals_of x ds k"
  have sx: "segs_sorted (dx_segments x)" by (rule index_ok_sorted [OF x])
  have s: "?s \<in> set (dx_segments x)" using k by simp
  have lx: "locate x i = Some (?s, of_nat l)" unfolding i_def by (rule owned_id(2) [OF sx s l])
  have "buried (o_crc E) ?s ?ls \<in> set (segs_after (o_crc E) x ds)" using k by (auto simp: segs_after_def)
  then have b: "buried (o_crc E) ?s ?ls \<in> set (dx_segments y)" using y by (auto simp: index_after_def)
  have ly: "locate y i = Some (buried (o_crc E) ?s ?ls, of_nat l)"
    using owned_id(2) [OF index_after_sorted [OF y] b, of l] l unfolding i_def by simp
  have v: "seg_valid (o_crc E) verify ?s" using x s by (simp add: index_ok_def)
  have ln: "(of_nat l :: u32) < seg_num_docs ?s"
    using l unat_of_nat_less [of l] unat_bounds(2) [of "seg_num_docs ?s"] by (simp add: word_less_nat_alt)
  have m: "seg_doc_meta (buried (o_crc E) ?s ?ls) (of_nat l) rt = (if i \<in> set ds then None else seg_doc_meta ?s (of_nat l) rt)" for rt
    using buried_doc_meta [OF v ln] locals_of_iff [OF sx k ln] by (simp add: i_def)
  have root: "dx_root y = dx_root x" and ov: "dx_overlay y = map owned_row (merged_rows x ds ps)" using y by (simp_all add: index_after_def)
  show ?thesis
  proof (cases "i \<in> set ds")
    case True
    then show ?thesis by (simp add: dx_doc_def ly m)
  next
    case nd: False
    show ?thesis
    proof (cases "seg_doc_meta ?s (of_nat l) (dx_root x)")
      case None
      then show ?thesis using nd by (simp add: dx_doc_def lx ly m root)
    next
      case (Some meta)
      show ?thesis
      proof (cases "merged x ds ps i")
        case None
        then show ?thesis using Some nd merged_none [OF None nd wf]
          by (simp add: dx_doc_def lx ly m root overlay_for_rows [OF ov] patch_meta_def)
      next
        case row: (Some row)
        obtain inode mtime sz path where r: "row = (inode, mtime, sz, path)" by (cases row)
        show ?thesis using Some nd row
          by (cases "overlay_for x i") (simp_all add: dx_doc_def lx ly m root overlay_for_rows [OF ov] patch_meta_def owned_row_def r)
      qed
    qed
  qed
qed

lemma updated_docs_of_segment:
  assumes y: "index_after E x ds ps rs y" and x: "index_ok (o_crc E) verify x" and wf: "overlay_wf x" and k: "k < length (dx_segments x)"
  shows "docs_of_segment y (buried (o_crc E) (dx_segments x ! k) (locals_of x ds k)) =
    List.map_filter (doc_after x ds ps) (docs_of_segment x (dx_segments x ! k))"
  unfolding docs_of_segment_def map_filter_map_filter buried_simps
  using updated_doc [OF y x wf k] by (intro map_filter_cong) (auto simp: doc_after_def Let_def map_option_case split: option.splits)

lemma updated_docs_iter:
  assumes y: "index_after E x ds ps rs y" and x: "index_ok (o_crc E) verify x" and wf: "overlay_wf x" and fit: "update_fits E x ds ps rs"
  shows "docs_iter y = docs_after E x ds ps rs"
proof -
  obtain bs ss where s: "concat bs = rs" "dx_segments y = segs_after (o_crc E) x ds @ ss" "segs_for E (unat (dx_id_bound x)) bs ss"
    using y by (auto simp: index_after_def)
  have root: "dx_root y = dx_root x" and ov: "dx_overlay y = map owned_row (merged_rows x ds ps)" using y by (simp_all add: index_after_def)
  have n: "unat (dx_id_bound x) + length (concat bs) < 2 ^ 32" using fit unfolding update_fits_def Let_def s(1) by blast
  have none: "overlay_for y (of_nat l) = None" if "unat (dx_id_bound x) \<le> l" "l < unat (dx_id_bound x) + length (concat bs)" for l
  proof -
    have "unat (of_nat l :: u32) = l" using that n by (intro unat_of_nat_less) linarith
    then have "\<not> (of_nat l :: u32) < dx_id_bound x" using that(1) by (simp add: word_less_nat_alt)
    then have "merged x ds ps (of_nat l) = None" using fits_rows(2) [OF fit wf] by (metis option.exhaust)
    then show ?thesis by (simp add: overlay_for_rows [OF ov])
  qed
  have new: "concat (map (docs_of_segment y) ss) = map (\<lambda>k. (of_nat (unat (dx_id_bound x) + k), stored_meta E (dx_root x) (rs ! k))) [0..<length rs]"
    using docs_of_built_list [OF index_after_sorted [OF y] _ s(3) none n] unfolding root s(1) s(2) by simp
  have "map (docs_of_segment y) (segs_after (o_crc E) x ds) = map (\<lambda>k. List.map_filter (doc_after x ds ps) (docs_of_segment x (dx_segments x ! k))) [0..<length (dx_segments x)]"
    unfolding segs_after_def using updated_docs_of_segment [OF y x wf] by simp
  also have "\<dots> = map (List.map_filter (doc_after x ds ps)) (map (docs_of_segment x) (dx_segments x))"
    by (rule nth_equalityI) simp_all
  finally have "concat (map (docs_of_segment y) (segs_after (o_crc E) x ds)) = List.map_filter (doc_after x ds ps) (docs_iter x)"
    by (simp only: docs_iter_def map_filter_concat)
  then show ?thesis using new by (simp only: docs_after_def docs_iter_def [of y] s(2) map_append concat_append)
qed

section \<open>Queries\<close>

lemma matches_fewer:
  assumes "\<And>e. live' e \<longleftrightarrow> live e \<and> e \<notin> D"
  shows "matches P live' nd d \<longleftrightarrow> matches P live nd d \<and> d \<notin> D"
proof (cases "d \<in> D")
  case True
  have "\<not> matches P live' nd d"
  proof (induction nd)
    case (And must nots)
    then show ?case by (cases must) auto
  qed (use True assms in \<open>auto simp: list_ex_iff\<close>)
  then show ?thesis using True by simp
next
  case False
  have "matches P live' nd d \<longleftrightarrow> matches P live nd d"
  proof (induction nd)
    case (And must nots)
    then show ?case by (auto simp: list_all_iff list_ex_iff)
  next
    case (Or cs)
    then show ?case by (auto simp: list_ex_iff)
  qed (use False assms in simp_all)
  then show ?thesis using False by simp
qed

lemma buried_matches:
  assumes x: "index_ok (o_crc E) verify x" and k: "k < length (dx_segments x)"
  shows "(\<lambda>d. base_doc (seg_entry (dx_segments x ! k)) + d) ` {d. matches (seg_plists (buried (o_crc E) (dx_segments x ! k) (locals_of x ds k)))
      (disk_segment.live (buried (o_crc E) (dx_segments x ! k) (locals_of x ds k))) nd d} =
    (\<lambda>d. base_doc (seg_entry (dx_segments x ! k)) + d) ` {d. matches (seg_plists (dx_segments x ! k)) (disk_segment.live (dx_segments x ! k)) nd d} - set ds"
proof -
  let ?s = "dx_segments x ! k" and ?ls = "locals_of x ds k"
  have sx: "segs_sorted (dx_segments x)" by (rule index_ok_sorted [OF x])
  have v: "seg_valid (o_crc E) verify ?s" using x k by (simp add: index_ok_def)
  have lv: "disk_segment.live (buried (o_crc E) ?s ?ls) d \<longleftrightarrow> disk_segment.live ?s d \<and> d \<notin> set ?ls" for d
    unfolding disk_segment.live_def using buried_doc_len [OF v] by (simp add: disk_segment_ops_def)
  have m: "matches (seg_plists (buried (o_crc E) ?s ?ls)) (disk_segment.live (buried (o_crc E) ?s ?ls)) nd d \<longleftrightarrow>
      matches (seg_plists ?s) (disk_segment.live ?s) nd d \<and> d \<notin> set ?ls" for d
    unfolding buried_simps by (rule matches_fewer [OF lv])
  have l: "d \<in> set ?ls \<longleftrightarrow> base_doc (seg_entry ?s) + d \<in> set ds" if "matches (seg_plists ?s) (disk_segment.live ?s) nd d" for d
  proof (rule locals_of_iff [OF sx k])
    have "disk_segment.live ?s d" using that by (rule disk_segment.matches_live)
    then show "d < seg_num_docs ?s" unfolding disk_segment.live_def by (auto simp: disk_segment_ops_def seg_doc_len_def split: if_splits)
  qed
  show ?thesis using m l by auto
qed

lemma matching_append: "disk_segment.matching (as @ bs) nd = disk_segment.matching as nd \<union> disk_segment.matching bs nd"
  unfolding disk_segment.matching_def by simp

lemma updated_matching:
  assumes y: "index_after E x ds ps rs y" and x: "index_ok (o_crc E) verify x" and fit: "update_fits E x ds ps rs" and q: "disk_query_ok nd"
  shows "disk_segment.matching (dx_segments y) nd = (disk_segment.matching (dx_segments x) nd - set ds) \<union>
    of_nat ` {unat (dx_id_bound x) + l |l. l < length rs \<and> file_matches (o_unicode E) (o_read E) nd (rs ! l)}"
proof -
  obtain bs ss where s: "concat bs = rs" "dx_segments y = segs_after (o_crc E) x ds @ ss" "segs_for E (unat (dx_id_bound x)) bs ss"
    using y by (auto simp: index_after_def)
  have n: "unat (dx_id_bound x) + length (concat bs) < 2 ^ 32" using fit unfolding update_fits_def Let_def s(1) by blast
  let ?M = "\<lambda>s. (\<lambda>d. base_doc (seg_entry s) + d) ` {d. matches (seg_plists s) (disk_segment.live s) nd d}"
  have mt: "disk_segment.matching zs nd = (\<Union>s \<in> set zs. ?M s)" for zs
    unfolding disk_segment.matching_def by (simp add: disk_segment_ops_def)
  have "disk_segment.matching (segs_after (o_crc E) x ds) nd = (\<Union>k < length (dx_segments x). ?M (buried (o_crc E) (dx_segments x ! k) (locals_of x ds k)))"
    unfolding mt by (auto simp: segs_after_def)
  also have "\<dots> = (\<Union>k < length (dx_segments x). ?M (dx_segments x ! k) - set ds)"
    using buried_matches [OF x] by (intro SUP_cong) simp_all
  also have "\<dots> = (\<Union>s \<in> (!) (dx_segments x) ` {..<length (dx_segments x)}. ?M s) - set ds" by blast
  also have "(!) (dx_segments x) ` {..<length (dx_segments x)} = set (dx_segments x)"
    using nth_image [of "length (dx_segments x)" "dx_segments x"] by (simp add: lessThan_atLeast0)
  also have "(\<Union>s \<in> set (dx_segments x). ?M s) - set ds = disk_segment.matching (dx_segments x) nd - set ds" by (simp only: mt)
  finally have old: "disk_segment.matching (segs_after (o_crc E) x ds) nd = disk_segment.matching (dx_segments x) nd - set ds" .
  show ?thesis unfolding s(2) matching_append old built_matching_list [OF s(3) q n] s(1) ..
qed

end
