(* ===== verification/Update_Disk.thy ===== *)
theory Update_Disk
  imports Updated_Docs
begin

text \<open>
  What an update does to a disk (\<open>src/store/update.rs\<close>), under any faults the file system may produce: every new file
  is shown under its name only when it is complete, and no file of the old index is touched before the commit.
\<close>

section \<open>New files\<close>

lemma triple_ex: "(\<And>N. I N \<Longrightarrow> triple (A N) m B E) \<Longrightarrow> triple (\<lambda>w. \<exists>N. I N \<and> A N w) m B E"
  unfolding triple_def by (intro allI impI) (elim exE conjE, simp)

lemma triple_if_true: "(I \<Longrightarrow> triple A m B E) \<Longrightarrow> triple (\<lambda>w. I \<and> A w) m B E"
  unfolding triple_def by simp

lemma triple_pre: "triple A m B E \<Longrightarrow> (\<And>w. A' w \<Longrightarrow> A w) \<Longrightarrow> triple A' m B E"
  by (erule triple_weaken)

lemma triple_post: "triple A m B E \<Longrightarrow> (\<And>x w. B x w \<Longrightarrow> B' x w) \<Longrightarrow> triple A m B' E"
  by (erule triple_weaken)

context fs_contract
begin

text \<open>Publishing a file shows it and nothing else new; \<open>X\<close> holds when it fails.\<close>

definition publishes :: "view \<Rightarrow> name set \<Rightarrow> ('w \<times> name list \<Rightarrow> bool) \<Rightarrow> bool" where
  "publishes S P X \<longleftrightarrow> (\<forall>N n bs. {tmp_name n, n} \<subseteq> P \<longrightarrow> {tmp_name n, n} \<inter> (dom S \<union> dom N) = {} \<longrightarrow>
     triple (staged S N P) (publish_new F n bs) (\<lambda>_. staged S (N(n \<mapsto> Some bs)) P) X)"

lemma publish_rule:
  assumes n: "{tmp_name n, n} \<subseteq> P"
    and t1: "triple (staged S N P) (inner (write_whole F (tmp_name n) bs)) (\<lambda>_. staged_tmp S N P (tmp_name n) bs) X"
    and t2: "triple (staged_tmp S N P (tmp_name n) bs) (inner (io (fs_rename F (tmp_name n) n))) (\<lambda>_. staged S (N(n \<mapsto> Some bs)) P) X"
  shows "triple (staged S N P) (publish_new F n bs) (\<lambda>_. staged S (N(n \<mapsto> Some bs)) P) X"
proof -
  have p: "tmp_name n \<in> P" "n \<in> P" using n by simp_all
  show ?thesis unfolding publish_new_def
    apply (rule triple_and_do [OF push_staged [OF p(1)]])
    apply (rule triple_and_do [OF t1])
    apply (rule triple_and_do [OF push_staged_tmp [OF p(2)]])
    apply (rule t2)
    done
qed

lemma publishes_keep: "publishes S P (staged S Map.empty P)"
  unfolding publishes_def
proof (intro allI impI)
  fix N :: view and n bs assume n: "{tmp_name n, n} \<subseteq> P" "{tmp_name n, n} \<inter> (dom S \<union> dom N) = {}"
  have "tmp_name n \<notin> dom S \<union> dom N" using n(2) by blast
  from inner_write_whole [OF this] have t1: "triple (staged S N P) (inner (write_whole F (tmp_name n) bs)) (\<lambda>_. staged_tmp S N P (tmp_name n) bs) (staged S Map.empty P)"
    by (rule triple_err) (erule staged_le, simp)
  from inner_rename [OF n(2)] have t2: "triple (staged_tmp S N P (tmp_name n) bs) (inner (io (fs_rename F (tmp_name n) n))) (\<lambda>_. staged S (N(n \<mapsto> Some bs)) P) (staged S Map.empty P)"
    by (rule triple_err) (erule staged_le, simp)
  show "triple (staged S N P) (publish_new F n bs) (\<lambda>_. staged S (N(n \<mapsto> Some bs)) P) (staged S Map.empty P)"
    by (rule publish_rule [OF n(1) t1 t2])
qed

end

lemma publishes_real: "real.publishes S P (\<lambda>_. False)"
  unfolding real.publishes_def
proof (intro allI impI)
  fix N :: view and n bs assume n: "{tmp_name n, n} \<subseteq> P" "{tmp_name n, n} \<inter> (dom S \<union> dom N) = {}"
  have "tmp_name n \<notin> dom S \<union> dom N" using n(2) by blast
  from real.inner_write_whole [OF this] have t1: "triple (real.staged S N P) (inner (write_whole real_fs (tmp_name n) bs)) (\<lambda>_. real.staged_tmp S N P (tmp_name n) bs) (\<lambda>_. False)"
  proof (rule triple_succeeds)
    show "\<exists>x w'. inner (write_whole real_fs (tmp_name n) bs) w = (Inr x, w')" for w
      using write_whole_succeeds [of "tmp_name n" bs "fst w"] by (cases w) (auto simp: inner_def)
  qed
  have "\<exists>x w'. inner (io (fs_rename real_fs (tmp_name n) n)) w = (Inr x, w')" if "real.staged_tmp S N P (tmp_name n) bs w" for w
  proof -
    obtain d fl where w: "w = (d, fl)" by (cases w) auto
    with that have "shows_entry d (dk_dir d (tmp_name n)) (Some bs)" by (simp add: real.staged_tmp_def)
    then obtain d' where "fs_rename real_fs (tmp_name n) n d = (Inr (), d')" using rename_succeeds by blast
    then show ?thesis by (simp add: w inner_def io_def)
  qed
  with real.inner_rename [OF n(2)] have t2: "triple (real.staged_tmp S N P (tmp_name n) bs) (inner (io (fs_rename real_fs (tmp_name n) n))) (\<lambda>_. real.staged S (N(n \<mapsto> Some bs)) P) (\<lambda>_. False)"
    by (rule triple_succeeds)
  show "triple (real.staged S N P) (publish_new real_fs n bs) (\<lambda>_. real.staged S (N(n \<mapsto> Some bs)) P) (\<lambda>_. False)"
    by (rule real.publish_rule [OF n(1) t1 t2])
qed

section \<open>Tombstones\<close>

definition stone_entries :: "(bytes \<Rightarrow> u32) \<Rightarrow> disk_index \<Rightarrow> u32 list \<Rightarrow> nat set \<Rightarrow> segment_entry list" where
  "stone_entries crc x ds K = map (\<lambda>k. seg_entry (if k \<in> K then buried crc (dx_segments x ! k) (locals_of x ds k) else dx_segments x ! k)) [0..<length (dx_segments x)]"

definition retired_at :: "disk_index \<Rightarrow> u32 list \<Rightarrow> nat set \<Rightarrow> name set" where
  "retired_at x ds K = {del_name (segment_id (seg_entry (dx_segments x ! k))) (del_gen (seg_entry (dx_segments x ! k))) |k.
     k \<in> K \<inter> changed_segments x ds \<and> 0 < del_gen (seg_entry (dx_segments x ! k))}"

definition stone_view :: "(bytes \<Rightarrow> u32) \<Rightarrow> disk_index \<Rightarrow> u32 list \<Rightarrow> view \<Rightarrow> nat set \<Rightarrow> view \<Rightarrow> bool" where
  "stone_view crc x ds N0 K N \<longleftrightarrow> N0 \<subseteq>\<^sub>m N \<and>
     (\<forall>k \<in> K \<inter> changed_segments x ds. N (del_file_of (dx_segments x ! k)) = Some (Some (bitmap_encode crc (buried_bitmap (dx_segments x ! k) (locals_of x ds k))))) \<and>
     dom N \<subseteq> dom N0 \<union> (\<lambda>k. del_file_of (dx_segments x ! k)) ` (K \<inter> changed_segments x ds)"

lemma stone_entries_nth: "k < length (dx_segments x) \<Longrightarrow> k \<notin> K \<Longrightarrow> (stone_entries crc x ds K @ es) ! k = seg_entry (dx_segments x ! k)"
  by (simp add: stone_entries_def nth_append)

lemma stone_entries_update:
  assumes "k < length (dx_segments x)"
  shows "(stone_entries crc x ds K @ es)[k := seg_entry (buried crc (dx_segments x ! k) (locals_of x ds k))] = stone_entries crc x ds (insert k K) @ es"
  by (rule nth_equalityI) (use assms in \<open>auto simp: stone_entries_def nth_append nth_list_update\<close>)

lemma stone_entries_same:
  assumes "k < length (dx_segments x)" "k \<notin> changed_segments x ds"
  shows "stone_entries crc x ds (insert k K) = stone_entries crc x ds K"
  using assms by (auto simp: stone_entries_def buried_def changed_segments_def)

text \<open>The state of the loop over the segments \<open>K\<close>, from the manifest \<open>m0\<close> with the new entries \<open>es\<close>.\<close>

definition stoned :: "(bytes \<Rightarrow> u32) \<Rightarrow> disk_index \<Rightarrow> u32 list \<Rightarrow> manifest \<Rightarrow> segment_entry list \<Rightarrow> nat set \<Rightarrow> manifest \<times> name list \<times> bool \<Rightarrow> bool" where
  "stoned crc x ds m0 es K = (\<lambda>(m, ret, any). m = m0\<lparr>segments := stone_entries crc x ds K @ es\<rparr> \<and> set ret = retired_at x ds K \<and>
     (any \<longleftrightarrow> K \<inter> changed_segments x ds \<noteq> {}))"

lemma stone_view_step:
  assumes N: "stone_view crc x ds N0 K N" and c: "k \<in> changed_segments x ds" and n0: "del_file_of (dx_segments x ! k) \<notin> dom N0"
    and o: "\<And>j. j \<in> K \<inter> changed_segments x ds \<Longrightarrow> del_file_of (dx_segments x ! j) \<noteq> del_file_of (dx_segments x ! k)"
  shows "stone_view crc x ds N0 (insert k K) (N(del_file_of (dx_segments x ! k) \<mapsto> Some (bitmap_encode crc (buried_bitmap (dx_segments x ! k) (locals_of x ds k)))))"
proof -
  let ?N = "N(del_file_of (dx_segments x ! k) \<mapsto> Some (bitmap_encode crc (buried_bitmap (dx_segments x ! k) (locals_of x ds k))))"
  have i: "insert k K \<inter> changed_segments x ds = insert k (K \<inter> changed_segments x ds)" using c by blast
  note n = N [unfolded stone_view_def]
  have "N0 \<subseteq>\<^sub>m ?N" using n n0 by (simp add: map_le_def)
  moreover have "?N (del_file_of (dx_segments x ! j)) = Some (Some (bitmap_encode crc (buried_bitmap (dx_segments x ! j) (locals_of x ds j))))"
    if "j \<in> insert k (K \<inter> changed_segments x ds)" for j
  proof (cases "j = k")
    case False
    then have j: "j \<in> K \<inter> changed_segments x ds" using that by blast
    then show ?thesis using n o [OF j] by simp
  qed simp
  moreover have "dom ?N \<subseteq> dom N0 \<union> (\<lambda>k. del_file_of (dx_segments x ! k)) ` insert k (K \<inter> changed_segments x ds)" using n by auto
  ultimately show ?thesis unfolding stone_view_def i by blast
qed

lemma retired_at_insert:
  assumes "k \<in> changed_segments x ds"
  shows "retired_at x ds (insert k K) = retired_at x ds K \<union> (if 0 < del_gen (seg_entry (dx_segments x ! k))
    then {del_name (segment_id (seg_entry (dx_segments x ! k))) (del_gen (seg_entry (dx_segments x ! k)))} else {})"
proof -
  have i: "insert k K \<inter> changed_segments x ds = insert k (K \<inter> changed_segments x ds)" using assms by blast
  let ?n = "\<lambda>k. del_name (segment_id (seg_entry (dx_segments x ! k))) (del_gen (seg_entry (dx_segments x ! k)))"
  have "retired_at x ds M = ?n ` {k \<in> M \<inter> changed_segments x ds. 0 < del_gen (seg_entry (dx_segments x ! k))}" for M
    unfolding retired_at_def by blast
  moreover have "{j \<in> insert k (K \<inter> changed_segments x ds). 0 < del_gen (seg_entry (dx_segments x ! j))} =
      {j \<in> K \<inter> changed_segments x ds. 0 < del_gen (seg_entry (dx_segments x ! j))} \<union> (if 0 < del_gen (seg_entry (dx_segments x ! k)) then {k} else {})"
    by auto
  moreover have "?n ` (A \<union> (if c then {k} else {})) = ?n ` A \<union> (if c then {?n k} else {})" for A c by auto
  ultimately show ?thesis by (simp only: i)
qed

lemma tombstone_eq:
  assumes "k < length (dx_segments x)" and e: "segments m ! k = seg_entry (dx_segments x ! k)"
  shows "tombstone E F x (k, locals_of x ds k) (m, ret, any) =
    (let s = dx_segments x ! k; ls = locals_of x ds k; b = buried_bitmap s ls; bs = bitmap_encode (o_crc E) b in
     if changed_by s ls then
       and_do (publish_new F (del_file_of s) bs) (\<lambda>_.
       and_do (inner (try_format (envelope_parse KDel bs))) (\<lambda>env.
       ok_with (m\<lparr>segments := (segments m)[k := (seg_entry s)\<lparr>del_gen := del_gen (seg_entry s) + 1, del_len := of_nat (length bs), del_crc := env_crc env,
           num_deleted := bitmap_count b\<rparr>]\<rparr>,
         ret @ (if 0 < del_gen (seg_entry s) then [del_name (segment_id (seg_entry s)) (del_gen (seg_entry s))] else []), True)))
     else ok_with (m, ret, any))"
proof -
  obtain b c where b: "set_all (locals_of x ds k) (seg_bitmap (dx_segments x ! k), False) = (b, c)" by force
  then have "set_all (locals_of x ds k) (case seg_del (dx_segments x ! k) of Some b \<Rightarrow> b | None \<Rightarrow> bitmap_new (num_docs (seg_entry (dx_segments x ! k))), False) = (b, c)"
    by (simp add: seg_bitmap_def)
  then show ?thesis unfolding tombstone_def prod.case Let_def e changed_by_def buried_bitmap_def b fst_conv snd_conv del_file_of_def by simp
qed

context fs_contract
begin

lemma tombstone_triple:
  assumes x: "index_ok crc' verify x" and d: "distinct (map segment_id (segments (dx_manifest x)))" and pub: "publishes S P X"
    and P: "\<forall>s \<in> set (dx_segments x). {tmp_name (del_file_of s), del_file_of s} \<subseteq> P" "P \<inter> dom S = {}"
    and N0: "\<And>i g. del_name i g \<notin> dom N0" "\<And>n. tmp_name n \<notin> dom N0"
    and k: "k < length (dx_segments x)" "k \<notin> K"
    and m: "segments m = stone_entries (o_crc E) x ds K @ es" "set ret = retired_at x ds K"
  shows "triple (\<lambda>w. \<exists>N. stone_view (o_crc E) x ds N0 K N \<and> staged S N P w) (tombstone E F x (k, locals_of x ds k) (m, ret, any))
    (\<lambda>st w. (case st of (m', ret', any') \<Rightarrow> m' = m\<lparr>segments := stone_entries (o_crc E) x ds (insert k K) @ es\<rparr> \<and> set ret' = retired_at x ds (insert k K) \<and>
        (any' \<longleftrightarrow> any \<or> k \<in> changed_segments x ds)) \<and>
      (\<exists>N. stone_view (o_crc E) x ds N0 (insert k K) N \<and> staged S N P w)) X"
proof -
  let ?s = "dx_segments x ! k" and ?ls = "locals_of x ds k"
  let ?b = "buried_bitmap ?s ?ls"
  have e: "segments m ! k = seg_entry ?s" using m(1) stone_entries_nth [OF k] by simp
  note eq = tombstone_eq [OF k(1) e, of E F ds ret any, unfolded Let_def]
  show ?thesis
  proof (cases "changed_by ?s ?ls")
    case False
    then have nc: "k \<notin> changed_segments x ds" by (simp add: changed_segments_def)
    then have i: "insert k K \<inter> changed_segments x ds = K \<inter> changed_segments x ds" by blast
    have "m\<lparr>segments := stone_entries (o_crc E) x ds (insert k K) @ es\<rparr> = m" using stone_entries_same [OF k(1) nc] m(1) by simp
    then show ?thesis unfolding eq if_not_P [OF False] using m(2) nc by (intro triple_ok_with) (simp add: stone_view_def retired_at_def i)
  next
    case True
    then have c: "k \<in> changed_segments x ds" using k by (simp add: changed_segments_def)
    then have i: "insert k K \<inter> changed_segments x ds = insert k (K \<inter> changed_segments x ds)" by blast
    have ent: "map seg_entry (dx_segments x) = segments (dx_manifest x)" using x by (simp add: index_ok_def)
    have s: "?s \<in> set (dx_segments x)" using k by simp
    have names: "{tmp_name (del_file_of ?s), del_file_of ?s} \<subseteq> P" using P(1) s by blast
    have other: "del_file_of (dx_segments x ! j) \<noteq> del_file_of ?s" if "j < length (dx_segments x)" "j \<noteq> k" for j
    proof -
      have "segment_id (seg_entry (dx_segments x ! j)) \<noteq> segment_id (seg_entry ?s)"
        using nth_eq_iff_index_eq [OF d, of j k] that k(1) unfolding ent [symmetric] by simp
      then show ?thesis by (simp add: del_file_of_def)
    qed
    have pb: "triple (staged S N P) (publish_new F (del_file_of ?s) (bitmap_encode (o_crc E) ?b)) (\<lambda>_. staged S (N(del_file_of ?s \<mapsto> Some (bitmap_encode (o_crc E) ?b))) P) X"
      if N: "stone_view (o_crc E) x ds N0 K N" for N
    proof -
      have dn: "dom N \<subseteq> dom N0 \<union> (\<lambda>k. del_file_of (dx_segments x ! k)) ` (K \<inter> changed_segments x ds)" using N by (simp add: stone_view_def)
      have "del_file_of ?s \<notin> (\<lambda>k. del_file_of (dx_segments x ! k)) ` (K \<inter> changed_segments x ds)"
      proof
        assume "del_file_of ?s \<in> (\<lambda>k. del_file_of (dx_segments x ! k)) ` (K \<inter> changed_segments x ds)"
        then obtain j where j: "j \<in> K" "j < length (dx_segments x)" "del_file_of ?s = del_file_of (dx_segments x ! j)"
          by (auto simp: changed_segments_def)
        then have "j \<noteq> k" using k(2) by blast
        from other [OF j(2) this] show False using j(3) by simp
      qed
      moreover have "tmp_name (del_file_of ?s) \<notin> (\<lambda>k. del_file_of (dx_segments x ! k)) ` (K \<inter> changed_segments x ds)"
      proof -
        have "tmp_name n \<noteq> del_file_of s" for n s unfolding del_file_of_def by (rule names_differ) simp
        then show ?thesis by blast
      qed
      moreover have "del_file_of ?s \<notin> dom N0" using N0(1) by (simp add: del_file_of_def)
      moreover have "tmp_name (del_file_of ?s) \<notin> dom S" "del_file_of ?s \<notin> dom S" using names P(2) by blast+
      ultimately have "tmp_name (del_file_of ?s) \<notin> dom S \<union> dom N" "del_file_of ?s \<notin> dom S \<union> dom N" using dn N0(2) by blast+
      then have "{tmp_name (del_file_of ?s), del_file_of ?s} \<inter> (dom S \<union> dom N) = {}" by simp
      with pub names show ?thesis unfolding publishes_def by simp
    qed
    have step: "stone_view (o_crc E) x ds N0 (insert k K) (N(del_file_of ?s \<mapsto> Some (bitmap_encode (o_crc E) ?b)))"
      if N: "stone_view (o_crc E) x ds N0 K N" for N
    proof (rule stone_view_step [OF N c])
      show "del_file_of ?s \<notin> dom N0" using N0(1) by (simp add: del_file_of_def)
      show "del_file_of (dx_segments x ! j) \<noteq> del_file_of ?s" if "j \<in> K \<inter> changed_segments x ds" for j
      proof -
        have j: "j < length (dx_segments x)" "j \<noteq> k" using that k(2) by (auto simp: changed_segments_def)
        show ?thesis by (rule other [OF j])
      qed
    qed
    have up: "m\<lparr>segments := (segments m)[k := (seg_entry ?s)\<lparr>del_gen := del_gen (seg_entry ?s) + 1, del_len := of_nat (length (bitmap_encode (o_crc E) ?b)),
        del_crc := o_crc E (del_body_of ?b), num_deleted := bitmap_count ?b\<rparr>]\<rparr> = m\<lparr>segments := stone_entries (o_crc E) x ds (insert k K) @ es\<rparr>"
    proof -
      have "(seg_entry ?s)\<lparr>del_gen := del_gen (seg_entry ?s) + 1, del_len := of_nat (length (bitmap_encode (o_crc E) ?b)),
        del_crc := o_crc E (del_body_of ?b), num_deleted := bitmap_count ?b\<rparr> = seg_entry (buried (o_crc E) ?s ?ls)"
        using True by (simp add: buried_def Let_def)
      then show ?thesis using stone_entries_update [OF k(1), of "o_crc E" ds K es] m(1) by simp
    qed
    have env: "envelope_parse KDel (bitmap_encode (o_crc E) ?b) = Inr (sealed_env (o_crc E) (del_body_of ?b))"
      by (simp add: bitmap_encode_def del_body_of_def Let_def)
    note ret = retired_at_insert [OF c, of K]
    show ?thesis unfolding eq if_P [OF True]
    proof (rule triple_and_do)
      show "triple (\<lambda>w. \<exists>N. stone_view (o_crc E) x ds N0 K N \<and> staged S N P w) (publish_new F (del_file_of ?s) (bitmap_encode (o_crc E) ?b))
        (\<lambda>_ w. \<exists>N. stone_view (o_crc E) x ds N0 (insert k K) N \<and> staged S N P w) X"
        by (rule triple_ex) (rule triple_post [OF pb], assumption, use step in blast)
      show "triple (\<lambda>w. \<exists>N. stone_view (o_crc E) x ds N0 (insert k K) N \<and> staged S N P w)
        (and_do (inner (try_format (envelope_parse KDel (bitmap_encode (o_crc E) ?b)))) (\<lambda>env.
           ok_with (m\<lparr>segments := (segments m)[k := (seg_entry ?s)\<lparr>del_gen := del_gen (seg_entry ?s) + 1, del_len := of_nat (length (bitmap_encode (o_crc E) ?b)),
             del_crc := env_crc env, num_deleted := bitmap_count ?b\<rparr>]\<rparr>,
             ret @ (if 0 < del_gen (seg_entry ?s) then [del_name (segment_id (seg_entry ?s)) (del_gen (seg_entry ?s))] else []), True)))
        (\<lambda>st w. (case st of (m', ret', any') \<Rightarrow> m' = m\<lparr>segments := stone_entries (o_crc E) x ds (insert k K) @ es\<rparr> \<and> set ret' = retired_at x ds (insert k K) \<and>
            (any' \<longleftrightarrow> any \<or> k \<in> changed_segments x ds)) \<and>
          (\<exists>N. stone_view (o_crc E) x ds N0 (insert k K) N \<and> staged S N P w)) X"
        by (rule triple_and [OF inner_try_format [OF env]], rule triple_ok_with) (use up c in \<open>simp add: ret m(2)\<close>)
    qed
  qed
qed

lemma tombstone_stoned:
  assumes x: "index_ok crc' verify x" and d: "distinct (map segment_id (segments (dx_manifest x)))" and pub: "publishes S P X"
    and P: "\<forall>s \<in> set (dx_segments x). {tmp_name (del_file_of s), del_file_of s} \<subseteq> P" "P \<inter> dom S = {}"
    and N0: "\<And>i g. del_name i g \<notin> dom N0" "\<And>n. tmp_name n \<notin> dom N0"
    and k: "k < length (dx_segments x)" "k \<notin> K" and st: "stoned (o_crc E) x ds m0 es K st"
  shows "triple (\<lambda>w. \<exists>N. stone_view (o_crc E) x ds N0 K N \<and> staged S N P w) (tombstone E F x (k, locals_of x ds k) st)
    (\<lambda>st' w. stoned (o_crc E) x ds m0 es (insert k K) st' \<and> (\<exists>N. stone_view (o_crc E) x ds N0 (insert k K) N \<and> staged S N P w)) X"
proof -
  obtain m ret any where e: "st = (m, ret, any)" by (cases st)
  have m: "m = m0\<lparr>segments := stone_entries (o_crc E) x ds K @ es\<rparr>" "set ret = retired_at x ds K" "any \<longleftrightarrow> K \<inter> changed_segments x ds \<noteq> {}"
    using st by (simp_all add: stoned_def e)
  have sg: "segments m = stone_entries (o_crc E) x ds K @ es" by (simp add: m(1))
  show ?thesis unfolding e
  proof (rule triple_post [OF tombstone_triple [OF x d pub P N0 k sg m(2)]])
    fix st' w
    assume a: "(case st' of (m', ret', any') \<Rightarrow> m' = m\<lparr>segments := stone_entries (o_crc E) x ds (insert k K) @ es\<rparr> \<and> set ret' = retired_at x ds (insert k K) \<and>
        (any' \<longleftrightarrow> any \<or> k \<in> changed_segments x ds)) \<and> (\<exists>N. stone_view (o_crc E) x ds N0 (insert k K) N \<and> staged S N P w)"
    then have "stoned (o_crc E) x ds m0 es (insert k K) st'" unfolding stoned_def by (cases st') (simp add: m(1,3) Int_insert_left)
    then show "stoned (o_crc E) x ds m0 es (insert k K) st' \<and> (\<exists>N. stone_view (o_crc E) x ds N0 (insert k K) N \<and> staged S N P w)" using a by simp
  qed
qed

lemma tombstones_triple:
  assumes x: "index_ok crc' verify x" and d: "distinct (map segment_id (segments (dx_manifest x)))" and pub: "publishes S P X"
    and P: "\<forall>s \<in> set (dx_segments x). {tmp_name (del_file_of s), del_file_of s} \<subseteq> P" "P \<inter> dom S = {}"
    and N0: "\<And>i g. del_name i g \<notin> dom N0" "\<And>n. tmp_name n \<notin> dom N0"
    and ks: "set ks \<subseteq> {..<length (dx_segments x)}" "distinct ks" "K \<inter> set ks = {}" and st: "stoned (o_crc E) x ds m0 es K st"
  shows "triple (\<lambda>w. \<exists>N. stone_view (o_crc E) x ds N0 K N \<and> staged S N P w) (tombstones E F x (map (\<lambda>k. (k, locals_of x ds k)) ks) st)
    (\<lambda>st' w. stoned (o_crc E) x ds m0 es (K \<union> set ks) st' \<and> (\<exists>N. stone_view (o_crc E) x ds N0 (K \<union> set ks) N \<and> staged S N P w)) X"
  using ks st
proof (induction ks arbitrary: K st)
  case Nil
  then show ?case by (simp add: triple_ok_with)
next
  case (Cons k ks)
  have k: "k < length (dx_segments x)" "k \<notin> K" using Cons.prems by auto
  have u: "K \<union> set (k # ks) = insert k K \<union> set ks" by simp
  have p: "set ks \<subseteq> {..<length (dx_segments x)}" "distinct ks" "insert k K \<inter> set ks = {}" using Cons.prems by auto
  show ?case unfolding list.map tombstones.simps u
  proof (rule triple_and_do [OF tombstone_stoned [OF x d pub P N0 k Cons.prems(4)]])
    fix st'
    show "triple (\<lambda>w. stoned (o_crc E) x ds m0 es (insert k K) st' \<and> (\<exists>N. stone_view (o_crc E) x ds N0 (insert k K) N \<and> staged S N P w))
      (tombstones E F x (map (\<lambda>k. (k, locals_of x ds k)) ks) st')
      (\<lambda>st' w. stoned (o_crc E) x ds m0 es (insert k K \<union> set ks) st' \<and> (\<exists>N. stone_view (o_crc E) x ds N0 (insert k K \<union> set ks) N \<and> staged S N P w)) X"
      by (rule triple_if_true) (rule Cons.IH [OF p])
  qed
qed

end

section \<open>Overlay and preparation\<close>

lemma untouched_segment: "locals_of x ds k = [] \<Longrightarrow> k \<notin> changed_segments x ds"
  by (simp add: changed_segments_def changed_by_def)

lemma all_stoned:
  assumes "K = {k. k < length (dx_segments x) \<and> locals_of x ds k \<noteq> []}"
  shows "K \<inter> changed_segments x ds = changed_segments x ds" "stone_entries crc x ds K = map seg_entry (segs_after crc x ds)"
proof -
  show "K \<inter> changed_segments x ds = changed_segments x ds" using untouched_segment by (auto simp: assms changed_segments_def)
  have "buried crc (dx_segments x ! k) (locals_of x ds k) = dx_segments x ! k" if "k < length (dx_segments x)" "k \<notin> K" for k
    using that by (simp add: assms buried_def changed_by_def)
  then show "stone_entries crc x ds K = map seg_entry (segs_after crc x ds)" by (simp add: stone_entries_def segs_after_def)
qed

text \<open>The files an update retires.\<close>

definition update_retires :: "disk_index \<Rightarrow> u32 list \<Rightarrow> patch_row list \<Rightarrow> name set" where
  "update_retires x ds ps = retired_at x ds (changed_segments x ds) \<union>
     (if 0 < state_gen (dx_manifest x) then {overlay_name (state_gen (dx_manifest x))} else {})"

lemma segment_names_only: "del_name i g \<notin> segment_names j k" "tmp_name n \<notin> segment_names j k" "overlay_name g \<notin> segment_names j k"
  by (auto simp: segment_names_def tmp_names_differ dest: sym)

context fs_contract
begin

lemma write_overlay_triple:
  assumes ok: "patches_ok (map patch_in_of rows)" and pub: "publishes S P X"
    and n: "{tmp_name (overlay_name (state_gen m + 1)), overlay_name (state_gen m + 1)} \<subseteq> P"
      "{tmp_name (overlay_name (state_gen m + 1)), overlay_name (state_gen m + 1)} \<inter> (dom S \<union> dom N) = {}"
  shows "triple (staged S N P) (write_overlay E F rows m) (\<lambda>m' w. m' = with_overlay (o_crc E) rows m \<and>
    staged S (if rows = [] then N else N(overlay_name (state_gen m + 1) \<mapsto> Some (overlay_content (o_crc E) rows))) P w) X"
proof (cases "rows = []")
  case True
  show ?thesis unfolding write_overlay_def if_P [OF True] by (rule triple_ok_with) (simp add: with_overlay_def True)
next
  case False
  let ?bs = "overlay_content (o_crc E) rows" and ?n = "overlay_name (state_gen m + 1)"
  have enc: "overlay_encode (o_crc E) (map patch_in_of rows) = Inr ?bs"
    using overlay_encode_eq [of "map patch_in_of rows" "o_crc E"] ok by (simp add: patches_ok_def overlay_content_def)
  have env: "envelope_parse KOverlay ?bs = Inr (sealed_env (o_crc E) (overlay_body (map patch_in_of rows)))" by (simp add: overlay_content_def)
  have pb: "triple (staged S N P) (publish_new F ?n ?bs) (\<lambda>_. staged S (N(?n \<mapsto> Some ?bs)) P) X"
    using pub n unfolding publishes_def by simp
  show ?thesis unfolding write_overlay_def if_not_P [OF False] Let_def
  proof (rule triple_and [OF inner_try_format [OF enc]], rule triple_and_do [OF pb], rule triple_and [OF inner_try_format [OF env]], rule triple_ok_with)
    show "m\<lparr>state_gen := state_gen m + 1, state_len := of_nat (length ?bs), state_crc := env_crc (sealed_env (o_crc E) (overlay_body (map patch_in_of rows)))\<rparr> =
        with_overlay (o_crc E) rows m \<and> staged S (N(?n \<mapsto> Some ?bs)) P w" if "staged S (N(?n \<mapsto> Some ?bs)) P w" for w
      using that by (simp add: with_overlay_def False)
  qed
qed

lemma prepare_triple:
  assumes x: "index_ok crc' verify x" and fit: "update_fits E x ds ps rs" and wf: "overlay_wf x" and pub: "publishes S P X"
    and P: "update_names_of x (length rs) \<subseteq> P" "P \<inter> dom S = {}"
    and l: "laid_out E N0 (unat (dx_id_bound x)) (next_segment_id (dx_manifest x)) bs es" and rs: "concat bs = rs"
    and N0: "dom N0 \<subseteq> segment_names (next_segment_id (dx_manifest x)) (length bs)"
  shows "triple (staged S N0 P) (prepare_changes E F x ds ps es (next_segment_id (dx_manifest x) + of_nat (length bs)))
    (\<lambda>(m, ret) w. next_generation E m = manifest_for E x ds ps bs es \<and> set ret \<subseteq> update_retires x ds ps \<and>
      (\<exists>N. update_files E x ds ps bs es N \<and> staged S N P w)) X"
proof -
  let ?i = "next_segment_id (dx_manifest x) + of_nat (length bs)" and ?rows = "merged_rows x ds ps" and ?g = "state_gen (dx_manifest x) + 1"
  let ?ks = "filter (\<lambda>k. locals_of x ds k \<noteq> []) [0..<length (dx_segments x)]"
  define m0 where "m0 = (dx_manifest x)\<lparr>segments := segments (dx_manifest x) @ es, next_segment_id := ?i\<rparr>"
  have d: "distinct (map segment_id (segments (dx_manifest x)))" using fit unfolding update_fits_def Let_def by blast
  have ent: "map seg_entry (dx_segments x) = segments (dx_manifest x)" using x by (simp add: index_ok_def)
  have names: "\<forall>s \<in> set (dx_segments x). {tmp_name (del_file_of s), del_file_of s} \<subseteq> P" using P(1) by (auto simp: update_names_of_def)
  have nN0: "del_name i g \<notin> dom N0" "tmp_name n \<notin> dom N0" for i g n using N0 segment_names_only by blast+
  have e0: "stone_entries (o_crc E) x ds {} = segments (dx_manifest x)" unfolding stone_entries_def ent [symmetric] by (rule nth_equalityI) simp_all
  have st0: "stoned (o_crc E) x ds m0 es {} (m0, [], False)" by (simp add: stoned_def e0 retired_at_def) (simp add: m0_def)
  have K: "set ?ks = {k. k < length (dx_segments x) \<and> locals_of x ds k \<noteq> []}" by auto
  note al = all_stoned [OF K]
  have ks: "set ?ks \<subseteq> {..<length (dx_segments x)}" "distinct ?ks" "{} \<inter> set ?ks = {}" by auto
  have ovl: "{tmp_name (overlay_name ?g), overlay_name ?g} \<subseteq> P" using P(1) by (auto simp: update_names_of_def)
  have start: "stone_view (o_crc E) x ds N0 {} N0" by (simp add: stone_view_def)
  have t1: "triple (staged S N0 P) (tombstones E F x (by_segment x ds) (m0, [], False))
      (\<lambda>st w. stoned (o_crc E) x ds m0 es (set ?ks) st \<and> (\<exists>N. stone_view (o_crc E) x ds N0 (set ?ks) N \<and> staged S N P w)) X"
    using tombstones_triple [OF x d pub names P(2) nN0 ks st0] start unfolding by_segment_eq Un_empty_left by (blast intro: triple_pre)
  have t2: "triple (\<lambda>w. stoned (o_crc E) x ds m0 es (set ?ks) (m, ret, any) \<and> (\<exists>N. stone_view (o_crc E) x ds N0 (set ?ks) N \<and> staged S N P w))
      (and_do (write_overlay E F ?rows m) (\<lambda>m'. ok_with (m', ret @ (if 0 < state_gen m \<and> state_gen m \<noteq> state_gen m' then [overlay_name (state_gen m)] else []))))
      (\<lambda>(m, ret) w. next_generation E m = manifest_for E x ds ps bs es \<and> set ret \<subseteq> update_retires x ds ps \<and>
        (\<exists>N. update_files E x ds ps bs es N \<and> staged S N P w)) X" for m ret any
  proof (rule triple_if_true, rule triple_ex)
    fix N assume st: "stoned (o_crc E) x ds m0 es (set ?ks) (m, ret, any)" and sv: "stone_view (o_crc E) x ds N0 (set ?ks) N"
    have m: "m = m0\<lparr>segments := map seg_entry (segs_after (o_crc E) x ds) @ es\<rparr>" and ret: "set ret = retired_at x ds (set ?ks)"
      using st al(2) by (simp_all add: stoned_def)
    have mb: "m = buried_manifest E x ds es ?i" by (simp add: m m0_def buried_manifest_def)
    have sg: "state_gen m = state_gen (dx_manifest x)" by (simp add: m m0_def)
    have rt: "retired_at x ds (set ?ks) = retired_at x ds (changed_segments x ds)" unfolding retired_at_def al(1) Int_absorb ..
    have dN: "dom N \<subseteq> dom N0 \<union> (\<lambda>k. del_file_of (dx_segments x ! k)) ` changed_segments x ds" using sv al(1) by (simp add: stone_view_def)
    have nd: "overlay_name ?g \<noteq> del_file_of s" "tmp_name (overlay_name ?g) \<noteq> del_file_of s" for s
      unfolding del_file_of_def by (rule names_differ; simp)+
    then have "overlay_name ?g \<notin> (\<lambda>k. del_file_of (dx_segments x ! k)) ` changed_segments x ds"
      "tmp_name (overlay_name ?g) \<notin> (\<lambda>k. del_file_of (dx_segments x ! k)) ` changed_segments x ds" by blast+
    moreover have "overlay_name ?g \<notin> dom N0" "tmp_name (overlay_name ?g) \<notin> dom N0"
      using N0 segment_names_only(2,3) by blast+
    ultimately have "overlay_name ?g \<notin> dom N" "tmp_name (overlay_name ?g) \<notin> dom N" using dN by blast+
    moreover have "overlay_name ?g \<notin> dom S" "tmp_name (overlay_name ?g) \<notin> dom S" using ovl P(2) by blast+
    ultimately have fr: "{tmp_name (overlay_name ?g), overlay_name ?g} \<inter> (dom S \<union> dom N) = {}" by blast
    let ?N = "if ?rows = [] then N else N(overlay_name ?g \<mapsto> Some (overlay_content (o_crc E) ?rows))"
    have le: "N0 \<subseteq>\<^sub>m ?N"
    proof -
      have "N0 \<subseteq>\<^sub>m N" using sv by (simp add: stone_view_def)
      moreover have "overlay_name ?g \<notin> dom N0" using N0 segment_names_only by blast
      ultimately show ?thesis by (auto simp: map_le_def)
    qed
    have uf: "update_files E x ds ps bs es ?N"
      unfolding update_files_def Let_def
    proof (intro conjI)
      show "laid_out E ?N (unat (dx_id_bound x)) (next_segment_id (dx_manifest x)) bs es" by (rule laid_out_mono [OF l le])
      show "\<forall>k \<in> changed_segments x ds. ?N (del_file_of (dx_segments x ! k)) =
          Some (Some (bitmap_encode (o_crc E) (buried_bitmap (dx_segments x ! k) (locals_of x ds k))))"
        using sv al(1) by (auto simp: stone_view_def del_file_of_def)
      show "?rows \<noteq> [] \<longrightarrow> ?N (overlay_name ?g) = Some (Some (overlay_content (o_crc E) ?rows))" by simp
      show "dom ?N \<subseteq> segment_names (next_segment_id (dx_manifest x)) (length bs) \<union> (\<lambda>k. del_file_of (dx_segments x ! k)) ` changed_segments x ds \<union>
          (if ?rows = [] then {} else {overlay_name ?g})" using dN N0 by (cases "?rows = []") auto
    qed
    have "triple (staged S N P) (write_overlay E F ?rows m) (\<lambda>m' w. m' = with_overlay (o_crc E) ?rows m \<and> staged S ?N P w) X"
      using write_overlay_triple [OF fits_rows(1) [OF fit wf] pub, of m N E] ovl fr unfolding sg by simp
    then show "triple (staged S N P) (and_do (write_overlay E F ?rows m)
        (\<lambda>m'. ok_with (m', ret @ (if 0 < state_gen m \<and> state_gen m \<noteq> state_gen m' then [overlay_name (state_gen m)] else []))))
      (\<lambda>(m, ret) w. next_generation E m = manifest_for E x ds ps bs es \<and> set ret \<subseteq> update_retires x ds ps \<and>
        (\<exists>N. update_files E x ds ps bs es N \<and> staged S N P w)) X"
    proof (rule triple_and_do)
      fix m'
      show "triple (\<lambda>w. m' = with_overlay (o_crc E) ?rows m \<and> staged S ?N P w)
        (ok_with (m', ret @ (if 0 < state_gen m \<and> state_gen m \<noteq> state_gen m' then [overlay_name (state_gen m)] else [])))
        (\<lambda>(m, ret) w. next_generation E m = manifest_for E x ds ps bs es \<and> set ret \<subseteq> update_retires x ds ps \<and>
          (\<exists>N. update_files E x ds ps bs es N \<and> staged S N P w)) X"
      proof (rule triple_ok_with)
        fix w assume w: "m' = with_overlay (o_crc E) ?rows m \<and> staged S ?N P w"
        then have "next_generation E m' = manifest_for E x ds ps bs es"
          unfolding manifest_for_def updated_manifest_def mb by simp
        moreover have "set (ret @ (if 0 < state_gen m \<and> state_gen m \<noteq> state_gen m' then [overlay_name (state_gen m)] else [])) \<subseteq> update_retires x ds ps"
          using ret rt sg unfolding update_retires_def by auto
        moreover have "\<exists>N. update_files E x ds ps bs es N \<and> staged S N P w" using uf w by blast
        ultimately show "(\<lambda>(m, ret) w. next_generation E m = manifest_for E x ds ps bs es \<and> set ret \<subseteq> update_retires x ds ps \<and>
            (\<exists>N. update_files E x ds ps bs es N \<and> staged S N P w))
          (m', ret @ (if 0 < state_gen m \<and> state_gen m \<noteq> state_gen m' then [overlay_name (state_gen m)] else [])) w" by simp
      qed
    qed
  qed
  show ?thesis unfolding prepare_changes_def m0_def [symmetric] Let_def
  proof (rule triple_and_do [OF t1])
    fix st :: "manifest \<times> name list \<times> bool"
    obtain m ret any where st: "st = (m, ret, any)" by (cases st)
    show "triple (\<lambda>w. stoned (o_crc E) x ds m0 es (set ?ks) st \<and> (\<exists>N. stone_view (o_crc E) x ds N0 (set ?ks) N \<and> staged S N P w))
      (case st of (m, retired, _) \<Rightarrow> and_do (write_overlay E F ?rows m) (\<lambda>m'. ok_with (m', retired @ (if 0 < state_gen m \<and> state_gen m \<noteq> state_gen m' then [overlay_name (state_gen m)] else []))))
      (\<lambda>(m, ret) w. next_generation E m = manifest_for E x ds ps bs es \<and> set ret \<subseteq> update_retires x ds ps \<and>
        (\<exists>N. update_files E x ds ps bs es N \<and> staged S N P w)) X"
      unfolding st prod.case by (rule t2)
  qed
qed

end

end
