(* ===== verification/Opened.thy ===== *)
theory Opened
  imports Update_Disk
begin

text \<open>
  An index and the files it was opened from (\<open>src/store/reader.rs\<close>): reading through any file system, when it succeeds,
  gives what the disk holds (\<open>load_index_mirrors\<close>), so an opened index is the one index of its committed files
  (\<open>opened_index_at\<close>), with everything the proofs about updates ask of it (\<open>index_at_facts\<close>).
\<close>

section \<open>Reading through a file system\<close>

context fs_contract
begin

definition mirrors :: "('w, 'a) act \<Rightarrow> (disk, 'a) act \<Rightarrow> bool" where
  "mirrors m m' \<longleftrightarrow> (\<forall>w x w'. m w = (Inr x, w') \<longrightarrow> disk w' = disk w \<and> m' (disk w) = (Inr x, disk w))"

lemma mirrors_and_do:
  assumes m: "mirrors m m'" and f: "\<And>x. mirrors (f x) (f' x)"
  shows "mirrors (and_do m f) (and_do m' f')"
  unfolding mirrors_def
proof (intro allI impI)
  fix w y w' assume "and_do m f w = (Inr y, w')"
  then obtain x w1 where x: "m w = (Inr x, w1)" "f x w1 = (Inr y, w')" unfolding and_do_Inr by blast
  have "disk w1 = disk w" "m' (disk w) = (Inr x, disk w)" using m x(1) by (simp_all add: mirrors_def)
  moreover have "disk w' = disk w1" "f' x (disk w1) = (Inr y, disk w1)" using f x(2) by (simp_all add: mirrors_def)
  ultimately show "disk w' = disk w \<and> and_do m' f' (disk w) = (Inr y, disk w)" by (simp add: and_do_def)
qed

lemma mirrors_steps: "mirrors (ok_with x) (ok_with x)" "mirrors (require b p why) (require b p why)" "mirrors (parsing p r) (parsing p r)"
  by (simp_all add: mirrors_def ok_with_def require_def parsing_def split: sum.splits)

lemma mirrors_files:
  "mirrors (open_file p (fs_read F p)) (open_file p (fs_read real_fs p))"
  "mirrors (open_file p (fs_mmap F p)) (open_file p (fs_mmap real_fs p))"
proof -
  have step: "mirrors (open_file p g) (open_file p h)" if g: "acts disk poisoned g h" and h: "\<And>d. snd (h d) = d" for g h
    unfolding mirrors_def
  proof (intro allI impI)
    fix w x w' assume "open_file p g w = (Inr x, w')"
    then have "g w = (Inr x, w')" by (auto simp: open_file_def split: prod.splits sum.splits)
    with g have "h (disk w) = (Inr x, disk w')" by (cases rule: acts_cases) auto
    moreover from this have "disk w' = disk w" using h [of "disk w"] by simp
    ultimately show "disk w' = disk w \<and> open_file p h (disk w) = (Inr x, disk w)" by (simp add: open_file_def)
  qed
  show "mirrors (open_file p (fs_read F p)) (open_file p (fs_read real_fs p))"
    unfolding real_fs_ops by (rule step [OF read]) (simp add: real_read_def)
  show "mirrors (open_file p (fs_mmap F p)) (open_file p (fs_mmap real_fs p))"
    unfolding real_fs_ops by (rule step [OF mmap]) (simp add: real_mmap_def)
qed

lemma mirrors_split: "(\<And>a b. mirrors (f a b) (g a b)) \<Longrightarrow> mirrors (case x of (a, b) \<Rightarrow> f a b) (case x of (a, b) \<Rightarrow> g a b)"
  by (cases x) simp

lemma mirrors_if: "mirrors a a' \<Longrightarrow> mirrors b b' \<Longrightarrow> mirrors (if c then a else b) (if c then a' else b')"
  by simp

lemmas mirrors_intros = mirrors_and_do mirrors_steps mirrors_files mirrors_split mirrors_if

lemma load_index_mirrors: "mirrors (load_index crc F verify m len) (load_index crc real_fs verify m len)"
proof -
  have "mirrors (segment_open crc F e verify) (segment_open crc real_fs e verify)" for e
    unfolding segment_open_def open_idx_def open_doc_def open_del_def Let_def by (intro mirrors_intros)
  then have "mirrors (load_segments crc F verify es) (load_segments crc real_fs verify es)" for es
    by (induction es) (simp_all add: mirrors_intros)
  moreover have "mirrors (load_overlay crc F m) (load_overlay crc real_fs m)" unfolding load_overlay_def Let_def by (intro mirrors_intros)
  ultimately show ?thesis unfolding load_index_def by (intro mirrors_intros)
qed

text \<open>What an opened index was loaded from.\<close>

lemma open_once_source:
  assumes "open_once crc F verify w = (Inr (Some y), w')"
  shows "\<exists>m. manifest_ok m \<and> load_index crc real_fs verify m (of_nat (length (manifest_encode crc m))) (disk w') = (Inr y, disk w')"
proof -
  obtain l w1 where l: "fs_lock F LOCK w = (l, w1)" by force
  obtain rd w2 where rd: "fs_read F MANIFEST w1 = (rd, w2)" by force
  define b where "b = (case l of Inr _ \<Rightarrow> True | Inl _ \<Rightarrow> False)"
  note o = open_once_eq [OF l rd, of crc verify, unfolded Let_def, folded b_def]
  obtain bs where bs: "rd = Inr bs" using assms unfolding o by (cases rd) (simp_all split: if_splits)
  obtain m where m: "manifest_decode crc bs = Inr m"
  proof (cases "manifest_decode crc bs")
    case (Inl e)
    then show ?thesis using assms unfolding o bs by (cases e) simp_all
  qed
  obtain r3 w3 where w3: "(if b then sweep F m w2 else (Inr (), w2)) = (r3, w3)" by force
  obtain u where u: "r3 = Inr u" using assms unfolding o bs by (cases r3) (simp_all add: m w3)
  let ?load = "load_index crc F verify m (of_nat (length bs))"
  have "and_do ?load (\<lambda>x. ok_with (Some x)) ((if b then fs_unlock F else (\<lambda>w. w)) w3) = (Inr (Some y), w')"
    using assms unfolding o by (simp add: bs m w3 u)
  then have "\<exists>w4. ?load w4 = (Inr y, w')" unfolding and_do_Inr by (auto simp: ok_with_def)
  then obtain w4 where w4: "?load w4 = (Inr y, w')" ..
  have "manifest_ok m" "bs = manifest_encode crc m" using manifest_decode_sound [OF m] by simp_all
  moreover have "disk w' = disk w4" "load_index crc real_fs verify m (of_nat (length bs)) (disk w4) = (Inr y, disk w4)"
    using load_index_mirrors w4 unfolding mirrors_def by blast+
  ultimately show ?thesis by auto
qed

end

section \<open>The index of a view\<close>

text \<open>The view \<open>S\<close> is that of the committed files of the index \<open>x\<close>: every disk that holds it opens as \<open>x\<close>.\<close>

definition index_at :: "(bytes \<Rightarrow> u32) \<Rightarrow> bytes \<Rightarrow> view \<Rightarrow> disk_index \<Rightarrow> bool" where
  "index_at crc rt S x \<longleftrightarrow> view_of_index crc S (dx_manifest x) \<and>
     (\<forall>d. holds d S \<longrightarrow> (\<exists>y. fst (open_once crc real_fs False d) = Inr (Some y) \<and> x = make_index rt y))"

lemma index_at_unique: "index_at crc rt S x \<Longrightarrow> index_at crc rt S x' \<Longrightarrow> holds d S \<Longrightarrow> x = x'"
  by (fastforce simp: index_at_def)

lemma make_index_simps:
  "dx_manifest (make_index rt (m, len, segs, ovl, ol)) = m" "dx_segments (make_index rt (m, len, segs, ovl, ol)) = segs"
  "dx_overlay (make_index rt (m, len, segs, ovl, ol)) = ovl" "dx_root (make_index rt (m, len, segs, ovl, ol)) = rt"
  "dx_id_bound (make_index rt y) = dx_id_bound (recompute_stats (make_index rt y))"
  "dx_live_docs (make_index rt y) = dx_live_docs (recompute_stats (make_index rt y))"
  by (cases y; simp add: make_index_def recompute_stats_def Let_def sum_segs_def)+

lemma opens_as:
  assumes "view_of_index crc S m" "manifest_ok m" and d0: "holds d0 S"
    and l: "load_index crc real_fs False m (of_nat (length (manifest_encode crc m))) d0 = (Inr y, d0)" and d: "holds d S"
  shows "fst (open_once crc real_fs False d) = Inr (Some y)"
proof -
  have v: "index_view crc S m" using assms(1) by (simp add: view_of_index_def)
  obtain bs where bs: "dk_file d0 MANIFEST = Some bs" "manifest_decode crc bs = Inr m" using view_manifest [OF v d0] by blast
  then have "bs = manifest_encode crc m" using manifest_decode_sound by blast
  with l bs(1) have "load_view crc False m d0 = Inr (Some y)" by (simp add: load_view_def and_do_def ok_with_def)
  then show ?thesis using open_once_real [OF v d0] open_once_same [OF v d d0] by simp
qed


text \<open>Each segment that was loaded is what its entry opens as.\<close>

lemma load_segments_each:
  "load_segments crc real_fs verify es d = (Inr ss, d') \<Longrightarrow> (\<forall>s \<in> set ss. segment_open crc real_fs (seg_entry s) verify d = (Inr s, d))"
proof (induction es arbitrary: ss)
  case (Cons e es)
  then obtain s w1 ss' where s: "segment_open crc real_fs e verify d = (Inr s, w1)" "load_segments crc real_fs verify es w1 = (Inr ss', d')" "ss = s # ss'"
    by (auto simp: and_do_Inr)
  have "reads (set (segment_files e)) (segment_open crc real_fs e verify)" by (rule segment_open_reads) simp
  then have w1: "w1 = d" using s(1) unfolding reads_def by (metis snd_conv)
  moreover have "seg_entry s = e" using segment_open_valid [OF s(1)] by simp
  ultimately show ?case using Cons.IH s by auto
qed simp

text \<open>What is known of such an index.\<close>

lemma index_at_facts:
  assumes x: "index_at crc rt S x" and d: "holds d S"
  shows "index_ok crc False x" "overlay_wf x" "read_from crc S x" "dx_root x = rt" "dx_id_bound x = dx_id_bound (recompute_stats x)"
    "dx_live_docs x = dx_live_docs (recompute_stats x)" "view_of_index crc S (dx_manifest x)"
proof -
  show v: "view_of_index crc S (dx_manifest x)" using x by (simp add: index_at_def)
  then have iv: "index_view crc S (dx_manifest x)" by (simp add: view_of_index_def)
  have loads: "\<exists>segs ovl ol len. x = make_index rt (dx_manifest x, len, segs, ovl, ol) \<and>
      load_segments crc real_fs False (segments (dx_manifest x)) d = (Inr segs, d) \<and> load_overlay crc real_fs (dx_manifest x) d = (Inr (ovl, ol), d)"
    if d: "holds d S" for d
  proof -
    obtain y where y: "fst (open_once crc real_fs False d) = Inr (Some y)" "x = make_index rt y" using x d by (auto simp: index_at_def)
    obtain bs where bs: "dk_file d MANIFEST = Some bs" "manifest_decode crc bs = Inr (dx_manifest x)" using view_manifest [OF iv d] by blast
    let ?len = "of_nat (length (the (dk_file d MANIFEST)))"
    have "load_view crc False (dx_manifest x) d = Inr (Some y)" using open_once_loads [OF bs] y(1) by simp
    then have "\<exists>d'. and_do (load_index crc real_fs False (dx_manifest x) ?len) (\<lambda>x. ok_with (Some x)) d = (Inr (Some y), d')"
      unfolding load_view_def by (metis prod.collapse)
    then obtain d' where l: "load_index crc real_fs False (dx_manifest x) ?len d = (Inr y, d')" unfolding and_do_Inr by (auto simp: ok_with_def)
    obtain segs ovl ol w1 where r: "y = (dx_manifest x, ?len, segs, ovl, ol)"
      "load_segments crc real_fs False (segments (dx_manifest x)) d = (Inr segs, w1)" "load_overlay crc real_fs (dx_manifest x) w1 = (Inr (ovl, ol), d')"
      using load_index_result [OF l] by blast
    have "reads UNIV (load_segments crc real_fs False (segments (dx_manifest x)))" by (rule load_segments_reads) simp
    then have "w1 = d" using r(2) unfolding reads_def by (metis snd_conv)
    moreover have "reads UNIV (load_overlay crc real_fs (dx_manifest x))" unfolding load_overlay_def Let_def by (intro reads_intros) simp_all
    then have "d' = w1" using r(3) unfolding reads_def by (metis snd_conv)
    ultimately show ?thesis using r y(2) by blast
  qed
  obtain segs ovl ol len where l: "x = make_index rt (dx_manifest x, len, segs, ovl, ol)"
    "load_segments crc real_fs False (segments (dx_manifest x)) d = (Inr segs, d)" "load_overlay crc real_fs (dx_manifest x) d = (Inr (ovl, ol), d)"
    using loads [OF d] by blast
  have seg: "dx_segments x = segs" "dx_overlay x = ovl" by (subst l(1), simp add: make_index_simps)+
  show "dx_root x = rt" by (subst l(1)) (simp add: make_index_simps)
  show "dx_id_bound x = dx_id_bound (recompute_stats x)" "dx_live_docs x = dx_live_docs (recompute_stats x)"
    by (subst (1 2) l(1), rule make_index_simps)+
  obtain bs where bs: "manifest_decode crc bs = Inr (dx_manifest x)" using iv by (auto simp: index_view_def)
  show "index_ok crc False x" using load_segments_valid [OF l(2)] manifest_decode_sound [OF bs] by (simp add: index_ok_def seg)
  show "overlay_wf x" using loaded_overlay_wf [OF l(3)] by (simp add: overlay_wf_def seg)
  show "read_from crc S x" unfolding read_from_def
  proof (intro allI impI ballI)
    fix d' s assume d': "holds d' S" and s: "s \<in> set (dx_segments x)"
    obtain segs' ovl' ol' len' where l': "x = make_index rt (dx_manifest x, len', segs', ovl', ol')"
      "load_segments crc real_fs False (segments (dx_manifest x)) d' = (Inr segs', d')" using loads [OF d'] by blast
    have "dx_segments x = segs'" by (subst l'(1)) (simp add: make_index_simps)
    then show "segment_open crc real_fs (seg_entry s) False d' = (Inr s, d')" using load_segments_each [OF l'(2)] s by blast
  qed
qed

context fs_contract
begin

lemma opened_index_at:
  assumes o: "open_index crc F pause rt False w = (Inr (Some x), w')" and v: "view_of_index crc S (dx_manifest x)" and d: "holds (disk w') S"
  shows "index_at crc rt S x"
proof -
  obtain y w1 where y: "open_once crc F False w1 = (Inr (Some y), w')" "x = make_index rt y" using open_index_once [OF o] by blast
  obtain m where m: "manifest_ok m" "load_index crc real_fs False m (of_nat (length (manifest_encode crc m))) (disk w') = (Inr y, disk w')"
    using open_once_source [OF y(1)] by blast
  have "dx_manifest x = m" using load_index_result [OF m(2)] y(2) by (auto simp: make_index_simps)
  then show ?thesis unfolding index_at_def using v opens_as [OF _ m(1) d m(2)] y(2) by blast
qed

lemma opened_settled:
  assumes I: "open_inv crc m I" "\<And>d. I d \<Longrightarrow> holds d S" and v: "view_of_index crc S m" and w: "I (disk w)"
    and p: "\<And>w. I (disk w) \<Longrightarrow> I (disk (pause w))" and o: "open_index crc F pause rt False w = (r, w')"
  shows "I (disk w') \<and> r \<noteq> Inr None \<and> (\<forall>x. r = Inr (Some x) \<longrightarrow> index_at crc rt S x \<and> dx_manifest x = m)"
proof -
  note f = open_index_inv [OF I(1) w p o]
  moreover have "index_at crc rt S x" if "r = Inr (Some x)" for x
    using opened_index_at [OF o [unfolded that]] v I(2) f that by simp
  ultimately show ?thesis by blast
qed

end

lemma settled_holds: "settled S N d \<Longrightarrow> holds d S"
  by (auto simp: settled_def solid_def intro: visible_holds)

lemma switched_holds: "switched S T d \<Longrightarrow> holds d T"
  by (auto simp: switched_def intro: visible_holds)

end
