(* ===== verification/Update_Outcome.thy ===== *)
theory Update_Outcome
  imports Opened
begin

text \<open>
  A whole update (\<open>update_index\<close> of \<open>src/store/update.rs\<close>): under any faults it leaves the old index settled, or a disk on
  which a loss of power shows the old index or the new one (\<open>update_outcome\<close>); on the real file system it always
  succeeds (\<open>update_real\<close>).
\<close>

section \<open>The files of an update\<close>

lemma view_old_names:
  assumes "view_of_index crc S m"
  shows "MANIFEST_TMP \<notin> dom S" "referenced_files m \<subseteq> dom S"
  using assms referenced_not_tmp(3) by (auto simp: view_of_index_def)

lemma settled_kept: "settled S N d \<Longrightarrow> settled S (kept S m N) d"
  unfolding settled_def solid_def visible_def kept_def by (auto simp: map_add_Some_iff restrict_map_def split: if_splits)

text \<open>What is retired belongs to the old index and not to the new one.\<close>

lemma retired_in:
  assumes x: "index_ok crc verify x"
  shows "update_retires x ds ps \<subseteq> referenced_files (dx_manifest x)"
proof
  fix n assume "n \<in> update_retires x ds ps"
  then consider k where "k < length (dx_segments x)" "n = del_name (segment_id (seg_entry (dx_segments x ! k))) (del_gen (seg_entry (dx_segments x ! k)))"
      "0 < del_gen (seg_entry (dx_segments x ! k))"
    | "0 < state_gen (dx_manifest x)" "n = overlay_name (state_gen (dx_manifest x))"
    by (auto simp: update_retires_def retired_at_def changed_segments_def split: if_splits)
  then show "n \<in> referenced_files (dx_manifest x)"
  proof cases
    case 1
    have "seg_entry (dx_segments x ! k) \<in> set (segments (dx_manifest x))" using x 1(1) unfolding index_ok_def by (metis length_map nth_map nth_mem)
    moreover have "n \<in> set (segment_files (seg_entry (dx_segments x ! k)))" using 1(2,3) by (simp add: segment_files_def)
    ultimately show ?thesis by (auto simp: referenced_files_def)
  qed (simp add: referenced_files_def)
qed

lemma retired_out:
  assumes x: "index_ok crc verify x" and fit: "update_fits E x ds ps rs" and u: "update_files E x ds ps bs es N" and rs: "concat bs = rs"
  shows "update_retires x ds ps \<inter> referenced_files (manifest_for E x ds ps bs es) = {}"
proof -
  let ?xs = "dx_segments x"
  have l: "laid_out E N (unat (dx_id_bound x)) (next_segment_id (dx_manifest x)) bs es" using u by (simp add: update_files_def Let_def)
  have f: "unat (dx_id_bound x) + length (concat bs) < 2 ^ 32" "\<forall>e \<in> set (segments (dx_manifest x)). unat (del_gen e) + 1 < 2 ^ 32"
    "distinct (map segment_id (segments (dx_manifest x)))"
    using fit unfolding update_fits_def Let_def rs by blast+
  have ent: "map seg_entry ?xs = segments (dx_manifest x)" using x by (simp add: index_ok_def)
  note files = manifest_for_files [OF x l f(1), of ds ps]
  have g: "unat (del_gen (seg_entry (?xs ! k))) + 1 < 2 ^ 32" if "k < length ?xs" for k using f(2) that unfolding ent [symmetric] by simp
  have same: "j = k" if "j < length ?xs" "k < length ?xs" "segment_id (seg_entry (?xs ! j)) = segment_id (seg_entry (?xs ! k))" for j k
    using nth_eq_iff_index_eq [OF f(3), of j k] that unfolding ent [symmetric] by simp
  have del: "del_name (segment_id (seg_entry (?xs ! k))) (del_gen (seg_entry (?xs ! k))) \<notin> set (segment_files (seg_entry (buried (o_crc E) (?xs ! j) (locals_of x ds j))))"
    if k: "k \<in> changed_segments x ds" and j: "j < length ?xs" for j k
  proof
    assume a: "del_name (segment_id (seg_entry (?xs ! k))) (del_gen (seg_entry (?xs ! k))) \<in> set (segment_files (seg_entry (buried (o_crc E) (?xs ! j) (locals_of x ds j))))"
    have "k < length ?xs" "changed_by (?xs ! k) (locals_of x ds k)" using k by (simp_all add: changed_segments_def)
    moreover from a have "segment_id (seg_entry (?xs ! j)) = segment_id (seg_entry (?xs ! k))"
      unfolding buried_files [OF g [OF j]] by (auto simp: del_file_of_def segment_files_def split: if_splits)
    ultimately show False using a same [OF j] unfolding buried_files [OF g [OF j]] by (auto simp: del_file_of_def)
  qed
  have ovl: "overlay_name i \<notin> set (segment_files (seg_entry s))" for i s by (simp add: segment_files_def)
  show ?thesis
  proof (rule equals0I)
    fix n assume n: "n \<in> update_retires x ds ps \<inter> referenced_files (manifest_for E x ds ps bs es)"
    then consider k where "k \<in> changed_segments x ds" "n = del_name (segment_id (seg_entry (?xs ! k))) (del_gen (seg_entry (?xs ! k)))"
      | "n = overlay_name (state_gen (dx_manifest x))"
      by (auto simp: update_retires_def retired_at_def split: if_splits)
    then show False
    proof cases
      case 1
      then show False using n del [OF 1(1)] segment_names_only(1) unfolding files by (auto split: if_splits)
    next
      case 2
      then show False using n ovl segment_names_only(3) unfolding files by (auto split: if_splits)
    qed
  qed
qed

section \<open>Carrying out a plan\<close>

definition next_index :: "'w outside \<Rightarrow> disk_index \<Rightarrow> u32 list \<Rightarrow> patch_row list \<Rightarrow> file_entry list \<Rightarrow> view \<Rightarrow> manifest \<Rightarrow> bool" where
  "next_index E x ds ps rs N m \<longleftrightarrow> (\<exists>bs es. update_files E x ds ps bs es N \<and> concat bs = rs \<and> m = manifest_for E x ds ps bs es)"

text \<open>The manifest and the retired files of an update whose new files are those of \<open>N\<close>.\<close>

definition prepared :: "'w outside \<Rightarrow> disk_index \<Rightarrow> u32 list \<Rightarrow> patch_row list \<Rightarrow> file_entry list \<Rightarrow> manifest \<times> name list \<Rightarrow> view \<Rightarrow> bool" where
  "prepared E x ds ps rs = (\<lambda>(m, ret) N. next_index E x ds ps rs N (next_generation E m) \<and> set ret \<subseteq> update_retires x ds ps)"

lemma next_index_view:
  assumes v: "view_of_index (o_crc E) S (dx_manifest x)" and x: "index_ok crc verify x" "dx_id_bound x = dx_id_bound (recompute_stats x)"
    and fit: "update_fits E x ds ps rs" and wf: "overlay_wf x" and n: "next_index E x ds ps rs N m"
  shows "view_of_index (o_crc E) (new_view E (kept S m N) m) m" "dom (kept S m N) = referenced_files m"
    "update_retires x ds ps \<inter> referenced_files m = {}"
  using n kept_view [OF v x fit wf] retired_out [OF x(1) fit] unfolding next_index_def by blast+

text \<open>The writer gives every segment an id of its own.\<close>

lemma laid_out_ids:
  "laid_out E N n i bs es \<Longrightarrow> n + length (concat bs) < 2 ^ 32 \<Longrightarrow> unat i + length bs < 2 ^ 32 \<Longrightarrow> distinct (map segment_id es)"
proof (induction E N n i bs es rule: laid_out.induct)
  case (2 E N n i b bs e es)
  have st: "seg_stored E N n i b e" and lo: "laid_out E N (n + length b) (i + 1) bs es" using 2(2) by simp_all
  have i: "unat (i + 1) = unat i + 1" using 2(4) by (simp add: unat_word_ariths)
  have n: "n + length b + length (concat bs) < 2 ^ 32" "unat (i + 1) + length bs < 2 ^ 32" using 2(3,4) unfolding i by simp_all
  have "\<forall>f \<in> set es. i + 1 \<le> segment_id f" using laid_out_entries(1) [OF lo n] by blast
  moreover have "segment_id e = i" using seg_stored_entry(1) [OF st] 2(3) by simp
  ultimately have "segment_id e \<notin> segment_id ` set es" using i by (auto simp: word_le_nat_alt)
  then show ?case using 2(1) [OF lo n] by simp
qed simp_all

lemma manifest_for_ids:
  assumes x: "index_ok crc verify x" and fit: "update_fits E x ds ps rs" and u: "update_files E x ds ps bs es N" and rs: "concat bs = rs"
  shows "distinct (map segment_id (segments (manifest_for E x ds ps bs es)))"
proof -
  let ?m = "dx_manifest x" and ?i = "next_segment_id (dx_manifest x)"
  have l: "laid_out E N (unat (dx_id_bound x)) ?i bs es" using u by (simp add: update_files_def Let_def)
  have f: "unat (dx_id_bound x) + length (concat bs) < 2 ^ 32" "unat ?i + length rs < 2 ^ 32" "distinct (map segment_id (segments ?m))"
    using fit unfolding update_fits_def Let_def rs by blast+
  have n: "unat ?i + length bs < 2 ^ 32" using f(2) laid_out_length [OF l] unfolding rs by linarith
  have ent: "map seg_entry (dx_segments x) = segments ?m" and mo: "manifest_ok ?m" using x by (simp_all add: index_ok_def)
  have old: "map segment_id (map seg_entry (segs_after (o_crc E) x ds)) = map segment_id (segments ?m)"
    unfolding ent [symmetric] by (rule nth_equalityI) (simp_all add: segs_after_nth)
  have "\<forall>e \<in> set (segments ?m). segment_id e < ?i" using mo by (auto simp: manifest_ok_def entry_ok_def)
  moreover have "\<forall>e \<in> set es. ?i \<le> segment_id e" using laid_out_entries(1) [OF l f(1) n] by blast
  ultimately have "set (map segment_id (segments ?m)) \<inter> set (map segment_id es) = {}" by fastforce
  then show ?thesis unfolding manifest_for_simps map_append old using f(3) laid_out_ids [OF l f(1) n] by simp
qed

lemma next_index_opens:
  assumes x: "index_at (o_crc E) (o_root E) S x" and d0: "holds d0 S" and fit: "update_fits E x ds ps rs" and n: "next_index E x ds ps rs N m"
    and P: "dom N \<inter> dom S = {}" and d: "holds d (new_view E (kept S m N) m)"
  shows "\<exists>y. fst (open_once (o_crc E) real_fs False d) = Inr (Some y) \<and> index_after E x ds ps rs (make_index (o_root E) y) \<and>
    dx_manifest (make_index (o_root E) y) = m"
proof -
  obtain bs es where b: "update_files E x ds ps bs es N" "concat bs = rs" "m = manifest_for E x ds ps bs es"
    using n by (auto simp: next_index_def)
  note f = index_at_facts [OF x d0]
  obtain ss ol where o: "fst (open_once (o_crc E) real_fs False d) = Inr (Some (m, of_nat (length (manifest_encode (o_crc E) m)),
      segs_after (o_crc E) x ds @ ss, map owned_row (merged_rows x ds ps), ol))" "segs_for E (unat (dx_id_bound x)) bs ss"
      "map seg_entry ss = es" "\<forall>s \<in> set ss. seg_valid (o_crc E) True s"
    using updated_loads [OF f(7,1,5) fit f(2) b(1,2) P f(3) d0, of d] d unfolding b(3) by blast
  let ?y = "make_index (o_root E) (m, of_nat (length (manifest_encode (o_crc E) m)), segs_after (o_crc E) x ds @ ss, map owned_row (merged_rows x ds ps), ol)"
  obtain d' where "open_once (o_crc E) real_fs False d = (Inr (Some (m, of_nat (length (manifest_encode (o_crc E) m)),
      segs_after (o_crc E) x ds @ ss, map owned_row (merged_rows x ds ps), ol)), d')" using o(1) by (metis prod.collapse)
  from open_once_ok [OF this] have ok: "index_ok (o_crc E) False ?y" by (simp add: index_ok_def make_index_simps)
  have "generation m = generation (dx_manifest x) + 1" "distinct (map segment_id (segments m))"
    unfolding b(3) using manifest_for_ids [OF f(1) fit b(1,2)] by (simp_all add: manifest_for_simps(3))
  then have "index_after E x ds ps rs ?y"
    unfolding index_after_def make_index_simps(1-4) using o(2,4) b(2)
    by (intro conjI exI [of _ bs] exI [of _ ss] ok refl f(4) [symmetric] make_index_simps(5,6)) simp_all
  then show ?thesis using o(1) make_index_simps(1) by blast
qed

context fs_contract
begin

lemma apply_plan_steps:
  assumes x: "index_ok crc verify x" and fit: "update_fits E x ds ps rs" and wf: "overlay_wf x"
    and flush: "flushes E S P X" and pub: "publishes S P X" and P: "update_names_of x (length rs) \<subseteq> P" "P \<inter> dom S = {}"
    and st: "staged S Map.empty P w"
  shows "\<exists>r w'. apply_plan E F cfg x ds ps rs w = Some (r, w') \<and>
    ((\<exists>e. r = Inl e) \<and> X w' \<or> (\<exists>m ret N w1. (r, w') = inner (commit F (o_crc E) (next_generation E m) ret) w1 \<and>
       prepared E x ds ps rs (m, ret) N \<and> staged S N P w1))"
proof -
  let ?i = "next_segment_id (dx_manifest x)"
  have f: "corpus_fits E rs" "unat (dx_id_bound x) + length rs < 2 ^ 32" using fit unfolding update_fits_def Let_def by blast+
  have fr: "fresh_names ?i (length rs) \<subseteq> P" using P(1) by (simp add: update_names_of_def)
  have "\<exists>r1 w1. (if rs = [] then Some (Inr ([], ?i), w) else build_segments E F cfg rs (dx_id_bound x) ?i w) = Some (r1, w1) \<and>
    (case r1 of Inl _ \<Rightarrow> X w1 | Inr (entries, next_id) \<Rightarrow> \<exists>N bs. laid_out E N (unat (dx_id_bound x)) ?i bs entries \<and> concat bs = rs \<and>
       next_id = ?i + of_nat (length bs) \<and> dom N \<subseteq> segment_names ?i (length bs) \<and> staged S N P w1)"
  proof (cases "rs = []")
    case True
    then show ?thesis using st by (intro exI [of _ "Inr ([], ?i)"] exI [of _ w]) (auto intro!: exI [of _ Map.empty] exI [of _ "[]"])
  next
    case False
    have "fresh_names ?i (length rs) \<inter> dom S = {}" using fr P(2) by blast
    from build_segments_laid_out [OF flush f(1,2) fr this st, of cfg] show ?thesis using False by simp
  qed
  then obtain r1 w1 where r1: "(if rs = [] then Some (Inr ([], ?i), w) else build_segments E F cfg rs (dx_id_bound x) ?i w) = Some (r1, w1)"
    "case r1 of Inl _ \<Rightarrow> X w1 | Inr (entries, next_id) \<Rightarrow> \<exists>N bs. laid_out E N (unat (dx_id_bound x)) ?i bs entries \<and> concat bs = rs \<and>
       next_id = ?i + of_nat (length bs) \<and> dom N \<subseteq> segment_names ?i (length bs) \<and> staged S N P w1" by blast
  have ap: "apply_plan E F cfg x ds ps rs w = Some (and_do (\<lambda>w. (r1, w)) (\<lambda>(entries, next_id). write_changes E F x ds ps entries next_id) w1)"
    unfolding apply_plan_def r1(1) by simp
  show ?thesis
  proof (cases r1)
    case (Inl e)
    then have "apply_plan E F cfg x ds ps rs w = Some (Inl e, w1)" using ap by (simp add: and_do_def)
    then show ?thesis using r1(2) Inl by simp
  next
    case (Inr en)
    obtain entries next_id where en: "en = (entries, next_id)" by force
    obtain N bs where N: "laid_out E N (unat (dx_id_bound x)) ?i bs entries" "concat bs = rs" "next_id = ?i + of_nat (length bs)"
      "dom N \<subseteq> segment_names ?i (length bs)" "staged S N P w1" using r1(2) Inr en by auto
    note t = prepare_triple [OF x fit wf pub P N(1,2,4), unfolded triple_def, rule_format, OF N(5)]
    obtain r2 w2 where r2: "prepare_changes E F x ds ps entries next_id w1 = (r2, w2)" using prod.exhaust by blast
    have ap': "apply_plan E F cfg x ds ps rs w = Some (and_do (\<lambda>w. (r2, w)) (\<lambda>(m, ret). inner (commit F (o_crc E) (next_generation E m) ret)) w2)"
      using ap Inr en r2 by (simp add: and_do_def write_changes_def)
    show ?thesis
    proof (cases r2)
      case e: (Inl e)
      then have "X w2" using t r2 N(3) by simp
      then show ?thesis using ap' e by (simp add: and_do_def)
    next
      case c: (Inr mr)
      obtain m ret where mr: "mr = (m, ret)" by force
      then obtain N' where "update_files E x ds ps bs entries N'" "staged S N' P w2" "set ret \<subseteq> update_retires x ds ps"
        "next_generation E m = manifest_for E x ds ps bs entries" using t r2 N(3) c by auto
      then have "prepared E x ds ps rs (m, ret) N'" "staged S N' P w2" using N(2) by (auto simp: prepared_def next_index_def)
      moreover have "apply_plan E F cfg x ds ps rs w = Some (inner (commit F (o_crc E) (next_generation E m) ret) w2)"
        using ap' c mr by (simp add: and_do_def)
      ultimately show ?thesis by (metis prod.collapse)
    qed
  qed
qed

lemma conclude_opened:
  assumes "conclude E F (r, w, fl) = (Inr y, w')"
  shows "\<exists>w1. open_index (o_crc E) F (o_pause E) (o_root E) False w1 = (Inr (Some y), w')"
proof -
  have "reopen E F (fs_unlock F w) = (Inr y, w')" using assms by (cases r) (simp_all add: conclude_def tidied_def)
  then obtain z w2 where z: "open_index (o_crc E) F (o_pause E) (o_root E) False (fs_unlock F w) = (Inr z, w2)"
    "(case z of None \<Rightarrow> (\<lambda>w. (Inl (SCorrupt MANIFEST ''manifest unreadable right after commit''), w)) | Some i \<Rightarrow> ok_with i) w2 = (Inr y, w')"
    unfolding reopen_def and_do_Inr by blast
  then show ?thesis by (cases z) (auto simp: ok_with_def)
qed

end

lemma next_index_names:
  assumes "next_index E x ds ps rs N m"
  shows "dom N \<subseteq> update_names_of x (length rs)" "m = next_generation E m' \<Longrightarrow> generation m = generation m' + 1"
proof -
  obtain bs es where b: "update_files E x ds ps bs es N" "concat bs = rs" using assms by (auto simp: next_index_def)
  then have "laid_out E N (unat (dx_id_bound x)) (next_segment_id (dx_manifest x)) bs es" by (simp add: update_files_def Let_def)
  then have "length bs \<le> length rs" using laid_out_length b(2) by blast
  then show "dom N \<subseteq> update_names_of x (length rs)" by (rule update_files_names [OF b(1)])
qed (simp add: next_generation_def)

lemma opens_index_at:
  assumes v: "view_of_index crc T m" and d: "holds d T" and y: "fst (open_once crc real_fs False d) = Inr (Some y)" "dx_manifest (make_index rt y) = m"
  shows "index_at crc rt T (make_index rt y)"
  unfolding index_at_def y(2)
proof (intro conjI allI impI v)
  fix d' assume d': "holds d' T"
  have "index_view crc T m" using v by (simp add: view_of_index_def)
  then have "fst (open_once crc real_fs False d') = Inr (Some y)" using open_once_same [OF _ d' d] y(1) by simp
  then show "\<exists>y'. fst (open_once crc real_fs False d') = Inr (Some y') \<and> make_index rt y = make_index rt y'" by blast
qed

context fs_contract
begin

lemma apply_plan_outcome:
  assumes c: "cut_ok E" and x: "index_at (o_crc E) (o_root E) S x" and fit: "update_fits E x ds ps rs" and p: "patient E"
    and st: "settled S Map.empty (disk w)"
  shows "\<exists>r w'. map_option (conclude E F) (apply_plan E F cfg x ds ps rs (w, [])) = Some (r, w') \<and>
    ((\<exists>e. r = Inl e) \<and> settled S Map.empty (disk w') \<or>
     (\<exists>T y. index_at (o_crc E) (o_root E) T y \<and> index_after E x ds ps rs y \<and> switched S T (disk w') \<and> (\<forall>z. r = Inr z \<longrightarrow> z = y)))"
proof -
  note f = index_at_facts [OF x settled_holds [OF st]]
  note v = f(7)
  let ?P = "update_names_of x (length rs)"
  have fits: "unat (next_segment_id (dx_manifest x)) + length rs < 2 ^ 32" "distinct (map segment_id (segments (dx_manifest x)))"
    using fit unfolding update_fits_def Let_def by blast+
  have P: "?P \<inter> dom S = {}" by (rule update_names_fresh [OF v f(1) fits])
  have st0: "staged S Map.empty ?P (w, [])" using st by (simp add: staged_def)
  obtain r1 w1 fl where r1: "apply_plan E F cfg x ds ps rs (w, []) = Some (r1, w1, fl)"
    "(\<exists>e. r1 = Inl e) \<and> staged S Map.empty ?P (w1, fl) \<or> (\<exists>m ret N w2. (r1, w1, fl) = inner (commit F (o_crc E) (next_generation E m) ret) w2 \<and>
       prepared E x ds ps rs (m, ret) N \<and> staged S N ?P w2)"
    using apply_plan_steps [OF f(1) fit f(2) flushes_keep [OF c] publishes_keep order_refl P st0, of cfg] by (metis prod.collapse)
  have eq: "map_option (conclude E F) (apply_plan E F cfg x ds ps rs (w, [])) = Some (conclude E F (r1, w1, fl))" by (simp add: r1(1))
  from r1(2) show ?thesis
  proof (elim disjE exE conjE)
    fix e assume "r1 = Inl e" "staged S Map.empty ?P (w1, fl)"
    then show ?thesis unfolding eq using conclude_failed [OF v P, of w1 fl e] by blast
  next
    fix m0 ret N w2 assume cm: "(r1, w1, fl) = inner (commit F (o_crc E) (next_generation E m0) ret) w2"
      and pr: "prepared E x ds ps rs (m0, ret) N" and sg: "staged S N ?P w2"
    obtain w3 fl3 where w2: "w2 = (w3, fl3)" by force
    let ?m = "next_generation E m0"
    let ?N = "kept S ?m N"
    have n: "next_index E x ds ps rs N ?m" "set ret \<subseteq> update_retires x ds ps" using pr by (simp_all add: prepared_def)
    note nv = next_index_view [OF v f(1,5) fit f(2) n(1)]
    have dom: "MANIFEST \<notin> dom ?N" "MANIFEST_TMP \<notin> dom ?N" unfolding nv(2) using referenced_not_tmp(2,3) by blast+
    have ret: "set ret \<subseteq> referenced_files (dx_manifest x)" "set ret \<inter> dom ?N = {}"
      unfolding nv(2) using n(2) nv(3) retired_in [OF f(1), of ds ps] by blast+
    have fl: "set fl3 \<subseteq> ?P" "settled S ?N (disk w3)" using sg settled_kept by (auto simp: w2 staged_def)
    have "\<exists>r4 w4. conclude E F (r1, w1, fl) = (r4, w4) \<and> ((\<exists>e. r4 = Inl e) \<and> settled S Map.empty (disk w4) \<or>
        switched S (new_view E ?N ?m) (disk w4) \<and> (\<forall>x. r4 = Inr x \<longrightarrow> dx_manifest x = ?m))"
      unfolding cm w2 by (rule conclude_outcome [OF v nv(1) p dom ret P fl])
    then obtain r4 w4 where r4: "conclude E F (r1, w1, fl) = (r4, w4)"
      "(\<exists>e. r4 = Inl e) \<and> settled S Map.empty (disk w4) \<or> switched S (new_view E ?N ?m) (disk w4) \<and> (\<forall>x. r4 = Inr x \<longrightarrow> dx_manifest x = ?m)"
      by (elim exE conjE) (rule that)
    have "dom N \<inter> dom S = {}" using next_index_names(1) [OF n(1)] P by blast
    note opens = next_index_opens [OF x settled_holds [OF st] fit n(1) this]
    from r4(2) show ?thesis
    proof (elim disjE exE conjE)
      fix e assume "r4 = Inl e" "settled S Map.empty (disk w4)"
      then show ?thesis unfolding eq r4(1) by blast
    next
      assume sw: "switched S (new_view E ?N ?m) (disk w4)" and man: "\<forall>x. r4 = Inr x \<longrightarrow> dx_manifest x = ?m"
      let ?T = "new_view E ?N ?m"
      note h = switched_holds [OF sw]
      obtain y where y: "fst (open_once (o_crc E) real_fs False (disk w4)) = Inr (Some y)" "index_after E x ds ps rs (make_index (o_root E) y)"
        "dx_manifest (make_index (o_root E) y) = ?m" using opens [OF h] by blast
      note at = opens_index_at [OF nv(1) h y(1,3)]
      have "z = make_index (o_root E) y" if z: "r4 = Inr z" for z
      proof -
        obtain w5 where "open_index (o_crc E) F (o_pause E) (o_root E) False w5 = (Inr (Some z), w4)"
          using conclude_opened r4(1) z by blast
        then have "index_at (o_crc E) (o_root E) ?T z" using man z nv(1) h by (intro opened_index_at) simp_all
        then show ?thesis by (rule index_at_unique [OF _ at h])
      qed
      then show ?thesis unfolding eq r4(1) using sw y(2) at by blast
    qed
  qed
qed

end

section \<open>The outcome of an update\<close>

text \<open>The changes of the plan, sorted: what to delete, to patch, and to index.\<close>

definition plan_parts :: "'w outside \<Rightarrow> (bytes \<Rightarrow> bytes option) \<Rightarrow> disk_index \<Rightarrow> file_entry list \<Rightarrow> u32 list \<times> patch_row list \<times> file_entry list" where
  "plan_parts E read x files = sort_changes (o_root E) (pl_changes (update_plan E read x files)) [] [] []"

context fs_contract
begin

lemma with_lock_opened:
  assumes I: "open_inv crc m I" and p: "\<And>w. I (disk w) \<Longrightarrow> I (disk (pause w))" and w: "I (disk w)"
    and o: "with_lock F (open_index crc F pause rt verify) w = (r, w')"
  shows "I (disk w') \<and> r \<noteq> Inr None"
proof -
  obtain r1 w1 where o1: "open_index crc F pause rt verify w = (r1, w1)" by force
  have "I (disk w1) \<and> r1 \<noteq> Inr None" using open_index_inv [OF I w p o1] by blast
  then show ?thesis using o o1 unlock_inv [OF I, of w1] by (auto simp: with_lock_def)
qed

lemma first_look:
  assumes I: "open_inv (o_crc E) m I" and p: "patient E" and w: "I (disk w)"
    and r: "and_do (io (fs_create_dir_all F [])) (\<lambda>_. and_do (take_lock F (o_pause E) (o_tries E)) (\<lambda>_.
            with_lock F (open_index (o_crc E) F (o_pause E) (o_root E) False))) w = (r, w')"
  shows "I (disk w') \<and> r \<noteq> Inr None"
proof -
  let ?open = "with_lock F (open_index (o_crc E) F (o_pause E) (o_root E) False)"
  obtain r0 w0 where r0: "and_do (io (fs_create_dir_all F [])) (\<lambda>_. take_lock F (o_pause E) (o_tries E)) w = (r0, w0)" by force
  have i0: "I (disk w0)" by (rule create_and_lock_inv [OF I p r0 w])
  have "and_do (and_do (io (fs_create_dir_all F [])) (\<lambda>_. take_lock F (o_pause E) (o_tries E))) (\<lambda>_. ?open) w = (r, w')"
    using r unfolding and_do_def by (cases "io (fs_create_dir_all F []) w"; cases "fst (io (fs_create_dir_all F []) w)") simp_all
  then have "and_do (\<lambda>_. (r0, w0)) (\<lambda>_. ?open) w = (r, w')" using r0 by (simp add: and_do_def [of _ "\<lambda>_. ?open"])
  then consider e where "r0 = Inl e" "r = Inl e" "w' = w0" | "?open w0 = (r, w')" by (cases r0) (simp_all add: and_do_def)
  then show ?thesis
  proof cases
    case 2
    from with_lock_opened [OF I _ i0 this] patient_inv [OF p I] show ?thesis by blast
  qed (use i0 in simp)
qed

lemma update_outcome:
  assumes c: "cut_ok E" and x: "index_at (o_crc E) (o_root E) S x" and p: "patient E" and st: "settled S Map.empty (disk w)"
    and pl: "plan_parts E read x files = (ds, ps, rs)" and fit: "update_fits E x ds ps rs"
  shows "\<exists>r w'. update_index E F cfg True (Inr files) read w = Some (r, w') \<and>
    (settled S Map.empty (disk w') \<and> ((\<exists>e. r = Inl e) \<or> r = Inr x \<and> pl_changes (update_plan E read x files) = []) \<or>
     (\<exists>T y. index_at (o_crc E) (o_root E) T y \<and> index_after E x ds ps rs y \<and> switched S T (disk w') \<and> (\<forall>z. r = Inr z \<longrightarrow> z = y)))"
proof -
  note f = index_at_facts [OF x settled_holds [OF st]]
  note I = settled_inv [OF f(7)]
  note unl = unlock_inv [OF I]
  obtain r0 w0 where r0: "and_do (io (fs_create_dir_all F [])) (\<lambda>_. and_do (take_lock F (o_pause E) (o_tries E)) (\<lambda>_.
            with_lock F (open_index (o_crc E) F (o_pause E) (o_root E) False))) w = (r0, w0)" by force
  note i0 = first_look [OF I p st r0]
  show ?thesis
  proof (cases r0)
    case (Inl e)
    then show ?thesis using i0 r0 by (simp add: update_index_def)
  next
    case (Inr z)
    then obtain x0 where z: "r0 = Inr (Some x0)" using i0 by (cases z) auto
    obtain r1 w1 where r1: "take_lock F (o_pause E) (o_tries E) w0 = (r1, w1)" by force
    have i1: "settled S Map.empty (disk w1)" using take_lock_inv [OF I patient_inv [OF p I] r1] i0 by blast
    show ?thesis
    proof (cases r1)
      case (Inl e)
      then show ?thesis using i1 r0 z r1 by (simp add: update_index_def)
    next
      case (Inr u)
      obtain r2 w2 where r2: "open_index (o_crc E) F (o_pause E) (o_root E) False w1 = (r2, w2)" by force
      have i2: "settled S Map.empty (disk w2) \<and> r2 \<noteq> Inr None \<and> (\<forall>z. r2 = Inr (Some z) \<longrightarrow> index_at (o_crc E) (o_root E) S z)"
      proof -
        have "holds d S" if "settled S Map.empty d" for d using that by (rule settled_holds)
        from opened_settled [OF I this f(7) i1 patient_inv [OF p I] r2] show ?thesis by blast
      qed
      show ?thesis
      proof (cases r2)
        case (Inl e)
        then show ?thesis using i2 r0 z r1 Inr r2 unl by (simp add: update_index_def)
      next
        case r2': (Inr z2)
        then obtain x2 where x2: "r2 = Inr (Some x2)" using i2 by (cases z2) auto
        then have "x2 = x" using index_at_unique [OF _ x settled_holds [OF st]] i2 by blast
        then have e2: "r2 = Inr (Some x)" using x2 by simp
        have ui: "update_index E F cfg True (Inr files) read w =
            (if pl_changes (update_plan E read x files) = [] then Some (Inr x, fs_unlock F w2)
             else map_option (conclude E F) (apply_plan E F cfg x ds ps rs (w2, [])))"
          using pl unfolding update_index_def plan_parts_def by (simp add: r0 z r1 Inr r2 e2 Let_def)
        show ?thesis
        proof (cases "pl_changes (update_plan E read x files) = []")
          case True
          then show ?thesis using ui i2 unl by simp
        next
          case False
          then show ?thesis using ui apply_plan_outcome [OF c x fit p, of w2 cfg] i2 by simp blast
        qed
      qed
    qed
  qed
qed

end

section \<open>An update on the real file system\<close>

lemma open_unlocked:
  assumes "\<not> dk_locked d" and o: "open_once crc real_fs verify d = (r, d')"
  shows "\<not> dk_locked d'"
proof -
  obtain l d1 where l: "fs_lock real_fs LOCK d = (l, d1)" by force
  obtain rd d2 where rd: "fs_read real_fs MANIFEST d1 = (rd, d2)" by force
  have l': "l = Inr ()" using l assms(1) by (simp add: real_fs_ops real_lock_def split: if_splits)
  have u: "\<not> dk_locked (fs_unlock real_fs w)" for w by (simp add: real_fs_ops real_unlock_def)
  note e = open_once_eq [OF l rd, of crc verify, unfolded Let_def l' sum.case if_True]
  show ?thesis
  proof (cases rd)
    case (Inl er)
    then show ?thesis using o u unfolding e by (auto split: if_splits)
  next
    case (Inr bs)
    show ?thesis
    proof (cases "manifest_decode crc bs")
      case (Inl er)
      then show ?thesis using o u unfolding e Inr by (cases er) auto
    next
      case m: (Inr m)
      obtain r3 d3 where d3: "sweep real_fs m d2 = (r3, d3)" by force
      have rd: "reads UNIV (and_do (load_index crc real_fs verify m len) (\<lambda>x. ok_with (Some x)))" for len
        by (intro reads_intros load_index_reads) simp
      show ?thesis using o u rd unfolding e Inr reads_def by (cases r3) (auto simp: m d3, (metis snd_conv)+)
    qed
  qed
qed

lemma open_real:
  assumes x: "index_at crc rt S x" and st: "settled S Map.empty d"
  shows "\<exists>d'. open_index crc real_fs pause rt False d = (Inr (Some x), d') \<and> settled S Map.empty d' \<and> (\<not> dk_locked d \<longrightarrow> \<not> dk_locked d')"
proof -
  obtain y where y: "fst (open_once crc real_fs False d) = Inr (Some y)" "x = make_index rt y"
    using x settled_holds [OF st] by (auto simp: index_at_def)
  obtain d' where d': "open_index crc real_fs pause rt False d = (Inr (Some x), d')" "open_once crc real_fs False d = (Inr (Some y), d')"
    using open_index_first [OF y(1), of pause rt] y(2) by auto
  have v: "view_of_index crc S (dx_manifest x)" using x by (simp add: index_at_def)
  have "settled S Map.empty d'" using real.open_once_inv [OF settled_inv [OF v] _ d'(2)] st by simp
  then show ?thesis using d' open_unlocked [OF _ d'(2)] by blast
qed

lemma settled_lock_bit:
  assumes "settled S N d"
  shows "settled S N (d\<lparr>dk_locked := b\<rparr>)"
proof -
  have "disk_wf d" using assms by (simp add: settled_def)
  then show ?thesis using touches_settled [OF lock_bit_frame assms] by simp
qed

lemma take_lock_free: "\<not> dk_locked d \<Longrightarrow> take_lock real_fs pause n d = (Inr (), d\<lparr>dk_locked := True\<rparr>)"
  by (subst take_lock.simps) (simp add: real_fs_ops real_lock_def)

lemma apply_plan_real:
  assumes c: "cut_ok E" and x: "index_at (o_crc E) (o_root E) S x" and fit: "update_fits E x ds ps rs" and st: "settled S Map.empty d"
  shows "\<exists>y d' T. map_option (conclude E real_fs) (apply_plan E real_fs cfg x ds ps rs (d, [])) = Some (Inr y, d') \<and>
    settled T Map.empty d' \<and> \<not> dk_locked d' \<and> index_at (o_crc E) (o_root E) T y \<and> index_after E x ds ps rs y"
proof -
  note f = index_at_facts [OF x settled_holds [OF st]]
  note v = f(7)
  let ?P = "update_names_of x (length rs)"
  have fits: "unat (next_segment_id (dx_manifest x)) + length rs < 2 ^ 32" "distinct (map segment_id (segments (dx_manifest x)))"
    using fit unfolding update_fits_def Let_def by blast+
  have P: "?P \<inter> dom S = {}" by (rule update_names_fresh [OF v f(1) fits])
  have st0: "real.staged S Map.empty ?P (d, [])" using st by (simp add: real.staged_def)
  obtain r1 w1 m0 ret N d2 fl where ap: "apply_plan E real_fs cfg x ds ps rs (d, []) = Some (r1, w1)"
    "(r1, w1) = inner (commit real_fs (o_crc E) (next_generation E m0) ret) (d2, fl)" "prepared E x ds ps rs (m0, ret) N" "real.staged S N ?P (d2, fl)"
    using real.apply_plan_steps [OF f(1) fit f(2) flushes_real [OF c] publishes_real order_refl P st0, of cfg] by auto
  let ?m = "next_generation E m0"
  let ?N = "kept S ?m N"
  let ?T = "new_view E ?N ?m"
  have n: "next_index E x ds ps rs N ?m" "set ret \<subseteq> update_retires x ds ps" using ap(3) by (simp_all add: prepared_def)
  note nv = next_index_view [OF v f(1,5) fit f(2) n(1)]
  have dom: "MANIFEST \<notin> dom ?N" "MANIFEST_TMP \<notin> dom S \<union> dom ?N"
    unfolding nv(2) using referenced_not_tmp(2,3) view_old_names(1) [OF v] by blast+
  have ret: "set ret \<inter> insert MANIFEST (dom ?N) = {}"
    unfolding nv(2) using n(2) nv(3) retired_in [OF f(1), of ds ps] referenced_not_tmp(2) by blast
  have "settled S ?N d2" using ap(4) settled_kept by (simp add: real.staged_def)
  from conclude_real [OF this dom ret, of E ?m fl] obtain dc where
    dc: "conclude E real_fs (inner (commit real_fs (o_crc E) ?m ret) (d2, fl)) = reopen E real_fs dc" "holds dc ?T" "settled ?T Map.empty dc" "\<not> dk_locked dc" by blast
  have dis: "dom N \<inter> dom S = {}" using next_index_names(1) [OF n(1)] P by blast
  obtain y where y: "fst (open_once (o_crc E) real_fs False dc) = Inr (Some y)" "index_after E x ds ps rs (make_index (o_root E) y)"
    "dx_manifest (make_index (o_root E) y) = ?m"
    using next_index_opens [OF x settled_holds [OF st] fit n(1) dis dc(2)] by blast
  let ?y = "make_index (o_root E) y"
  note man = y(3)
  note at = opens_index_at [OF nv(1) dc(2) y(1) man]
  obtain d' where d': "open_index (o_crc E) real_fs (o_pause E) (o_root E) False dc = (Inr (Some ?y), d')" "settled ?T Map.empty d'" "\<not> dk_locked d'"
    using open_real [OF at dc(3), of "o_pause E"] dc(4) by blast
  have "map_option (conclude E real_fs) (apply_plan E real_fs cfg x ds ps rs (d, [])) = Some (Inr ?y, d')"
    unfolding ap(1) option.map ap(2) dc(1) by (simp add: reopen_def and_do_def d' ok_with_def)
  then show ?thesis using d'(2,3) at y(2) by blast
qed

lemma update_real:
  assumes c: "cut_ok E" and x: "index_at (o_crc E) (o_root E) S x" and st: "settled S Map.empty d" and free: "\<not> dk_locked d"
    and pl: "plan_parts E read x files = (ds, ps, rs)" and fit: "update_fits E x ds ps rs"
  shows "\<exists>y d' T. update_index E real_fs cfg True (Inr files) read d = Some (Inr y, d') \<and>
    settled T Map.empty d' \<and> \<not> dk_locked d' \<and> index_at (o_crc E) (o_root E) T y \<and>
    (if pl_changes (update_plan E read x files) = [] then y = x else index_after E x ds ps rs y)"
proof -
  have lk: "take_lock real_fs (o_pause E) (o_tries E) d = (Inr (), d\<lparr>dk_locked := True\<rparr>)" by (rule take_lock_free [OF free])
  obtain d1 where d1: "open_index (o_crc E) real_fs (o_pause E) (o_root E) False (d\<lparr>dk_locked := True\<rparr>) = (Inr (Some x), d1)" "settled S Map.empty d1"
    using open_real [OF x settled_lock_bit [OF st]] by blast
  let ?d1 = "fs_unlock real_fs d1"
  have first: "and_do (io (fs_create_dir_all real_fs [])) (\<lambda>_. and_do (take_lock real_fs (o_pause E) (o_tries E)) (\<lambda>_.
      with_lock real_fs (open_index (o_crc E) real_fs (o_pause E) (o_root E) False))) d = (Inr (Some x), ?d1)"
  proof -
    have "fs_create_dir_all real_fs [] d = (Inr (), d)" by (simp add: real_fs_ops)
    then show ?thesis by (simp add: and_do_def io_def lk with_lock_def d1(1))
  qed
  have s1: "settled S Map.empty ?d1" "\<not> dk_locked ?d1" using settled_lock_bit [OF d1(2)] by (simp_all add: real_fs_ops real_unlock_def)
  have lk2: "take_lock real_fs (o_pause E) (o_tries E) ?d1 = (Inr (), ?d1\<lparr>dk_locked := True\<rparr>)" by (rule take_lock_free [OF s1(2)])
  obtain d2 where d2: "open_index (o_crc E) real_fs (o_pause E) (o_root E) False (?d1\<lparr>dk_locked := True\<rparr>) = (Inr (Some x), d2)" "settled S Map.empty d2"
    using open_real [OF x settled_lock_bit [OF s1(1)]] by blast
  have s2: "settled S Map.empty (fs_unlock real_fs d2)" "\<not> dk_locked (fs_unlock real_fs d2)"
    using settled_lock_bit [OF d2(2)] by (simp_all add: real_fs_ops real_unlock_def)
  have ui: "update_index E real_fs cfg True (Inr files) read d =
      (if pl_changes (update_plan E read x files) = [] then Some (Inr x, fs_unlock real_fs d2)
       else map_option (conclude E real_fs) (apply_plan E real_fs cfg x ds ps rs (d2, [])))"
    using pl unfolding update_index_def plan_parts_def by (simp add: first lk2 d2(1) Let_def)
  show ?thesis
  proof (cases "pl_changes (update_plan E read x files) = []")
    case True
    then show ?thesis using ui s2 x by auto
  next
    case False
    then show ?thesis using ui apply_plan_real [OF c x fit d2(2), of cfg] by simp
  qed
qed

end
