(* ===== verification/Update_Rows.thy ===== *)
theory Update_Rows
  imports Update_Outcome
begin

text \<open>
  What an update does to the rows (path, inode, time, size) of an index: together with the reconcile, it leaves
  exactly the rows of the crawled files (\<open>update_rows\<close>).
\<close>

section \<open>Rows of an index\<close>

definition doc_row :: "(bytes \<Rightarrow> bytes) \<Rightarrow> bytes \<Rightarrow> u32 \<times> doc_meta \<Rightarrow> row" where
  "doc_row lossy rt = (\<lambda>(i, m). (relative_path lossy rt (dm_path m), dm_inode m, time_to_nanos (dm_mtime m), dm_size m))"

definition state_of :: "(bytes \<Rightarrow> bytes) \<Rightarrow> bytes \<Rightarrow> u32 \<times> doc_meta \<Rightarrow> bytes \<times> file_state" where
  "state_of lossy rt = (\<lambda>(i, m). (relative_path lossy rt (dm_path m),
     \<lparr>fs_doc_id = i, fs_inode = dm_inode m, fs_mtime_nanos = time_to_nanos (dm_mtime m), fs_size = dm_size m,
      fs_content_hash = dm_content_hash m, fs_status = dm_status m\<rparr>))"

lemma update_fresh: "k \<notin> fst ` set xs \<Longrightarrow> AList.update k v xs = xs @ [(k, v)]"
  by (induction xs) auto

lemma from_docs_rows:
  assumes "distinct (map (fst \<circ> state_of lossy rt) docs)"
  shows "si_by_path (from_docs lossy rt docs) = map (state_of lossy rt) docs"
proof -
  let ?step = "\<lambda>(i, m) s. let rel = relative_path lossy rt (dm_path m) in
     \<lparr>si_by_path = AList.update rel \<lparr>fs_doc_id = i, fs_inode = dm_inode m, fs_mtime_nanos = time_to_nanos (dm_mtime m),
          fs_size = dm_size m, fs_content_hash = dm_content_hash m, fs_status = dm_status m\<rparr> (si_by_path s),
      si_by_inode = (if dm_inode m \<noteq> 0 then AList.update (dm_inode m) rel (si_by_inode s) else si_by_inode s)\<rparr>"
  have "si_by_path (fold ?step ds s) = si_by_path s @ map (state_of lossy rt) ds"
    if "distinct (map fst (si_by_path s) @ map (fst \<circ> state_of lossy rt) ds)" for ds s
    using that
  proof (induction ds arbitrary: s)
    case (Cons c ds)
    obtain i m where c: "c = (i, m)" by force
    have u: "si_by_path (?step c s) = si_by_path s @ [state_of lossy rt c]"
      using Cons.prems by (simp add: c Let_def state_of_def update_fresh)
    have "distinct (map fst (si_by_path (?step c s)) @ map (fst \<circ> state_of lossy rt) ds)" unfolding u using Cons.prems by (auto simp: comp_def)
    from Cons.IH [OF this] show ?case unfolding u by simp
  qed simp
  from this [of "\<lparr>si_by_path = [], si_by_inode = []\<rparr>" docs] assms show ?thesis by (simp add: from_docs_def)
qed

text \<open>A patch says what the document already says, or is a path the crawl has.\<close>

lemma doc_row_patch:
  assumes p: "row = (inode, mtime, sz, path)" and rel: "relative_path lossy rt (resolve rt path) = path"
  shows "doc_row lossy rt (i, patch_meta rt (Some row) m) = (path, inode, mtime, sz)"
  by (simp add: doc_row_def patch_meta_def p rel nanos_roundtrip(2))

lemma old_patch:
  assumes wf: "overlay_wf x" and m: "dx_doc x i = Some m" and old: "map_of (rev (overlay_patches x)) i = Some row"
  shows "patch_meta (dx_root x) (Some row) m = m"
proof -
  have "(i, row) \<in> set (overlay_patches x)" using map_of_SomeD [OF old] by simp
  then obtain p where p: "p \<in> set (dx_overlay x)" "op_doc_id p = i" "row = (op_inode p, op_mtime_nanos p, op_size p, op_path p)"
    by (auto simp: overlay_patches_def)
  have "overlay_for x i = Some p" using map_of_sorted_find [of x] wf p(1,2) by (simp add: overlay_wf_def)
  then show ?thesis using m unfolding dx_doc_def bind_eq_Some_conv by (auto simp: patch_meta_def p(3) bind_eq_Some_conv)
qed

lemma kept_doc_row:
  assumes wf: "overlay_wf x" and m: "(i, m) \<in> set (docs_iter x)" and s: "segs_sorted (dx_segments x)"
    and ps: "\<forall>(j, inode, mtime, sz, path) \<in> set ps. relative_path lossy (dx_root x) (resolve (dx_root x) path) = path"
  shows "map_option (doc_row lossy (dx_root x)) (doc_after x ds ps (i, m)) =
    kept_row (set ds) (merge_overlay [] ps ds) (state_of lossy (dx_root x) (i, m))"
proof (cases "i \<in> set ds")
  case True
  then show ?thesis by (simp add: doc_after_def kept_row_def state_of_def)
next
  case nd: False
  have d: "dx_doc x i = Some m" using docs_iter_set [OF s] m by blast
  have mo: "merge_overlay [] ps ds i = map_of (rev ps) i" using nd by (simp add: merge_overlay_eq)
  show ?thesis
  proof (cases "map_of (rev ps) i")
    case None
    then have "merged x ds ps i = map_of (rev (overlay_patches x)) i" using nd by (simp add: merged_def merge_overlay_eq map_add_def)
    then have "patch_meta (dx_root x) (merged x ds ps i) m = m"
      using old_patch [OF wf d] by (cases "map_of (rev (overlay_patches x)) i") (simp_all add: patch_meta_def)
    then show ?thesis using nd None by (simp add: doc_after_def kept_row_def state_of_def mo doc_row_def)
  next
    case (Some row)
    then have mg: "merged x ds ps i = Some row" using nd by (simp add: merged_def merge_overlay_eq)
    obtain inode mtime sz path where row: "row = (inode, mtime, sz, path)" by (cases row)
    have "(i, row) \<in> set ps" using map_of_SomeD [OF Some] by simp
    then have rel: "relative_path lossy (dx_root x) (resolve (dx_root x) path) = path" using ps by (auto simp: row)
    show ?thesis using nd doc_row_patch [OF row rel, of i m] unfolding doc_after_def kept_row_def state_of_def
      by (simp add: mg mo Some row)
  qed
qed

text \<open>The row of a document that was just indexed.\<close>

lemma stored_row:
  assumes "relative_path (o_lossy E) (o_root E) (resolve (o_root E) (relative_path (o_lossy E) (o_root E) (fe_path f))) =
    relative_path (o_lossy E) (o_root E) (fe_path f)"
  shows "doc_row (o_lossy E) (o_root E) (i, stored_meta E (o_root E) f) = file_row (o_lossy E) (o_root E) f"
proof -
  let ?m = "meta_of (o_unicode E) (o_read E) (o_hash E) f"
  have "dm_path ?m = fe_path f" "dm_inode ?m = fe_inode f" "dm_mtime ?m = fe_mtime f" "dm_size ?m = fe_size f"
    by (simp_all add: meta_of_def from_entry_def Let_def split: option.split)
  then show ?thesis using assms by (simp add: doc_row_def stored_meta_def file_row_def Let_def nanos_roundtrip(2))
qed

text \<open>Documents after an update, as rows.\<close>

lemma docs_after_rows:
  assumes wf: "overlay_wf x" and s: "segs_sorted (dx_segments x)" and rt: "dx_root x = o_root E"
    and ps: "\<forall>(j, inode, mtime, sz, path) \<in> set ps. relative_path (o_lossy E) (o_root E) (resolve (o_root E) path) = path"
    and rs: "\<forall>f \<in> set rs. relative_path (o_lossy E) (o_root E) (resolve (o_root E) (relative_path (o_lossy E) (o_root E) (fe_path f))) =
      relative_path (o_lossy E) (o_root E) (fe_path f)"
  shows "map (doc_row (o_lossy E) (o_root E)) (docs_after E x ds ps rs) =
    List.map_filter (kept_row (set ds) (merge_overlay [] ps ds)) (map (state_of (o_lossy E) (o_root E)) (docs_iter x)) @
    map (file_row (o_lossy E) (o_root E)) rs"
proof -
  let ?row = "doc_row (o_lossy E) (o_root E)" and ?kept = "kept_row (set ds) (merge_overlay [] ps ds)" and ?st = "state_of (o_lossy E) (o_root E)"
  have "map ?row (List.map_filter (doc_after x ds ps) xs) = List.map_filter ?kept (map ?st xs)" if "set xs \<subseteq> set (docs_iter x)" for xs
    using that
  proof (induction xs)
    case (Cons c xs)
    obtain i m where c: "c = (i, m)" by force
    have "map_option ?row (doc_after x ds ps c) = ?kept (?st c)"
      using kept_doc_row [OF wf _ s, of i m ps "o_lossy E" ds] Cons.prems ps unfolding rt c by simp
    then show ?case using Cons by (cases "doc_after x ds ps c") (auto simp: map_filter_simps dest: sym)
  qed (simp add: map_filter_simps)
  moreover have "map ?row (map (\<lambda>k. (of_nat (unat (dx_id_bound x) + k), stored_meta E (dx_root x) (rs ! k))) [0..<length rs]) =
      map (file_row (o_lossy E) (o_root E)) rs"
  proof (rule nth_equalityI)
    fix k assume "k < length (map ?row (map (\<lambda>k. (of_nat (unat (dx_id_bound x) + k), stored_meta E (dx_root x) (rs ! k))) [0..<length rs]))"
    then have k: "k < length rs" by simp
    have "?row (i, stored_meta E (o_root E) (rs ! k)) = file_row (o_lossy E) (o_root E) (rs ! k)" for i
      using rs k by (intro stored_row) simp
    then show "map ?row (map (\<lambda>k. (of_nat (unat (dx_id_bound x) + k), stored_meta E (dx_root x) (rs ! k))) [0..<length rs]) ! k =
        map (file_row (o_lossy E) (o_root E)) rs ! k" using k by (simp add: rt)
  qed simp
  ultimately show ?thesis unfolding docs_after_def by (simp only: map_append order_refl)
qed

section \<open>Where the changes of a plan come from\<close>

definition comes_from :: "(bytes \<Rightarrow> bytes) \<Rightarrow> bytes \<Rightarrow> state_index \<Rightarrow> file_entry list \<Rightarrow> change \<Rightarrow> bool" where
  "comes_from lossy rt prev crawled c \<longleftrightarrow> (case c of
     Delete i \<Rightarrow> i \<in> (fs_doc_id \<circ> snd) ` set (si_by_path prev)
   | Patch i inode mtime sz path \<Rightarrow> i \<in> (fs_doc_id \<circ> snd) ` set (si_by_path prev) \<and> path \<in> rel_of lossy rt ` set crawled
   | Reindex path kind inode mtime sz bs \<Rightarrow> path \<in> rel_of lossy rt ` set crawled)"

lemma known_prior: "si_get prev p = Some prior \<Longrightarrow> fs_doc_id prior \<in> (fs_doc_id \<circ> snd) ` set (si_by_path prev)"
  unfolding si_get_def by (force dest: map_of_SomeD)

lemma file_changes:
  assumes e: "e \<in> set crawled"
  shows "\<exists>cs. changes_of (reconcile_file lossy read hash prev rt e s) = changes_of s @ cs \<and> (\<forall>c \<in> set cs. comes_from lossy rt prev crawled c)"
proof -
  let ?rel = "rel_of lossy rt e"
  have rel: "?rel \<in> rel_of lossy rt ` set crawled" using e by blast
  have new: "comes_from lossy rt prev crawled (reindex_of e ?rel bs)" for bs using rel by (simp add: comes_from_def reindex_of_def)
  have old: "comes_from lossy rt prev crawled (Delete (fs_doc_id prior))" "comes_from lossy rt prev crawled (patch_of prior e ?rel)"
    if "si_get prev p = Some prior" for p prior
    using known_prior [OF that] rel by (simp_all add: comes_from_def patch_of_def)
  have hashed: "\<forall>c \<in> set (by_hash prior e ?rel bs h). comes_from lossy rt prev crawled c" if "si_get prev p = Some prior" for p prior bs h
    using old [OF that] new by (simp add: by_hash_def)
  show ?thesis
  proof (cases "si_get prev ?rel")
    case (Some prior)
    have "\<exists>cs. changes_of (known_file read hash prior e ?rel s) = changes_of s @ cs \<and> (\<forall>c \<in> set cs. comes_from lossy rt prev crawled c)" for s
      using old [OF Some] new hashed [OF Some]
      by (auto simp: known_file_def see_def push_changes_def count_read_def split: option.splits)
    from this [of "s\<lparr>rc_plan := (rc_plan s)\<lparr>pl_files_examined := pl_files_examined (rc_plan s) + 1\<rparr>\<rparr>"] show ?thesis
      using Some by (simp add: reconcile_file_def Let_def flip: rel_of_def)
  next
    case None
    have "\<exists>cs. changes_of (fst (renamed_file read hash prev e ?rel s)) = changes_of s @ cs \<and> (\<forall>c \<in> set cs. comes_from lossy rt prev crawled c)" for s
      using old hashed
      by (auto simp: renamed_file_def see_def push_changes_def count_read_def consume_def split: option.splits)
    from this [of "s\<lparr>rc_plan := (rc_plan s)\<lparr>pl_files_examined := pl_files_examined (rc_plan s) + 1\<rparr>\<rparr>"] obtain cs where
      cs: "changes_of (fst (renamed_file read hash prev e ?rel (s\<lparr>rc_plan := (rc_plan s)\<lparr>pl_files_examined := pl_files_examined (rc_plan s) + 1\<rparr>\<rparr>))) = changes_of s @ cs"
      "\<forall>c \<in> set cs. comes_from lossy rt prev crawled c" by auto
    obtain s' b where r: "renamed_file read hash prev e ?rel (s\<lparr>rc_plan := (rc_plan s)\<lparr>pl_files_examined := pl_files_examined (rc_plan s) + 1\<rparr>\<rparr>) = (s', b)" by force
    then have "reconcile_file lossy read hash prev rt e s = (if b then s' else see ?rel (push_changes [reindex_of e ?rel None] s'))"
      using None by (simp add: reconcile_file_def Let_def flip: rel_of_def)
    then have "changes_of (reconcile_file lossy read hash prev rt e s) = changes_of s @ cs @ (if b then [] else [reindex_of e ?rel None])"
      using cs(1) r by (simp add: see_def push_changes_def)
    then show ?thesis using cs(2) new by (intro exI [of _ "cs @ (if b then [] else [reindex_of e ?rel None])"]) simp
  qed
qed

lemma plan_comes_from:
  assumes "c \<in> set (pl_changes (reconcile lossy read hash prev rt crawled))"
  shows "comes_from lossy rt prev crawled c"
proof -
  have fold: "\<forall>c \<in> set (changes_of (fold (reconcile_file lossy read hash prev rt) es s)). comes_from lossy rt prev crawled c"
    if "\<forall>c \<in> set (changes_of s). comes_from lossy rt prev crawled c" "set es \<subseteq> set crawled" for es s
    using that
  proof (induction es arbitrary: s)
    case (Cons e es)
    obtain cs where "changes_of (reconcile_file lossy read hash prev rt e s) = changes_of s @ cs" "\<forall>c \<in> set cs. comes_from lossy rt prev crawled c"
      using file_changes [of e crawled lossy read hash prev rt s] Cons.prems(2) by auto
    then show ?case using Cons.IH [of "reconcile_file lossy read hash prev rt e s"] Cons.prems by auto
  qed simp
  have gone: "\<forall>c \<in> set (gone prev seen consumed). comes_from lossy rt prev crawled c" for seen consumed
    by (force simp: gone_def set_map_filter comes_from_def split: if_splits)
  show ?thesis using assms fold [of "\<lparr>rc_plan = plan_empty, rc_seen = {}, rc_consumed = {}\<rparr>" crawled] gone
    by (auto simp: reconcile_def Let_def push_changes_def plan_empty_def)
qed

text \<open>The parts of a plan: what is patched belongs to the index, and paths are those of the crawl.\<close>

lemma plan_parts_paths:
  assumes crawl: "crawl_ok (o_lossy E) read (o_root E) (from_docs (o_lossy E) (o_root E) (docs_iter x)) files" and rt: "o_root E \<noteq> []"
    and pl: "plan_parts E read x files = (ds, ps, rs)"
  shows "\<forall>(j, inode, mtime, sz, path) \<in> set ps. relative_path (o_lossy E) (o_root E) (resolve (o_root E) path) = path"
    and "\<forall>f \<in> set rs. relative_path (o_lossy E) (o_root E) (resolve (o_root E) (relative_path (o_lossy E) (o_root E) (fe_path f))) =
      relative_path (o_lossy E) (o_root E) (fe_path f)"
proof -
  let ?cs = "pl_changes (update_plan E read x files)" and ?rel = "relative_path (o_lossy E) (o_root E)"
  have plain: "?rel (resolve (o_root E) path) = path" if "path \<in> rel_of (o_lossy E) (o_root E) ` set files" for path
  proof -
    have "plain_rel (o_lossy E) path" using that crawl by (auto simp: crawl_ok_def)
    then show ?thesis using relative_resolve [OF rt] by (auto simp: plain_rel_def)
  qed
  have cf: "comes_from (o_lossy E) (o_root E) (from_docs (o_lossy E) (o_root E) (docs_iter x)) files c" if "c \<in> set ?cs" for c
    using that plan_comes_from unfolding update_plan_def by blast
  have ps: "ps = List.map_filter patch_row_of ?cs"
    and rs: "rs = map (\<lambda>c. case c of Reindex path kind inode mtime sz _ \<Rightarrow>
        \<lparr>fe_path = resolve (o_root E) path, fe_inode = inode, fe_mtime = nanos_to_time mtime, fe_size = sz, fe_kind = kind\<rparr>)
       (filter (\<lambda>c. new_row_of c \<noteq> None) ?cs)"
    using pl by (simp_all add: plan_parts_def sort_changes_eq)
  show "\<forall>(j, inode, mtime, sz, path) \<in> set ps. ?rel (resolve (o_root E) path) = path"
  proof clarify
    fix j inode mtime sz path assume "(j, inode, mtime, sz, path) \<in> set ps"
    then obtain c where c: "c \<in> set ?cs" "patch_row_of c = Some (j, inode, mtime, sz, path)" by (auto simp: ps set_map_filter)
    from c(2) have "c = Patch j inode mtime sz path" by (cases c) simp_all
    then show "?rel (resolve (o_root E) path) = path" using cf [OF c(1)] plain by (simp add: comes_from_def)
  qed
  show "\<forall>f \<in> set rs. ?rel (resolve (o_root E) (?rel (fe_path f))) = ?rel (fe_path f)"
  proof
    fix f assume "f \<in> set rs"
    then obtain c where c: "c \<in> set ?cs" "new_row_of c \<noteq> None" "f = (case c of Reindex path kind inode mtime sz _ \<Rightarrow>
        \<lparr>fe_path = resolve (o_root E) path, fe_inode = inode, fe_mtime = nanos_to_time mtime, fe_size = sz, fe_kind = kind\<rparr>)"
      unfolding rs by auto
    from c(2) obtain path kind inode mtime sz bs where r: "c = Reindex path kind inode mtime sz bs" by (cases c) simp_all
    then have "?rel (fe_path f) = path" using plain cf [OF c(1)] c(3) by (simp add: comes_from_def)
    then show "?rel (resolve (o_root E) (?rel (fe_path f))) = ?rel (fe_path f)" using plain cf [OF c(1)] r by (simp add: comes_from_def)
  qed
qed

section \<open>The rows of an updated index\<close>

definition paths_distinct :: "'w outside \<Rightarrow> disk_index \<Rightarrow> bool" where
  "paths_distinct E x \<longleftrightarrow> distinct (map (fst \<circ> doc_row (o_lossy E) (o_root E)) (docs_iter x))"

lemma map_filter_sorted:
  assumes "sorted_wrt Q xs" and "\<And>a b y z. a \<in> set xs \<Longrightarrow> b \<in> set xs \<Longrightarrow> Q a b \<Longrightarrow> f a = Some y \<Longrightarrow> f b = Some z \<Longrightarrow> R y z"
  shows "sorted_wrt R (List.map_filter f xs)"
  using assms
proof (induction xs)
  case (Cons a xs)
  have "sorted_wrt R (List.map_filter f xs)"
  proof (rule Cons.IH)
    show "R y z" if "c \<in> set xs" "b \<in> set xs" "Q c b" "f c = Some y" "f b = Some z" for c b y z
      by (rule Cons.prems(2) [OF _ _ that(3-5)]) (use that in simp_all)
  qed (use Cons.prems in simp)
  moreover have "R y z" if "f a = Some y" "b \<in> set xs" "f b = Some z" for b y z
    by (rule Cons.prems(2) [OF _ _ _ that(1,3)]) (use Cons.prems(1) that(2) in simp_all)
  ultimately show ?case by (auto simp: map_filter_simps set_map_filter split: option.splits)
qed (simp add: map_filter_simps)

lemma docs_ids_distinct:
  assumes s: "segs_sorted (dx_segments x)"
  shows "distinct (map fst (docs_iter x))"
proof -
  let ?lt = "\<lambda>a b. unat (fst a) < unat (fst b)"
  have ids: "unat (base_doc (seg_entry t)) \<le> unat (fst d) \<and> unat (fst d) < end_doc (seg_entry t)"
    if t: "t \<in> set (dx_segments x)" and d: "d \<in> set (docs_of_segment x t)" for t d
  proof -
    obtain l where l: "l < unat (seg_num_docs t)" "fst d = base_doc (seg_entry t) + of_nat l"
      using d by (auto simp: docs_of_segment_def set_map_filter Let_def)
    have "seg_num_docs t = num_docs (seg_entry t)" using s t by (simp add: segs_sorted_def)
    then show ?thesis using owned_id(1) [OF s t l(1)] l by (simp add: end_doc_def)
  qed
  have seg: "sorted_wrt ?lt (docs_of_segment x t)" if t: "t \<in> set (dx_segments x)" for t
    unfolding docs_of_segment_def
  proof (rule map_filter_sorted [where Q = "(<)"])
    fix a b y z assume "a \<in> set [0..<unat (seg_num_docs t)]" "b \<in> set [0..<unat (seg_num_docs t)]" "a < b"
      "(let i = base_doc (seg_entry t) + of_nat a in map_option (\<lambda>m. (i, m)) (dx_doc x i)) = Some y"
      "(let i = base_doc (seg_entry t) + of_nat b in map_option (\<lambda>m. (i, m)) (dx_doc x i)) = Some z"
    then show "unat (fst y) < unat (fst z)" using owned_id(1) [OF s t] by (auto simp: Let_def)
  qed simp
  have "sorted_wrt ?lt (concat (map (docs_of_segment x) ss))"
    if "set ss \<subseteq> set (dx_segments x)" "sorted_wrt (\<lambda>a b. end_doc (seg_entry a) \<le> unat (base_doc (seg_entry b))) ss" for ss
    using that
  proof (induction ss)
    case (Cons t ss)
    have "?lt a b" if a: "a \<in> set (docs_of_segment x t)" and b: "b \<in> set (concat (map (docs_of_segment x) ss))" for a b
    proof -
      obtain u where u: "u \<in> set ss" "b \<in> set (docs_of_segment x u)" using b by auto
      have "unat (fst a) < end_doc (seg_entry t)" "unat (base_doc (seg_entry u)) \<le> unat (fst b)"
        using ids [OF _ a] ids [OF _ u(2)] Cons.prems(1) u(1) by auto
      moreover have "end_doc (seg_entry t) \<le> unat (base_doc (seg_entry u))" using Cons.prems(2) u(1) by simp
      ultimately show ?thesis by linarith
    qed
    then show ?case using Cons seg [of t] by (simp add: sorted_wrt_append)
  qed simp
  then have "sorted_wrt ?lt (docs_iter x)" using s unfolding docs_iter_def segs_sorted_def by blast
  then have "sorted_wrt (<) (map (unat \<circ> fst) (docs_iter x))" by (simp add: sorted_wrt_map)
  then have "distinct (map (unat \<circ> fst) (docs_iter x))" by (simp add: strict_sorted_iff)
  then show ?thesis by (simp add: distinct_map comp_inj_on_iff inj_on_def)
qed

lemma update_rows:
  assumes x: "index_ok crc verify x" "overlay_wf x" "dx_root x = o_root E" and d: "paths_distinct E x"
    and crawl: "crawl_ok (o_lossy E) read (o_root E) (from_docs (o_lossy E) (o_root E) (docs_iter x)) files" and rt: "o_root E \<noteq> []"
    and pl: "plan_parts E read x files = (ds, ps, rs)"
  shows "mset (map (doc_row (o_lossy E) (o_root E)) (docs_after E x ds ps rs)) = mset (map (file_row (o_lossy E) (o_root E)) files)"
proof -
  let ?prev = "from_docs (o_lossy E) (o_root E) (docs_iter x)"
  have s: "segs_sorted (dx_segments x)" by (rule index_ok_sorted [OF x(1)])
  have "distinct (map (fst \<circ> state_of (o_lossy E) (o_root E)) (docs_iter x))"
    using d by (simp add: paths_distinct_def comp_def doc_row_def state_of_def split_def)
  note bp = from_docs_rows [OF this]
  have "map (fs_doc_id \<circ> snd) (si_by_path ?prev) = map fst (docs_iter x)" unfolding bp by (auto simp: state_of_def)
  then have ok: "state_ok ?prev" using docs_ids_distinct [OF s] from_docs_keys by (simp add: state_ok_def)
  have "mset (map (doc_row (o_lossy E) (o_root E)) (docs_after E x ds ps rs)) =
      rows_after (o_lossy E) (o_root E) ?prev (pl_changes (update_plan E read x files))"
    unfolding docs_after_rows [OF x(2) s x(3) plan_parts_paths [OF crawl rt pl]] rows_after_def bp
    using pl by (simp add: plan_parts_def)
  also have "\<dots> = mset (map (file_row (o_lossy E) (o_root E)) files)"
    unfolding update_plan_def by (rule reconcile_converges_lemma [OF ok crawl rt])
  finally show ?thesis .
qed

end
