(* ===== verification/Commit_Properties.thy ===== *)
theory Commit_Properties
  imports Reader
begin

text \<open>
  The properties of the store on disk: commits and crashes, the lock, and what an opened index answers.
\<close>

section \<open>Sample disks\<close>

definition no_crc :: "bytes \<Rightarrow> u32" where "no_crc bs = 0"

definition empty_manifest :: "u64 \<Rightarrow> manifest" where
  "empty_manifest g = \<lparr>generation = g, next_segment_id = 1, committed_unix_nanos = 0, state_gen = 0, state_crc = 0, state_len = 0, segments = []\<rparr>"



text \<open>A disk with the given files, all of them durable.\<close>

definition disk_with :: "(name \<times> bytes) list \<Rightarrow> disk" where
  "disk_with fs = \<lparr>dk_base = zip (map fst fs) [0..<length fs], dk_pending = [], dk_data = (\<lambda>i. snd (fs ! i)),
     dk_synced = {..<length fs}, dk_next = length fs, dk_locked = False\<rparr>"

definition files_view :: "(name \<times> bytes) list \<Rightarrow> view" where
  "files_view fs n = map_option Some (map_of fs n)"

definition crash_plan :: "u64 \<Rightarrow> fault_plan" where
  "crash_plan n = \<lparr>fail_write = None, fail_sync = None, discard_write = None, crash_at_op = Some n\<rparr>"


lemma dk_dir_disk_with: "distinct (map fst fs) \<Longrightarrow> dk_dir (disk_with fs) n = Some i \<longleftrightarrow> i < length fs \<and> fst (fs ! i) = n"
  by (auto simp: dk_dir_def dk_entries_def disk_with_def in_set_zip dest!: map_of_SomeD)
    (auto simp: in_set_zip intro!: map_of_is_SomeI exI [of _ i])

lemma settled_disk_with:
  assumes "distinct (map fst fs)"
  shows "settled (files_view fs) Map.empty (disk_with fs)"
proof -
  have "dir_ok (dk_next (disk_with fs)) (dk_dir (disk_with fs))" unfolding dir_ok_def dk_dir_disk_with [OF assms]
    using assms by (auto simp: disk_with_def distinct_conv_nth)
  then have "disk_wf (disk_with fs)" by (simp add: disk_wf_def dk_dir_def dk_entries_def) (simp add: disk_with_def)
  moreover have "visible (disk_with fs) (files_view fs)"
    unfolding visible_def
  proof (intro allI impI)
    fix n b assume "files_view fs n = Some b"
    then obtain bs where b: "b = Some bs" "map_of fs n = Some bs" by (auto simp: files_view_def)
    then obtain i where i: "i < length fs" "fs ! i = (n, bs)" by (metis in_set_conv_nth map_of_SomeD)
    then have "dk_dir (disk_with fs) n = Some i" using dk_dir_disk_with [OF assms, of n i] by simp
    then show "shows_entry (disk_with fs) (dk_dir (disk_with fs) n) b" using b i by (simp add: shows_entry_def disk_with_def)
  qed
  ultimately show ?thesis by (simp add: settled_def solid_def visible_def) (simp add: disk_with_def)
qed

lemma power_loss_exists: "\<exists>d'. power_loss j d d'"
  by (rule exI [of _ "d\<lparr>dk_pending := [], dk_synced := UNIV, dk_locked := False\<rparr>"])
    (auto simp: power_loss_def intro!: exI [of _ "[]"])

lemma decode_empty: "manifest_decode no_crc (manifest_encode no_crc (empty_manifest g)) = Inr (empty_manifest g)"
  by (rule manifest_roundtrip) (simp add: manifest_ok_def empty_manifest_def)

section \<open>Commits and crashes\<close>

text \<open>
  C32: a commit is atomic. Start from a disk that holds the old index durably and shows the new files; run the commit
  under any faults the file system may produce (a write or a sync that fails, a write that is lost, a crash before
  any operation), then lose power with the directory updates reaching the disk in order (or with nothing to retire).
  Reopening gives what the old index gives, or what the new one gives; it gives the old one whenever the
  commit reported an error.
\<close>

theorem commit_atomic:
  assumes "commit faulty_fs crc m retire w = (r, w')" and "settled Old N (ff_disk w)"
    and "index_view crc Old old_m" and "index_view crc (N(MANIFEST \<mapsto> Some (manifest_encode crc m))) m"
    and "MANIFEST_TMP \<notin> dom Old \<union> dom N" and "MANIFEST \<notin> dom N" and "set retire \<inter> insert MANIFEST (dom N) = {}"
    and "in_order \<or> retire = []" and "power_loss in_order (ff_disk w') d'" and "holds d0 Old"
    and "holds d1 (N(MANIFEST \<mapsto> Some (manifest_encode crc m)))"
  shows "fst (open_once crc real_fs verify d') = fst (open_once crc real_fs verify d0) \<or>
    r = Inr () \<and> fst (open_once crc real_fs verify d') = fst (open_once crc real_fs verify d1)"
proof -
  have "holds d' Old \<or> r = Inr () \<and> holds d' (N(MANIFEST \<mapsto> Some (manifest_encode crc m)))"
  proof (cases "r = Inr ()")
    case True
    then have "\<forall>j d'. (j \<or> retire = []) \<longrightarrow> power_loss j (ff_disk w') d' \<longrightarrow>
        holds d' Old \<or> holds d' (N(MANIFEST \<mapsto> Some (manifest_encode crc m)))"
      using fault.commit_outcome [OF assms(1,2,5,6,7)] by blast
    then show ?thesis using assms(8,9) True by blast
  next
    case False
    then have "settled Old N (ff_disk w')" using fault.commit_outcome [OF assms(1,2,5,6,7)] by blast
    then have "solid (ff_disk w') Old" by (simp add: settled_def)
    then show ?thesis using solid_survives assms(9) by blast
  qed
  then show ?thesis using open_once_same [OF assms(3)] open_once_same [OF assms(4)] assms(10,11) by blast
qed

lemma commit_atomic_witness:
  "\<exists>r w' d'. commit faulty_fs no_crc (empty_manifest 2) [] (set_plan (crash_plan 7) (fault_new (disk_with [(MANIFEST, manifest_encode no_crc (empty_manifest 1))]))) = (r, w') \<and>
     power_loss False (ff_disk w') d' \<and>
     (fst (open_once no_crc real_fs True d') = fst (open_once no_crc real_fs True (disk_with [(MANIFEST, manifest_encode no_crc (empty_manifest 1))])) \<or>
      r = Inr () \<and> fst (open_once no_crc real_fs True d') =
        fst (open_once no_crc real_fs True (disk_with [(MANIFEST, manifest_encode no_crc (empty_manifest 2))])))"
proof -
  let ?fs = "\<lambda>g. [(MANIFEST, manifest_encode no_crc (empty_manifest g))]"
  let ?w = "set_plan (crash_plan 7) (fault_new (disk_with (?fs 1)))"
  obtain r w' where c: "commit faulty_fs no_crc (empty_manifest 2) [] ?w = (r, w')" by force
  obtain d' where d': "power_loss False (ff_disk w') d'" using power_loss_exists by blast
  have st: "settled (files_view (?fs g)) Map.empty (disk_with (?fs g))" for g by (rule settled_disk_with) simp
  then have h: "holds (disk_with (?fs g)) (files_view (?fs g))" for g by (auto simp: settled_def solid_def intro: visible_holds)
  have v: "index_view no_crc (files_view (?fs g)) (empty_manifest g)" for g
    using decode_empty by (simp add: index_view_def files_view_def) (simp add: referenced_files_def empty_manifest_def)
  have n: "files_view (?fs 2) = Map.empty(MANIFEST \<mapsto> Some (manifest_encode no_crc (empty_manifest 2)))" by (auto simp: files_view_def)
  have "MANIFEST_TMP \<notin> dom (files_view (?fs 1)) \<union> dom (Map.empty :: view)" by (auto simp: files_view_def split: if_splits)
  then have "fst (open_once no_crc real_fs True d') = fst (open_once no_crc real_fs True (disk_with (?fs 1))) \<or>
      r = Inr () \<and> fst (open_once no_crc real_fs True d') = fst (open_once no_crc real_fs True (disk_with (?fs 2)))"
    using st [of 1] h [of 2] v [of 2]
    by (intro commit_atomic [OF c, where Old = "files_view (?fs 1)" and N = Map.empty and old_m = "empty_manifest 1" and d' = d' and in_order = False])
      (simp_all add: fault_new_def set_plan_def n v h d' del: Un_iff)
  then show ?thesis using c d' by blast
qed

text \<open>
  C33: a commit is durable. On a file system without faults it succeeds, and after any loss of power, whatever
  selection of directory updates reaches the disk, reopening gives what the new index gives.
\<close>

theorem commit_durable:
  assumes "settled Old N d" and "index_view crc (N(MANIFEST \<mapsto> Some (manifest_encode crc m))) m"
    and "MANIFEST_TMP \<notin> dom Old \<union> dom N" and "MANIFEST \<notin> dom N" and "set retire \<inter> insert MANIFEST (dom N) = {}"
    and "holds d1 (N(MANIFEST \<mapsto> Some (manifest_encode crc m)))"
  shows "\<exists>dc. commit real_fs crc m retire d = (Inr (), dc) \<and>
    (\<forall>in_order d'. power_loss in_order dc d' \<longrightarrow> fst (open_once crc real_fs verify d') = fst (open_once crc real_fs verify d1))"
proof -
  obtain dc where dc: "commit real_fs crc m retire d = (Inr (), dc)" "solid dc (N(MANIFEST \<mapsto> Some (manifest_encode crc m)))"
    using commit_real [OF assms(1,3,4,5)] by blast
  then show ?thesis using solid_survives [OF dc(2)] open_once_same [OF assms(2) _ assms(6)] by blast
qed

lemma commit_durable_witness:
  "\<exists>dc. commit real_fs no_crc (empty_manifest 2) [] (disk_with [(MANIFEST, manifest_encode no_crc (empty_manifest 1))]) = (Inr (), dc) \<and>
    (\<forall>in_order d'. power_loss in_order dc d' \<longrightarrow> fst (open_once no_crc real_fs True d') =
      fst (open_once no_crc real_fs True (disk_with [(MANIFEST, manifest_encode no_crc (empty_manifest 2))])))"
proof -
  let ?fs = "\<lambda>g. [(MANIFEST, manifest_encode no_crc (empty_manifest g))]"
  have st: "settled (files_view (?fs g)) Map.empty (disk_with (?fs g))" for g by (rule settled_disk_with) simp
  then have h: "holds (disk_with (?fs g)) (files_view (?fs g))" for g by (auto simp: settled_def solid_def intro: visible_holds)
  have v: "index_view no_crc (files_view (?fs g)) (empty_manifest g)" for g
    using decode_empty by (simp add: index_view_def files_view_def) (simp add: referenced_files_def empty_manifest_def)
  have n: "files_view (?fs 2) = Map.empty(MANIFEST \<mapsto> Some (manifest_encode no_crc (empty_manifest 2)))" by (auto simp: files_view_def)
  have t: "MANIFEST_TMP \<notin> dom (files_view (?fs 1)) \<union> dom (Map.empty :: view)" by (auto simp: files_view_def split: if_splits)
  show ?thesis by (rule commit_durable [OF st _ t]) (use h [of 2] v [of 2] in \<open>simp_all add: n\<close>)
qed

text \<open>
  C34: the writer lock. A writer that retries gets the lock if its holder lets go of it before the deadline.
\<close>

theorem take_lock_live:
  assumes "k \<le> n" and "\<not> dk_locked ((pause ^^ k) d)"
  shows "fst (take_lock real_fs pause n d) = Inr ()"
  using assms by (auto simp: take_lock_real)

lemma take_lock_live_witness:
  "fst (take_lock real_fs real_unlock 5 ((disk_with [])\<lparr>dk_locked := True\<rparr>)) = Inr () \<and>
   fst (take_lock real_fs (\<lambda>d. d) 5 ((disk_with [])\<lparr>dk_locked := True\<rparr>)) = Inl Locked"
proof -
  have "fst (take_lock real_fs real_unlock 5 ((disk_with [])\<lparr>dk_locked := True\<rparr>)) = Inr ()"
    by (rule take_lock_live [of 1]) (simp_all add: real_unlock_def)
  moreover have "((\<lambda>d. d) ^^ k) d = d" for k and d :: disk by (induction k) simp_all
  then have "fst (take_lock real_fs (\<lambda>d. d) 5 ((disk_with [])\<lparr>dk_locked := True\<rparr>)) = Inl Locked"
    unfolding take_lock_real by simp
  ultimately show ?thesis ..
qed


end
