(* ===== verification/Build_Properties.thy ===== *)
theory Build_Properties
  imports Build_Outcome Query_Properties Commit_Properties
begin

text \<open>
  The properties of a build and of the index it leaves on disk.
\<close>

section \<open>A sample environment\<close>

definition sample_outside :: "'w outside" where
  "sample_outside = \<lparr>o_crc = no_crc, o_unicode = sample_unicode, o_hash = (\<lambda>_. 0), o_read = sample_read, o_lossy = (\<lambda>bs. bs),
     o_memory = (\<lambda>_. 0), o_cut = (\<lambda>bs. [bs]), o_pause = (\<lambda>w. w), o_tries = 3, o_threads = 2, o_now = 0, o_root = []\<rparr>"

definition sample_config :: build_config where
  "sample_config = \<lparr>bc_docs_per_segment = 2, bc_segment_bytes = 1000, bc_shard_size = 1\<rparr>"

lemma sample_cut: "cut_ok sample_outside"
  by (simp add: cut_ok_def sample_outside_def)

lemma sample_corpus: "corpus_fits sample_outside sample_files"
proof -
  have p: "relative_path (\<lambda>bs. bs) [] (utf8_encode (str s)) = utf8_encode (str s) \<and> utf8_valid (utf8_encode (str s)) \<and> length (utf8_encode (str s)) = 1"
    if "s \<in> {''a'', ''b'', ''c''}" for s
    using that by (elim insertE emptyE; hypsubst) code_simp+
  have t: "length (tokenize sample_unicode (str ''Foo bar foo'')) = 3" "length (tokenize sample_unicode (str ''bar baz'')) = 2"
    using arg_cong [OF sample_tokens(1), of length] arg_cong [OF sample_tokens(2), of length] by simp_all
  have "tokens_of sample_unicode sample_read sample_files = 5"
    by (simp add: tokens_of_def sample_files_def sample_texts t)
  moreover have "\<forall>cf \<in> set sample_files. utf8_valid (relative_path (\<lambda>bs. bs) [] (fe_path cf))"
    "sum_list (map (\<lambda>cf. length (relative_path (\<lambda>bs. bs) [] (fe_path cf))) sample_files) \<le> 0xffffffff"
    using p by (simp_all add: sample_files_def sample_file_def)
  ultimately show ?thesis using sample_files_fit by (simp add: corpus_fits_def sample_outside_def)
qed

section \<open>Building\<close>

text \<open>
  C36: a build and a search of its index, end to end over the file system. In a directory without an index, whatever its
  other files, a build of the crawled files succeeds, however it cuts them into segments. The index it returns,
  reopened from disk, lists exactly these files, in order, with the metadata the shards recorded; and a query of
  terms of at most 512 bytes evaluates to exactly the files whose text it matches, each once.
\<close>

theorem build_then_search:
  assumes "cut_ok E" and "corpus_fits E files" and "disk_wf d" and "\<not> dk_locked d" and "dk_file d MANIFEST = None"
  shows "\<exists>x d'. build_index E real_fs cfg True (Inr files) d = Some (Inr x, d') \<and> docs_len x = length files \<and>
    docs_iter x = map (\<lambda>i. (of_nat i, stored_meta E (o_root E) (files ! i))) [0..<length files] \<and>
    (\<forall>nd b. disk_query_ok nd \<longrightarrow> (\<exists>hits. evaluate disk_segment_ops disk_reader_ops x nd b = Some hits \<and>
       map h_doc hits = map of_nat (filter (\<lambda>i. file_matches (o_unicode E) (o_read E) nd (files ! i)) [0..<length files])))"
proof -
  obtain x d' where x: "build_index E real_fs cfg True (Inr files) d = Some (Inr x, d')" "index_over E files x" "dx_root x = o_root E"
    using first_build_lemma [OF assms] by blast
  show ?thesis using x(1) built_docs_iter [OF x(2)] built_evaluate [OF x(2)] unfolding x(3) by blast
qed

lemma build_then_search_witness:
  "\<exists>x d' hits. build_index sample_outside real_fs sample_config True (Inr sample_files) (disk_with [(''notes'', [1])]) = Some (Inr x, d') \<and>
     docs_len x = 3 \<and> evaluate disk_segment_ops disk_reader_ops x sample_query (so_bm25 search_options_default) = Some hits \<and> map h_doc hits = [2]"
proof -
  let ?d = "disk_with [(''notes'', [1])]"
  have d: "disk_wf ?d" "\<not> dk_locked ?d" using settled_disk_with [of "[(''notes'', [1])]"] by (simp_all add: settled_def disk_with_def)
  have f: "dk_file ?d MANIFEST = None" by (simp add: dk_file_def dk_dir_def dk_entries_def disk_with_def MANIFEST_def)
  have q: "disk_query_ok sample_query"
  proof -
    have "length (utf8_encode (str ''bar'')) = 3" "length (utf8_encode (str ''foo'')) = 3" by code_simp+
    then show ?thesis by (simp add: disk_query_ok_def query_ok_def sample_query_def sample_scalars MAX_TERM_BYTES_def)
  qed
  obtain x d' where x: "build_index sample_outside real_fs sample_config True (Inr sample_files) ?d = Some (Inr x, d')" "docs_len x = length sample_files"
    "\<forall>nd b. disk_query_ok nd \<longrightarrow> (\<exists>hits. evaluate disk_segment_ops disk_reader_ops x nd b = Some hits \<and>
       map h_doc hits = map of_nat (filter (\<lambda>i. file_matches (o_unicode (sample_outside :: disk outside)) (o_read (sample_outside :: disk outside)) nd (sample_files ! i)) [0..<length sample_files]))"
    using build_then_search [OF sample_cut sample_corpus d f, of sample_config] by blast
  have "o_unicode (sample_outside :: disk outside) = sample_unicode" "o_read (sample_outside :: disk outside) = sample_read"
    by (simp_all add: sample_outside_def)
  then show ?thesis using x q sample_matches by (fastforce simp: sample_files_def)
qed

text \<open>
  C37: a rebuild is atomic. Start from a disk that durably holds an index, and run the build under any faults the file
  system may produce: a write or sync that fails, a write that is lost, a crash before any operation. It does not
  panic; and after a loss of power (directory updates reaching the disk in order) reopening gives what the old index
  gives, or an index over exactly the crawled files, one generation later.
\<close>

theorem build_atomic:
  assumes "cut_ok E" and "corpus_fits E files" and "view_of_index (o_crc E) S old" and "unat (next_segment_id old) + length files < 2 ^ 32"
    and "fault.patient E" and "settled S Map.empty (ff_disk w)" and "holds d0 S"
  shows "\<exists>r w'. build_index E faulty_fs cfg True (Inr files) w = Some (r, w') \<and>
    (\<forall>x. r = Inr x \<longrightarrow> generation (dx_manifest x) = generation old + 1) \<and>
    (\<forall>d'. power_loss True (ff_disk w') d' \<longrightarrow>
       fst (open_once (o_crc E) real_fs verify d') = fst (open_once (o_crc E) real_fs verify d0) \<or>
       (\<exists>y. fst (open_once (o_crc E) real_fs verify d') = Inr (Some y) \<and> index_over E files (make_index rt y) \<and>
          generation (dx_manifest (make_index rt y)) = generation old + 1))"
proof -
  obtain r w' where r: "build_index E faulty_fs cfg True (Inr files) w = Some (r, w')"
    "(\<exists>e. r = Inl e) \<and> settled S Map.empty (ff_disk w') \<or>
     (\<exists>N m. new_index E old files N m \<and> switched S (new_view E N m) (ff_disk w') \<and> (\<forall>x. r = Inr x \<longrightarrow> dx_manifest x = m))"
    using fault.build_outcome [OF assms(1-6), of cfg] by (elim exE conjE) (rule that)
  have v: "index_view (o_crc E) S old" using assms(3) by (simp add: view_of_index_def)
  let ?old = "\<lambda>d'. fst (open_once (o_crc E) real_fs verify d') = fst (open_once (o_crc E) real_fs verify d0)"
  let ?new = "\<lambda>d'. \<exists>y. fst (open_once (o_crc E) real_fs verify d') = Inr (Some y) \<and> index_over E files (make_index rt y) \<and>
    generation (dx_manifest (make_index rt y)) = generation old + 1"
  have old: "?old d'" if "holds d' S" for d' by (rule open_once_same [OF v that assms(7)])
  have "(\<forall>x. r = Inr x \<longrightarrow> generation (dx_manifest x) = generation old + 1) \<and> (\<forall>d'. power_loss True (ff_disk w') d' \<longrightarrow> ?old d' \<or> ?new d')"
    using r(2)
  proof (elim disjE exE conjE)
    fix e assume "r = Inl e" "settled S Map.empty (ff_disk w')"
    from this(2) have "solid (ff_disk w') S" by (simp add: settled_def)
    then have "?old d'" if "power_loss True (ff_disk w') d'" for d' using old [OF solid_survives [OF _ that]] by simp
    then show ?thesis using \<open>r = Inl e\<close> by simp
  next
    fix N m assume m: "new_index E old files N m" "switched S (new_view E N m) (ff_disk w')" "\<forall>x. r = Inr x \<longrightarrow> dx_manifest x = m"
    have g: "generation m = generation old + 1" using m(1) by (auto simp: new_index_def built_manifest_def)
    have new: "?new d'" if "holds d' (new_view E N m)" for d'
      using new_index_opens [OF m(1) assms(2,4) that, of verify rt] g by auto
    have "?old d' \<or> ?new d'" if "power_loss True (ff_disk w') d'" for d'
    proof -
      have "holds d' S \<or> holds d' (new_view E N m)" using m(2) that by (simp add: switched_def)
      then show ?thesis using old new by blast
    qed
    then show ?thesis using m(3) g by simp
  qed
  then show ?thesis using r(1) by simp
qed

lemma build_atomic_witness:
  "\<exists>r w'. build_index sample_outside faulty_fs sample_config True (Inr sample_files)
       (set_plan (crash_plan 9) (fault_new (disk_with [(MANIFEST, manifest_encode no_crc (empty_manifest 1))]))) = Some (r, w') \<and>
     (\<forall>d'. power_loss True (ff_disk w') d' \<longrightarrow>
       fst (open_once no_crc real_fs True d') = fst (open_once no_crc real_fs True (disk_with [(MANIFEST, manifest_encode no_crc (empty_manifest 1))])) \<or>
       (\<exists>y. fst (open_once no_crc real_fs True d') = Inr (Some y) \<and> generation (dx_manifest (make_index [] y)) = 2))"
proof -
  let ?fs = "[(MANIFEST, manifest_encode no_crc (empty_manifest 1))]" and ?E = "sample_outside :: fault_fs outside"
  let ?w = "set_plan (crash_plan 9) (fault_new (disk_with ?fs))"
  have st: "settled (files_view ?fs) Map.empty (disk_with ?fs)" by (rule settled_disk_with) simp
  then have st': "settled (files_view ?fs) Map.empty (ff_disk ?w)" by (simp add: set_plan_def fault_new_def)
  have h: "holds (disk_with ?fs) (files_view ?fs)" using st by (auto simp: settled_def solid_def intro: visible_holds)
  have crc: "o_crc ?E = no_crc" by (simp add: sample_outside_def)
  have v: "view_of_index (o_crc ?E) (files_view ?fs) (empty_manifest 1)"
    using decode_empty [of 1] unfolding crc by (auto simp: view_of_index_def index_view_def files_view_def referenced_files_def empty_manifest_def split: if_splits)
  have "\<exists>b. ff_disk w = (ff_disk w)\<lparr>dk_locked := b\<rparr>" for w :: fault_fs by (rule exI [of _ "dk_locked (ff_disk w)"]) simp
  then have p: "fault.patient ?E" by (simp add: fault.patient_def sample_outside_def)
  have k: "unat (next_segment_id (empty_manifest 1)) + length sample_files < 2 ^ 32" by (simp add: empty_manifest_def sample_files_def)
  have "generation (empty_manifest 1) + 1 = 2" by (simp add: empty_manifest_def)
  then show ?thesis using build_atomic [OF sample_cut sample_corpus v k p st' h, of sample_config True "[]"] unfolding crc by metis
qed

section \<open>The opened index\<close>

text \<open>
  C38: what \<open>open\<close> returns is well formed, on any file system. Its manifest is, its segments are those of the manifest in
  ascending and disjoint ranges of ids, the files of each segment agree with its entry (lengths, checksums, counts,
  the deletion bitmap), and an id is located in the one segment that owns it.
\<close>

theorem open_well_formed:
  assumes "open_index crc F pause rt verify w = (Inr (Some x), w')"
  shows "manifest_ok (dx_manifest x) \<and> map seg_entry (dx_segments x) = segments (dx_manifest x) \<and>
    (\<forall>s \<in> set (dx_segments x). seg_valid crc verify s) \<and> segs_sorted (dx_segments x) \<and>
    (\<forall>i s l. locate x i = Some (s, l) \<longleftrightarrow> s \<in> set (dx_segments x) \<and> owns s i \<and> l = i - base_doc (seg_entry s))"
proof -
  have ok: "index_ok crc verify x" by (rule open_index_ok [OF assms])
  have s: "segs_sorted (dx_segments x)" by (rule index_ok_sorted [OF ok])
  show ?thesis using ok s locate_iff [OF s] by (simp add: index_ok_def)
qed

lemma open_empty:
  "\<exists>x d'. open_index no_crc real_fs (\<lambda>d. d) [] True (disk_with [(MANIFEST, manifest_encode no_crc (empty_manifest 1))]) = (Inr (Some x), d') \<and>
    dx_manifest x = empty_manifest 1 \<and> dx_segments x = []"
proof -
  let ?fs = "[(MANIFEST, manifest_encode no_crc (empty_manifest 1))]"
  have st: "settled (files_view ?fs) Map.empty (disk_with ?fs)" by (rule settled_disk_with) simp
  then have h: "holds (disk_with ?fs) (files_view ?fs)" by (auto simp: settled_def solid_def intro: visible_holds)
  then have f: "dk_file (disk_with ?fs) MANIFEST = Some (manifest_encode no_crc (empty_manifest 1))" by (simp add: holds_def files_view_def)
  have "fst (open_once no_crc real_fs True (disk_with ?fs)) = load_view no_crc True (empty_manifest 1) (disk_with ?fs)"
    by (rule open_once_loads [OF f decode_empty])
  also have "\<dots> = Inr (Some (empty_manifest 1, of_nat (length (manifest_encode no_crc (empty_manifest 1))), [], [], 0))"
    using f by (simp add: load_view_def load_index_def and_do_def load_overlay_def ok_with_def empty_manifest_def)
  finally show ?thesis using open_index_first [of no_crc True "disk_with ?fs" _ "\<lambda>d. d" "[]"]
    by (fastforce simp: make_index_def recompute_stats_def Let_def)
qed

lemma open_well_formed_witness:
  "\<exists>x d'. open_index no_crc real_fs (\<lambda>d. d) [] True (disk_with [(MANIFEST, manifest_encode no_crc (empty_manifest 1))]) = (Inr (Some x), d') \<and>
    manifest_ok (dx_manifest x) \<and> locate x 0 = None"
proof -
  obtain x d' where x: "open_index no_crc real_fs (\<lambda>d. d) [] True (disk_with [(MANIFEST, manifest_encode no_crc (empty_manifest 1))]) = (Inr (Some x), d')"
    "dx_manifest x = empty_manifest 1" "dx_segments x = []" using open_empty by blast
  have "locate x 0 = None" using open_well_formed [OF x(1)] x(3) by (cases "locate x 0") auto
  then show ?thesis using x(1) open_well_formed [OF x(1)] by blast
qed

text \<open>
  C39: the number of documents an opened and verified index reports is the number of documents it lists, provided
  that an entry without a deletion file counts no deletions (the writers keep to that; the reader does not
  check it).
\<close>

theorem live_docs_listed:
  assumes "open_index crc F pause rt True w = (Inr (Some x), w')" and "deletions_recorded x"
  shows "docs_len x = length (docs_iter x)"
proof (rule live_docs_listed_lemma [OF open_index_ok [OF assms(1)] assms(2)])
  obtain m len segs ovl ol where "x = make_index rt (m, len, segs, ovl, ol)"
    using assms(1) by (auto simp: open_index_def and_do_Inr dest!: sym [of "Some x"])
  then show "dx_live_docs x = dx_live_docs (recompute_stats x)" by (simp add: make_index_def recompute_stats_def Let_def sum_segs_def)
qed

lemma live_docs_listed_witness:
  "\<exists>x d'. open_index no_crc real_fs (\<lambda>d. d) [] True (disk_with [(MANIFEST, manifest_encode no_crc (empty_manifest 1))]) = (Inr (Some x), d') \<and>
    docs_len x = 0"
proof -
  obtain x d' where x: "open_index no_crc real_fs (\<lambda>d. d) [] True (disk_with [(MANIFEST, manifest_encode no_crc (empty_manifest 1))]) = (Inr (Some x), d')"
    "dx_segments x = []" using open_empty by blast
  then have "deletions_recorded x" by (simp add: deletions_recorded_def)
  from live_docs_listed [OF x(1) this] show ?thesis using x by (auto simp: docs_iter_def)
qed

text \<open>
  C40: a search of an opened and verified index, with deletions and patches. Any query whose phrases are short enough
  evaluates: the hits are, in ascending order and once each, exactly the live documents whose postings satisfy the
  query, and each has a document of the index that is indexed.
\<close>

theorem disk_search_documents:
  assumes "open_index crc F pause rt True w = (Inr (Some x), w')" and "short_phrases nd"
  shows "\<exists>hits. evaluate disk_segment_ops disk_reader_ops x nd b = Some hits \<and> sorted_wrt (<) (map h_doc hits) \<and>
    set (map h_doc hits) = disk_segment.matching (dx_segments x) nd \<and>
    (\<forall>h \<in> set hits. \<exists>m. dx_doc x (h_doc h) = Some m \<and> dm_status m = Indexed)"
proof -
  have ok: "index_ok crc True x" by (rule open_index_ok [OF assms(1)])
  have segs: "ix_segments disk_reader_ops x = dx_segments x" by (simp add: disk_reader_ops_def)
  obtain hs where hs: "evaluate disk_segment_ops disk_reader_ops x nd b = Some hs" "lists_docs hs (disk_segment.matching (dx_segments x) nd)"
    using disk_segment.evaluate_correct [of disk_reader_ops x nd b] verified_segs_ok [OF ok] assms(2) unfolding segs by auto
  then have l: "sorted_wrt (<) (map h_doc hs)" "set (map h_doc hs) = disk_segment.matching (dx_segments x) nd"
    by (simp_all add: lists_docs_def hits_sorted_def)
  moreover have "\<exists>m. dx_doc x (h_doc h) = Some m \<and> dm_status m = Indexed" if "h \<in> set hs" for h
    by (rule matching_doc [OF ok, of _ nd]) (use l(2) that in auto)
  ultimately show ?thesis using hs(1) by blast
qed

lemma disk_search_documents_witness:
  "\<exists>x d'. open_index no_crc real_fs (\<lambda>d. d) [] True (disk_with [(MANIFEST, manifest_encode no_crc (empty_manifest 1))]) = (Inr (Some x), d') \<and>
    evaluate disk_segment_ops disk_reader_ops x sample_query (so_bm25 search_options_default) = Some []"
proof -
  obtain x d' where x: "open_index no_crc real_fs (\<lambda>d. d) [] True (disk_with [(MANIFEST, manifest_encode no_crc (empty_manifest 1))]) = (Inr (Some x), d')"
    "dx_segments x = []" using open_empty by blast
  have "short_phrases sample_query" by (simp add: sample_query_def)
  from disk_search_documents [OF x(1) this, of "so_bm25 search_options_default"] x(1) show ?thesis
    by (force simp: x(2) disk_segment.matching_def)
qed

end
