(* ===== verification/Spec2Isabelle.thy ===== *)
theory Spec2Isabelle
  imports Format_Properties Query_Properties Store_Properties Update_Rows Build_Properties
begin

text \<open>
  Verification development of ripindex, an incremental full-text index over a directory tree (\<open>src/src\<close>).

  \<^bold>\<open>The program.\<close> A crawl lists the files under a root. The tokenizer cuts a file's text into terms; the builder turns
  files into postings (term, document, positions), shard by shard, and the writer flushes them to immutable segments:
  a \<open>.idx\<close> file with front-coded dictionary and posting lists, and a \<open>.doc\<close> file with the records of the
  documents. A manifest names the segments; renaming it into place is the commit point. Deletions are bitmaps
  (\<open>.del\<close>) and changes of path or time are patches (\<open>.ovl\<close>), so an update writes only what changed. A reader opens
  what the manifest names; a query is parsed, evaluated over the segments, scored with BM25 and cut to the best hits.

  \<^bold>\<open>Theories and sources.\<close> Every theory names the files it translates; definitions keep the names of the code.
  \<^item> Formats: \<open>Envelope\<close>, \<open>Varint\<close>, \<open>Manifest\<close>, \<open>Deletions\<close>, \<open>Overlay\<close>, \<open>Doc_File\<close> and \<open>Idx_Dict\<close>, \<open>Idx_Postings\<close>,
    \<open>Idx_File\<close> (\<open>format/*.rs\<close>). A file is a list of bytes; decoders return \<open>format_error + 'a\<close> with every error of the code.
  \<^item> Index in memory: \<open>Doc_Table\<close>, \<open>Postings\<close>, \<open>Builder\<close>, \<open>Mem_Index\<close> (\<open>index/*.rs\<close>), on \<open>Tokenizer\<close> (\<open>tokenizer.rs\<close>)
    and \<open>Utf8\<close>. The traits of the code are records of operations, their contracts locales.
  \<^item> Queries: \<open>Parser\<close>, \<open>Bm25\<close>, \<open>Hits\<close>, \<open>Exec\<close>, \<open>Exec_Correct\<close> (\<open>query/*.rs\<close>).
  \<^item> The disk: \<open>Fs\<close> (\<open>fs.rs\<close>): the trait as a record of operations over a world, the real file system over a disk whose
    directory updates may be pending and whose contents may be unsynced, and the fault-injecting one. A loss of power
    keeps a subset of the pending updates (a prefix, when they reach the disk in order).
  \<^item> The store: \<open>Paths\<close>, \<open>Store_Names\<close>, \<open>Commit\<close>, \<open>Segment\<close>, \<open>Reader\<close>, \<open>Writer\<close>, \<open>Reconcile\<close>, \<open>Update\<close> (\<open>store/*.rs\<close>). An
    operation is a function from a world to \<open>store_error + 'a\<close> and a world; a panic of a worker is \<open>None\<close>.

  \<^bold>\<open>Interfaces.\<close> Each is a locale, interpreted on the code's own models: cursors and posting lists (in memory and on
  disk) in \<open>Postings\<close> and \<open>Idx_Postings\<close>; the segments a query reads, \<open>segment_reader\<close>, in \<open>Mem_Index\<close> and \<open>Segment\<close>;
  file systems, \<open>fs_contract\<close>, real and faulty, in \<open>Fs\<close>. The proofs about evaluation, commits, openings and builds
  are done once inside the locales.

  \<^bold>\<open>What the lemmas show.\<close>
  \<^item> \<open>Format_Properties\<close>: what each decoder accepts, round trips, and that lookups in a stored file agree with the data.
  \<^item> \<open>Query_Properties\<close>: tokens, the query language, postings, evaluation against the boolean reading of a query, scores.
  \<^item> \<open>Store_Properties\<close>: change detection, and that carrying out its plan leaves exactly the crawled files.
  \<^item> \<open>Commit_Properties\<close>: atomicity and durability of commits, the lock.
  \<^item> \<open>Segment_Acc\<close>, \<open>Build\<close>, \<open>Built_Index\<close>, \<open>Build_Outcome\<close>: what the accumulator holds, what a flush shows on the disk, the
    index a build leaves, and the outcome of a build under faults; \<open>Build_Properties\<close> states the properties.
  \<^item> \<open>Bury\<close>, \<open>Updated\<close>, \<open>Updated_Docs\<close>: what tombstones make of a segment, the manifest and overlay after an update, its
    opening, and its documents and answers in terms of those of the index before.

  \<^bold>\<open>Bounds.\<close> \<open>corpus_fits\<close> keeps a build within the formats: fewer than \<open>2 ^ 32\<close> files, fewer than \<open>2 ^ 26\<close> tokens and
  less than 4 GiB of paths; terms over 512 bytes are not stored, as in the code. \<open>update_fits\<close> adds that no generation
  counter or id of the index is at its end. Opening retries \<open>MAX_ATTEMPTS\<close> = 20 times and the lock \<open>o_tries\<close> times, as the
  code does; these are the fuel of \<open>open_loop\<close> and \<open>take_lock\<close>, and running out is the code's own error. Loops
  that advance cursors are partial functions, and evaluation is proved to return. Times are nanoseconds in \<open>i64\<close>; \<open>f32\<close> is
  a real rounded to 24 bits after every operation, without overflow or NaN.

  \<^bold>\<open>Outside the model.\<close> The fields of \<open>outside\<close> and the arguments \<open>crc\<close>, \<open>hash\<close>, \<open>read\<close>, \<open>lossy\<close> stand for CRC32 and xxh3, the
  Unicode tables and word segmentation, reading a user's file, \<open>to_string_lossy\<close>, the allocator's capacities, how
  \<open>BufWriter\<close> cuts a stream, the clock, and what other processes do while a thread sleeps.

  \<^bold>\<open>Not modelled.\<close> The crawler (a wrapper of the ignore crate), the daemon (sockets, threads, serde), the watcher and the
  governor (events and probes of the operating system), background scheduling, merging, snippets, reports, the
  command line and the benchmarks; memory accounting, timings, progress callbacks and log lines everywhere.
\<close>

end
